(* ===== verification/Prelude.thy ===== *)
theory Prelude
  imports Main "HOL-Library.Word"
begin

text \<open>
  The prelude of the development: the machine integer types, the model of C memory
  faults, the error codes of \<^verbatim>\<open>include/jsdrv/error_code.h\<close>, the C character classes that
  several components share, and generic lemmas on lists, ring indices and words.
\<close>

unbundle bit_operations_syntax

section \<open>Collections\<close>

named_theorems buf_simps
named_theorems str_simps
named_theorems ring_simps

section \<open>Machine integers\<close>

type_synonym u8 = "8 word"
type_synonym u16 = "16 word"
type_synonym u32 = "32 word"
type_synonym u64 = "64 word"

section \<open>Faults and memory access\<close>

text \<open>
  A C function that may touch memory out of range, or that may fail a
  \<^verbatim>\<open>JSDRV_ASSERT\<close> (which halts the program), returns a value of type \<open>'a c\<close>:
  \<open>Inl\<close> is the fault, \<open>Inr\<close> the result; \<open>Undefined\<close> is any other behaviour that C leaves
  undefined, such as converting NaN to an integer, and \<open>OutOfFuel\<close> is what a recursion on a
  fuel argument returns when the fuel ends. A theorem that the result is \<open>Inr\<close> is
  a memory-safety statement.
\<close>

datatype fault = OutOfBounds | AssertFailed | Undefined | OutOfFuel

type_synonym 'a c = "fault + 'a"

definition cbind :: "'a c \<Rightarrow> ('a \<Rightarrow> 'b c) \<Rightarrow> 'b c" where
  "cbind m f = (case m of Inl e \<Rightarrow> Inl e | Inr x \<Rightarrow> f x)"

definition buf_set :: "'a list \<Rightarrow> nat \<Rightarrow> 'a \<Rightarrow> 'a list c" where
  "buf_set b i v = (if i < length b then Inr (b[i := v]) else Inl OutOfBounds)"

definition buf_get :: "'a list \<Rightarrow> nat \<Rightarrow> 'a c" where
  "buf_get b i = (if i < length b then Inr (b ! i) else Inl OutOfBounds)"

definition jsdrv_assert :: "bool \<Rightarrow> unit c" where
  "jsdrv_assert b = (if b then Inr () else Inl AssertFailed)"

section \<open>Error codes\<close>

datatype error_code =
    SUCCESS | UNSPECIFIED | NOT_ENOUGH_MEMORY | NOT_SUPPORTED | IO | PARAMETER_INVALID
  | INVALID_RETURN_CONDITION | INVALID_CONTEXT | INVALID_MESSAGE_LENGTH | MESSAGE_INTEGRITY
  | SYNTAX_ERROR | TIMED_OUT | FULL | EMPTY | TOO_SMALL | TOO_BIG | NOT_FOUND | ALREADY_EXISTS
  | PERMISSIONS | BUSY | UNAVAILABLE | IN_USE | CLOSED | SEQUENCE | ABORTED | SYNCHRONIZATION

fun ec :: "error_code \<Rightarrow> int" where
  "ec SUCCESS = 0"
| "ec UNSPECIFIED = 1"
| "ec NOT_ENOUGH_MEMORY = 2"
| "ec NOT_SUPPORTED = 3"
| "ec IO = 4"
| "ec PARAMETER_INVALID = 5"
| "ec INVALID_RETURN_CONDITION = 6"
| "ec INVALID_CONTEXT = 7"
| "ec INVALID_MESSAGE_LENGTH = 8"
| "ec MESSAGE_INTEGRITY = 9"
| "ec SYNTAX_ERROR = 10"
| "ec TIMED_OUT = 11"
| "ec FULL = 12"
| "ec EMPTY = 13"
| "ec TOO_SMALL = 14"
| "ec TOO_BIG = 15"
| "ec NOT_FOUND = 16"
| "ec ALREADY_EXISTS = 17"
| "ec PERMISSIONS = 18"
| "ec BUSY = 19"
| "ec UNAVAILABLE = 20"
| "ec IN_USE = 21"
| "ec CLOSED = 22"
| "ec SEQUENCE = 23"
| "ec ABORTED = 24"
| "ec SYNCHRONIZATION = 25"

section \<open>Characters and C strings\<close>

text \<open>
  A C string is the list of its characters before the terminating NUL, so a pointer
  into a string is a suffix of that list and \<^verbatim>\<open>*s == 0\<close> is the empty list. A
  \<^verbatim>\<open>const char *\<close> that may be NULL is a \<open>string option\<close>. A writable character buffer
  is a \<open>char list\<close> of its allocated size; \<open>cstr_of\<close> reads the string it holds.
\<close>

abbreviation NUL :: char where "NUL \<equiv> CHR 0x00"

definition cord :: "char \<Rightarrow> nat" where
  "cord c = of_char c"

text \<open>The value of a (signed, as on the supported compilers) C \<^verbatim>\<open>char\<close>.\<close>

definition schar :: "char \<Rightarrow> int" where
  "schar c = (if cord c < 128 then int (cord c) else int (cord c) - 256)"

definition is_digit :: "char \<Rightarrow> bool" where
  "is_digit c \<longleftrightarrow> 48 \<le> cord c \<and> cord c \<le> 57"

definition cstr_of :: "char list \<Rightarrow> string" where
  "cstr_of b = takeWhile (\<lambda>c. c \<noteq> NUL) b"

definition is_cstr :: "string \<Rightarrow> bool" where
  "is_cstr s \<longleftrightarrow> NUL \<notin> set s"

fun to_hex :: "char \<Rightarrow> nat option" where
  "to_hex c =
     (if 48 \<le> cord c \<and> cord c \<le> 57 then Some (cord c - 48)
      else if 97 \<le> cord c \<and> cord c \<le> 102 then Some (cord c - 97 + 10)
      else if 65 \<le> cord c \<and> cord c \<le> 70 then Some (cord c - 65 + 10)
      else None)"

section \<open>Lemmas on faults and buffers\<close>

lemma cbind_simps [simp, buf_simps]:
  "cbind (Inl e) f = Inl e"
  "cbind (Inr x) f = f x"
  by (simp_all add: cbind_def)

lemma cbind_eq_Inr [buf_simps]: "cbind m f = Inr y \<longleftrightarrow> (\<exists>x. m = Inr x \<and> f x = Inr y)"
  by (cases m) auto

lemma buf_set_in [simp, buf_simps]: "i < length b \<Longrightarrow> buf_set b i v = Inr (b[i := v])"
  by (simp add: buf_set_def)

lemma buf_set_out [simp, buf_simps]: "length b \<le> i \<Longrightarrow> buf_set b i v = Inl OutOfBounds"
  by (simp add: buf_set_def)

lemma buf_get_in [simp, buf_simps]: "i < length b \<Longrightarrow> buf_get b i = Inr (b ! i)"
  by (simp add: buf_get_def)

lemma buf_get_out [simp, buf_simps]: "length b \<le> i \<Longrightarrow> buf_get b i = Inl OutOfBounds"
  by (simp add: buf_get_def)

lemma jsdrv_assert_simps [simp, buf_simps]:
  "jsdrv_assert True = Inr ()"
  "jsdrv_assert False = Inl AssertFailed"
  by (simp_all add: jsdrv_assert_def)

lemma list_update_take_drop:
  "i < length b \<Longrightarrow> b[i := v] = take i b @ v # drop (Suc i) b"
  by (rule upd_conv_take_nth_drop)

section \<open>Lemmas on characters and strings\<close>

lemma cord_lt [simp]: "cord c < 256"
  unfolding cord_def by (metis nat_of_char_less_256)

lemma cord_inj [simp]: "cord a = cord b \<longleftrightarrow> a = b"
  by (simp add: cord_def)

lemma cord_char_of [simp]: "cord (char_of n) = n mod 256"
  by (simp add: cord_def)

lemma char_of_cord [simp]: "char_of (cord c) = c"
  by (simp add: cord_def)

lemma schar_inj [simp]: "schar a = schar b \<longleftrightarrow> a = b"
proof
  assume eq: "schar a = schar b"
  have "cord a = cord b"
    using eq cord_lt [of a] cord_lt [of b] unfolding schar_def
    by (simp split: if_splits del: cord_lt)
  then show "a = b" by simp
qed simp

lemma cord_NUL [simp]: "cord NUL = 0"
  by (simp add: cord_def)

lemma is_cstr_simps [simp, str_simps]:
  "is_cstr []"
  "is_cstr (c # s) \<longleftrightarrow> c \<noteq> NUL \<and> is_cstr s"
  "is_cstr (s @ t) \<longleftrightarrow> is_cstr s \<and> is_cstr t"
  by (auto simp: is_cstr_def)

lemma is_cstr_take [simp, str_simps]: "is_cstr s \<Longrightarrow> is_cstr (take n s)"
  by (auto simp: is_cstr_def dest: in_set_takeD)

lemma cstr_of_append [simp, str_simps]:
  "is_cstr s \<Longrightarrow> cstr_of (s @ NUL # r) = s"
  by (induction s) (auto simp: cstr_of_def)

lemma is_cstr_cstr_of [simp, str_simps]: "is_cstr (cstr_of b)"
  by (auto simp: is_cstr_def cstr_of_def dest: set_takeWhileD)

section \<open>Lemmas on ring indices and words\<close>

lemma mod_Suc_ring [ring_simps]:
  "(i::nat) < n \<Longrightarrow> (i + 1) mod n = (if i + 1 = n then 0 else i + 1)"
  by simp

lemma word_and_mask_mod:
  "(w :: 'a::len word) AND mask n = take_bit n w"
  by (simp add: take_bit_eq_mask)

lemma unat_and_mask:
  "unat ((w :: 'a::len word) AND mask n) = unat w mod 2 ^ n"
  by (simp add: word_and_mask_mod unsigned_take_bit_eq flip: take_bit_eq_mod)

lemma unat_add_no_wrap:
  "unat (a::'a::len word) + unat b < 2 ^ LENGTH('a) \<Longrightarrow> unat (a + b) = unat a + unat b"
  by (simp add: unat_word_ariths)

lemma unat_mult_no_wrap:
  "unat (a::'a::len word) * unat b < 2 ^ LENGTH('a) \<Longrightarrow> unat (a * b) = unat a * unat b"
  by (simp add: unat_word_ariths)

lemma unat_bound_u8: "unat (w :: u8) < 256"
  using unsigned_less [of w] by simp

lemma unat_bound_u16: "unat (w :: u16) < 65536"
  using unsigned_less [of w] by simp

lemma unat_bound_u32: "unat (w :: u32) < 4294967296"
  using unsigned_less [of w] by simp

lemma unat_bound_u64: "unat (w :: u64) < 18446744073709551616"
  using unsigned_less [of w] by simp

end
