(* ===== verification/Cstr.thy ===== *)
theory Cstr
  imports Prelude
begin

text \<open>
  The C string utilities of \<^verbatim>\<open>src/cstr.c\<close>. Source strings are \<open>string option\<close> (None for
  NULL), target buffers are character lists of the allocated size that are written through
  \<^const>\<open>buf_set\<close>, and an output parameter is the \<open>option\<close> of its old content (None for
  NULL), returned with its new content. \<^verbatim>\<open>jsdrv_cstr_to_f32\<close> is compiled only with
  \<^verbatim>\<open>FBP_CONFIG_USE_CSTR_FLOAT\<close> and is not modelled.
\<close>

section \<open>Character classes\<close>

definition cstr_toupper_char :: "char \<Rightarrow> char" where
  "cstr_toupper_char c =
     (if 97 \<le> cord c \<and> cord c \<le> 122 then char_of (cord c - 97 + 65) else c)"

definition cstr_isspace :: "char \<Rightarrow> bool" where
  "cstr_isspace c \<longleftrightarrow> cord c = 32 \<or> (9 \<le> cord c \<and> cord c \<le> 13)"

section \<open>Copy and join\<close>

fun cstr_copy_loop :: "char list \<Rightarrow> nat \<Rightarrow> nat \<Rightarrow> string \<Rightarrow> (int \<times> char list) c" where
  "cstr_copy_loop tgt t tgt_end [] =
     cbind (buf_set tgt t NUL) (\<lambda>tgt. Inr (0, tgt))"
| "cstr_copy_loop tgt t tgt_end (ch # src) =
     (if t \<ge> tgt_end then cbind (buf_set tgt t NUL) (\<lambda>tgt. Inr (1, tgt))
      else cbind (buf_set tgt t ch) (\<lambda>tgt. cstr_copy_loop tgt (t + 1) tgt_end src))"

definition jsdrv_cstr_copy ::
    "char list option \<Rightarrow> string option \<Rightarrow> nat \<Rightarrow> (int \<times> char list option) c" where
  "jsdrv_cstr_copy tgt src tgt_size =
     (case tgt of
        None \<Rightarrow> Inr (-1, None)
      | Some b \<Rightarrow>
          if tgt_size = 0 then Inr (-1, Some b)
          else (case src of
                  None \<Rightarrow> cbind (buf_set b 0 NUL) (\<lambda>b. Inr (0, Some b))
                | Some s \<Rightarrow>
                    cbind (cstr_copy_loop b 0 (tgt_size - 1) s) (\<lambda>(rc, b). Inr (rc, Some b))))"

text \<open>
  One source loop of the join: \<open>Inr\<close> with a result is an early return, \<open>Inl\<close> the
  position at which the loop ended.
\<close>

fun cstr_join_loop ::
    "char list \<Rightarrow> nat \<Rightarrow> nat \<Rightarrow> string \<Rightarrow> (nat \<times> char list + int \<times> char list) c" where
  "cstr_join_loop tgt t tgt_end [] = Inr (Inl (t, tgt))"
| "cstr_join_loop tgt t tgt_end (ch # src) =
     cbind (buf_set tgt t ch) (\<lambda>tgt.
       if t + 1 \<ge> tgt_end then cbind (buf_set tgt (t + 1) NUL) (\<lambda>tgt. Inr (Inr (1, tgt)))
       else cstr_join_loop tgt (t + 1) tgt_end src)"

text \<open>
  \<open>tgt_is_src2\<close> is the pointer comparison \<^verbatim>\<open>tgt == src2\<close>. The documented alias
  \<^verbatim>\<open>tgt == src1\<close> needs no case of its own: each character is read before the same
  character is written at the same place.
\<close>

definition jsdrv_cstr_join ::
    "bool \<Rightarrow> char list option \<Rightarrow> string option \<Rightarrow> string option \<Rightarrow> nat \<Rightarrow>
     (int \<times> char list option) c" where
  "jsdrv_cstr_join tgt_is_src2 tgt src1 src2 tgt_size =
     (case tgt of
        None \<Rightarrow> Inr (-1, None)
      | Some b \<Rightarrow>
          if tgt_size = 0 then Inr (-1, Some b)
          else if tgt_is_src2 then Inr (2, Some b)
          else
            cbind (cstr_join_loop b 0 (tgt_size - 1) (case src1 of None \<Rightarrow> [] | Some s \<Rightarrow> s)) (\<lambda>r1.
            case r1 of
              Inr (rc, b) \<Rightarrow> Inr (rc, Some b)
            | Inl (t, b) \<Rightarrow>
                cbind (cstr_join_loop b t (tgt_size - 1) (case src2 of None \<Rightarrow> [] | Some s \<Rightarrow> s)) (\<lambda>r2.
                case r2 of
                  Inr (rc, b) \<Rightarrow> Inr (rc, Some b)
                | Inl (t, b) \<Rightarrow> cbind (buf_set b t NUL) (\<lambda>b. Inr (0, Some b)))))"

section \<open>Comparison\<close>

fun cstr_casecmp_loop :: "string \<Rightarrow> string \<Rightarrow> int" where
  "cstr_casecmp_loop [] [] = 0"
| "cstr_casecmp_loop [] (b # t) = -1"
| "cstr_casecmp_loop (a # s) [] = 1"
| "cstr_casecmp_loop (a # s) (b # t) =
     (let c1 = schar (cstr_toupper_char a); c2 = schar (cstr_toupper_char b)
      in if c1 < c2 then -1 else if c1 > c2 then 1 else cstr_casecmp_loop s t)"

definition jsdrv_cstr_casecmp :: "string option \<Rightarrow> string option \<Rightarrow> int" where
  "jsdrv_cstr_casecmp s1 s2 =
     (case s1 of None \<Rightarrow> -1
      | Some s \<Rightarrow> (case s2 of None \<Rightarrow> 1 | Some t \<Rightarrow> cstr_casecmp_loop s t))"

fun cstr_starts_with_loop :: "string \<Rightarrow> string \<Rightarrow> string option" where
  "cstr_starts_with_loop s [] = Some s"
| "cstr_starts_with_loop [] (p # ps) = None"
| "cstr_starts_with_loop (ch # s) (p # ps) =
     (if p \<noteq> ch then None else cstr_starts_with_loop s ps)"

definition jsdrv_cstr_starts_with :: "string option \<Rightarrow> string option \<Rightarrow> string option" where
  "jsdrv_cstr_starts_with s prefix =
     (case (prefix, s) of
        (Some p, Some str) \<Rightarrow> cstr_starts_with_loop str p
      | _ \<Rightarrow> s)"

text \<open>
  The backward loop of \<^verbatim>\<open>jsdrv_cstr_ends_with\<close>. The strings are read with their
  terminator, \<open>i\<close> is \<^verbatim>\<open>suffix_end - suffix + 1\<close> and \<open>j\<close> is \<^verbatim>\<open>s_end - s + 1\<close>; the result
  is the offset of the returned pointer.
\<close>

fun cstr_ends_with_loop :: "string \<Rightarrow> string \<Rightarrow> nat \<Rightarrow> nat \<Rightarrow> nat option c" where
  "cstr_ends_with_loop s suffix 0 j = Inr (Some j)"
| "cstr_ends_with_loop s suffix (Suc i) 0 = Inl OutOfBounds"
| "cstr_ends_with_loop s suffix (Suc i) (Suc j) =
     (if (suffix @ [NUL]) ! i \<noteq> (s @ [NUL]) ! j then Inr None
      else cstr_ends_with_loop s suffix i j)"

definition jsdrv_cstr_ends_with :: "string option \<Rightarrow> string option \<Rightarrow> string option c" where
  "jsdrv_cstr_ends_with s suffix =
     (case (suffix, s) of
        (Some sfx, Some str) \<Rightarrow>
          if sfx = [] then Inr s
          else if length str < length sfx then Inr None
          else cbind (cstr_ends_with_loop str sfx (length sfx + 1) (length str + 1))
                 (\<lambda>r. Inr (map_option (\<lambda>k. drop k str) r))
      | _ \<Rightarrow> Inr s)"

section \<open>Parsing integers\<close>

fun cstr_skip_space :: "string \<Rightarrow> string" where
  "cstr_skip_space [] = []"
| "cstr_skip_space (ch # s) = (if cstr_isspace ch then cstr_skip_space s else ch # s)"

fun cstr_all_space :: "string \<Rightarrow> bool" where
  "cstr_all_space [] = True"
| "cstr_all_space (ch # s) = (cstr_isspace ch \<and> cstr_all_space s)"

fun cstr_hex_loop_u32 :: "u32 \<Rightarrow> string \<Rightarrow> u32 \<times> string" where
  "cstr_hex_loop_u32 v [] = (v, [])"
| "cstr_hex_loop_u32 v (ch # s) =
     (case to_hex ch of
        Some nibble \<Rightarrow> cstr_hex_loop_u32 (v * 16 + of_nat nibble) s
      | None \<Rightarrow> if ch = CHR ''_'' then cstr_hex_loop_u32 v s else (v, ch # s))"

fun cstr_dec_loop_u32 :: "u32 \<Rightarrow> string \<Rightarrow> u32 \<times> string" where
  "cstr_dec_loop_u32 v [] = (v, [])"
| "cstr_dec_loop_u32 v (ch # s) =
     (if is_digit ch then cstr_dec_loop_u32 (v * 10 + of_nat (cord ch - 48)) s
      else (v, ch # s))"

definition jsdrv_cstr_to_u32 :: "string option \<Rightarrow> u32 option \<Rightarrow> int \<times> u32 option" where
  "jsdrv_cstr_to_u32 src val =
     (case (src, val) of
        (Some s0, Some old) \<Rightarrow>
          (let s = cstr_skip_space s0 in
           if s = [] then (1, val)
           else
             let (v, r) =
               (if take 2 s = ''0x'' then cstr_hex_loop_u32 0 (drop 2 s)
                else cstr_dec_loop_u32 0 s)
             in if cstr_all_space r then (0, Some v) else (1, val))
      | _ \<Rightarrow> (1, val))"

definition cstr_sign :: "string \<Rightarrow> bool \<times> string" where
  "cstr_sign s =
     (case s of
        [] \<Rightarrow> (False, s)
      | ch # s' \<Rightarrow>
          if ch = CHR ''-'' then (True, s')
          else if ch = CHR ''+'' then (False, s')
          else (False, s))"

text \<open>\<^verbatim>\<open>int32_t\<close> results are kept as the 32-bit pattern; \<^const>\<open>sint\<close> reads them.\<close>

definition jsdrv_cstr_to_i32 :: "string option \<Rightarrow> u32 option \<Rightarrow> int \<times> u32 option" where
  "jsdrv_cstr_to_i32 src val =
     (case (src, val) of
        (Some s0, Some old) \<Rightarrow>
          (let (neg, s) = cstr_sign (cstr_skip_space s0);
               (rc, v) = jsdrv_cstr_to_u32 (Some s) (Some 0)
           in if rc \<noteq> 0 then (rc, val)
              else (0, map_option (\<lambda>v. if neg then - v else v) v))
      | _ \<Rightarrow> (1, val))"

text \<open>
  The digit loop of \<^verbatim>\<open>jsdrv_cstr_to_i32s\<close>. The int32 accumulator is a 32-bit word;
  signed overflow, undefined in C, is wrap-around here. \<open>Inl\<close> is \<^verbatim>\<open>return 1\<close>.
\<close>

function cstr_i32s_loop ::
    "int \<Rightarrow> u32 \<Rightarrow> int \<Rightarrow> string \<Rightarrow> int + u32 \<times> int \<times> string" where
  "cstr_i32s_loop expo v decimal src =
     (if decimal < expo then
        (case src of
           [] \<Rightarrow> if decimal < 0 then Inr (v, decimal, src)
                 else cstr_i32s_loop expo (v * 10) (decimal + 1) src
         | ch # s \<Rightarrow>
             if ch = CHR ''.'' then cstr_i32s_loop expo v 0 s
             else if ch = CHR '','' then
               (if decimal < 0 then Inr (v, decimal, src)
                else cstr_i32s_loop expo (v * 10) (decimal + 1) src)
             else
               (let decimal' = (if decimal \<ge> 0 then decimal + 1 else decimal) in
                if is_digit ch
                then cstr_i32s_loop expo (v * 10 + of_nat (cord ch - 48)) decimal' s
                else Inl 1))
      else Inr (v, decimal, src))"
  by pat_completeness auto
termination
  by (relation "measures [\<lambda>(expo, v, decimal, src). length src,
                          \<lambda>(expo, v, decimal, src). nat (expo - decimal)]") auto

fun cstr_i32s_tail :: "string \<Rightarrow> bool" where
  "cstr_i32s_tail [] = True"
| "cstr_i32s_tail (ch # s) =
     (if is_digit ch \<or> cstr_isspace ch then cstr_i32s_tail s else False)"

definition jsdrv_cstr_to_i32s ::
    "string option \<Rightarrow> int \<Rightarrow> u32 option \<Rightarrow> int \<times> u32 option" where
  "jsdrv_cstr_to_i32s src expo val =
     (case src of
        None \<Rightarrow> (0, val)
      | Some s0 \<Rightarrow>
          if expo < 0 then (-1, val)
          else
            (let (neg, s) = cstr_sign (cstr_skip_space s0) in
             case cstr_i32s_loop expo 0 (-1) s of
               Inl rc \<Rightarrow> (rc, val)
             | Inr (v, decimal, r) \<Rightarrow>
                 if \<not> cstr_i32s_tail r then (1, val)
                 else
                   let decimal = (if decimal < 0 then 0 else decimal);
                       v = v * 10 ^ nat (expo - decimal);
                       v = (if neg then - v else v)
                   in (0, map_option (\<lambda>_. v) val)))"

fun cstr_hex_loop_u64 :: "u64 \<Rightarrow> string \<Rightarrow> (u64 \<times> string) option" where
  "cstr_hex_loop_u64 v [] = Some (v, [])"
| "cstr_hex_loop_u64 v (ch # s) =
     (case to_hex ch of
        Some nibble \<Rightarrow>
          if v AND 0xFF00000000000000 \<noteq> 0 then None
          else cstr_hex_loop_u64 (push_bit 4 v + of_nat nibble) s
      | None \<Rightarrow> if ch = CHR ''_'' then cstr_hex_loop_u64 v s else Some (v, ch # s))"

fun cstr_dec_loop_u64 :: "u64 \<Rightarrow> string \<Rightarrow> (u64 \<times> string) option" where
  "cstr_dec_loop_u64 v [] = Some (v, [])"
| "cstr_dec_loop_u64 v (ch # s) =
     (if is_digit ch then
        (if (drop_bit 32 v * 10) AND 0xFFFFFFFF00000000 \<noteq> 0 then None
         else cstr_dec_loop_u64 (v * 10 + of_nat (cord ch - 48)) s)
      else Some (v, ch # s))"

definition jsdrv_cstr_to_u64 :: "string option \<Rightarrow> u64 option \<Rightarrow> int \<times> u64 option" where
  "jsdrv_cstr_to_u64 src val =
     (case (src, val) of
        (Some s0, Some old) \<Rightarrow>
          (let s = cstr_skip_space s0 in
           if s = [] then (1, val)
           else
             case (if take 2 s = ''0x'' then cstr_hex_loop_u64 0 (drop 2 s)
                   else cstr_dec_loop_u64 0 s) of
               None \<Rightarrow> (1, val)
             | Some (v, r) \<Rightarrow> if cstr_all_space r then (0, Some v) else (1, val))
      | _ \<Rightarrow> (1, val))"

definition jsdrv_cstr_to_i64 :: "string option \<Rightarrow> u64 option \<Rightarrow> int \<times> u64 option" where
  "jsdrv_cstr_to_i64 src val =
     (case (src, val) of
        (Some s0, Some old) \<Rightarrow>
          (let (neg, s) = cstr_sign (cstr_skip_space s0);
               (rc, v) = jsdrv_cstr_to_u64 (Some s) (Some 0)
           in if rc \<noteq> 0 then (rc, val)
              else (case v of
                      None \<Rightarrow> (rc, val)
                    | Some v \<Rightarrow>
                        if v > 0x7FFFFFFFFFFFFFFF then (1, val)
                        else (0, Some (if neg then - v else v))))
      | _ \<Rightarrow> (1, val))"

section \<open>Printing and tables\<close>

text \<open>The digit loop fills \<^verbatim>\<open>buf\<close> from the least significant digit.\<close>

function u32_digits_rev :: "nat \<Rightarrow> string" where
  "u32_digits_rev u = (if u = 0 then [] else
     (let d = u div 10; k = u - d * 10 in char_of (48 + k) # u32_digits_rev d))"
  by pat_completeness auto
termination
  by (relation "measure id") auto

fun buf_write :: "char list \<Rightarrow> nat \<Rightarrow> string \<Rightarrow> char list c" where
  "buf_write b i [] = Inr b"
| "buf_write b i (ch # s) = cbind (buf_set b i ch) (\<lambda>b. buf_write b (i + 1) s)"

definition jsdrv_u32_to_cstr ::
    "u32 \<Rightarrow> char list option \<Rightarrow> nat \<Rightarrow> (int \<times> char list option) c" where
  "jsdrv_u32_to_cstr u32 str str_size =
     (case str of
        None \<Rightarrow> Inr (ec PARAMETER_INVALID, None)
      | Some b \<Rightarrow>
          if str_size = 0 then Inr (ec PARAMETER_INVALID, Some b)
          else
            cbind (buf_set b 0 NUL) (\<lambda>b.
            let ds = u32_digits_rev (unat u32);
                ds = (if ds = [] then ''0'' else ds)
            in cbind (buf_write (replicate 11 NUL) 0 ds) (\<lambda>_.
               if length ds + 1 > str_size then Inr (ec TOO_SMALL, Some b)
               else cbind (buf_write b 0 (rev ds)) (\<lambda>b.
                    cbind (buf_set b (length ds) NUL) (\<lambda>b. Inr (0, Some b))))))"

fun cstr_toupper_loop :: "char list \<Rightarrow> nat \<Rightarrow> nat \<Rightarrow> char list c" where
  "cstr_toupper_loop b i 0 = Inl OutOfBounds"
| "cstr_toupper_loop b i (Suc n) =
     cbind (buf_get b i) (\<lambda>ch.
       if ch = NUL then Inr b
       else cbind (buf_set b i (cstr_toupper_char ch)) (\<lambda>b. cstr_toupper_loop b (i + 1) n))"

definition jsdrv_cstr_toupper :: "char list option \<Rightarrow> (int \<times> char list option) c" where
  "jsdrv_cstr_toupper s =
     (case s of
        None \<Rightarrow> Inr (1, None)
      | Some b \<Rightarrow> cbind (cstr_toupper_loop b 0 (length b + 1)) (\<lambda>b. Inr (0, Some b)))"

fun cstr_to_index_loop :: "string \<Rightarrow> string list \<Rightarrow> int \<Rightarrow> int option" where
  "cstr_to_index_loop s [] idx = None"
| "cstr_to_index_loop s (t # table) idx =
     (if s = t then Some idx else cstr_to_index_loop s table (idx + 1))"

definition jsdrv_cstr_to_index ::
    "string option \<Rightarrow> string list option \<Rightarrow> int option \<Rightarrow> int \<times> int option" where
  "jsdrv_cstr_to_index s table index =
     (case (s, table, index) of
        (Some str, Some tbl, Some old) \<Rightarrow>
          (case cstr_to_index_loop str tbl 0 of
             Some i \<Rightarrow> (0, Some i)
           | None \<Rightarrow> (1, index))
      | _ \<Rightarrow> (2, index))"

definition true_table :: "string list" where
  "true_table = [''ON'', ''1'', ''TRUE'', ''YES'', ''ENABLE'', ''ENABLED'']"

definition false_table :: "string list" where
  "false_table = [''OFF'', ''0'', ''FALSE'', ''NO'', ''DISABLE'', ''DISABLED'', ''NULL'', ''NONE'']"

definition jsdrv_cstr_to_bool :: "string option \<Rightarrow> bool option \<Rightarrow> (int \<times> bool option) c" where
  "jsdrv_cstr_to_bool s val =
     (case (s, val) of
        (Some str, Some old) \<Rightarrow>
          cbind (jsdrv_cstr_copy (Some (replicate 16 NUL)) (Some str) 16) (\<lambda>(_, b).
          cbind (jsdrv_cstr_toupper b) (\<lambda>(_, b).
          let u = map_option cstr_of b in
          if fst (jsdrv_cstr_to_index u (Some true_table) (Some 0)) = 0 then Inr (0, Some True)
          else if fst (jsdrv_cstr_to_index u (Some false_table) (Some 0)) = 0 then Inr (0, Some False)
          else Inr (1, val)))
      | _ \<Rightarrow> Inr (1, val))"

definition jsdrv_cstr_hex_to_u4 :: "char \<Rightarrow> u8" where
  "jsdrv_cstr_hex_to_u4 v = (case to_hex v of Some n \<Rightarrow> of_nat n | None \<Rightarrow> 0)"

definition jsdrv_cstr_u4_to_hex :: "u8 \<Rightarrow> char" where
  "jsdrv_cstr_u4_to_hex v =
     (if v < 10 then char_of (48 + unat v)
      else if v < 16 then char_of (65 + (unat v - 10))
      else CHR ''0'')"


section \<open>Copy and join: exact results\<close>

lemma cstr_copy_loop_eq:
  assumes "t \<le> e" and "e < length b"
  shows "cstr_copy_loop b t e s =
           Inr (if length s \<le> e - t then 0 else 1,
                take t b @ take (e - t) s @ NUL # drop (Suc (t + min (length s) (e - t))) b)"
  using assms
proof (induction s arbitrary: b t)
  case Nil
  then show ?case by (simp add: list_update_take_drop)
next
  case (Cons ch s)
  show ?case
  proof (cases "t \<ge> e")
    case True
    with Cons.prems show ?thesis by (simp add: list_update_take_drop)
  next
    case False
    then obtain k where k: "e - t = Suc k" "e - (t + 1) = k"
      by (metis Suc_diff_Suc add.commute not_le_imp_less plus_1_eq_Suc)
    have "cstr_copy_loop b t e (ch # s) = cstr_copy_loop (b[t := ch]) (t + 1) e s"
      using False Cons.prems by simp
    also have "\<dots> = Inr (if length s \<le> k then 0 else 1,
        take (t + 1) (b[t := ch]) @ take k s @ NUL # drop (Suc (t + 1 + min (length s) k)) (b[t := ch]))"
      using Cons.IH [of "t + 1" "b[t := ch]"] Cons.prems False k by simp
    also have "take (t + 1) (b[t := ch]) = take t b @ [ch]"
      using Cons.prems by (simp add: take_Suc_conv_app_nth)
    finally show ?thesis using k by simp
  qed
qed

lemma cstr_join_loop_eq:
  assumes "t < e" and "e < length b"
  shows "cstr_join_loop b t e s =
           (if length s < e - t
            then Inr (Inl (t + length s, take t b @ s @ drop (t + length s) b))
            else Inr (Inr (1, take t b @ take (e - t) s @ NUL # drop (Suc e) b)))"
  using assms
proof (induction s arbitrary: b t)
  case Nil
  then show ?case by simp
next
  case (Cons ch s)
  have tk: "take (t + 1) (b[t := ch]) = take t b @ [ch]"
    using Cons.prems by (simp add: take_Suc_conv_app_nth)
  show ?case
  proof (cases "t + 1 < e")
    case True
    have "cstr_join_loop b t e (ch # s) = cstr_join_loop (b[t := ch]) (t + 1) e s"
      using True Cons.prems by simp
    also have "\<dots> =
        (if length s < e - (t + 1)
         then Inr (Inl (t + 1 + length s,
                take (t + 1) (b[t := ch]) @ s @ drop (t + 1 + length s) (b[t := ch])))
         else Inr (Inr (1, take (t + 1) (b[t := ch]) @ take (e - (t + 1)) s @
                NUL # drop (Suc e) (b[t := ch]))))"
      using Cons.IH [of "t + 1" "b[t := ch]"] Cons.prems True by simp
    finally show ?thesis
      unfolding tk using True Cons.prems
      by (cases "e - t") (auto simp: diff_Suc split: nat.splits)
  next
    case False
    with Cons.prems have "e = Suc t" by simp
    with Cons.prems tk show ?thesis
      by (simp add: list_update_take_drop)
  qed
qed

text \<open>
  C34. \<^verbatim>\<open>jsdrv_cstr_copy\<close> into a buffer of at least \<^verbatim>\<open>tgt_size\<close> bytes never writes out of
  bounds, always leaves a terminated string holding the longest prefix of the source
  that fits, touches no byte after the terminator, and returns 1 exactly when the source
  was truncated.
\<close>

theorem jsdrv_cstr_copy_correct:
  assumes "0 < n" and "n \<le> length b"
  shows "jsdrv_cstr_copy (Some b) (Some s) n =
           Inr (if length s < n then 0 else 1,
                Some (take (n - 1) s @ NUL # drop (Suc (min (length s) (n - 1))) b))"
proof -
  have "cstr_copy_loop b 0 (n - 1) s =
      Inr (if length s \<le> n - 1 then 0 else 1,
           take (n - 1) s @ NUL # drop (Suc (min (length s) (n - 1))) b)"
    using cstr_copy_loop_eq [of 0 "n - 1" b s] assms by simp
  moreover have "length s \<le> n - 1 \<longleftrightarrow> length s < n" using assms by arith
  ultimately show ?thesis using assms by (simp add: jsdrv_cstr_copy_def)
qed

theorem jsdrv_cstr_copy_correct_witness:
  "jsdrv_cstr_copy (Some ''wxyz'') (Some ''abcdef'') 4 = Inr (1, Some (''abc'' @ [NUL]))"
  using jsdrv_cstr_copy_correct [of 4 "''wxyz''" "''abcdef''"] by simp


text \<open>
  \<^verbatim>\<open>jsdrv_cstr_join\<close> into a buffer of at least two bytes never writes out of bounds
  and leaves the terminated, possibly truncated concatenation. It returns 1 when the
  concatenation has \<^verbatim>\<open>tgt_size - 1\<close> characters or more: a result that fits exactly is
  reported as truncated too.
\<close>

theorem jsdrv_cstr_join_correct:
  assumes "2 \<le> n" and "n \<le> length b"
  shows "jsdrv_cstr_join False (Some b) (Some s1) (Some s2) n =
           Inr (if length (s1 @ s2) < n - 1 then 0 else 1,
                Some (take (n - 1) (s1 @ s2) @ NUL # drop (Suc (min (length (s1 @ s2)) (n - 1))) b))"
proof (cases "length s1 < n - 1")
  case False
  with assms cstr_join_loop_eq [of 0 "n - 1" b s1] show ?thesis
    by (simp add: jsdrv_cstr_join_def)
next
  case True
  define b1 where "b1 = s1 @ drop (length s1) b"
  have l1: "cstr_join_loop b 0 (n - 1) s1 = Inr (Inl (length s1, b1))"
    using True assms cstr_join_loop_eq [of 0 "n - 1" b s1] by (simp add: b1_def)
  have len: "length b1 = length b" using True assms by (simp add: b1_def)
  have l2: "cstr_join_loop b1 (length s1) (n - 1) s2 =
      (if length s2 < n - 1 - length s1
       then Inr (Inl (length s1 + length s2, s1 @ s2 @ drop (length s1 + length s2) b))
       else Inr (Inr (1, s1 @ take (n - 1 - length s1) s2 @ NUL # drop n b)))"
    using True assms cstr_join_loop_eq [of "length s1" "n - 1" b1 s2] len
    by (simp add: b1_def add.commute)
  show ?thesis
  proof (cases "length s2 < n - 1 - length s1")
    case True2: True
    have "drop (length s1 + length s2) b = b ! (length s1 + length s2) #
        drop (Suc (length s1 + length s2)) b"
      using True True2 assms by (simp add: Cons_nth_drop_Suc)
    with l1 l2 True2 True assms show ?thesis
      by (simp add: jsdrv_cstr_join_def list_update_append)
  next
    case False
    with l1 l2 True assms show ?thesis
      by (simp add: jsdrv_cstr_join_def)
  qed
qed

theorem jsdrv_cstr_join_correct_witness:
  "jsdrv_cstr_join False (Some ''zzzzz'') (Some ''ab'') (Some ''cd'') 5
     = Inr (1, Some (''abcd'' @ [NUL]))"
  using jsdrv_cstr_join_correct [of 5 "''zzzzz''" "''ab''" "''cd''"] by simp

text \<open>
  With a one-byte target and a non-empty first source, \<^verbatim>\<open>jsdrv_cstr_join\<close> writes the
  terminator one byte past the end of the buffer.
\<close>

theorem jsdrv_cstr_join_overflow:
  "jsdrv_cstr_join False (Some [x]) (Some (ch # s1)) src2 1 = Inl OutOfBounds"
  by (simp add: jsdrv_cstr_join_def)

section \<open>Comparison, prefix and suffix\<close>

lemma cstr_starts_with_loop_eq:
  "cstr_starts_with_loop s p = Some r \<longleftrightarrow> s = p @ r"
  by (induction s p rule: cstr_starts_with_loop.induct) auto

lemma cstr_casecmp_loop_Cons:
  "cstr_casecmp_loop (a # s) (b # t) =
     (if cstr_toupper_char a = cstr_toupper_char b then cstr_casecmp_loop s t
      else if schar (cstr_toupper_char a) < schar (cstr_toupper_char b) then -1 else 1)"
  by (cases "schar (cstr_toupper_char a)" "schar (cstr_toupper_char b)" rule: linorder_cases)
     (auto simp: Let_def simp del: schar_inj, auto)

lemma cstr_casecmp_loop_zero:
  "cstr_casecmp_loop s t = 0 \<longleftrightarrow> map cstr_toupper_char s = map cstr_toupper_char t"
  by (induction s t rule: cstr_casecmp_loop.induct)
     (simp_all add: cstr_casecmp_loop_Cons del: cstr_casecmp_loop.simps(4))

lemma cstr_casecmp_loop_swap:
  "cstr_casecmp_loop t s = - cstr_casecmp_loop s t"
proof (induction s t rule: cstr_casecmp_loop.induct)
  case (4 a s b t)
  show ?case
  proof (cases "cstr_toupper_char a = cstr_toupper_char b")
    case True
    with "4" show ?thesis
      by (simp add: cstr_casecmp_loop_Cons Let_def del: cstr_casecmp_loop.simps(4))
  next
    case False
    then have "schar (cstr_toupper_char a) \<noteq> schar (cstr_toupper_char b)" by simp
    then show ?thesis by (auto simp: cstr_casecmp_loop_Cons simp del: cstr_casecmp_loop.simps(4))
  qed
qed auto

lemma cstr_casecmp_loop_trans:
  "cstr_casecmp_loop s t = -1 \<Longrightarrow> cstr_casecmp_loop t u = -1 \<Longrightarrow> cstr_casecmp_loop s u = -1"
proof (induction s t arbitrary: u rule: cstr_casecmp_loop.induct)
  case (2 b t)
  then show ?case by (cases u) auto
next
  case (4 a s b t)
  note [simp del] = cstr_casecmp_loop.simps(4)
  from "4.prems"(2) obtain x v where u: "u = x # v" by (cases u) auto
  let ?a = "cstr_toupper_char a" and ?b = "cstr_toupper_char b" and ?x = "cstr_toupper_char x"
  show ?case
  proof (cases "?a = ?b \<and> ?b = ?x")
    case True
    have "cstr_casecmp_loop s t = -1" and "cstr_casecmp_loop t v = -1"
      using "4.prems" True u by (simp_all add: cstr_casecmp_loop_Cons)
    then have "cstr_casecmp_loop s v = -1" using "4.IH" [OF refl refl] True by simp
    then show ?thesis using True u by (simp add: cstr_casecmp_loop_Cons)
  next
    case False
    have "?a = ?b \<or> schar ?a < schar ?b" and "?b = ?x \<or> schar ?b < schar ?x"
      using "4.prems" u by (auto simp: cstr_casecmp_loop_Cons split: if_splits)
    with False have "schar ?a < schar ?x" by (auto intro: less_trans)
    then show ?thesis using u by (auto simp: cstr_casecmp_loop_Cons)
  qed
qed auto

text \<open>
  \<^verbatim>\<open>jsdrv_cstr_casecmp\<close> is a total preorder on strings: it is 0 exactly on strings
  that agree up to letter case, swapping the arguments negates it, and "less" is
  transitive.
\<close>

theorem jsdrv_cstr_casecmp_order:
  "(jsdrv_cstr_casecmp (Some s) (Some t) = 0
      \<longleftrightarrow> map cstr_toupper_char s = map cstr_toupper_char t)
   \<and> jsdrv_cstr_casecmp (Some t) (Some s) = - jsdrv_cstr_casecmp (Some s) (Some t)
   \<and> (jsdrv_cstr_casecmp (Some s) (Some t) = -1 \<and> jsdrv_cstr_casecmp (Some t) (Some u) = -1
      \<longrightarrow> jsdrv_cstr_casecmp (Some s) (Some u) = -1)"
  using cstr_casecmp_loop_trans [of s t u] cstr_casecmp_loop_swap [of t s]
  by (simp add: jsdrv_cstr_casecmp_def cstr_casecmp_loop_zero)

theorem jsdrv_cstr_casecmp_order_witness:
  "jsdrv_cstr_casecmp (Some ''AB'') (Some ''c'') = -1"
  using jsdrv_cstr_casecmp_order [of "''AB''" "''ac''" "''c''"] by code_simp

lemma cstr_ends_with_loop_eq:
  "i \<le> j \<Longrightarrow> i \<le> length sfx + 1 \<Longrightarrow> j \<le> length s + 1 \<Longrightarrow>
   cstr_ends_with_loop s sfx i j =
     Inr (if take i (sfx @ [NUL]) = drop (j - i) (take j (s @ [NUL])) then Some (j - i) else None)"
proof (induction s sfx i j rule: cstr_ends_with_loop.induct)
  case (3 s sfx i j)
  have tk: "take (Suc i) (sfx @ [NUL]) = take i (sfx @ [NUL]) @ [(sfx @ [NUL]) ! i]"
    using "3.prems" by (intro take_Suc_conv_app_nth) simp
  have "take (Suc j) (s @ [NUL]) = take j (s @ [NUL]) @ [(s @ [NUL]) ! j]"
    using "3.prems" by (intro take_Suc_conv_app_nth) simp
  then have dr: "drop (j - i) (take (Suc j) (s @ [NUL]))
      = drop (j - i) (take j (s @ [NUL])) @ [(s @ [NUL]) ! j]"
    using "3.prems" by simp
  show ?case
  proof (cases "(sfx @ [NUL]) ! i = (s @ [NUL]) ! j")
    case True
    then have "cstr_ends_with_loop s sfx (Suc i) (Suc j) = cstr_ends_with_loop s sfx i j"
      by simp
    also have "\<dots> = Inr (if take i (sfx @ [NUL]) = drop (j - i) (take j (s @ [NUL]))
        then Some (j - i) else None)"
      using "3.IH" True "3.prems" by auto
    finally show ?thesis unfolding diff_Suc_Suc tk dr True by (simp only: append_same_eq)
  next
    case False
    then show ?thesis unfolding diff_Suc_Suc tk dr by simp
  qed
qed auto

text \<open>
  \<^verbatim>\<open>jsdrv_cstr_ends_with\<close> reads only inside both strings and returns the pointer to
  the suffix exactly when the string ends with it; \<^verbatim>\<open>jsdrv_cstr_starts_with\<close> returns the
  rest of the string exactly when the prefix matches.
\<close>

theorem jsdrv_cstr_prefix_suffix:
  "jsdrv_cstr_ends_with (Some s) (Some sfx) =
     Inr (if sfx = [] then Some s
          else if \<exists>pre. s = pre @ sfx then Some sfx else None)
   \<and> (jsdrv_cstr_starts_with (Some s) (Some p) = Some r \<longleftrightarrow> s = p @ r)"
proof -
  let ?n = "length s - length sfx"
  have ex: "(\<exists>pre. s = pre @ sfx) \<longleftrightarrow> length sfx \<le> length s \<and> drop ?n s = sfx"
    by (metis append_take_drop_id append_eq_conv_conj diff_add_inverse2 le_add2 length_append)
  have "jsdrv_cstr_ends_with (Some s) (Some sfx) =
      Inr (if sfx = [] then Some s else if \<exists>pre. s = pre @ sfx then Some sfx else None)"
  proof (cases "sfx = [] \<or> length s < length sfx")
    case True
    then show ?thesis unfolding ex by (auto simp: jsdrv_cstr_ends_with_def)
  next
    case False
    then have "cstr_ends_with_loop s sfx (length sfx + 1) (length s + 1) =
        Inr (if sfx = drop ?n s then Some ?n else None)"
      using cstr_ends_with_loop_eq [of "length sfx + 1" "length s + 1" sfx s] by simp
    with False show ?thesis unfolding ex by (auto simp: jsdrv_cstr_ends_with_def)
  qed
  then show ?thesis
    by (simp add: jsdrv_cstr_starts_with_def cstr_starts_with_loop_eq)
qed


section \<open>Integer parsing\<close>

text \<open>The number a string of decimal digits denotes, after a prefix worth \<open>n\<close>.\<close>

fun dec_val :: "nat \<Rightarrow> string \<Rightarrow> nat" where
  "dec_val n [] = n"
| "dec_val n (ch # s) = dec_val (n * 10 + (cord ch - 48)) s"

definition digits :: "string \<Rightarrow> bool" where
  "digits ds \<longleftrightarrow> ds \<noteq> [] \<and> list_all is_digit ds"

lemma dec_val_append: "dec_val n (s @ t) = dec_val (dec_val n s) t"
  by (induction s arbitrary: n) auto

lemma dec_val_mono: "n \<le> dec_val n s"
proof (induction s arbitrary: n)
  case (Cons d s)
  have "n \<le> n * 10 + (cord d - 48)" by simp
  also have "\<dots> \<le> dec_val (n * 10 + (cord d - 48)) s" by (rule Cons)
  finally show ?case by simp
qed simp

lemma is_digit_not_space: "is_digit ch \<Longrightarrow> \<not> cstr_isspace ch"
  by (auto simp: is_digit_def cstr_isspace_def)

lemma is_digit_neq: "is_digit ch \<Longrightarrow> ch \<noteq> CHR ''x'' \<and> ch \<noteq> CHR ''-'' \<and> ch \<noteq> CHR ''+'' \<and> ch \<noteq> NUL"
  by (auto simp: is_digit_def cord_def)

lemma isspace_neq: "cstr_isspace ch \<Longrightarrow> ch \<noteq> CHR ''x'' \<and> \<not> is_digit ch"
  by (auto simp: is_digit_def cstr_isspace_def cord_def)

lemma cstr_skip_space_append [simp]:
  "cstr_all_space p \<Longrightarrow> cstr_skip_space (p @ s) = cstr_skip_space s"
  by (induction p) auto

lemma cstr_skip_space_digits [simp]:
  "digits ds \<Longrightarrow> cstr_skip_space (ds @ r) = ds @ r"
  by (cases ds) (auto simp: digits_def dest: is_digit_not_space)

lemma digits_not_hex:
  assumes "digits ds" and "cstr_all_space r"
  shows "take 2 (ds @ r) \<noteq> ''0x''"
proof -
  obtain d ds' where ds: "ds = d # ds'" "list_all is_digit ds'"
    using assms(1) by (cases ds) (auto simp: digits_def)
  show ?thesis
  proof (cases ds')
    case Nil
    then show ?thesis using ds assms(2) by (cases r) (auto dest: isspace_neq)
  next
    case (Cons e es)
    then show ?thesis using ds by (auto dest: is_digit_neq)
  qed
qed

lemma cstr_dec_loop_u32_eq:
  "list_all is_digit ds \<Longrightarrow> cstr_all_space r \<Longrightarrow>
   cstr_dec_loop_u32 (of_nat n) (ds @ r) = (of_nat (dec_val n ds), r)"
proof (induction ds arbitrary: n)
  case Nil
  then show ?case by (cases r) (auto dest: isspace_neq)
next
  case (Cons d ds)
  have "(of_nat n * 10 + of_nat (cord d - 48) :: u32) = of_nat (n * 10 + (cord d - 48))"
    by simp
  then show ?case using Cons by (simp del: of_nat_add of_nat_mult)
qed

lemma jsdrv_cstr_to_u32_decimal:
  assumes "cstr_all_space p" and "digits ds" and "cstr_all_space r"
  shows "jsdrv_cstr_to_u32 (Some (p @ ds @ r)) (Some old) = (0, Some (of_nat (dec_val 0 ds)))"
proof -
  have "ds \<noteq> []" and "list_all is_digit ds" using assms(2) by (auto simp: digits_def)
  then show ?thesis
    using assms digits_not_hex [OF assms(2,3)] cstr_dec_loop_u32_eq [of ds r 0]
    by (simp add: jsdrv_cstr_to_u32_def Let_def)
qed

lemma unat_lt_and_high:
  "unat (w :: u64) < 2 ^ 32 \<Longrightarrow> w AND 0xFFFFFFFF00000000 = 0"
proof -
  assume "unat w < 2 ^ 32"
  then have w: "take_bit 32 w = w"
    by (intro word_unat_eq_iff [THEN iffD2]) (simp add: unsigned_take_bit_eq take_bit_nat_eq_self)
  have "(0xFFFFFFFF00000000 :: u64) = NOT (mask 32)"
    by (simp add: mask_eq_exp_minus_1)
  then have "w AND 0xFFFFFFFF00000000 = take_bit 32 w AND NOT (mask 32)"
    using w by simp
  also have "\<dots> = 0"
    by (simp add: take_bit_eq_mask and.assoc)
  finally show ?thesis .
qed

lemma u64_dec_guard:
  assumes "n * 10 < 2 ^ 64"
  shows "(drop_bit 32 (of_nat n :: u64) * 10) AND 0xFFFFFFFF00000000 = 0"
proof (rule unat_lt_and_high)
  have n: "unat (of_nat n :: u64) = n" using assms by (simp add: unat_of_nat)
  have d: "unat (drop_bit 32 (of_nat n :: u64)) = n div 2 ^ 32"
    using assms
    by (simp only: unsigned_drop_bit_eq drop_bit_take_bit n)
       (use n in \<open>simp add: drop_bit_eq_div take_bit_nat_eq_self\<close>)
  have small: "n div 2 ^ 32 * 10 < 2 ^ 32" using assms by simp
  have "unat (drop_bit 32 (of_nat n :: u64) * 10) = (n div 2 ^ 32 * 10) mod 2 ^ 64"
    unfolding unat_word_ariths(2) d by simp
  with small show "unat (drop_bit 32 (of_nat n :: u64) * 10) < 2 ^ 32" by simp
qed

lemma cstr_dec_loop_u64_eq:
  "list_all is_digit ds \<Longrightarrow> cstr_all_space r \<Longrightarrow> dec_val n ds < 2 ^ 64 \<Longrightarrow>
   cstr_dec_loop_u64 (of_nat n) (ds @ r) = Some (of_nat (dec_val n ds), r)"
proof (induction ds arbitrary: n)
  case Nil
  then show ?case by (cases r) (auto dest: isspace_neq)
next
  case (Cons d ds)
  let ?m = "n * 10 + (cord d - 48)"
  have "(of_nat n * 10 + of_nat (cord d - 48) :: u64) = of_nat ?m" by simp
  moreover have "n * 10 < 2 ^ 64"
    using Cons.prems(3) dec_val_mono [of ?m ds] by simp
  ultimately show ?case
    using Cons by (simp add: u64_dec_guard del: of_nat_add of_nat_mult)
qed

lemma jsdrv_cstr_to_u64_decimal:
  assumes "cstr_all_space p" and "digits ds" and "cstr_all_space r" and "dec_val 0 ds < 2 ^ 64"
  shows "jsdrv_cstr_to_u64 (Some (p @ ds @ r)) (Some old) = (0, Some (of_nat (dec_val 0 ds)))"
proof -
  have "ds \<noteq> []" and "list_all is_digit ds" using assms(2) by (auto simp: digits_def)
  then show ?thesis
    using assms digits_not_hex [OF assms(2,3)] cstr_dec_loop_u64_eq [of ds r 0]
    by (simp add: jsdrv_cstr_to_u64_def Let_def)
qed

definition sign_str :: "bool option \<Rightarrow> string" where
  "sign_str sg = (case sg of None \<Rightarrow> [] | Some True \<Rightarrow> ''-'' | Some False \<Rightarrow> ''+'')"

lemma cstr_sign_digits:
  "digits ds \<Longrightarrow> cstr_sign (cstr_skip_space (sign_str sg @ ds @ r)) = (sg = Some True, ds @ r)"
  by (cases ds; cases sg)
     (auto simp: sign_str_def cstr_sign_def digits_def cstr_isspace_def cord_def
           dest: is_digit_neq is_digit_not_space split: bool.splits)



text \<open>
  The overflow test of \<^verbatim>\<open>jsdrv_cstr_to_u64\<close> is neither complete nor exact: the decimal
  numeral for \<^verbatim>\<open>2^64\<close> is accepted with the value 0, and a sixteen-digit hexadecimal
  numeral that fits in 64 bits is rejected, while \<^verbatim>\<open>jsdrv_cstr_to_u32\<close> reduces every
  decimal numeral modulo \<^verbatim>\<open>2^32\<close> and reports success.
\<close>

theorem jsdrv_cstr_to_u64_overflow:
  "jsdrv_cstr_to_u64 (Some ''18446744073709551616'') (Some 7) = (0, Some 0)
   \<and> jsdrv_cstr_to_u64 (Some ''0x1000000000000000'') (Some 7) = (1, Some 7)
   \<and> jsdrv_cstr_to_u32 (Some ''4294967297'') (Some 7) = (0, Some 1)"
  by code_simp

section \<open>Printing\<close>

declare u32_digits_rev.simps [simp del]

lemma u32_digits_rev_0 [simp]: "u32_digits_rev 0 = []"
  by (subst u32_digits_rev.simps) simp

lemma u32_digits_rev_pos:
  "0 < u \<Longrightarrow> u32_digits_rev u = char_of (48 + u mod 10) # u32_digits_rev (u div 10)"
  by (subst u32_digits_rev.simps) (simp add: Let_def modulo_nat_def)

lemma u32_digits_rev_val: "dec_val 0 (rev (u32_digits_rev u)) = u"
proof (induction u rule: less_induct)
  case (less u)
  show ?case
  proof (cases "u = 0")
    case False
    then have "dec_val 0 (rev (u32_digits_rev (u div 10))) = u div 10" by (simp add: less)
    with False show ?thesis by (simp add: u32_digits_rev_pos dec_val_append)
  qed simp
qed

lemma u32_digits_rev_digit: "list_all is_digit (u32_digits_rev u)"
proof (induction u rule: less_induct)
  case (less u)
  have "u mod 10 < 10" by simp
  then show ?case
    using less [of "u div 10"]
    by (cases "u = 0") (simp_all add: u32_digits_rev_pos is_digit_def)
qed

lemma u32_digits_rev_length: "u < 10 ^ k \<Longrightarrow> length (u32_digits_rev u) \<le> k"
proof (induction k arbitrary: u)
  case (Suc k)
  then show ?case
    by (cases "u = 0") (simp_all add: u32_digits_rev_pos)
qed simp

lemma u32_digits_rev_Nil: "u32_digits_rev u = [] \<longleftrightarrow> u = 0"
  by (cases "u = 0") (simp_all add: u32_digits_rev_pos)

lemma buf_write_eq:
  "i + length s \<le> length b \<Longrightarrow>
   buf_write b i s = Inr (take i b @ s @ drop (i + length s) b)"
proof (induction s arbitrary: b i)
  case (Cons ch s)
  then have "take (Suc i) (b[i := ch]) = take i b @ [ch]"
    by (simp add: take_Suc_conv_app_nth)
  with Cons show ?case by simp
qed simp

lemma digits_is_cstr: "list_all is_digit ds \<Longrightarrow> is_cstr ds"
  by (induction ds) (auto dest: is_digit_neq)

lemma jsdrv_u32_to_cstr_eq:
  assumes "11 \<le> n" and "n \<le> length b"
  obtains ds r where "jsdrv_u32_to_cstr u (Some b) n = Inr (0, Some (ds @ NUL # r))"
    and "digits ds" and "dec_val 0 ds = unat u" and "length (ds @ NUL # r) = length b"
proof -
  let ?d = "u32_digits_rev (unat u)"
  define ds where "ds = (if ?d = [] then ''0'' else ?d)"
  have dig: "digits (rev ds)" and val: "dec_val 0 (rev ds) = unat u"
    using u32_digits_rev_digit [of "unat u"] u32_digits_rev_val [of "unat u"]
    by (auto simp: ds_def digits_def u32_digits_rev_Nil is_digit_def cord_def)
  have "unat u < 10 ^ 10" using unat_bound_u32 [of u] by simp
  from u32_digits_rev_length [OF this] have len: "length ds \<le> 10"
    by (auto simp: ds_def)
  have set0: "buf_set b 0 NUL = Inr (b[0 := NUL])" using assms by (intro buf_set_in) linarith
  have "drop (length ds) (b[0 := NUL]) = x # drop (Suc (length ds)) b"
    if "x = b[0 := NUL] ! length ds" for x
    using assms len that by (simp flip: Cons_nth_drop_Suc)
  then have "jsdrv_u32_to_cstr u (Some b) n =
      Inr (0, Some (rev ds @ NUL # drop (Suc (length ds)) b))"
    using assms len
    by (simp add: jsdrv_u32_to_cstr_def Let_def buf_write_eq list_update_append set0
             flip: ds_def)
  then show thesis using dig val len assms by (intro that) auto
qed

text \<open>
  C36. Printing a \<^verbatim>\<open>uint32_t\<close> with \<^verbatim>\<open>jsdrv_u32_to_cstr\<close> into a buffer of at least 11 bytes stays
  in bounds, leaves a terminated decimal string in it, and parsing that string with
  \<^verbatim>\<open>jsdrv_cstr_to_u32\<close> gives the value back.
\<close>

theorem jsdrv_u32_cstr_roundtrip:
  assumes "11 \<le> n" and "n \<le> length b"
  shows "\<exists>b'. jsdrv_u32_to_cstr u (Some b) n = Inr (0, Some b')
           \<and> length b' = length b
           \<and> digits (cstr_of b')
           \<and> jsdrv_cstr_to_u32 (Some (cstr_of b')) (Some old) = (0, Some u)"
proof -
  obtain ds r where d: "jsdrv_u32_to_cstr u (Some b) n = Inr (0, Some (ds @ NUL # r))"
    "digits ds" "dec_val 0 ds = unat u" "length (ds @ NUL # r) = length b"
    using jsdrv_u32_to_cstr_eq [OF assms] .
  have "cstr_of (ds @ NUL # r) = ds"
    using d(2) by (simp add: digits_def digits_is_cstr)
  then show ?thesis
    using d jsdrv_cstr_to_u32_decimal [of "[]" ds "[]" old] by auto
qed

theorem jsdrv_u32_cstr_roundtrip_witness:
  "\<exists>b'. jsdrv_u32_to_cstr 4294967295 (Some (replicate 11 NUL)) 11 = Inr (0, Some b')
     \<and> jsdrv_cstr_to_u32 (Some (cstr_of b')) (Some 0) = (0, Some 4294967295)"
  using jsdrv_u32_cstr_roundtrip [of 11 "replicate 11 NUL" 4294967295 0] by auto

section \<open>Booleans and hexadecimal digits\<close>

lemma cstr_toupper_char_NUL [simp]: "cstr_toupper_char c = NUL \<longleftrightarrow> c = NUL"
proof -
  have "cord (cstr_toupper_char c) = 0 \<longleftrightarrow> cord c = 0"
    using cord_lt [of c] by (auto simp: cstr_toupper_char_def mod_less)
  then show ?thesis by (metis cord_NUL cord_inj)
qed

lemma is_cstr_toupper [simp]: "is_cstr s \<Longrightarrow> is_cstr (map cstr_toupper_char s)"
  by (induction s) auto

lemma cstr_toupper_loop_eq:
  "is_cstr s \<Longrightarrow> length s < m \<Longrightarrow>
   cstr_toupper_loop (p @ s @ NUL # r) (length p) m = Inr (p @ map cstr_toupper_char s @ NUL # r)"
proof (induction s arbitrary: p m)
  case Nil
  then show ?case by (cases m) (simp_all add: nth_append)
next
  case (Cons ch s)
  then obtain k where "m = Suc k" "length s < k" by (cases m) auto
  with Cons.prems Cons.IH [of k "p @ [cstr_toupper_char ch]"] show ?case
    by (simp add: nth_append list_update_append)
qed

lemma cstr_to_index_loop_found:
  "cstr_to_index_loop s tbl i = None \<longleftrightarrow> s \<notin> set tbl"
  by (induction tbl arbitrary: i) auto

lemma jsdrv_cstr_to_index_rc:
  "fst (jsdrv_cstr_to_index (Some s) (Some tbl) (Some i)) = 0 \<longleftrightarrow> s \<in> set tbl"
  by (auto simp: jsdrv_cstr_to_index_def cstr_to_index_loop_found split: option.splits)
     (metis cstr_to_index_loop_found option.distinct(1))

lemma bool_table_length: "s \<in> set (true_table @ false_table) \<Longrightarrow> length s < 15"
  by (auto simp: true_table_def false_table_def)

text \<open>
  \<^verbatim>\<open>jsdrv_cstr_to_bool\<close> works inside its 16-byte local buffer and accepts exactly the
  strings of its two tables, up to letter case: truncating longer input makes none of
  them match. Other input is reported as an error and leaves the value alone.
\<close>

theorem jsdrv_cstr_to_bool_exact:
  assumes "is_cstr s"
  shows "jsdrv_cstr_to_bool (Some s) (Some old) =
           Inr (if map cstr_toupper_char s \<in> set true_table then (0, Some True)
                else if map cstr_toupper_char s \<in> set false_table then (0, Some False)
                else (1, Some old))"
proof -
  let ?t = "take 15 s"
  let ?r = "drop (Suc (min (length s) 15)) (replicate 16 NUL)"
  have "jsdrv_cstr_copy (Some (replicate 16 NUL)) (Some s) 16 =
      Inr (if length s < 16 then 0 else 1, Some (?t @ NUL # ?r))"
    using cstr_copy_loop_eq [of 0 15 "replicate 16 NUL" s] by (simp add: jsdrv_cstr_copy_def)
  moreover have "jsdrv_cstr_toupper (Some (?t @ NUL # ?r)) =
      Inr (0, Some (map cstr_toupper_char ?t @ NUL # ?r))"
    using cstr_toupper_loop_eq [of ?t _ "[]" ?r] assms
    by (simp add: jsdrv_cstr_toupper_def)
  moreover have "map cstr_toupper_char ?t \<in> set tbl \<longleftrightarrow> map cstr_toupper_char s \<in> set tbl"
    if "set tbl \<subseteq> set (true_table @ false_table)" for tbl
  proof (cases "length s \<le> 15")
    case False
    then have "length (map cstr_toupper_char ?t) = 15" by simp
    with False that show ?thesis
      using bool_table_length by (metis length_map nat_le_linear order.strict_trans2 subsetD nless_le)
  qed simp
  ultimately show ?thesis
    using assms
    by (simp add: jsdrv_cstr_to_bool_def jsdrv_cstr_to_index_rc Let_def del: take_map)
qed

theorem jsdrv_cstr_to_bool_exact_witness:
  "jsdrv_cstr_to_bool (Some ''Enabled'') (Some False) = Inr (0, Some True)
   \<and> jsdrv_cstr_to_bool (Some ''maybe'') (Some False) = Inr (1, Some False)"
proof -
  have up: "map cstr_toupper_char ''Enabled'' = ''ENABLED''"
    "map cstr_toupper_char ''maybe'' = ''MAYBE''"
    by code_simp+
  show ?thesis
    using jsdrv_cstr_to_bool_exact [of "''Enabled''" False]
          jsdrv_cstr_to_bool_exact [of "''maybe''" False]
    unfolding up by (simp add: true_table_def false_table_def)
qed

lemma jsdrv_cstr_u4_hex_roundtrip:
  assumes "v < 16"
  shows "jsdrv_cstr_hex_to_u4 (jsdrv_cstr_u4_to_hex v) = v"
proof -
  have "unat v < 16" using assms by (simp add: word_less_nat_alt)
  then show ?thesis
    by (auto simp: jsdrv_cstr_hex_to_u4_def jsdrv_cstr_u4_to_hex_def word_less_nat_alt)
qed

end
