(* ===== verification/Topic.thy ===== *)
theory Topic
  imports Prelude
begin

text \<open>
  Topic strings of \<^verbatim>\<open>src/topic.c\<close>: a fixed buffer of \<^verbatim>\<open>JSDRV_TOPIC_LENGTH_MAX\<close> bytes with
  its length. Writes go through \<^const>\<open>buf_set\<close>, so a result \<open>Inl OutOfBounds\<close> is a write past
  the buffer, and \<open>Inl AssertFailed\<close> is a failed \<^verbatim>\<open>JSDRV_ASSERT\<close>. The locale \<open>path_buffer\<close> states
  what the users of topics rely on.
\<close>

section \<open>Data\<close>

definition JSDRV_TOPIC_LENGTH_MAX :: nat where
  "JSDRV_TOPIC_LENGTH_MAX = 64"

record topic_s =
  t_topic :: "char list"
  t_length :: nat

definition JSDRV_TOPIC_INIT :: topic_s where
  "JSDRV_TOPIC_INIT = \<lparr>t_topic = replicate JSDRV_TOPIC_LENGTH_MAX NUL, t_length = 0\<rparr>"

definition topic_put :: "topic_s \<Rightarrow> nat \<Rightarrow> char \<Rightarrow> topic_s c" where
  "topic_put t i ch = cbind (buf_set (t_topic t) i ch) (\<lambda>b. Inr (t\<lparr>t_topic := b\<rparr>))"

section \<open>Operations\<close>

definition jsdrv_topic_clear :: "topic_s \<Rightarrow> topic_s c" where
  "jsdrv_topic_clear t = cbind (topic_put t 0 NUL) (\<lambda>t. Inr (t\<lparr>t_length := 0\<rparr>))"

definition jsdrv_topic_truncate :: "topic_s \<Rightarrow> nat \<Rightarrow> topic_s c" where
  "jsdrv_topic_truncate t len =
     (if len < t_length t then cbind (topic_put t len NUL) (\<lambda>t. Inr (t\<lparr>t_length := len\<rparr>))
      else Inr t)"

fun topic_append_loop :: "topic_s \<Rightarrow> nat \<Rightarrow> string \<Rightarrow> (topic_s \<times> nat) c" where
  "topic_append_loop t i [] = Inr (t, i)"
| "topic_append_loop t i (ch # s) =
     (if i < JSDRV_TOPIC_LENGTH_MAX
      then cbind (topic_put t i ch) (\<lambda>t. topic_append_loop t (i + 1) s)
      else Inr (t, i))"

definition jsdrv_topic_append :: "topic_s \<Rightarrow> string \<Rightarrow> topic_s c" where
  "jsdrv_topic_append t subtopic =
     cbind (if t_length t = 0 then Inr t
            else cbind (buf_get (t_topic t) (t_length t - 1)) (\<lambda>ch.
                 if ch \<noteq> CHR ''/''
                 then cbind (topic_put t (t_length t) (CHR ''/''))
                        (\<lambda>t. Inr (t\<lparr>t_length := t_length t + 1\<rparr>))
                 else Inr t)) (\<lambda>t.
     cbind (topic_append_loop t (t_length t) subtopic) (\<lambda>(t, i).
     cbind (jsdrv_assert (i < JSDRV_TOPIC_LENGTH_MAX)) (\<lambda>_.
     cbind (topic_put t i NUL) (\<lambda>t.
     Inr (t\<lparr>t_length := i mod 256\<rparr>)))))"

fun topic_remove_loop :: "char list \<Rightarrow> nat \<Rightarrow> int \<Rightarrow> (int \<times> topic_s) c" where
  "topic_remove_loop b 0 rv = Inr (rv, \<lparr>t_topic = b, t_length = 0\<rparr>)"
| "topic_remove_loop b (Suc n) rv =
     cbind (buf_get b n) (\<lambda>ch.
     cbind (buf_set b n NUL) (\<lambda>b.
     if ch = CHR ''/'' then Inr (rv + 1, \<lparr>t_topic = b, t_length = n\<rparr>)
     else topic_remove_loop b n (rv + 1)))"

definition jsdrv_topic_remove :: "topic_s \<Rightarrow> (int \<times> topic_s) c" where
  "jsdrv_topic_remove t =
     (if t_length t > 0 then
        cbind (buf_get (t_topic t) (t_length t - 1)) (\<lambda>ch.
        if ch = CHR ''/''
        then cbind (buf_set (t_topic t) (t_length t - 1) NUL)
               (\<lambda>b. topic_remove_loop b (t_length t - 1) 1)
        else topic_remove_loop (t_topic t) (t_length t) 0)
      else Inr (0, t))"

definition jsdrv_topic_set :: "topic_s \<Rightarrow> string \<Rightarrow> topic_s c" where
  "jsdrv_topic_set t str =
     cbind (jsdrv_topic_clear t) (\<lambda>t.
     cbind (topic_append_loop t 0 str) (\<lambda>(t, i).
     cbind (jsdrv_assert (i < JSDRV_TOPIC_LENGTH_MAX)) (\<lambda>_.
     cbind (topic_put t i NUL) (\<lambda>t.
     Inr (t\<lparr>t_length := i\<rparr>)))))"

definition is_suffix_char :: "char \<Rightarrow> bool" where
  "is_suffix_char ch \<longleftrightarrow>
     ch \<in> {CHR ''%'', CHR ''$'', CHR ''&'', CHR ''?'', CHR 0x23}"

definition jsdrv_topic_suffix_add :: "topic_s \<Rightarrow> char \<Rightarrow> topic_s c" where
  "jsdrv_topic_suffix_add t ch =
     cbind (jsdrv_assert (t_length t < JSDRV_TOPIC_LENGTH_MAX - 1)) (\<lambda>_.
     cbind (jsdrv_assert (is_suffix_char ch)) (\<lambda>_.
     cbind (topic_put t (t_length t) ch) (\<lambda>t.
     cbind (topic_put t (t_length t + 1) NUL) (\<lambda>t.
     Inr (t\<lparr>t_length := t_length t + 1\<rparr>)))))"

definition jsdrv_topic_suffix_remove :: "topic_s \<Rightarrow> (char \<times> topic_s) c" where
  "jsdrv_topic_suffix_remove t =
     (if t_length t = 0 then Inr (NUL, t)
      else
        cbind (buf_get (t_topic t) (t_length t - 1)) (\<lambda>ch.
        if is_suffix_char ch
        then cbind (topic_put t (t_length t - 1) NUL)
               (\<lambda>t. Inr (ch, t\<lparr>t_length := t_length t - 1\<rparr>))
        else Inr (NUL, t)))"

section \<open>The represented string and the invariant\<close>

definition topic_str :: "topic_s \<Rightarrow> string" where
  "topic_str t = take (t_length t) (t_topic t)"

definition topic_inv :: "topic_s \<Rightarrow> bool" where
  "topic_inv t \<longleftrightarrow> length (t_topic t) = JSDRV_TOPIC_LENGTH_MAX
     \<and> t_length t < JSDRV_TOPIC_LENGTH_MAX
     \<and> t_topic t ! t_length t = NUL
     \<and> is_cstr (topic_str t)"

text \<open>The string a subtopic is joined to: one separator, unless it is there or at the start.\<close>

definition path_join :: "string \<Rightarrow> string \<Rightarrow> string" where
  "path_join s sub =
     (if s = [] \<or> last s = CHR ''/'' then s @ sub else s @ CHR ''/'' # sub)"

text \<open>A topic that holds the string \<open>s\<close>, whatever follows its terminator.\<close>

definition holds :: "topic_s \<Rightarrow> string \<Rightarrow> bool" where
  "holds t s \<longleftrightarrow> topic_inv t \<and> topic_str t = s"

lemma holds_iff:
  "holds t s \<longleftrightarrow> (\<exists>r. t = \<lparr>t_topic = s @ NUL # r, t_length = length s\<rparr>
      \<and> is_cstr s \<and> length s + 1 + length r = 64)"
proof
  assume h: "holds t s"
  then have len: "length (t_topic t) = 64" "t_length t < 64"
    by (simp_all add: holds_def topic_inv_def JSDRV_TOPIC_LENGTH_MAX_def)
  have s: "s = take (t_length t) (t_topic t)" "length s = t_length t"
    using h len by (auto simp: holds_def topic_str_def)
  have "t_topic t = s @ NUL # drop (Suc (t_length t)) (t_topic t)"
    using h len s by (metis holds_def topic_inv_def id_take_nth_drop)
  then have "t = \<lparr>t_topic = s @ NUL # drop (Suc (t_length t)) (t_topic t), t_length = length s\<rparr>"
    using s by (metis old.unit.exhaust topic_s.surjective)
  moreover have "is_cstr s" using h by (auto simp: holds_def topic_inv_def)
  ultimately show "\<exists>r. t = \<lparr>t_topic = s @ NUL # r, t_length = length s\<rparr>
      \<and> is_cstr s \<and> length s + 1 + length r = 64"
    using len s by (intro exI [of _ "drop (Suc (t_length t)) (t_topic t)"]) auto
next
  assume "\<exists>r. t = \<lparr>t_topic = s @ NUL # r, t_length = length s\<rparr>
      \<and> is_cstr s \<and> length s + 1 + length r = 64"
  then show "holds t s"
    by (auto simp: holds_def topic_inv_def topic_str_def JSDRV_TOPIC_LENGTH_MAX_def)
qed

lemma holds_record [simp]:
  "holds \<lparr>t_topic = b, t_length = n\<rparr> s \<longleftrightarrow>
     is_cstr s \<and> n = length s \<and> (\<exists>r. b = s @ NUL # r) \<and> length b = 64"
  by (auto simp: holds_iff)

lemma holdsE [elim]:
  assumes "holds t s"
  obtains r where "t = \<lparr>t_topic = s @ NUL # r, t_length = length s\<rparr>"
    and "is_cstr s" and "length s + 1 + length r = 64"
  using assms holds_iff by auto

lemma inv_holds: "topic_inv t \<longleftrightarrow> holds t (topic_str t)"
  by (simp add: holds_def)

section \<open>Exact results of the operations\<close>

lemma topic_put_eq [simp]:
  "i < length (t_topic t) \<Longrightarrow> topic_put t i ch = Inr (t\<lparr>t_topic := (t_topic t)[i := ch]\<rparr>)"
  by (simp add: topic_put_def)

lemma topic_append_loop_eq:
  assumes "length p + length q = 64"
  shows "topic_append_loop \<lparr>t_topic = p @ q, t_length = n\<rparr> (length p) s =
           Inr (\<lparr>t_topic = p @ take (length q) s @ drop (length s) q, t_length = n\<rparr>,
                length p + min (length s) (length q))"
  using assms
proof (induction s arbitrary: p q)
  case (Cons ch s)
  show ?case
  proof (cases q)
    case Nil
    with Cons.prems show ?thesis by (simp add: JSDRV_TOPIC_LENGTH_MAX_def)
  next
    case (Cons x q')
    with Cons.prems Cons.IH [of "p @ [ch]" q'] show ?thesis
      by (simp add: JSDRV_TOPIC_LENGTH_MAX_def list_update_append)
  qed
qed simp

lemma topic_fill:
  assumes "length p + length q = 64" and "is_cstr (p @ s)"
  shows "cbind (topic_append_loop \<lparr>t_topic = p @ q, t_length = n\<rparr> (length p) s) (\<lambda>(t, i).
           cbind (jsdrv_assert (i < JSDRV_TOPIC_LENGTH_MAX)) (\<lambda>_.
           cbind (topic_put t i NUL) (\<lambda>t. Inr (t\<lparr>t_length := i\<rparr>)))) =
         (if length p + length s < 64
          then Inr \<lparr>t_topic = (p @ s) @ NUL # drop (Suc (length s)) q, t_length = length (p @ s)\<rparr>
          else Inl AssertFailed)"
proof (cases "length p + length s < 64")
  case True
  then have "drop (length s) q = q ! length s # drop (Suc (length s)) q"
    using assms by (intro Cons_nth_drop_Suc [symmetric]) simp
  with True assms show ?thesis
    by (simp add: topic_append_loop_eq JSDRV_TOPIC_LENGTH_MAX_def list_update_append)
next
  case False
  with assms show ?thesis
    by (simp add: topic_append_loop_eq JSDRV_TOPIC_LENGTH_MAX_def)
qed

lemma mod_256_put:
  "cbind (jsdrv_assert (i < JSDRV_TOPIC_LENGTH_MAX)) (\<lambda>_.
     cbind (topic_put t i NUL) (\<lambda>t. Inr (t\<lparr>t_length := i mod 256\<rparr>))) =
   cbind (jsdrv_assert (i < JSDRV_TOPIC_LENGTH_MAX)) (\<lambda>_.
     cbind (topic_put t i NUL) (\<lambda>t. Inr (t\<lparr>t_length := i\<rparr>)))"
  by (cases "i < JSDRV_TOPIC_LENGTH_MAX") (simp_all add: JSDRV_TOPIC_LENGTH_MAX_def)

lemma topic_append_eq:
  assumes h: "holds t s" and sub: "is_cstr sub"
  shows "(length (path_join s sub) < 64 \<longrightarrow>
            (\<exists>t'. jsdrv_topic_append t sub = Inr t' \<and> holds t' (path_join s sub)))
         \<and> (\<not> length (path_join s sub) < 64 \<longrightarrow> jsdrv_topic_append t sub = Inl AssertFailed)"
proof -
  obtain r where t: "t = \<lparr>t_topic = s @ NUL # r, t_length = length s\<rparr>"
    and c: "is_cstr s" and len: "length s + 1 + length r = 64"
    using h by blast
  show ?thesis
  proof (cases "s = [] \<or> last s = CHR ''/''")
    case True
    then have j: "path_join s sub = s @ sub" by (simp add: path_join_def)
    have "s \<noteq> [] \<Longrightarrow> (s @ NUL # r) ! (length s - 1) = CHR ''/''"
      using True by (simp add: nth_append last_conv_nth)
    then have "jsdrv_topic_append t sub =
        (if length s + length sub < 64
         then Inr \<lparr>t_topic = (s @ sub) @ NUL # drop (length sub) r, t_length = length (s @ sub)\<rparr>
         else Inl AssertFailed)"
      using topic_fill [of s "NUL # r" sub "length s"] len c sub
      by (cases "s = []") (simp_all add: jsdrv_topic_append_def t mod_256_put)
    then show ?thesis using c sub len unfolding j by auto
  next
    case False
    then have j: "path_join s sub = s @ CHR ''/'' # sub" by (simp add: path_join_def)
    have "(s @ NUL # r) ! (length s - 1) \<noteq> CHR ''/''"
      using False by (auto simp: nth_append last_conv_nth)
    then have "jsdrv_topic_append t sub =
        (if length s + 1 + length sub < 64
         then Inr \<lparr>t_topic = (s @ CHR ''/'' # sub) @ NUL # drop (Suc (length sub)) r,
                   t_length = length (s @ CHR ''/'' # sub)\<rparr>
         else Inl AssertFailed)"
      using topic_fill [of "s @ ''/''" r sub "Suc (length s)"] len c sub False
      by (simp add: jsdrv_topic_append_def t mod_256_put list_update_append)
    then show ?thesis using c sub len unfolding j by auto
  qed
qed

lemma topic_truncate_eq:
  assumes "holds t s"
  shows "\<exists>t'. jsdrv_topic_truncate t n = Inr t' \<and> holds t' (take n s)"
proof -
  obtain r where t: "t = \<lparr>t_topic = s @ NUL # r, t_length = length s\<rparr>"
    and c: "is_cstr s" and len: "length s + 1 + length r = 64"
    using assms by blast
  show ?thesis
  proof (cases "n < length s")
    case True
    then have "jsdrv_topic_truncate t n =
        Inr \<lparr>t_topic = take n s @ NUL # (drop (Suc n) s @ NUL # r), t_length = length (take n s)\<rparr>"
      using len by (simp add: jsdrv_topic_truncate_def t list_update_append list_update_take_drop)
    with True c len show ?thesis by auto
  next
    case False
    with assms t show ?thesis by (simp add: jsdrv_topic_truncate_def)
  qed
qed

lemma topic_set_eq:
  assumes "topic_inv t" and "is_cstr s"
  shows "(length s < 64 \<longrightarrow> (\<exists>t'. jsdrv_topic_set t s = Inr t' \<and> holds t' s))
         \<and> (\<not> length s < 64 \<longrightarrow> jsdrv_topic_set t s = Inl AssertFailed)"
proof -
  obtain r where t: "t = \<lparr>t_topic = topic_str t @ NUL # r, t_length = length (topic_str t)\<rparr>"
    and len: "length (topic_str t) + 1 + length r = 64"
    using assms(1) inv_holds by blast
  define q where "q = (topic_str t @ NUL # r)[0 := NUL]"
  have q: "length q = 64" using len by (simp add: q_def)
  have "jsdrv_topic_clear t = Inr \<lparr>t_topic = [] @ q, t_length = 0\<rparr>"
    by (subst t) (simp add: jsdrv_topic_clear_def q_def)
  then have "jsdrv_topic_set t s =
      (if length s < 64 then Inr \<lparr>t_topic = s @ NUL # drop (Suc (length s)) q, t_length = length s\<rparr>
       else Inl AssertFailed)"
    using topic_fill [of "[]" q s 0] q assms(2) by (simp add: jsdrv_topic_set_def)
  then show ?thesis using q assms(2) by auto
qed

section \<open>Removing a level\<close>

definition path_parent :: "string \<Rightarrow> string" where
  "path_parent s = rev (drop 1 (dropWhile (\<lambda>c. c \<noteq> CHR ''/'') (rev s)))"

definition path_chomp :: "string \<Rightarrow> string" where
  "path_chomp s = (if s \<noteq> [] \<and> last s = CHR ''/'' then butlast s else s)"

lemma path_parent_snoc:
  "path_parent (s @ [ch]) = (if ch = CHR ''/'' then s else path_parent s)"
  by (simp add: path_parent_def)

lemma path_parent_join:
  "CHR ''/'' \<notin> set sub \<Longrightarrow> path_parent (s @ CHR ''/'' # sub) = s"
  by (induction sub rule: rev_induct)
     (auto simp: path_parent_snoc simp flip: append_assoc append_Cons)

lemma path_parent_none: "CHR ''/'' \<notin> set sub \<Longrightarrow> path_parent sub = []"
  by (induction sub rule: rev_induct) (auto simp: path_parent_snoc, simp add: path_parent_def)

lemma path_parent_prefix: "\<exists>t. s = path_parent s @ t"
proof (induction s rule: rev_induct)
  case Nil
  then show ?case by (simp add: path_parent_def)
next
  case (snoc ch s)
  then obtain t where "s = path_parent s @ t" ..
  then have "s @ [ch] = path_parent s @ (t @ [ch])" by (metis append_assoc)
  then show ?case by (metis path_parent_snoc)
qed

lemma path_parent_length: "length (path_parent s) \<le> length s"
  by (metis path_parent_prefix le_add1 length_append)

lemma topic_remove_loop_eq:
  "topic_remove_loop (s @ R) (length s) rv =
     Inr (rv + int (length s - length (path_parent s)),
          \<lparr>t_topic = path_parent s @ replicate (length s - length (path_parent s)) NUL @ R,
           t_length = length (path_parent s)\<rparr>)"
proof (induction s arbitrary: R rv rule: rev_induct)
  case Nil
  then show ?case by (simp add: path_parent_def)
next
  case (snoc ch s)
  show ?case
  proof (cases "ch = CHR ''/''")
    case True
    then show ?thesis by (simp add: path_parent_snoc list_update_append nth_append)
  next
    case False
    have "replicate (Suc (length s) - length (path_parent s)) NUL @ R =
        replicate (length s - length (path_parent s)) NUL @ NUL # R"
      using path_parent_length [of s] by (simp add: Suc_diff_le replicate_app_Cons_same)
    with False snoc.IH [of "NUL # R" "rv + 1"] path_parent_length [of s] show ?thesis
      by (simp add: path_parent_snoc list_update_append nth_append Suc_diff_le)
  qed
qed

lemma path_chomp_snoc: "s \<noteq> [] \<Longrightarrow> last s = CHR ''/'' \<Longrightarrow> s = path_chomp s @ ''/''"
  by (simp add: path_chomp_def) (metis append_butlast_last_id)

lemma holds_remove_loop:
  assumes "is_cstr s" and "length s + 1 + length r = 64"
  shows "\<exists>t'. topic_remove_loop (s @ NUL # r) (length s) rv =
                Inr (rv + int (length s - length (path_parent s)), t') \<and> holds t' (path_parent s)"
proof -
  obtain u where u: "s = path_parent s @ u" using path_parent_prefix by blast
  have c: "is_cstr (path_parent s)" using assms(1) by (subst (asm) u) simp
  define k where "k = length s - length (path_parent s)"
  have "length (path_parent s) + k = length s"
    using path_parent_length [of s] by (simp add: k_def)
  moreover have "\<exists>r'. replicate k NUL @ NUL # r = NUL # r'" by (cases k) auto
  ultimately show ?thesis
    using c assms(2) by (simp add: topic_remove_loop_eq flip: k_def)
qed

lemma topic_remove_eq:
  assumes "holds t s"
  shows "\<exists>t'. jsdrv_topic_remove t = Inr (int (length s - length (path_parent (path_chomp s))), t')
           \<and> holds t' (path_parent (path_chomp s))"
proof -
  obtain r where t: "t = \<lparr>t_topic = s @ NUL # r, t_length = length s\<rparr>"
    and c: "is_cstr s" and len: "length s + 1 + length r = 64"
    using assms by blast
  consider "s = []" | "s \<noteq> []" "last s = CHR ''/''" | "s \<noteq> []" "last s \<noteq> CHR ''/''" by blast
  then show ?thesis
  proof cases
    case 1
    then show ?thesis using t c len
      by (simp add: jsdrv_topic_remove_def path_chomp_def path_parent_def)
  next
    case 2
    define p where "p = path_chomp s"
    have s: "s = p @ ''/''" using path_chomp_snoc [OF 2] by (simp add: p_def)
    have "jsdrv_topic_remove t = topic_remove_loop (p @ NUL # (NUL # r)) (length p) 1"
      using s by (simp add: jsdrv_topic_remove_def t nth_append list_update_append)
    then show ?thesis
      using holds_remove_loop [of p "NUL # r" 1] s c len path_parent_length [of p]
      unfolding p_def [symmetric] by (auto simp: Suc_diff_le)
  next
    case 3
    then have "path_chomp s = s" by (simp add: path_chomp_def)
    moreover have "jsdrv_topic_remove t = topic_remove_loop (s @ NUL # r) (length s) 0"
      using 3 by (simp add: jsdrv_topic_remove_def t nth_append last_conv_nth)
    ultimately show ?thesis using holds_remove_loop [OF c len, of 0] by simp
  qed
qed

section \<open>Suffix characters\<close>

lemma is_suffix_char_not_NUL: "is_suffix_char ch \<Longrightarrow> ch \<noteq> NUL"
  by (auto simp: is_suffix_char_def)

lemma topic_suffix_add_eq:
  assumes "holds t s" and "is_suffix_char ch"
  shows "(length s < 63 \<longrightarrow> (\<exists>t'. jsdrv_topic_suffix_add t ch = Inr t' \<and> holds t' (s @ [ch])))
         \<and> (\<not> length s < 63 \<longrightarrow> jsdrv_topic_suffix_add t ch = Inl AssertFailed)"
proof -
  obtain r where t: "t = \<lparr>t_topic = s @ NUL # r, t_length = length s\<rparr>"
    and c: "is_cstr s" and len: "length s + 1 + length r = 64"
    using assms by blast
  then show ?thesis
    using assms(2) is_suffix_char_not_NUL [OF assms(2)]
    by (cases r) (auto simp: jsdrv_topic_suffix_add_def JSDRV_TOPIC_LENGTH_MAX_def list_update_append)
qed

lemma topic_suffix_remove_eq:
  assumes "holds t s"
  shows "\<exists>t'. jsdrv_topic_suffix_remove t =
                Inr (if s \<noteq> [] \<and> is_suffix_char (last s) then last s else NUL, t')
           \<and> holds t' (if s \<noteq> [] \<and> is_suffix_char (last s) then butlast s else s)"
proof -
  obtain r where t: "t = \<lparr>t_topic = s @ NUL # r, t_length = length s\<rparr>"
    and c: "is_cstr s" and len: "length s + 1 + length r = 64"
    using assms by blast
  show ?thesis
  proof (cases s rule: rev_cases)
    case Nil
    then show ?thesis using t c len by (simp add: jsdrv_topic_suffix_remove_def)
  next
    case (snoc p x)
    then show ?thesis using t c len
      by (auto simp: jsdrv_topic_suffix_remove_def nth_append list_update_append)
  qed
qed

section \<open>The interface the users of topics rely on\<close>

text \<open>
  A client builds a topic below a prefix, uses it and restores the prefix. It needs an
  abstraction to strings, that appending joins when the result fits, and that removing
  and truncating act on the string.
\<close>

locale path_buffer =
  fixes str :: "'t \<Rightarrow> string"
    and ok :: "'t \<Rightarrow> bool"
    and append_op :: "'t \<Rightarrow> string \<Rightarrow> 't c"
    and truncate_op :: "'t \<Rightarrow> nat \<Rightarrow> 't c"
    and remove_op :: "'t \<Rightarrow> (int \<times> 't) c"
    and cap :: nat
  assumes append_law: "ok t \<Longrightarrow> is_cstr sub \<Longrightarrow> length (path_join (str t) sub) < cap \<Longrightarrow>
      \<exists>t'. append_op t sub = Inr t' \<and> ok t' \<and> str t' = path_join (str t) sub"
    and truncate_law: "ok t \<Longrightarrow>
      \<exists>t'. truncate_op t n = Inr t' \<and> ok t' \<and> str t' = take n (str t)"
    and remove_law: "ok t \<Longrightarrow> \<exists>k t'. remove_op t = Inr (k, t') \<and> ok t'
      \<and> str t' = path_parent (path_chomp (str t))
      \<and> k = int (length (str t) - length (str t'))"
begin

lemma append_truncate:
  assumes "ok t" and "is_cstr sub" and "length (path_join (str t) sub) < cap"
  shows "\<exists>t' t''. append_op t sub = Inr t' \<and> truncate_op t' (length (str t)) = Inr t''
           \<and> ok t'' \<and> str t'' = str t"
proof -
  obtain t' where t': "append_op t sub = Inr t'" "ok t'" "str t' = path_join (str t) sub"
    using append_law [OF assms] by blast
  moreover have "take (length (str t)) (path_join (str t) sub) = str t"
    by (simp add: path_join_def)
  ultimately show ?thesis using truncate_law [OF t'(2), of "length (str t)"] by auto
qed

lemma append_remove:
  assumes "ok t" and "is_cstr sub" and "length (path_join (str t) sub) < cap"
    and "sub \<noteq> []" and "CHR ''/'' \<notin> set sub"
    and "str t = [] \<or> last (str t) \<noteq> CHR ''/''"
  shows "\<exists>t' t''. append_op t sub = Inr t' \<and> ok t'' \<and> str t'' = str t
           \<and> remove_op t' = Inr (int (length sub) + (if str t = [] then 0 else 1), t'')"
proof -
  obtain t' where t': "append_op t sub = Inr t'" "ok t'" "str t' = path_join (str t) sub"
    using append_law [OF assms(1-3)] by blast
  have "last (path_join (str t) sub) = last sub" "path_join (str t) sub \<noteq> []"
    using assms(4) by (auto simp: path_join_def)
  moreover have "last sub \<noteq> CHR ''/''" using assms(4,5) last_in_set by metis
  ultimately have "path_chomp (path_join (str t) sub) = path_join (str t) sub"
    by (simp add: path_chomp_def)
  moreover have "path_parent (path_join (str t) sub) = str t"
    using assms(5,6) by (auto simp: path_join_def path_parent_join path_parent_none)
  ultimately show ?thesis
    using remove_law [OF t'(2)] t' assms(6) by (auto simp: path_join_def)
qed

end

interpretation topic: path_buffer topic_str topic_inv jsdrv_topic_append jsdrv_topic_truncate
    jsdrv_topic_remove JSDRV_TOPIC_LENGTH_MAX
proof unfold_locales
  fix t sub
  assume "topic_inv t" "is_cstr sub" "length (path_join (topic_str t) sub) < JSDRV_TOPIC_LENGTH_MAX"
  then show "\<exists>t'. jsdrv_topic_append t sub = Inr t' \<and> topic_inv t'
      \<and> topic_str t' = path_join (topic_str t) sub"
    using topic_append_eq [of t "topic_str t" sub]
    by (auto simp: holds_def JSDRV_TOPIC_LENGTH_MAX_def)
next
  fix t n
  assume "topic_inv t"
  then show "\<exists>t'. jsdrv_topic_truncate t n = Inr t' \<and> topic_inv t' \<and> topic_str t' = take n (topic_str t)"
    using topic_truncate_eq [of t "topic_str t" n] by (auto simp: holds_def)
next
  fix t
  assume "topic_inv t"
  then show "\<exists>k t'. jsdrv_topic_remove t = Inr (k, t') \<and> topic_inv t'
      \<and> topic_str t' = path_parent (path_chomp (topic_str t))
      \<and> k = int (length (topic_str t) - length (topic_str t'))"
    using topic_remove_eq [of t "topic_str t"] by (auto simp: holds_def)
qed

section \<open>Properties\<close>

text \<open>
  C32. \<^verbatim>\<open>jsdrv_topic_append\<close> on a well-formed topic never writes past the buffer: it either
  yields a well-formed topic that holds the old string joined to the subtopic by exactly
  one separator, or, exactly when that string and its terminator do not fit, it stops
  at the length assertion.
\<close>

theorem jsdrv_topic_append_correct:
  assumes "topic_inv t" and "is_cstr sub"
  shows "if length (path_join (topic_str t) sub) < 64
         then \<exists>t'. jsdrv_topic_append t sub = Inr t' \<and> topic_inv t'
                \<and> topic_str t' = path_join (topic_str t) sub
         else jsdrv_topic_append t sub = Inl AssertFailed"
  using topic_append_eq [of t "topic_str t" sub] assms by (simp add: holds_def)

theorem jsdrv_topic_append_correct_witness:
  "\<exists>t'. jsdrv_topic_append JSDRV_TOPIC_INIT ''u/js220'' = Inr t' \<and> topic_str t' = ''u/js220''"
proof -
  have "topic_inv JSDRV_TOPIC_INIT"
    by (simp add: topic_inv_def JSDRV_TOPIC_INIT_def topic_str_def JSDRV_TOPIC_LENGTH_MAX_def)
  moreover have "topic_str JSDRV_TOPIC_INIT = []"
    by (simp add: JSDRV_TOPIC_INIT_def topic_str_def)
  ultimately show ?thesis
    using jsdrv_topic_append_correct [of JSDRV_TOPIC_INIT "''u/js220''"]
    by (auto simp: path_join_def)
qed

text \<open>
  \<^verbatim>\<open>jsdrv_topic_remove\<close> undoes \<^verbatim>\<open>jsdrv_topic_append\<close> of one level, and reports the number
  of characters it removed, separator included.
\<close>

theorem jsdrv_topic_append_remove:
  assumes "topic_inv t" and "is_cstr sub" and "length (path_join (topic_str t) sub) < 64"
    and "sub \<noteq> []" and "CHR ''/'' \<notin> set sub"
    and "topic_str t = [] \<or> last (topic_str t) \<noteq> CHR ''/''"
  shows "\<exists>t' t''. jsdrv_topic_append t sub = Inr t'
           \<and> jsdrv_topic_remove t' = Inr (int (length sub) + (if topic_str t = [] then 0 else 1), t'')
           \<and> topic_inv t'' \<and> topic_str t'' = topic_str t"
  using topic.append_remove [OF assms(1,2) _ assms(4-6)] assms(3)
  by (auto simp: JSDRV_TOPIC_LENGTH_MAX_def)

theorem jsdrv_topic_append_remove_witness:
  "\<exists>t' t''. jsdrv_topic_append \<lparr>t_topic = ''u'' @ replicate 63 NUL, t_length = 1\<rparr> ''js220'' = Inr t'
     \<and> jsdrv_topic_remove t' = Inr (6, t'') \<and> topic_str t'' = ''u''"
proof -
  let ?t = "\<lparr>t_topic = ''u'' @ replicate 63 NUL, t_length = 1\<rparr>"
  have "topic_inv ?t" "topic_str ?t = ''u''"
    by (simp_all add: topic_inv_def topic_str_def JSDRV_TOPIC_LENGTH_MAX_def)
  then show ?thesis
    using jsdrv_topic_append_remove [of ?t "''js220''"]
    by (simp add: path_join_def) blast
qed

text \<open>
  Adding a suffix character to a topic with room for it and removing it again gives the
  character and the topic string back; \<^verbatim>\<open>jsdrv_topic_set\<close> of any string that fits makes the
  topic hold it, whatever the topic held before.
\<close>

theorem jsdrv_topic_suffix_roundtrip:
  assumes "topic_inv t" and "is_cstr s" and "length s < 63" and "is_suffix_char ch"
  shows "\<exists>t1 t2 t3. jsdrv_topic_set t s = Inr t1 \<and> topic_str t1 = s
           \<and> jsdrv_topic_suffix_add t1 ch = Inr t2 \<and> topic_str t2 = s @ [ch]
           \<and> jsdrv_topic_suffix_remove t2 = Inr (ch, t3) \<and> topic_inv t3 \<and> topic_str t3 = s"
proof -
  obtain t1 where t1: "jsdrv_topic_set t s = Inr t1" "holds t1 s"
    using topic_set_eq [OF assms(1,2)] assms(3) by auto
  obtain t2 where t2: "jsdrv_topic_suffix_add t1 ch = Inr t2" "holds t2 (s @ [ch])"
    using topic_suffix_add_eq [OF t1(2) assms(4)] assms(3) by auto
  obtain t3 where t3: "jsdrv_topic_suffix_remove t2 = Inr (ch, t3)" "holds t3 s"
    using topic_suffix_remove_eq [OF t2(2)] assms(4) by auto
  show ?thesis using t1 t2 t3 by (auto simp: holds_def)
qed

theorem jsdrv_topic_suffix_roundtrip_witness:
  "\<exists>t1 t2 t3. jsdrv_topic_set JSDRV_TOPIC_INIT ''a/b'' = Inr t1
     \<and> jsdrv_topic_suffix_add t1 CHR ''$'' = Inr t2
     \<and> jsdrv_topic_suffix_remove t2 = Inr (CHR ''$'', t3) \<and> topic_str t3 = ''a/b''"
proof -
  have "topic_inv JSDRV_TOPIC_INIT"
    by (simp add: topic_inv_def JSDRV_TOPIC_INIT_def topic_str_def JSDRV_TOPIC_LENGTH_MAX_def)
  then show ?thesis
    using jsdrv_topic_suffix_roundtrip [of JSDRV_TOPIC_INIT "''a/b''" "CHR ''$''"]
    by (simp add: is_suffix_char_def) blast
qed

end
