(* ===== verification/Ieee.thy ===== *)
theory Ieee
  imports Prelude
begin

text \<open>
  The C types \<^verbatim>\<open>float\<close> and \<^verbatim>\<open>double\<close> as IEEE 754 bit patterns, with the operations the driver's
  value type uses: comparison, truncation to an integer and conversion (round to
  nearest, ties to even). A finite number is an integer mantissa with a binary exponent,
  so every comparison and truncation is exact integer arithmetic.
\<close>

datatype fpval = FNan | FInf bool | FFin bool nat int

text \<open>\<open>mb\<close> fraction bits, \<open>eb\<close> exponent bits: 23 and 8 for \<^verbatim>\<open>float\<close>, 52 and 11 for \<^verbatim>\<open>double\<close>.\<close>

definition fp_bias :: "nat \<Rightarrow> int" where
  "fp_bias eb = 2 ^ (eb - 1) - 1"

definition fp_decode :: "nat \<Rightarrow> nat \<Rightarrow> nat \<Rightarrow> fpval" where
  "fp_decode mb eb n =
     (let s = (n div 2 ^ (mb + eb)) mod 2 = 1;
          ex = (n div 2 ^ mb) mod 2 ^ eb;
          fr = n mod 2 ^ mb
      in if ex = 2 ^ eb - 1 then (if fr = 0 then FInf s else FNan)
         else if ex = 0 then FFin s fr (1 - fp_bias eb - int mb)
         else FFin s (fr + 2 ^ mb) (int ex - fp_bias eb - int mb))"

fun nat_bits :: "nat \<Rightarrow> nat" where
  "nat_bits n = (if n = 0 then 0 else Suc (nat_bits (n div 2)))"

declare nat_bits.simps [simp del]

text \<open>\<open>m / 2 ^ k\<close> rounded to the nearest integer, ties to even.\<close>

definition round_half_even :: "nat \<Rightarrow> nat \<Rightarrow> nat" where
  "round_half_even m k =
     (let q = m div 2 ^ k; r = 2 * (m mod 2 ^ k) in
      if r < 2 ^ k then q else if r > 2 ^ k then q + 1 else if even q then q else q + 1)"

text \<open>
  Encoding rounds the mantissa to the place of the target's last bit; a carry out of the
  mantissa runs into the exponent field, which is the correct next exponent.
\<close>

definition fp_encode :: "nat \<Rightarrow> nat \<Rightarrow> fpval \<Rightarrow> nat" where
  "fp_encode mb eb v =
     (let sgn = (\<lambda>s. if s then 2 ^ (mb + eb) else 0);
          inf = (2 ^ eb - 1) * 2 ^ mb
      in case v of
           FNan \<Rightarrow> inf + 2 ^ (mb - 1)
         | FInf s \<Rightarrow> sgn s + inf
         | FFin s m e \<Rightarrow>
             if m = 0 then sgn s
             else
               let emin = 1 - fp_bias eb - int mb;
                   et = max (e + int (nat_bits m) - int (mb + 1)) emin;
                   m' = (if et \<le> e then m * 2 ^ nat (e - et) else round_half_even m (nat (et - e)));
                   bits = nat (et - emin) * 2 ^ mb + m'
               in sgn s + (if bits \<ge> inf then inf else bits))"

definition f32_val :: "u32 \<Rightarrow> fpval" where "f32_val w = fp_decode 23 8 (unat w)"
definition f64_val :: "u64 \<Rightarrow> fpval" where "f64_val w = fp_decode 52 11 (unat w)"

definition f32_to_f64 :: "u32 \<Rightarrow> u64" where "f32_to_f64 w = of_nat (fp_encode 52 11 (f32_val w))"
definition f64_to_f32 :: "u64 \<Rightarrow> u32" where "f64_to_f32 w = of_nat (fp_encode 23 8 (f64_val w))"

definition fp_of_int :: "int \<Rightarrow> fpval" where "fp_of_int i = FFin (i < 0) (nat \<bar>i\<bar>) 0"
definition int_to_f32 :: "int \<Rightarrow> u32" where "int_to_f32 i = of_nat (fp_encode 23 8 (fp_of_int i))"
definition int_to_f64 :: "int \<Rightarrow> u64" where "int_to_f64 i = of_nat (fp_encode 52 11 (fp_of_int i))"

definition fp_signed :: "bool \<Rightarrow> nat \<Rightarrow> int" where
  "fp_signed s m = (if s then - int m else int m)"

text \<open>\<open>v < i\<close>, \<open>v > i\<close> and \<open>v = w\<close>; each is false when an argument is NaN.\<close>

fun fp_lt_int :: "fpval \<Rightarrow> int \<Rightarrow> bool" where
  "fp_lt_int FNan i = False"
| "fp_lt_int (FInf s) i = s"
| "fp_lt_int (FFin s m e) i =
     (if e \<ge> 0 then fp_signed s m * 2 ^ nat e < i else fp_signed s m < i * 2 ^ nat (- e))"

fun fp_gt_int :: "fpval \<Rightarrow> int \<Rightarrow> bool" where
  "fp_gt_int FNan i = False"
| "fp_gt_int (FInf s) i = (\<not> s)"
| "fp_gt_int (FFin s m e) i =
     (if e \<ge> 0 then fp_signed s m * 2 ^ nat e > i else fp_signed s m > i * 2 ^ nat (- e))"

fun fp_eq :: "fpval \<Rightarrow> fpval \<Rightarrow> bool" where
  "fp_eq (FInf s) (FInf t) = (s = t)"
| "fp_eq (FFin s m e) (FFin t n f) =
     (if e \<ge> f then fp_signed s m * 2 ^ nat (e - f) = fp_signed t n
      else fp_signed s m = fp_signed t n * 2 ^ nat (f - e))"
| "fp_eq _ _ = False"

definition fp_ge_int :: "fpval \<Rightarrow> int \<Rightarrow> bool" where
  "fp_ge_int v i \<longleftrightarrow> v \<noteq> FNan \<and> \<not> fp_lt_int v i"

definition fp_is_zero :: "fpval \<Rightarrow> bool" where
  "fp_is_zero v \<longleftrightarrow> fp_eq v (FFin False 0 0)"

text \<open>Truncation toward zero; converting NaN or an infinity is undefined in C.\<close>

fun fp_trunc :: "fpval \<Rightarrow> int option" where
  "fp_trunc (FFin s m e) =
     Some (let a = (if e \<ge> 0 then m * 2 ^ nat e else m div 2 ^ nat (- e)) in fp_signed s a)"
| "fp_trunc _ = None"

text \<open>The arithmetic operations: the exact result, rounded once by the encoding.\<close>

fun fp_add :: "fpval \<Rightarrow> fpval \<Rightarrow> fpval" where
  "fp_add (FFin s m e) (FFin t n f) =
     (let g = min e f;
          a = fp_signed s m * 2 ^ nat (e - g) + fp_signed t n * 2 ^ nat (f - g)
      in if a = 0 then FFin (s \<and> t) 0 g else FFin (a < 0) (nat \<bar>a\<bar>) g)"
| "fp_add (FInf s) (FFin t n f) = FInf s"
| "fp_add (FFin s m e) (FInf t) = FInf t"
| "fp_add (FInf s) (FInf t) = (if s = t then FInf s else FNan)"
| "fp_add _ _ = FNan"

fun fp_mul :: "fpval \<Rightarrow> fpval \<Rightarrow> fpval" where
  "fp_mul (FFin s m e) (FFin t n f) = FFin (s \<noteq> t) (m * n) (e + f)"
| "fp_mul (FInf s) (FFin t n f) = (if n = 0 then FNan else FInf (s \<noteq> t))"
| "fp_mul (FFin s m e) (FInf t) = (if m = 0 then FNan else FInf (s \<noteq> t))"
| "fp_mul (FInf s) (FInf t) = FInf (s \<noteq> t)"
| "fp_mul _ _ = FNan"

text \<open>The quotient carries more bits than any target format, with a sticky last bit.\<close>

fun fp_div :: "fpval \<Rightarrow> fpval \<Rightarrow> fpval" where
  "fp_div (FFin s m e) (FFin t n f) =
     (if n = 0 then (if m = 0 then FNan else FInf (s \<noteq> t))
      else
        let k = 64 + nat_bits n; q = (m * 2 ^ k) div n; r = (m * 2 ^ k) mod n
        in FFin (s \<noteq> t) (2 * q + (if r = 0 then 0 else 1)) (e - f - int k - 1))"
| "fp_div (FInf s) (FFin t n f) = FInf (s \<noteq> t)"
| "fp_div (FFin s m e) (FInf t) = FFin (s \<noteq> t) 0 0"
| "fp_div _ _ = FNan"

definition f64_neg :: "u64 \<Rightarrow> u64" where
  "f64_neg a = a XOR 0x8000000000000000"
definition f64_add :: "u64 \<Rightarrow> u64 \<Rightarrow> u64" where
  "f64_add a b = of_nat (fp_encode 52 11 (fp_add (f64_val a) (f64_val b)))"
definition f64_mul :: "u64 \<Rightarrow> u64 \<Rightarrow> u64" where
  "f64_mul a b = of_nat (fp_encode 52 11 (fp_mul (f64_val a) (f64_val b)))"
definition f64_div :: "u64 \<Rightarrow> u64 \<Rightarrow> u64" where
  "f64_div a b = of_nat (fp_encode 52 11 (fp_div (f64_val a) (f64_val b)))"
definition F64_NAN :: u64 where "F64_NAN = 0x7FF8000000000000"
definition F32_NAN :: u32 where "F32_NAN = 0x7FC00000"
definition f64_sub :: "u64 \<Rightarrow> u64 \<Rightarrow> u64" where
  "f64_sub a b = f64_add a (f64_neg b)"

text \<open>\<open>v < w\<close>, false when an argument is NaN.\<close>

fun fp_less :: "fpval \<Rightarrow> fpval \<Rightarrow> bool" where
  "fp_less (FFin s m e) (FFin t n f) =
     (if e \<ge> f then fp_signed s m * 2 ^ nat (e - f) < fp_signed t n
      else fp_signed s m < fp_signed t n * 2 ^ nat (f - e))"
| "fp_less (FInf s) (FFin t n f) = s"
| "fp_less (FFin s m e) (FInf t) = (\<not> t)"
| "fp_less (FInf s) (FInf t) = (s \<and> \<not> t)"
| "fp_less _ _ = False"

definition f64_less :: "u64 \<Rightarrow> u64 \<Rightarrow> bool" where "f64_less a b = fp_less (f64_val a) (f64_val b)"
definition f32_less :: "u32 \<Rightarrow> u32 \<Rightarrow> bool" where "f32_less a b = fp_less (f32_val a) (f32_val b)"

section \<open>Truncation and bounds\<close>

text \<open>A finite value inside integer bounds truncates to an integer inside them.\<close>

lemma fp_trunc_bounds:
  assumes "fp_trunc v = Some t" and "\<not> fp_lt_int v lo" and "\<not> fp_gt_int v hi"
    and "lo \<le> 0" and "0 \<le> hi"
  shows "lo \<le> t \<and> t \<le> hi"
proof -
  obtain s m e where v: "v = FFin s m e" using assms(1) by (cases v) auto
  show ?thesis
  proof (cases "e \<ge> 0")
    case True
    with assms v show ?thesis by (auto simp: fp_signed_def split: if_splits)
  next
    case False
    define d where "d = (2::nat) ^ nat (- e)"
    have d: "(2::int) ^ nat (- e) = int d" "0 < d" by (simp_all add: d_def)
    have t: "t = fp_signed s (m div d)" using assms(1) v False by (simp add: d_def)
    have lo: "lo * int d \<le> fp_signed s m" and hi: "fp_signed s m \<le> hi * int d"
      using assms(2,3) v False by (auto simp: d(1))
    have m: "int (m div d) * int d \<le> int m"
      by (metis div_times_less_eq_dividend of_nat_le_iff of_nat_mult)
    show ?thesis
    proof (cases s)
      case True
      then have "int (m div d) * int d \<le> (- lo) * int d" using m lo by (simp add: fp_signed_def)
      then have "int (m div d) \<le> - lo" using d(2) by (metis mult_le_cancel_right of_nat_0_less_iff not_less)
      with True t assms(5) show ?thesis by (simp add: fp_signed_def)
    next
      case False
      then have "int (m div d) * int d \<le> hi * int d" using m hi by (simp add: fp_signed_def)
      then have "int (m div d) \<le> hi" using d(2) by (metis mult_le_cancel_right of_nat_0_less_iff not_less)
      with False t assms(4) show ?thesis by (simp add: fp_signed_def)
    qed
  qed
qed

lemma fp_trunc_lt:
  assumes "fp_trunc v = Some t" and "fp_lt_int v b" and "0 < b"
  shows "t < b"
proof -
  obtain s m e where v: "v = FFin s m e" using assms(1) by (cases v) auto
  show ?thesis
  proof (cases "e \<ge> 0 \<or> s")
    case True
    with assms v show ?thesis by (auto simp: fp_signed_def split: if_splits)
  next
    case False
    define d where "d = (2::nat) ^ nat (- e)"
    have d: "(2::int) ^ nat (- e) = int d" "0 < d" by (simp_all add: d_def)
    have t: "t = int (m div d)" using assms(1) v False by (simp add: d_def fp_signed_def)
    have "int m < b * int d" using assms(2) v False by (simp add: d(1) fp_signed_def)
    moreover have "int (m div d) * int d \<le> int m"
      by (metis div_times_less_eq_dividend of_nat_le_iff of_nat_mult)
    ultimately have "int (m div d) * int d < b * int d" by linarith
    then show ?thesis using d(2) t by simp
  qed
qed

lemma fp_trunc_None: "fp_trunc v = None \<longleftrightarrow> v = FNan \<or> (\<exists>s. v = FInf s)"
  by (cases v) auto

end
