(* ===== verification/Ieee_Round.thy ===== *)
theory Ieee_Round
  imports Ieee Complex_Main
begin

text \<open>
  Bounds on rounded \<^verbatim>\<open>double\<close> arithmetic. The magnitude of a finite number is the real number
  \<open>m * 2 ^ e\<close>; rounding a number never carries it across a power of 2, so a result whose exact
  magnitude is below such a power stays finite and below it.
\<close>

definition mag :: "nat \<Rightarrow> int \<Rightarrow> real" where
  "mag m e = real m * 2 powi e"

lemma mag_shift: "mag (m * 2 ^ k) e = mag m (e + int k)"
  by (simp add: mag_def power_int_add)

lemma mag_mult: "mag (m * n) (e + f) = mag m e * mag n f"
  by (simp add: mag_def power_int_add)

lemma mag_le_pow_iff:
  assumes "e \<le> j"
  shows "mag m e \<le> 2 powi j \<longleftrightarrow> m \<le> 2 ^ nat (j - e)"
proof -
  have "2 powi j = real (2 ^ nat (j - e)) * 2 powi e"
    using assms by (simp flip: power_int_of_nat power_int_add)
  then have "mag m e \<le> 2 powi j \<longleftrightarrow> real m \<le> real (2 ^ nat (j - e))"
    unfolding mag_def using zero_less_power_int [of "2::real" e] by (simp only: mult_le_cancel_right_pos)
  then show ?thesis by (simp only: of_nat_le_iff)
qed

lemma nat_bits_bounds:
  "m < 2 ^ nat_bits m" "m \<noteq> 0 \<Longrightarrow> 2 ^ (nat_bits m - 1) \<le> m" "m \<noteq> 0 \<Longrightarrow> 0 < nat_bits m"
proof (induction m rule: nat_bits.induct)
  case (1 n)
  {
    case 1
    show ?case using "1.IH"(1) by (cases "n = 0") (auto simp: nat_bits.simps [of n])
  next
    case 2
    show ?case
    proof (cases "n div 2 = 0")
      case True
      then show ?thesis using 2 by (simp add: nat_bits.simps [of n] nat_bits.simps [of 0])
    next
      case False
      then have "2 ^ (nat_bits (n div 2) - 1) \<le> n div 2" "0 < nat_bits (n div 2)"
        using "1.IH"(2,3) [OF 2] by auto
      then have "2 * 2 ^ (nat_bits (n div 2) - 1) \<le> n" by simp
      then have "2 ^ nat_bits (n div 2) \<le> n"
        using \<open>0 < nat_bits (n div 2)\<close> by (metis power_minus_mult mult.commute)
      then show ?thesis using 2 by (simp add: nat_bits.simps [of n])
    qed
  next
    case 3
    then show ?case by (simp add: nat_bits.simps [of n])
  }
qed

lemma round_half_even_le: "m \<le> b * 2 ^ k \<Longrightarrow> round_half_even m k \<le> b"
proof -
  assume m: "m \<le> b * 2 ^ k"
  then have q: "m div 2 ^ k \<le> b" by (metis div_le_mono nonzero_mult_div_cancel_right power_not_zero zero_neq_numeral)
  show ?thesis
  proof (cases "m div 2 ^ k = b")
    case True
    have "m mod 2 ^ k = 0"
      using m True by (metis add_le_same_cancel1 div_mult_mod_eq le_zero_eq)
    then show ?thesis using True by (simp add: round_half_even_def)
  qed (use q in \<open>auto simp: round_half_even_def Let_def\<close>)
qed

lemma round_half_even_ge: "b * 2 ^ k \<le> m \<Longrightarrow> b \<le> round_half_even m k"
proof -
  assume "b * 2 ^ k \<le> m"
  then have "b \<le> m div 2 ^ k" by (simp add: less_eq_div_iff_mult_less_eq)
  then show ?thesis by (auto simp: round_half_even_def Let_def)
qed

text \<open>The bit pattern of an encoded mantissa with its exponent field.\<close>

lemma fp_decode_bits:
  assumes m: "m \<le> 2 ^ 53" and n: "n = 0 \<or> 2 ^ 52 \<le> m" and fin: "n * 2 ^ 52 + m < 2047 * 2 ^ 52"
  shows "\<exists>M E. fp_decode 52 11 (n * 2 ^ 52 + m) = FFin False M E \<and> mag M E = mag m (int n - 1074)"
proof (cases "m < 2 ^ 52")
  case True
  then have "n = 0" using n by auto
  then show ?thesis using True by (simp add: fp_decode_def fp_bias_def Let_def mag_def)
next
  case False
  define d where "d = m - 2 ^ 52"
  have d: "m = d + 2 ^ 52" "d \<le> 2 ^ 52" using False m by (auto simp: d_def)
  show ?thesis
  proof (cases "d = 2 ^ 52")
    case True
    then have b: "n * 2 ^ 52 + m = (n + 2) * 2 ^ 52" using d by simp
    then have "n + 2 < 2047" using fin by (metis mult_less_cancel2)
    then have "fp_decode 52 11 (n * 2 ^ 52 + m) = FFin False (2 ^ 52) (int n - 1073)"
      unfolding b by (simp add: fp_decode_def fp_bias_def Let_def)
    moreover have "mag (2 ^ 52) (int n - 1073) = mag m (int n - 1074)"
      using mag_shift [of "2 ^ 52" 1 "int n - 1074"] d True by simp
    ultimately show ?thesis by blast
  next
    case False
    then have d': "d < 2 ^ 52" using d by simp
    have b: "n * 2 ^ 52 + m = (n + 1) * 2 ^ 52 + d" using d by simp
    then have "(n + 1) * 2 ^ 52 < 2047 * 2 ^ 52" using fin by linarith
    then have n': "n + 1 < 2047" by (metis mult_less_cancel2)
    have "((n + 1) * 2 ^ 52 + d) div 2 ^ 52 = n + 1" "((n + 1) * 2 ^ 52 + d) mod 2 ^ 52 = d"
      using d' mod_mult_self3 [of "n + 1" "2 ^ 52" d] div_mult_self3 [of "2 ^ 52" "n + 1" d]
      by (simp_all only: mod_less div_less)
    moreover have "((n + 1) * 2 ^ 52 + d) div 2 ^ 63 = 0"
      using n' d' by (intro div_less) (simp add: algebra_simps)
    ultimately have "fp_decode 52 11 (n * 2 ^ 52 + m) = FFin False m (int n - 1074)"
      unfolding b using n' d by (simp add: fp_decode_def fp_bias_def Let_def)
    then show ?thesis by blast
  qed
qed

text \<open>
  Rounding a positive number between two powers of 2: the mantissa and the exponent that the
  encoding computes.
\<close>

definition enc_exp :: "nat \<Rightarrow> int \<Rightarrow> int" where
  "enc_exp m e = max (e + int (nat_bits m) - 53) (- 1074)"

definition enc_man :: "nat \<Rightarrow> int \<Rightarrow> nat" where
  "enc_man m e =
     (let et = enc_exp m e in if et \<le> e then m * 2 ^ nat (e - et) else round_half_even m (nat (et - e)))"

lemma fp_encode_pos:
  "m \<noteq> 0 \<Longrightarrow> fp_encode 52 11 (FFin False m e) =
     min (2047 * 2 ^ 52) (nat (enc_exp m e + 1074) * 2 ^ 52 + enc_man m e)"
  by (simp add: fp_encode_def fp_bias_def Let_def enc_exp_def enc_man_def min_def)

lemma enc_man_le:
  assumes "enc_exp m e \<le> j" and "mag m e \<le> 2 powi j"
  shows "enc_man m e \<le> 2 ^ nat (j - enc_exp m e)"
proof (cases "enc_exp m e \<le> e")
  case True
  have "mag (enc_man m e) (enc_exp m e) = mag m e"
    using True by (simp add: enc_man_def mag_shift)
  then show ?thesis using assms mag_le_pow_iff by metis
next
  case False
  let ?k = "nat (enc_exp m e - e)"
  have "m \<le> 2 ^ nat (j - e)" using assms False mag_le_pow_iff [of e j m] by simp
  also have "nat (j - e) = nat (j - enc_exp m e) + ?k" using assms(1) False by simp
  finally have "m \<le> 2 ^ nat (j - enc_exp m e) * 2 ^ ?k" by (simp add: power_add)
  then show ?thesis using False round_half_even_le by (simp add: enc_man_def)
qed

lemma enc_man_top: "enc_man m e \<le> 2 ^ 53"
proof -
  have et: "e + int (nat_bits m) - 53 \<le> enc_exp m e" by (simp add: enc_exp_def)
  have "mag m e \<le> 2 powi (e + int (nat_bits m))"
    using nat_bits_bounds(1) [of m] mag_le_pow_iff [of e "e + int (nat_bits m)" m] by simp
  also have "\<dots> \<le> 2 powi (enc_exp m e + 53)" by (rule power_int_increasing) (use et in simp_all)
  finally show ?thesis using enc_man_le [of m e "enc_exp m e + 53"] by simp
qed

lemma enc_man_normal:
  assumes "m \<noteq> 0" and "enc_exp m e = e + int (nat_bits m) - 53"
  shows "2 ^ 52 \<le> enc_man m e"
proof -
  note b = nat_bits_bounds(2,3) [OF assms(1)]
  show ?thesis
  proof (cases "enc_exp m e \<le> e")
    case True
    then have "nat_bits m \<le> 53" "nat (e - enc_exp m e) = 53 - nat_bits m" using assms(2) by auto
    moreover from this have "(2::nat) ^ 52 = 2 ^ (nat_bits m - 1) * 2 ^ (53 - nat_bits m)"
      using b(2) by (simp flip: power_add)
    moreover have "2 ^ (nat_bits m - 1) * 2 ^ (53 - nat_bits m) \<le> m * 2 ^ (53 - nat_bits m)"
      using b(1) by (rule mult_right_mono) simp
    ultimately show ?thesis using True by (simp add: enc_man_def)
  next
    case False
    then have "53 < nat_bits m" "nat (enc_exp m e - e) = nat_bits m - 53" using assms(2) by auto
    moreover from this have "(2::nat) ^ (nat_bits m - 1) = 2 ^ 52 * 2 ^ (nat_bits m - 53)"
      unfolding power_add [symmetric] by (intro arg_cong [where f = "\<lambda>k. 2 ^ k"]) linarith
    ultimately have "2 ^ 52 * 2 ^ (nat_bits m - 53) \<le> m" using b(1) by simp
    then have "2 ^ 52 \<le> round_half_even m (nat_bits m - 53)" by (rule round_half_even_ge)
    then show ?thesis using False \<open>nat (enc_exp m e - e) = nat_bits m - 53\<close> by (simp add: enc_man_def)
  qed
qed

lemma enc_exp_le:
  assumes "m \<noteq> 0" and "mag m e \<le> 2 powi j" and "- 1022 \<le> j"
  shows "enc_exp m e \<le> j - 52"
proof -
  have "2 powi (e + int (nat_bits m) - 1) \<le> mag m e"
  proof -
    have "2 powi (e + int (nat_bits m) - 1) = real (2 ^ (nat_bits m - 1)) * 2 powi e"
      using nat_bits_bounds(3) [OF assms(1)] by (simp flip: power_int_of_nat power_int_add add: of_nat_diff algebra_simps)
    also have "\<dots> \<le> mag m e"
      unfolding mag_def using nat_bits_bounds(2) [OF assms(1)] by (intro mult_right_mono) (simp_all only: of_nat_le_iff, simp)
    finally show ?thesis .
  qed
  then have "2 powi (e + int (nat_bits m) - 1) \<le> (2::real) powi j" using assms(2) by linarith
  then have "e + int (nat_bits m) - 1 \<le> j"
    by (metis not_less one_less_numeral_iff power_int_strict_increasing semiring_norm(76))
  then show ?thesis using assms(3) by (simp add: enc_exp_def)
qed

text \<open>The \<^verbatim>\<open>double\<close> that encodes a number in range reads back as the rounded mantissa.\<close>

lemma fp_round_eq:
  assumes "m \<noteq> 0" and "mag m e \<le> 2 powi j" and "- 1022 \<le> j" and "j \<le> 1000"
  shows "\<exists>M E. f64_val (of_nat (fp_encode 52 11 (FFin False m e))) = FFin False M E
    \<and> mag M E = mag (enc_man m e) (enc_exp m e)"
proof -
  let ?n = "nat (enc_exp m e + 1074)" and ?m = "enc_man m e"
  have et: "enc_exp m e \<le> j - 52" "- 1074 \<le> enc_exp m e" using enc_exp_le [OF assms(1-3)] by (auto simp: enc_exp_def)
  have top: "?m \<le> 2 ^ 53" by (rule enc_man_top)
  have "?n \<le> 2022" using et assms(4) by simp
  then have "?n * 2 ^ 52 \<le> 2022 * 2 ^ 52" by simp
  then have fin: "?n * 2 ^ 52 + ?m < 2047 * 2 ^ 52" using top by simp
  have norm: "?n = 0 \<or> 2 ^ 52 \<le> ?m"
    using enc_man_normal [OF assms(1), of e] by (auto simp: enc_exp_def max_def split: if_splits)
  obtain M E where ME: "fp_decode 52 11 (?n * 2 ^ 52 + ?m) = FFin False M E" "mag M E = mag ?m (int ?n - 1074)"
    using fp_decode_bits [OF top norm fin] by blast
  have enc: "fp_encode 52 11 (FFin False m e) = ?n * 2 ^ 52 + ?m" using fp_encode_pos [OF assms(1)] fin by simp
  moreover have "unat (of_nat (?n * 2 ^ 52 + ?m) :: u64) = ?n * 2 ^ 52 + ?m"
  proof -
    have "(2047 * 2 ^ 52 :: nat) < 2 ^ LENGTH(64)" by simp
    then have "?n * 2 ^ 52 + ?m < 2 ^ LENGTH(64)" using fin by linarith
    then show ?thesis by (simp only: unat_of_nat mod_less)
  qed
  ultimately have "f64_val (of_nat (fp_encode 52 11 (FFin False m e))) = FFin False M E"
    unfolding f64_val_def using ME(1) by simp
  then show ?thesis using ME(2) et(2) by auto
qed

text \<open>
  Rounding to a \<^verbatim>\<open>double\<close> and reading it back: finite, not negative, and still not above a power
  of 2 that bounds the exact number; a normal number is not below the power of 2 under it.
\<close>

lemma fp_round_le:
  assumes "mag m e \<le> 2 powi j" and "- 1022 \<le> j" and "j \<le> 1000"
  shows "\<exists>M E. f64_val (of_nat (fp_encode 52 11 (FFin False m e))) = FFin False M E \<and> mag M E \<le> 2 powi j
    \<and> (m \<noteq> 0 \<longrightarrow> - 1022 \<le> e + int (nat_bits m) - 1 \<longrightarrow> 2 powi (e + int (nat_bits m) - 1) \<le> mag M E)"
proof (cases "m = 0")
  case True
  then show ?thesis by (simp add: fp_encode_def f64_val_def fp_decode_def fp_bias_def mag_def)
next
  case False
  let ?m = "enc_man m e"
  have et: "enc_exp m e \<le> j - 52" using enc_exp_le [OF False assms(1,2)] .
  obtain M E where val: "f64_val (of_nat (fp_encode 52 11 (FFin False m e))) = FFin False M E"
    and mag: "mag M E = mag ?m (enc_exp m e)"
    using fp_round_eq [OF False assms] by blast
  have "mag M E \<le> 2 powi j"
    unfolding mag using mag_le_pow_iff [of "enc_exp m e" j ?m] enc_man_le [of m e j] et assms(1) by simp
  moreover have "2 powi (e + int (nat_bits m) - 1) \<le> mag M E" if "- 1022 \<le> e + int (nat_bits m) - 1"
  proof -
    have n: "enc_exp m e = e + int (nat_bits m) - 53" using that by (simp add: enc_exp_def)
    have "2 powi (e + int (nat_bits m) - 1) = real (2 ^ 52) * 2 powi (enc_exp m e)"
    proof -
      have "e + int (nat_bits m) - 1 = 52 + enc_exp m e" using n by simp
      moreover have "(2::real) powi (52 + enc_exp m e) = 2 powi 52 * 2 powi enc_exp m e" by (rule power_int_add) simp
      ultimately show ?thesis by simp
    qed
    also have "\<dots> \<le> mag ?m (enc_exp m e)"
      unfolding mag_def using enc_man_normal [OF False n] by (intro mult_right_mono) (simp_all only: of_nat_le_iff, simp)
    finally show ?thesis using mag by simp
  qed
  ultimately show ?thesis using val by blast
qed

section \<open>Quotients, products and truncation\<close>

lemma fp_div_le:
  assumes n: "n \<noteq> 0" and le: "mag m e \<le> 2 powi j * mag n f"
  shows "\<exists>q g. fp_div (FFin False m e) (FFin False n f) = FFin False q g \<and> mag q g \<le> 2 powi j"
proof (cases "m = 0")
  case True
  then show ?thesis using n by (simp add: Let_def mag_def)
next
  case False
  let ?k = "64 + nat_bits n"
  let ?q = "(m * 2 ^ ?k) div n" and ?r = "(m * 2 ^ ?k) mod n"
  let ?J = "j - e + f"
  have J: "- int (nat_bits n) < ?J"
  proof (rule ccontr)
    assume "\<not> - int (nat_bits n) < ?J"
    then have "(2::real) powi ?J \<le> 2 powi (- int (nat_bits n))" by (intro power_int_increasing) simp_all
    moreover have "real n < 2 ^ nat_bits n" using nat_bits_bounds(1) [of n]
      by (metis of_nat_less_iff of_nat_numeral of_nat_power)
    ultimately have "2 powi ?J * real n < 2 powi (- int (nat_bits n)) * 2 ^ nat_bits n"
      using n by (intro mult_le_less_imp_less) simp_all
    then have "2 powi ?J * real n < 1" by (simp add: power_int_minus)
    moreover have "1 \<le> real m" using False by simp
    moreover have "real m \<le> 2 powi ?J * real n"
    proof -
      have "real m * 2 powi e \<le> (2 powi ?J * real n) * 2 powi e"
        using le by (simp add: mag_def power_int_add power_int_diff algebra_simps)
      then show ?thesis by (simp only: mult_le_cancel_right_pos zero_less_power_int zero_less_numeral)
    qed
    ultimately show False by linarith
  qed
  define b where "b = nat (?J + int ?k)"
  have b: "int b = ?J + int ?k" using J by (simp add: b_def)
  have "m * 2 ^ ?k \<le> n * 2 ^ b"
  proof -
    have "real m * 2 powi e \<le> (2 powi ?J * real n) * 2 powi e"
      using le by (simp add: mag_def power_int_add power_int_diff algebra_simps)
    then have "real m \<le> 2 powi ?J * real n"
      by (simp only: mult_le_cancel_right_pos zero_less_power_int zero_less_numeral)
    then have "real m * 2 ^ ?k \<le> 2 powi ?J * real n * 2 ^ ?k" by (intro mult_right_mono) simp_all
    also have "\<dots> = real n * 2 powi int b"
      unfolding b using power_int_add [of "2::real" ?J "int ?k"] power_int_of_nat [of "2::real" ?k]
      by (simp del: power_int_of_nat)
    finally have "real (m * 2 ^ ?k) \<le> real (n * 2 ^ b)" by simp
    then show ?thesis by (simp only: of_nat_le_iff)
  qed
  then have q: "2 * ?q + (if ?r = 0 then 0 else 1) \<le> 2 ^ (b + 1)"
  proof -
    have "?q \<le> 2 ^ b" using \<open>m * 2 ^ ?k \<le> n * 2 ^ b\<close> n
      by (metis div_le_mono nonzero_mult_div_cancel_left)
    moreover have "?q < 2 ^ b" if "?r \<noteq> 0"
    proof (rule ccontr)
      assume "\<not> ?q < 2 ^ b"
      then have "n * 2 ^ b \<le> n * ?q" by simp
      then have "m * 2 ^ ?k \<le> n * ?q" using \<open>m * 2 ^ ?k \<le> n * 2 ^ b\<close> by linarith
      then show False using that by (metis add_le_same_cancel1 le_zero_eq mult_div_mod_eq)
    qed
    ultimately show ?thesis by auto
  qed
  let ?Q = "2 * ?q + (if ?r = 0 then 0 else 1)" and ?g = "e - f - int ?k - 1"
  have "?g \<le> j" "nat (j - ?g) = b + 1" using b by auto
  then have "mag ?Q ?g \<le> 2 powi j" using mag_le_pow_iff [of ?g j ?Q] q by simp
  then show ?thesis using n by (auto simp: Let_def)
qed

lemma fp_trunc_le:
  assumes "mag m e \<le> 2 powi int k"
  shows "\<exists>t. fp_trunc (FFin False m e) = Some t \<and> 0 \<le> t \<and> t \<le> 2 ^ k"
proof -
  have "(if e \<ge> 0 then m * 2 ^ nat e else m div 2 ^ nat (- e)) \<le> 2 ^ k"
  proof (cases "e \<ge> 0")
    case True
    then have "real (m * 2 ^ nat e) \<le> real (2 ^ k)"
      using assms by (simp add: mag_def flip: power_int_of_nat)
    then show ?thesis using True by (simp only: of_nat_le_iff if_True)
  next
    case False
    then have "m \<le> 2 ^ nat (int k - e)" using assms mag_le_pow_iff [of e "int k" m] by simp
    also have "nat (int k - e) = k + nat (- e)" using False by simp
    finally have "m \<le> 2 ^ k * 2 ^ nat (- e)" by (simp add: power_add)
    then have "m div 2 ^ nat (- e) \<le> 2 ^ k"
      by (metis div_le_mono nonzero_mult_div_cancel_right power_not_zero zero_neq_numeral)
    then show ?thesis using False by simp
  qed
  then have "int (if e \<ge> 0 then m * 2 ^ nat e else m div 2 ^ nat (- e)) \<le> 2 ^ k"
    by (metis of_nat_le_iff of_nat_numeral of_nat_power)
  then show ?thesis by (auto simp: fp_signed_def Let_def)
qed

text \<open>Converting a natural number below \<open>2 ^ 64\<close> to a \<^verbatim>\<open>double\<close>.\<close>

lemma int_to_f64_bounds:
  assumes "0 \<le> i" and "nat_bits (nat i) \<le> 64"
  shows "\<exists>M E. f64_val (int_to_f64 i) = FFin False M E \<and> mag M E \<le> 2 powi int (nat_bits (nat i))
    \<and> (i \<noteq> 0 \<longrightarrow> 2 powi (int (nat_bits (nat i)) - 1) \<le> mag M E)"
proof -
  have "mag (nat i) 0 \<le> 2 powi int (nat_bits (nat i))"
    using nat_bits_bounds(1) [of "nat i"] mag_le_pow_iff [of 0 "int (nat_bits (nat i))" "nat i"] by simp
  moreover have "i \<noteq> 0 \<longrightarrow> 0 < nat_bits (nat i)" using assms(1) nat_bits_bounds(3) [of "nat i"] by simp
  ultimately show ?thesis
    using fp_round_le [of "nat i" 0 "int (nat_bits (nat i))"] assms
    by (auto simp: int_to_f64_def fp_of_int_def)
qed

lemma nat_bits_0 [simp]: "nat_bits 0 = 0"
  by (simp add: nat_bits.simps)

lemma nat_bits_mono: "m \<le> n \<Longrightarrow> nat_bits m \<le> nat_bits n"
proof (rule ccontr)
  assume mn: "m \<le> n" and "\<not> nat_bits m \<le> nat_bits n"
  then have "m \<noteq> 0" "nat_bits n \<le> nat_bits m - 1"
    by (metis nat_bits_0 le0, simp)
  then have "2 ^ nat_bits n \<le> m"
    using nat_bits_bounds(2) [of m] by (meson le_trans one_le_numeral power_increasing)
  then show False using mn nat_bits_bounds(1) [of n] by simp
qed

lemma nat_bits_le: "m < 2 ^ k \<Longrightarrow> nat_bits m \<le> k"
proof (rule ccontr)
  assume "m < 2 ^ k" "\<not> nat_bits m \<le> k"
  moreover from this have "m \<noteq> 0" by (metis nat_bits_0 le0)
  ultimately have "2 ^ (nat_bits m - 1) \<le> m" "(2::nat) ^ k \<le> 2 ^ (nat_bits m - 1)"
    using nat_bits_bounds(2) [of m] by (simp_all add: power_increasing)
  then have "2 ^ k \<le> m" by (rule le_trans [rotated])
  then show False using \<open>m < 2 ^ k\<close> by simp
qed

text \<open>
  The position guess of the time map searches: a fraction \<open>a / b\<close> with \<open>a \<le> b\<close> times a count
  below \<open>2 ^ 62\<close> converts back to an integer.
\<close>

lemma f64_scale_trunc:
  assumes "0 \<le> a" "a \<le> b" "0 < b" "b < 2 ^ 64" and s: "s \<le> 2 ^ 62"
  shows "\<exists>t. fp_trunc (f64_val (f64_mul (int_to_f64 (int s)) (f64_div (int_to_f64 a) (int_to_f64 b)))) = Some t
    \<and> 0 \<le> t \<and> t \<le> 2 ^ 64 - 1"
proof -
  have nb: "nat_bits (nat a) \<le> nat_bits (nat b)" "nat_bits (nat b) \<le> 64"
    using assms nat_bits_mono [of "nat a" "nat b"] nat_bits_le [of "nat b" 64] by auto
  obtain A EA where A: "f64_val (int_to_f64 a) = FFin False A EA" "mag A EA \<le> 2 powi int (nat_bits (nat a))"
    using int_to_f64_bounds [of a] assms nb by auto
  obtain B EB where B: "f64_val (int_to_f64 b) = FFin False B EB" "2 powi (int (nat_bits (nat b)) - 1) \<le> mag B EB"
    using int_to_f64_bounds [of b] assms nb by auto
  have B0: "B \<noteq> 0"
  proof
    assume "B = 0"
    then have "(2::real) powi (int (nat_bits (nat b)) - 1) \<le> 0" using B(2) by (simp add: mag_def)
    moreover have "0 < (2::real) powi (int (nat_bits (nat b)) - 1)" by (rule zero_less_power_int) simp
    ultimately show False by linarith
  qed
  have "(2::real) powi int (nat_bits (nat a)) \<le> 2 powi int (nat_bits (nat b))"
    by (rule power_int_increasing) (use nb(1) in simp_all)
  then have "mag A EA \<le> 2 powi int (nat_bits (nat b))" using A(2) by linarith
  also have "\<dots> = 2 powi 1 * 2 powi (int (nat_bits (nat b)) - 1)"
    using power_int_add [of "2::real" 1 "int (nat_bits (nat b)) - 1"] by simp
  also have "\<dots> \<le> 2 powi 1 * mag B EB" using B(2) by (intro mult_left_mono) simp_all
  finally obtain q g where q: "fp_div (FFin False A EA) (FFin False B EB) = FFin False q g" "mag q g \<le> 2 powi 1"
    using fp_div_le [OF B0] by blast
  obtain D ED where D: "f64_val (f64_div (int_to_f64 a) (int_to_f64 b)) = FFin False D ED" "mag D ED \<le> 2 powi 1"
    using fp_round_le [OF q(2)] q(1) A(1) B(1) by (auto simp: f64_div_def)
  have "mag s 0 \<le> 2 powi 62" using s mag_le_pow_iff [of 0 62 s] by simp
  then obtain S ES where S: "f64_val (int_to_f64 (int s)) = FFin False S ES" "mag S ES \<le> 2 powi 62"
    using fp_round_le [of s 0 62] by (auto simp: int_to_f64_def fp_of_int_def)
  have "mag (S * D) (ES + ED) \<le> 2 powi 62 * 2 powi 1"
    unfolding mag_mult using S(2) D(2) by (intro mult_mono) (simp_all add: mag_def)
  then have "mag (S * D) (ES + ED) \<le> 2 powi 63" by (simp flip: power_int_add)
  then obtain P EP where P: "f64_val (f64_mul (int_to_f64 (int s)) (f64_div (int_to_f64 a) (int_to_f64 b))) = FFin False P EP"
    "mag P EP \<le> 2 powi 63"
    using fp_round_le [of "S * D" "ES + ED" 63] S(1) D(1) by (auto simp: f64_mul_def)
  then obtain t where "fp_trunc (FFin False P EP) = Some t" "0 \<le> t" "t \<le> 2 ^ 63"
    using fp_trunc_le [of P EP 63] by auto
  then show ?thesis using P(1) by (intro exI [of _ t]) simp
qed

section \<open>Exact results and the rounding error\<close>

lemma round_half_even_cases:
  "round_half_even m k = m div 2 ^ k \<and> 2 * (m mod 2 ^ k) \<le> 2 ^ k
   \<or> round_half_even m k = m div 2 ^ k + 1 \<and> 2 ^ k \<le> 2 * (m mod 2 ^ k)"
  by (auto simp: round_half_even_def Let_def)

lemma round_half_even_error: "2 * \<bar>int (round_half_even m k * 2 ^ k) - int m\<bar> \<le> 2 ^ k"
proof -
  define P q r where "P = (2 ^ k :: nat)" and "q = m div 2 ^ k" and "r = m mod 2 ^ k"
  have m: "m = q * P + r" unfolding P_def q_def r_def by (rule div_mult_mod_eq [symmetric])
  have r: "r < P" by (simp add: P_def r_def)
  have "round_half_even m k = q \<and> 2 * r \<le> P \<or> round_half_even m k = q + 1 \<and> P \<le> 2 * r"
    using round_half_even_cases [of m k] by (simp only: P_def q_def r_def)
  then have "2 * \<bar>int (round_half_even m k * P) - int m\<bar> \<le> int P"
  proof
    assume a: "round_half_even m k = q \<and> 2 * r \<le> P"
    then show ?thesis using m by simp
  next
    assume a: "round_half_even m k = q + 1 \<and> P \<le> 2 * r"
    then have "int (round_half_even m k * P) - int m = int P - int r" using m by (simp add: algebra_simps)
    then show ?thesis using a r by simp
  qed
  then show ?thesis by (simp add: P_def)
qed

lemma enc_exact:
  assumes "nat_bits m \<le> 53" and "- 1074 \<le> e"
  shows "mag (enc_man m e) (enc_exp m e) = mag m e"
proof -
  have "enc_exp m e \<le> e" using assms by (simp add: enc_exp_def)
  then show ?thesis by (simp add: enc_man_def mag_shift)
qed

lemma enc_error:
  assumes m: "m \<noteq> 0" and n: "- 1022 \<le> e + int (nat_bits m) - 1"
  shows "\<bar>mag (enc_man m e) (enc_exp m e) - mag m e\<bar> \<le> mag m e * 2 powi - 53"
proof (cases "nat_bits m \<le> 53")
  case True
  then have "enc_exp m e \<le> e" using n by (simp add: enc_exp_def)
  then have "mag (enc_man m e) (enc_exp m e) = mag m e" by (simp add: enc_man_def mag_shift)
  then show ?thesis by (simp add: mag_def)
next
  case False
  define k where "k = nat_bits m - 53"
  have et: "enc_exp m e = e + int k" using n False by (simp add: enc_exp_def k_def)
  moreover have "0 < k" using False by (simp add: k_def)
  ultimately have em: "enc_man m e = round_half_even m k" by (simp add: enc_man_def)
  have "mag (enc_man m e) (enc_exp m e) - mag m e
        = (real (round_half_even m k * 2 ^ k) - real m) * 2 powi e"
    unfolding et em by (simp add: mag_shift [symmetric]) (simp add: mag_def algebra_simps)
  then have "\<bar>mag (enc_man m e) (enc_exp m e) - mag m e\<bar>
        = \<bar>real (round_half_even m k * 2 ^ k) - real m\<bar> * 2 powi e" by (simp add: abs_mult)
  also have "2 * \<bar>real (round_half_even m k * 2 ^ k) - real m\<bar> \<le> 2 ^ k"
  proof -
    have "real_of_int (2 * \<bar>int (round_half_even m k * 2 ^ k) - int m\<bar>) \<le> real_of_int (2 ^ k)"
      using round_half_even_error of_int_le_iff by blast
    then show ?thesis by simp
  qed
  then have "\<bar>real (round_half_even m k * 2 ^ k) - real m\<bar> * 2 powi e \<le> 2 ^ k / 2 * 2 powi e"
    by (intro mult_right_mono) simp_all
  also have "2 ^ k / 2 * 2 powi e \<le> real m * 2 powi - 53 * 2 powi e"
  proof (rule mult_right_mono)
    have "(2::nat) ^ (k + 52) \<le> m" using nat_bits_bounds(2) [OF m] False by (simp add: k_def)
    then have "real (2 ^ (k + 52)) \<le> real m" by (simp only: of_nat_le_iff)
    then show "2 ^ k / 2 \<le> real m * 2 powi - 53"
      by (simp add: power_int_minus field_simps power_add)
  qed simp
  finally show ?thesis by (simp add: mag_def algebra_simps)
qed

lemma fp_decode_man:
  assumes "fp_decode 52 11 n = FFin s m e"
  shows "m < 2 ^ 53" and "- 1074 \<le> e"
proof -
  have "n mod 2 ^ 52 < (2 ^ 52 :: nat)" by simp
  with assms show "m < 2 ^ 53" "- 1074 \<le> e"
    by (auto simp: fp_decode_def fp_bias_def Let_def split: if_splits)
qed

lemma round_half_even_shift:
  assumes "j \<le> k"
  shows "round_half_even (a * 2 ^ k) j = a * 2 ^ (k - j)"
proof -
  have "a * 2 ^ k = a * 2 ^ (k - j) * 2 ^ j" using assms by (simp flip: power_add)
  then show ?thesis by (simp only: round_half_even_def Let_def) simp
qed

text \<open>A mantissa of at most 53 bits times a power of 2 is encoded exactly.\<close>

lemma enc_exact_shift:
  assumes "nat_bits a \<le> 53" and "nat_bits (a * 2 ^ k) \<le> nat_bits a + k" and "- 1074 \<le> e + int k"
  shows "mag (enc_man (a * 2 ^ k) e) (enc_exp (a * 2 ^ k) e) = mag a (e + int k)"
proof (cases "enc_exp (a * 2 ^ k) e \<le> e")
  case True
  then show ?thesis by (simp add: enc_man_def mag_shift mag_shift [of a k])
next
  case False
  define j where "j = nat (enc_exp (a * 2 ^ k) e - e)"
  have "enc_exp (a * 2 ^ k) e \<le> e + int k" using assms by (simp add: enc_exp_def)
  then have j: "j \<le> k" "enc_exp (a * 2 ^ k) e = e + int j" using False by (simp_all add: j_def)
  then have "enc_man (a * 2 ^ k) e = a * 2 ^ (k - j)"
    using False round_half_even_shift [OF j(1), of a] by (simp add: enc_man_def)
  then show ?thesis using j mag_shift [of a "k - j" "e + int j"] by (simp add: of_nat_diff)
qed

text \<open>\<^verbatim>\<open>pow(2, e)\<close> of the C library.\<close>

definition pow2_f64 :: "int \<Rightarrow> u64" where
  "pow2_f64 e = of_nat (fp_encode 52 11 (FFin False 1 e))"

lemma pow2_val:
  assumes "- 1022 \<le> e" and "e \<le> 1000"
  shows "\<exists>k E. f64_val (pow2_f64 e) = FFin False (2 ^ k) E \<and> e = int k + E"
proof -
  have b1: "nat_bits 1 = 1" by (simp add: nat_bits.simps)
  obtain M E where v: "f64_val (pow2_f64 e) = FFin False M E" and "mag M E = mag (enc_man 1 e) (enc_exp 1 e)"
    using fp_round_eq [of 1 e e] assms by (auto simp: pow2_f64_def mag_def)
  then have "mag M E = mag 1 e" using enc_exact [of 1 e] b1 assms by simp
  then have M: "real M = 2 powi (e - E)"
    by (simp add: mag_def power_int_diff field_simps)
  have "0 \<le> e - E"
  proof (rule ccontr)
    assume "\<not> 0 \<le> e - E"
    then have "2 powi (e - E) < (1::real)"
      using power_int_strict_increasing [of "e - E" 0 "2::real"] by simp
    moreover have "0 < real M" unfolding M by simp
    then have "1 \<le> real M" by simp
    ultimately show False using M by linarith
  qed
  then obtain k where k: "e - E = int k" using zero_le_imp_eq_int by blast
  then have "real M = real (2 ^ k)" using M by simp
  then have "M = 2 ^ k" by (simp only: of_nat_eq_iff)
  with v k show ?thesis by (intro exI [of _ k] exI [of _ E]) simp
qed

text \<open>Converting an integer of 64 bits and scaling it by a power of 2 rounds once, to 53 bits.\<close>

lemma f64_scale_error:
  assumes "2 ^ 63 \<le> h" and "h < 2 ^ 64" and "- 900 \<le> e" and "e \<le> 900"
  shows "\<exists>M E. f64_val (f64_mul (int_to_f64 (int h)) (pow2_f64 e)) = FFin False M E
    \<and> \<bar>mag M E - mag h e\<bar> \<le> mag h e * 2 powi - 53"
proof -
  have "real (2 ^ 63) \<le> real h" "real h < real (2 ^ 64)"
    using assms(1,2) by (simp_all only: of_nat_less_iff of_nat_le_iff)
  then have h: "h \<noteq> 0" "2 ^ 63 \<le> real h" "real h < 2 ^ 64" by auto
  have h0: "mag h 0 = real h" by (simp add: mag_def)
  obtain M1 E1 where v1: "f64_val (int_to_f64 (int h)) = FFin False M1 E1"
    and m1: "mag M1 E1 = mag (enc_man h 0) (enc_exp h 0)"
    using fp_round_eq [of h 0 64] h by (auto simp: int_to_f64_def fp_of_int_def h0)
  have err: "\<bar>mag M1 E1 - real h\<bar> \<le> real h * 2 powi - 53"
    using enc_error [of h 0] h(1) unfolding m1 h0 by simp
  have M1: "M1 < 2 ^ 53" using v1 fp_decode_man by (simp add: f64_val_def)
  have lo: "2 ^ 62 \<le> mag M1 E1" and hi: "mag M1 E1 \<le> 2 ^ 65"
  proof -
    have "real h * 2 powi - 53 \<le> real h * (1 / 2)" by (intro mult_left_mono) (simp_all add: power_int_minus)
    then have "\<bar>mag M1 E1 - real h\<bar> \<le> real h / 2" using err by linarith
    moreover have "(2::real) ^ 63 = 2 * 2 ^ 62" "(2::real) ^ 65 = 2 * 2 ^ 64" by simp_all
    ultimately show "2 ^ 62 \<le> mag M1 E1" "mag M1 E1 \<le> 2 ^ 65" using h(2,3) by linarith+
  qed
  have "M1 \<noteq> 0"
  proof
    assume "M1 = 0"
    then show False using lo by (simp add: mag_def)
  qed
  have "(0::real) < 2 powi E1" by simp
  then have "mag M1 E1 \<le> 2 ^ 53 * 2 powi E1"
  proof -
    have "real M1 \<le> real (2 ^ 53)" using M1 by (simp only: of_nat_le_iff)
    then show ?thesis unfolding mag_def by (intro mult_right_mono) simp_all
  qed
  then have "2 ^ 62 \<le> 2 ^ 53 * (2::real) powi E1" using lo by linarith
  then have "1 \<le> (2::real) powi E1" by simp
  then have E1: "0 \<le> E1" using power_int_strict_increasing [of E1 0 "2::real"] by fastforce
  obtain k E2 where v2: "f64_val (pow2_f64 e) = FFin False (2 ^ k) E2" and e: "e = int k + E2"
    using pow2_val [of e] assms(3,4) by auto
  have mul: "f64_mul (int_to_f64 (int h)) (pow2_f64 e) = of_nat (fp_encode 52 11 (FFin False (M1 * 2 ^ k) (E1 + E2)))"
    by (simp add: f64_mul_def v1 v2)
  have p: "mag (M1 * 2 ^ k) (E1 + E2) = mag M1 E1 * 2 powi e"
    unfolding mag_shift e by (simp add: mag_def power_int_add)
  have "mag M1 E1 * 2 powi e \<le> 2 powi 65 * 2 powi 900"
    using hi assms(4) by (intro mult_mono power_int_increasing) (simp_all add: mag_def)
  then have "mag (M1 * 2 ^ k) (E1 + E2) \<le> 2 powi 965" unfolding p power_int_add [symmetric] by simp
  then obtain M E where v: "f64_val (f64_mul (int_to_f64 (int h)) (pow2_f64 e)) = FFin False M E"
    and m: "mag M E = mag (enc_man (M1 * 2 ^ k) (E1 + E2)) (enc_exp (M1 * 2 ^ k) (E1 + E2))"
    unfolding mul using fp_round_eq [of "M1 * 2 ^ k" "E1 + E2" 965] \<open>M1 \<noteq> 0\<close> by auto
  note m
  also have "mag (enc_man (M1 * 2 ^ k) (E1 + E2)) (enc_exp (M1 * 2 ^ k) (E1 + E2)) = mag M1 (E1 + E2 + int k)"
  proof (rule enc_exact_shift)
    show "nat_bits M1 \<le> 53" using M1 by (rule nat_bits_le)
    have "M1 * 2 ^ k < 2 ^ (nat_bits M1 + k)" using nat_bits_bounds(1) [of M1] by (simp add: power_add)
    then show "nat_bits (M1 * 2 ^ k) \<le> nat_bits M1 + k" by (rule nat_bits_le)
    show "- 1074 \<le> E1 + E2 + int k" using E1 e assms(3) by simp
  qed
  finally have "mag M E = mag M1 E1 * 2 powi e" using p by (simp add: mag_shift)
  moreover have "mag h e = real h * 2 powi e" by (simp add: mag_def)
  ultimately have "\<bar>mag M E - mag h e\<bar> = \<bar>mag M1 E1 - real h\<bar> * 2 powi e"
    by (simp add: left_diff_distrib [symmetric] abs_mult)
  also have "\<dots> \<le> real h * 2 powi - 53 * 2 powi e" using err by (intro mult_right_mono) simp_all
  finally show ?thesis using v by (auto simp: mag_def algebra_simps)
qed

end
