(* ===== verification/Union.thy ===== *)
theory Union
  imports Cstr Ieee
begin

text \<open>
  The tagged value type of \<^verbatim>\<open>include/jsdrv/union.h\<close> and \<^verbatim>\<open>src/union.c\<close>. The 8-byte C union is
  its little-endian bit pattern \<open>u_value\<close>, read at each width as C reads it; for the pointer
  types \<open>u_ptr\<close> is the memory the pointer refers to (None for NULL).
  \<^verbatim>\<open>jsdrv_union_value_to_str\<close>, which formats with a vendored printf, is not modelled.
\<close>

section \<open>Data\<close>

datatype union_e =
    U_NULL | U_STR | U_JSON | U_BIN | U_STDMSG | U_FRAME | U_F32 | U_F64
  | U_U8 | U_U16 | U_U32 | U_U64 | U_I8 | U_I16 | U_I32 | U_I64
  | U_OTHER nat

fun union_code :: "union_e \<Rightarrow> nat" where
  "union_code U_NULL = 0"
| "union_code U_STR = 1"
| "union_code U_JSON = 2"
| "union_code U_BIN = 3"
| "union_code U_STDMSG = 4"
| "union_code U_FRAME = 5"
| "union_code U_F32 = 6"
| "union_code U_F64 = 7"
| "union_code U_U8 = 8"
| "union_code U_U16 = 9"
| "union_code U_U32 = 10"
| "union_code U_U64 = 11"
| "union_code U_I8 = 12"
| "union_code U_I16 = 13"
| "union_code U_I32 = 14"
| "union_code U_I64 = 15"
| "union_code (U_OTHER n) = n"

definition JSDRV_UNION_FLAG_RETAIN :: u8 where "JSDRV_UNION_FLAG_RETAIN = 1"
definition JSDRV_UNION_FLAG_CONST :: u8 where "JSDRV_UNION_FLAG_CONST = 2"
definition JSDRV_UNION_FLAG_HEAP_MEMORY :: u8 where "JSDRV_UNION_FLAG_HEAP_MEMORY = 128"

record union_s =
  u_type :: union_e
  u_flags :: u8
  u_op :: u8
  u_app :: u8
  u_size :: u32
  u_value :: u64
  u_ptr :: "char list option"

definition union_of :: "union_e \<Rightarrow> u64 \<Rightarrow> union_s" where
  "union_of t v = \<lparr>u_type = t, u_flags = 0, u_op = 0, u_app = 0, u_size = 0, u_value = v, u_ptr = None\<rparr>"

definition jsdrv_union_null :: union_s where "jsdrv_union_null = union_of U_NULL 0"
definition jsdrv_union_i32 :: "int \<Rightarrow> union_s" where
  "jsdrv_union_i32 v = union_of U_I32 (signed_take_bit 31 (of_int v))"
definition jsdrv_union_str :: "char list \<Rightarrow> union_s" where
  "jsdrv_union_str s = (union_of U_STR 0)\<lparr>u_ptr := Some s\<rparr>"

section \<open>The views of the C union\<close>

definition v_u8 :: "union_s \<Rightarrow> u64" where "v_u8 x = take_bit 8 (u_value x)"
definition v_u16 :: "union_s \<Rightarrow> u64" where "v_u16 x = take_bit 16 (u_value x)"
definition v_u32 :: "union_s \<Rightarrow> u64" where "v_u32 x = take_bit 32 (u_value x)"
definition v_i8 :: "union_s \<Rightarrow> u64" where "v_i8 x = signed_take_bit 7 (u_value x)"
definition v_i16 :: "union_s \<Rightarrow> u64" where "v_i16 x = signed_take_bit 15 (u_value x)"
definition v_i32 :: "union_s \<Rightarrow> u64" where "v_i32 x = signed_take_bit 31 (u_value x)"
definition v_f32 :: "union_s \<Rightarrow> u32" where "v_f32 x = ucast (u_value x)"

text \<open>A store to a narrow member replaces the low bytes.\<close>

definition put_low :: "nat \<Rightarrow> u64 \<Rightarrow> u64 \<Rightarrow> u64" where
  "put_low n old v = take_bit n v OR (old AND NOT (mask n))"

section \<open>Equality\<close>

definition mem_strlen :: "char list option \<Rightarrow> nat c" where
  "mem_strlen p = (case p of
     None \<Rightarrow> Inl OutOfBounds
   | Some b \<Rightarrow> if NUL \<in> set b then Inr (length (cstr_of b)) else Inl OutOfBounds)"

definition mem_cmp_eq :: "char list option \<Rightarrow> char list option \<Rightarrow> nat \<Rightarrow> bool c" where
  "mem_cmp_eq p q n =
     (if n = 0 then Inr True
      else case (p, q) of
        (Some a, Some b) \<Rightarrow>
          if n \<le> length a \<and> n \<le> length b then Inr (take n a = take n b) else Inl OutOfBounds
      | _ \<Rightarrow> Inl OutOfBounds)"

definition str_size :: "union_s \<Rightarrow> nat c" where
  "str_size v =
     (if u_size v \<noteq> 0 then Inr (unat (u_size v))
      else cbind (mem_strlen (u_ptr v)) (\<lambda>n. Inr (n + 1)))"

definition jsdrv_union_eq :: "union_s \<Rightarrow> union_s \<Rightarrow> bool c" where
  "jsdrv_union_eq v1 v2 =
     (if u_type v1 \<noteq> u_type v2 then Inr False
      else
        let str = cbind (str_size v1) (\<lambda>sz1. cbind (str_size v2) (\<lambda>sz2.
              if sz1 \<noteq> sz2 then Inr False else mem_cmp_eq (u_ptr v1) (u_ptr v2) (sz1 - 1)));
            bin = (if u_size v1 \<noteq> u_size v2 then Inr False
              else mem_cmp_eq (u_ptr v1) (u_ptr v2) (unat (u_size v1)))
        in case u_type v1 of
             U_NULL \<Rightarrow> Inr True
           | U_JSON \<Rightarrow> str
           | U_STR \<Rightarrow> str
           | U_BIN \<Rightarrow> bin
           | U_STDMSG \<Rightarrow> bin
           | U_FRAME \<Rightarrow> bin
           | U_F32 \<Rightarrow> Inr (fp_eq (f32_val (v_f32 v1)) (f32_val (v_f32 v2)))
           | U_F64 \<Rightarrow> Inr (fp_eq (f64_val (u_value v1)) (f64_val (u_value v2)))
           | U_U8 \<Rightarrow> Inr (v_u8 v1 = v_u8 v2)
           | U_U16 \<Rightarrow> Inr (v_u16 v1 = v_u16 v2)
           | U_U32 \<Rightarrow> Inr (v_u32 v1 = v_u32 v2)
           | U_U64 \<Rightarrow> Inr (u_value v1 = u_value v2)
           | U_I8 \<Rightarrow> Inr (v_i8 v1 = v_i8 v2)
           | U_I16 \<Rightarrow> Inr (v_i16 v1 = v_i16 v2)
           | U_I32 \<Rightarrow> Inr (v_i32 v1 = v_i32 v2)
           | U_I64 \<Rightarrow> Inr (u_value v1 = u_value v2)
           | U_OTHER n \<Rightarrow> Inr False)"

definition jsdrv_union_eq_exact :: "union_s \<Rightarrow> union_s \<Rightarrow> bool c" where
  "jsdrv_union_eq_exact v1 v2 =
     (if u_flags v1 \<noteq> u_flags v2 \<or> u_op v1 \<noteq> u_op v2 \<or> u_app v1 \<noteq> u_app v2 \<or> u_size v1 \<noteq> u_size v2
      then Inr False else jsdrv_union_eq v1 v2)"

section \<open>Conversion\<close>

definition jsdrv_union_widen :: "union_s \<Rightarrow> union_s" where
  "jsdrv_union_widen v =
     (case u_type v of
        U_F32 \<Rightarrow> v\<lparr>u_type := U_F64, u_value := f32_to_f64 (v_f32 v)\<rparr>
      | U_U8 \<Rightarrow> v\<lparr>u_type := U_U64, u_value := v_u8 v\<rparr>
      | U_U16 \<Rightarrow> v\<lparr>u_type := U_U64, u_value := v_u16 v\<rparr>
      | U_U32 \<Rightarrow> v\<lparr>u_type := U_U64, u_value := v_u32 v\<rparr>
      | U_I8 \<Rightarrow> v\<lparr>u_type := U_I64, u_value := v_i8 v\<rparr>
      | U_I16 \<Rightarrow> v\<lparr>u_type := U_I64, u_value := v_i16 v\<rparr>
      | U_I32 \<Rightarrow> v\<lparr>u_type := U_I64, u_value := v_i32 v\<rparr>
      | _ \<Rightarrow> v)"

definition jsdrv_union_equiv :: "union_s \<Rightarrow> union_s \<Rightarrow> bool c" where
  "jsdrv_union_equiv v1 v2 =
     (let x = jsdrv_union_widen v1; y = jsdrv_union_widen v2;
          same = (u_value x = u_value y);
          cross = (u_value x = u_value y \<and> 0 \<le> sint (u_value x) \<and> sint (u_value y) \<le> 2 ^ 63 - 1)
      in cbind (jsdrv_union_eq x y) (\<lambda>e.
         if e then Inr True
         else case u_type x of
                U_U64 \<Rightarrow> Inr (case u_type y of U_U64 \<Rightarrow> same | U_I64 \<Rightarrow> cross | _ \<Rightarrow> False)
              | U_I64 \<Rightarrow> Inr (case u_type y of U_U64 \<Rightarrow> cross | U_I64 \<Rightarrow> same | _ \<Rightarrow> False)
              | _ \<Rightarrow> Inr False))"

text \<open>
  The three conversion switches. Each gives the return code and the converted bits;
  the macros \<^verbatim>\<open>AS_TYPE\<close> and \<^verbatim>\<open>AS_F64\<close> are \<open>as_int\<close> and \<open>as_f64\<close>.
\<close>

definition as_int :: "bool \<Rightarrow> u64 \<Rightarrow> int \<times> u64" where
  "as_int bad v = (if bad then ec PARAMETER_INVALID else 0, v)"

fun as_type_u64 :: "u64 \<Rightarrow> union_e \<Rightarrow> int \<times> u64" where
  "as_type_u64 v U_U8 = as_int (v > 0xFF) v"
| "as_type_u64 v U_U16 = as_int (v > 0xFFFF) v"
| "as_type_u64 v U_U32 = as_int (v > 0xFFFFFFFF) v"
| "as_type_u64 v U_U64 = (0, v)"
| "as_type_u64 v U_I8 = as_int (v > 0x7F) v"
| "as_type_u64 v U_I16 = as_int (v > 0x7FFF) v"
| "as_type_u64 v U_I32 = as_int (v > 0x7FFFFFFF) v"
| "as_type_u64 v U_I64 = as_int (v > 0x7FFFFFFFFFFFFFFF) v"
| "as_type_u64 v U_F32 = (0, put_low 32 v (ucast (int_to_f32 (uint v))))"
| "as_type_u64 v U_F64 = (0, int_to_f64 (uint v))"
| "as_type_u64 v _ = (ec PARAMETER_INVALID, v)"

fun as_type_i64 :: "u64 \<Rightarrow> union_e \<Rightarrow> int \<times> u64" where
  "as_type_i64 v U_U8 = as_int (sint v < 0 \<or> sint v > 255) v"
| "as_type_i64 v U_U16 = as_int (sint v < 0 \<or> sint v > 65535) v"
| "as_type_i64 v U_U32 = as_int (sint v < 0 \<or> sint v > 4294967295) v"
| "as_type_i64 v U_U64 = as_int (sint v < 0) v"
| "as_type_i64 v U_I8 = as_int (sint v < -128 \<or> sint v > 127) v"
| "as_type_i64 v U_I16 = as_int (sint v < -32768 \<or> sint v > 32767) v"
| "as_type_i64 v U_I32 = as_int (sint v < -2147483648 \<or> sint v > 2147483647) v"
| "as_type_i64 v U_I64 = (0, v)"
| "as_type_i64 v U_F32 = (0, put_low 32 v (ucast (int_to_f32 (sint v))))"
| "as_type_i64 v U_F64 = (0, int_to_f64 (sint v))"
| "as_type_i64 v _ = (ec PARAMETER_INVALID, v)"

definition as_f64 :: "bool \<Rightarrow> nat \<Rightarrow> u64 \<Rightarrow> (int \<times> u64) c" where
  "as_f64 bad n v =
     (if bad then Inr (ec PARAMETER_INVALID, v)
      else case fp_trunc (f64_val v) of
             None \<Rightarrow> Inl Undefined
           | Some i \<Rightarrow> Inr (0, put_low n v (of_int i)))"

fun as_type_f64 :: "u64 \<Rightarrow> union_e \<Rightarrow> (int \<times> u64) c" where
  "as_type_f64 v U_U8 = as_f64 (fp_lt_int (f64_val v) 0 \<or> fp_gt_int (f64_val v) 255) 8 v"
| "as_type_f64 v U_U16 = as_f64 (fp_lt_int (f64_val v) 0 \<or> fp_gt_int (f64_val v) 65535) 16 v"
| "as_type_f64 v U_U32 = as_f64 (fp_lt_int (f64_val v) 0 \<or> fp_gt_int (f64_val v) 4294967295) 32 v"
| "as_type_f64 v U_U64 = as_f64 (fp_lt_int (f64_val v) 0 \<or> fp_ge_int (f64_val v) (2 ^ 64)) 64 v"
| "as_type_f64 v U_I8 = as_f64 (fp_lt_int (f64_val v) (-128) \<or> fp_gt_int (f64_val v) 127) 8 v"
| "as_type_f64 v U_I16 = as_f64 (fp_lt_int (f64_val v) (-32768) \<or> fp_gt_int (f64_val v) 32767) 16 v"
| "as_type_f64 v U_I32 =
     as_f64 (fp_lt_int (f64_val v) (-2147483648) \<or> fp_gt_int (f64_val v) 2147483647) 32 v"
| "as_type_f64 v U_I64 =
     as_f64 (fp_lt_int (f64_val v) (- (2 ^ 63)) \<or> fp_ge_int (f64_val v) (2 ^ 63)) 64 v"
| "as_type_f64 v U_F32 = Inr (0, put_low 32 v (ucast (f64_to_f32 v)))"
| "as_type_f64 v U_F64 = Inr (0, v)"
| "as_type_f64 v _ = Inr (ec PARAMETER_INVALID, v)"

definition jsdrv_union_as_type :: "union_s \<Rightarrow> union_e \<Rightarrow> (int \<times> union_s) c" where
  "jsdrv_union_as_type x0 type =
     (let x = jsdrv_union_widen x0;
          done = (\<lambda>(rv, v). (rv, if rv = 0 then x\<lparr>u_value := v, u_type := type\<rparr> else x))
      in if u_type x = type then Inr (0, x)
         else case u_type x of
                U_U64 \<Rightarrow> Inr (done (as_type_u64 (u_value x) type))
              | U_I64 \<Rightarrow> Inr (done (as_type_i64 (u_value x) type))
              | U_F64 \<Rightarrow> cbind (as_type_f64 (u_value x) type) (\<lambda>r. Inr (done r))
              | _ \<Rightarrow> Inr (ec PARAMETER_INVALID, x))"

definition jsdrv_union_to_bool :: "union_s \<Rightarrow> bool \<Rightarrow> (int \<times> bool) c" where
  "jsdrv_union_to_bool v rv0 =
     (let str = (case u_ptr v of
                   None \<Rightarrow> Inr (ec PARAMETER_INVALID, rv0)
                 | Some b \<Rightarrow>
                     if NUL \<notin> set b then Inl OutOfBounds
                     else cbind (jsdrv_cstr_to_bool (Some (cstr_of b)) (Some rv0)) (\<lambda>(rc, r).
                            Inr (if rc \<noteq> 0 then ec PARAMETER_INVALID else 0,
                                 case r of None \<Rightarrow> rv0 | Some y \<Rightarrow> y)));
          bad = Inr (ec PARAMETER_INVALID, False)
      in case u_type v of
           U_NULL \<Rightarrow> Inr (0, False)
         | U_STR \<Rightarrow> str
         | U_JSON \<Rightarrow> str
         | U_BIN \<Rightarrow> bad
         | U_STDMSG \<Rightarrow> bad
         | U_FRAME \<Rightarrow> bad
         | U_F32 \<Rightarrow> Inr (0, \<not> fp_is_zero (f32_val (v_f32 v)))
         | U_F64 \<Rightarrow> Inr (0, \<not> fp_is_zero (f64_val (u_value v)))
         | U_U8 \<Rightarrow> Inr (0, v_u8 v \<noteq> 0)
         | U_U16 \<Rightarrow> Inr (0, v_u16 v \<noteq> 0)
         | U_U32 \<Rightarrow> Inr (0, v_u32 v \<noteq> 0)
         | U_U64 \<Rightarrow> Inr (0, u_value v \<noteq> 0)
         | U_I8 \<Rightarrow> Inr (0, v_i8 v \<noteq> 0)
         | U_I16 \<Rightarrow> Inr (0, v_i16 v \<noteq> 0)
         | U_I32 \<Rightarrow> Inr (0, v_i32 v \<noteq> 0)
         | U_I64 \<Rightarrow> Inr (0, u_value v \<noteq> 0)
         | U_OTHER n \<Rightarrow> bad)"

definition jsdrv_union_is_type_ptr :: "union_s \<Rightarrow> bool" where
  "jsdrv_union_is_type_ptr v \<longleftrightarrow> u_type v \<in> {U_STR, U_JSON, U_BIN}"

fun jsdrv_union_type_to_str :: "union_e \<Rightarrow> string" where
  "jsdrv_union_type_to_str U_NULL = ''nul''"
| "jsdrv_union_type_to_str U_STR = ''str''"
| "jsdrv_union_type_to_str U_JSON = ''jsn''"
| "jsdrv_union_type_to_str U_BIN = ''bin''"
| "jsdrv_union_type_to_str U_STDMSG = ''std''"
| "jsdrv_union_type_to_str U_FRAME = ''frm''"
| "jsdrv_union_type_to_str U_F32 = ''f32''"
| "jsdrv_union_type_to_str U_F64 = ''f64''"
| "jsdrv_union_type_to_str U_U8 = '' u8''"
| "jsdrv_union_type_to_str U_U16 = ''u16''"
| "jsdrv_union_type_to_str U_U32 = ''u32''"
| "jsdrv_union_type_to_str U_U64 = ''u64''"
| "jsdrv_union_type_to_str U_I8 = '' i8''"
| "jsdrv_union_type_to_str U_I16 = ''i16''"
| "jsdrv_union_type_to_str U_I32 = ''i32''"
| "jsdrv_union_type_to_str U_I64 = ''i64''"
| "jsdrv_union_type_to_str (U_OTHER n) = ''inv''"

section \<open>Copy\<close>

text \<open>
  \<open>buffer\<close> is the caller's storage (None for NULL) and \<open>buffer_size\<close> the size the caller
  passes. The result has the return code, the destination and the buffer.
\<close>

definition mem_copy :: "char list option \<Rightarrow> char list option \<Rightarrow> nat \<Rightarrow> char list option c" where
  "mem_copy dst src n =
     (case (dst, src) of
        (Some d, Some s) \<Rightarrow>
          if n \<le> length d \<and> n \<le> length s then Inr (Some (take n s @ drop n d)) else Inl OutOfBounds
      | _ \<Rightarrow> Inl OutOfBounds)"

definition jsdrv_union_copy ::
    "union_s option \<Rightarrow> union_s option \<Rightarrow> char list option \<Rightarrow> nat \<Rightarrow>
     (int \<times> union_s option \<times> char list option) c" where
  "jsdrv_union_copy dst0 src buffer buffer_size =
     (if dst0 = None then Inr (ec PARAMETER_INVALID, None, buffer) else
      case src of
        None \<Rightarrow> Inr (ec PARAMETER_INVALID, dst0, buffer)
      | Some s \<Rightarrow>
          let dst = s\<lparr>u_flags := u_flags s AND NOT JSDRV_UNION_FLAG_HEAP_MEMORY\<rparr> in
          if jsdrv_union_is_type_ptr s \<or> u_type s = U_STDMSG \<or> u_type s = U_FRAME then
            cbind (if u_type s \<in> {U_STR, U_JSON} \<and> u_size s = 0 \<and> u_ptr s \<noteq> None
                   then cbind (mem_strlen (u_ptr s)) (\<lambda>n. Inr (of_nat (n + 1) :: u32))
                   else Inr (u_size s)) (\<lambda>sz.
            if sz = 0 \<or> u_ptr s = None
            then Inr (0, Some (dst\<lparr>u_ptr := None, u_size := 0\<rparr>), buffer)
            else if buffer = None \<or> buffer_size < unat sz
            then Inr (ec TOO_SMALL, Some dst, buffer)
            else cbind (mem_copy buffer (u_ptr s) (unat sz)) (\<lambda>b.
                 Inr (0, Some (dst\<lparr>u_ptr := b, u_size := sz\<rparr>), b)))
          else Inr (0, Some dst, buffer))"

section \<open>Integer values\<close>

definition int_value :: "union_s \<Rightarrow> int option" where
  "int_value x =
     (case u_type x of
        U_U8 \<Rightarrow> Some (uint (v_u8 x))
      | U_U16 \<Rightarrow> Some (uint (v_u16 x))
      | U_U32 \<Rightarrow> Some (uint (v_u32 x))
      | U_U64 \<Rightarrow> Some (uint (u_value x))
      | U_I8 \<Rightarrow> Some (sint (v_i8 x))
      | U_I16 \<Rightarrow> Some (sint (v_i16 x))
      | U_I32 \<Rightarrow> Some (sint (v_i32 x))
      | U_I64 \<Rightarrow> Some (sint (u_value x))
      | _ \<Rightarrow> None)"

fun int_range :: "union_e \<Rightarrow> (int \<times> int) option" where
  "int_range U_U8 = Some (0, 2 ^ 8 - 1)"
| "int_range U_U16 = Some (0, 2 ^ 16 - 1)"
| "int_range U_U32 = Some (0, 2 ^ 32 - 1)"
| "int_range U_U64 = Some (0, 2 ^ 64 - 1)"
| "int_range U_I8 = Some (- (2 ^ 7), 2 ^ 7 - 1)"
| "int_range U_I16 = Some (- (2 ^ 15), 2 ^ 15 - 1)"
| "int_range U_I32 = Some (- (2 ^ 31), 2 ^ 31 - 1)"
| "int_range U_I64 = Some (- (2 ^ 63), 2 ^ 63 - 1)"
| "int_range _ = None"

lemma sint_signed_take_bit: "n \<le> 63 \<Longrightarrow> sint (signed_take_bit n (w :: u64)) = signed_take_bit n (sint w)"
  by transfer (rule bit_eqI, auto simp: bit_simps min_def)

lemma uint_take_bit: "uint (take_bit n (w :: u64)) = take_bit n (uint w)"
  by (rule unsigned_take_bit_eq)

lemma uint_lt_u64: "uint (w :: u64) < 2 ^ 64"
  using uint_lt2p [of w] by simp

lemma uint_ge_neg [simp]: "- numeral k \<le> uint (w :: u64)"
  using order_trans [of "- numeral k" 0 "uint w"] by simp

lemma sint_range_u64: "- (2 ^ 63) \<le> sint (w :: u64)" "sint (w :: u64) < 2 ^ 63"
  using sint_ge [of w] sint_lt [of w] by simp_all

lemma sint_eq_uint_u64: "uint (w :: u64) < 2 ^ 63 \<Longrightarrow> sint w = uint w"
  unfolding sint_uint by (intro signed_take_bit_int_eq_self) simp_all

lemma uint_eq_sint_u64: "0 \<le> sint (w :: u64) \<Longrightarrow> uint w = sint w"
proof -
  assume pos: "0 \<le> sint w"
  have "uint w < 2 ^ 63"
  proof (rule ccontr)
    assume "\<not> uint w < 2 ^ 63"
    then have "signed_take_bit 63 (uint w) \<le> uint w - 2 ^ 64"
      using signed_take_bit_int_less_eq [of 63 "uint w"] by simp
    with uint_lt_u64 [of w] have "signed_take_bit 63 (uint w) < 0" by linarith
    then have "sint w < 0" unfolding sint_uint by simp
    with pos show False by simp
  qed
  then show ?thesis using sint_eq_uint_u64 by simp
qed

lemma widen_int_value: "int_value (jsdrv_union_widen x) = int_value x"
  by (simp add: jsdrv_union_widen_def int_value_def split: union_e.split)

lemma widen_int_type:
  "int_value x = Some i \<Longrightarrow> u_type (jsdrv_union_widen x) \<in> {U_U64, U_I64}"
  by (simp add: jsdrv_union_widen_def int_value_def split: union_e.splits)

lemmas view_defs = v_u8_def v_u16_def v_u32_def v_i8_def v_i16_def v_i32_def

lemma as_type_u64_int:
  assumes "int_range t = Some (lo, hi)"
  shows "as_type_u64 v t = (if lo \<le> uint v \<and> uint v \<le> hi then 0 else ec PARAMETER_INVALID, v)"
  using assms uint_lt_u64 [of v]
  by (cases t) (auto simp: as_int_def word_less_def)

lemma as_type_i64_int:
  assumes "int_range t = Some (lo, hi)"
  shows "as_type_i64 v t = (if lo \<le> sint v \<and> sint v \<le> hi then 0 else ec PARAMETER_INVALID, v)"
  using assms sint_range_u64 [of v]
  by (cases t) (auto simp: as_int_def)

lemma int_value_narrow:
  assumes "int_range t = Some (lo, hi)" and "lo \<le> i" and "i \<le> hi"
    and "i = uint v \<or> i = sint v"
  shows "int_value (x\<lparr>u_value := v, u_type := t\<rparr>) = Some i"
proof -
  have u: "0 \<le> i \<Longrightarrow> uint v = i" "0 \<le> i \<Longrightarrow> i < 2 ^ 63 \<Longrightarrow> sint v = i"
    using assms(4) uint_eq_sint_u64 [of v] sint_eq_uint_u64 [of v] by auto
  have s: "i < 2 ^ 63 \<Longrightarrow> sint v = i"
    using assms(4) u(2) by (cases "0 \<le> i") (auto dest: order_trans [OF uint_ge_0])
  show ?thesis
    using assms(1-3) u s
    by (cases t) (auto simp: int_value_def view_defs sint_signed_take_bit uint_take_bit
        take_bit_int_eq_self signed_take_bit_int_eq_self)
qed

text \<open>
  C18. Converting an integer value to an integer type with \<^verbatim>\<open>jsdrv_union_as_type\<close> succeeds exactly
  when the value is in the range of that type, and then changes the type and keeps the
  value; otherwise it reports an invalid parameter and leaves the widened value.
\<close>

theorem jsdrv_union_as_type_int:
  assumes "int_value x = Some i" and "int_range t = Some (lo, hi)"
  shows "\<exists>rc y. jsdrv_union_as_type x t = Inr (rc, y) \<and> int_value y = Some i
           \<and> (if lo \<le> i \<and> i \<le> hi then rc = 0 \<and> u_type y = t
              else rc = 5 \<and> y = jsdrv_union_widen x)"
proof -
  let ?w = "jsdrv_union_widen x"
  have w: "int_value ?w = Some i" "u_type ?w \<in> {U_U64, U_I64}"
    using assms(1) widen_int_type [OF assms(1)] by (simp_all add: widen_int_value)
  then consider "u_type ?w = U_U64" "uint (u_value ?w) = i" | "u_type ?w = U_I64" "sint (u_value ?w) = i"
    by (auto simp: int_value_def)
  then show ?thesis
  proof cases
    case 1
    have "lo \<le> i \<and> i \<le> hi" if "t = U_U64"
      using that assms(2) 1 uint_lt_u64 [of "u_value ?w"] by auto
    with 1 w assms(2) int_value_narrow [OF assms(2), of i "u_value ?w" ?w] show ?thesis
      by (auto simp: jsdrv_union_as_type_def Let_def as_type_u64_int)
  next
    case 2
    have "lo \<le> i \<and> i \<le> hi" if "t = U_I64"
      using that assms(2) 2 sint_range_u64 [of "u_value ?w"] by auto
    with 2 w assms(2) int_value_narrow [OF assms(2), of i "u_value ?w" ?w] show ?thesis
      by (auto simp: jsdrv_union_as_type_def Let_def as_type_i64_int)
  qed
qed

theorem jsdrv_union_as_type_int_witness:
  "\<exists>rc y. jsdrv_union_as_type (union_of U_I32 300) U_U8 = Inr (rc, y) \<and> rc = 5"
proof -
  have "int_value (union_of U_I32 300) = Some 300" by code_simp
  then show ?thesis
    using jsdrv_union_as_type_int [of "union_of U_I32 300" 300 U_U8 0 255] by auto
qed

text \<open>
  On integer values of any width and signedness, \<^verbatim>\<open>jsdrv_union_equiv\<close> is equality of the
  integers they denote.
\<close>

theorem jsdrv_union_equiv_int:
  assumes "int_value x = Some i" and "int_value y = Some j"
  shows "jsdrv_union_equiv x y = Inr (i = j)"
proof -
  let ?x = "jsdrv_union_widen x" and ?y = "jsdrv_union_widen y"
  have wx: "int_value ?x = Some i" "u_type ?x \<in> {U_U64, U_I64}"
    and wy: "int_value ?y = Some j" "u_type ?y \<in> {U_U64, U_I64}"
    using assms widen_int_type [OF assms(1)] widen_int_type [OF assms(2)]
    by (simp_all add: widen_int_value)
  have le: "sint w \<le> 9223372036854775807" for w :: u64 using sint_range_u64 [of w] by simp
  have cross: "uint a = sint b \<longleftrightarrow> a = b \<and> 0 \<le> sint a" for a b :: u64
    by (metis uint_eq_sint_u64 uint_ge_0 word_uint_eq_iff)
  have cross': "sint a = uint b \<longleftrightarrow> a = b \<and> 0 \<le> sint a" for a b :: u64
    using cross [of b a] by auto
  have same: "uint a = uint b \<longleftrightarrow> a = b" "sint a = sint b \<longleftrightarrow> a = b" for a b :: u64
    by (simp_all add: word_uint_eq_iff, metis signed_word_eqI word_uint_eq_iff)
  consider "u_type ?x = U_U64" "u_type ?y = U_U64" | "u_type ?x = U_U64" "u_type ?y = U_I64"
    | "u_type ?x = U_I64" "u_type ?y = U_U64" | "u_type ?x = U_I64" "u_type ?y = U_I64"
    using wx(2) wy(2) by blast
  then show ?thesis
    by cases (use wx(1) wy(1) in \<open>auto simp: jsdrv_union_equiv_def jsdrv_union_eq_def int_value_def Let_def
      cross cross' same le\<close>)
qed

theorem jsdrv_union_equiv_int_witness:
  "jsdrv_union_equiv (union_of U_U8 200) (union_of U_I8 200) = Inr False"
proof -
  have "int_value (union_of U_U8 200) = Some 200" "int_value (union_of U_I8 200) = Some (- 56)"
    by code_simp+
  then show ?thesis using jsdrv_union_equiv_int by fastforce
qed

section \<open>Conversion from double\<close>

lemma take_bit_put_low: "take_bit n (put_low n v w) = take_bit n (w :: u64)"
  by (auto simp: bit_eq_iff bit_simps put_low_def)

lemma signed_take_bit_put_low:
  "n \<le> 63 \<Longrightarrow> signed_take_bit n (put_low (Suc n) v w) = signed_take_bit n (w :: u64)"
  by (auto simp: bit_eq_iff bit_simps put_low_def min_def)

lemma put_low_64: "put_low 64 v w = (w :: u64)"
  by (auto simp: bit_eq_iff bit_simps put_low_def)

lemma uint_of_int_u64: "uint (word_of_int i :: u64) = take_bit 64 i"
  by (simp add: unsigned_of_int)

lemma sint_of_int_u64: "sint (word_of_int i :: u64) = signed_take_bit 63 i"
  by (simp add: sint_sbintrunc')

fun int_width :: "union_e \<Rightarrow> nat" where
  "int_width U_U8 = 8"
| "int_width U_I8 = 8"
| "int_width U_U16 = 16"
| "int_width U_I16 = 16"
| "int_width U_U32 = 32"
| "int_width U_I32 = 32"
| "int_width _ = 64"

lemma int_value_put_low:
  assumes "int_range t = Some (lo, hi)" and "lo \<le> i" and "i \<le> hi"
  shows "int_value (x\<lparr>u_value := put_low (int_width t) v (of_int i), u_type := t\<rparr>) = Some i"
proof -
  have st: "signed_take_bit 7 (put_low 8 v w) = signed_take_bit 7 w"
    "signed_take_bit 15 (put_low 16 v w) = signed_take_bit 15 w"
    "signed_take_bit 31 (put_low 32 v w) = signed_take_bit 31 w" for v w :: u64
    using signed_take_bit_put_low [of 7 v w] signed_take_bit_put_low [of 15 v w]
      signed_take_bit_put_low [of 31 v w] by simp_all
  show ?thesis
    using assms
    by (cases t) (auto simp: int_value_def view_defs take_bit_put_low put_low_64 st
        sint_signed_take_bit uint_take_bit uint_of_int_u64 sint_of_int_u64
        take_bit_int_eq_self signed_take_bit_int_eq_self)
qed

lemma as_type_f64_int:
  assumes "int_range t = Some (lo, hi)" and "f64_val v \<noteq> FNan"
  shows "(\<exists>i. fp_trunc (f64_val v) = Some i \<and> lo \<le> i \<and> i \<le> hi
            \<and> as_type_f64 v t = Inr (0, put_low (int_width t) v (of_int i)))
         \<or> as_type_f64 v t = Inr (5, v)"
proof -
  define f where "f = f64_val v"
  have fin: "\<exists>i. fp_trunc f = Some i" if "\<not> fp_lt_int f a" "\<not> fp_gt_int f b \<or> \<not> fp_ge_int f b" for a b
    using that assms(2) by (cases f) (auto simp: f_def [symmetric] fp_ge_int_def)
  have rng: "fp_trunc f = Some i \<Longrightarrow> \<not> fp_lt_int f a \<Longrightarrow> \<not> fp_gt_int f b \<Longrightarrow> a \<le> 0 \<Longrightarrow> 0 \<le> b
      \<Longrightarrow> a \<le> i \<and> i \<le> b" for i a b
    by (rule fp_trunc_bounds)
  have rng': "fp_trunc f = Some i \<Longrightarrow> \<not> fp_lt_int f a \<Longrightarrow> \<not> fp_ge_int f b \<Longrightarrow> a \<le> 0 \<Longrightarrow> 0 < b
      \<Longrightarrow> a \<le> i \<and> i < b" for i a b
  proof -
    assume h: "fp_trunc f = Some i" "\<not> fp_lt_int f a" "\<not> fp_ge_int f b" "a \<le> 0" "0 < b"
    then have lt: "fp_lt_int f b" by (auto simp: fp_ge_int_def)
    have "\<not> fp_gt_int f b" using lt h(1) by (cases f) (auto split: if_splits)
    with fp_trunc_bounds [OF h(1,2)] h fp_trunc_lt [OF h(1) lt h(5)] show "a \<le> i \<and> i < b" by auto
  qed
  show ?thesis
    using assms(1) fin rng rng'
    by (cases t; simp add: as_f64_def flip: f_def)
       (fastforce split: option.splits simp: f_def [symmetric])+
qed



section \<open>Copy\<close>

text \<open>
  \<^verbatim>\<open>jsdrv_union_copy\<close> of a string into a buffer with room for it and its terminator copies it
  into the caller's storage, so the copy equals the source and no longer refers to the
  source's memory or claims heap ownership.
\<close>

theorem jsdrv_union_copy_str:
  assumes "u_type x \<in> {U_STR, U_JSON}" and "u_size x = 0" and "u_ptr x = Some (s @ NUL # r)"
    and "is_cstr s" and "length s + 1 < 2 ^ 32"
    and "length s + 1 \<le> n" and "n \<le> length b"
  shows "\<exists>y b'. jsdrv_union_copy (Some d) (Some x) (Some b) n = Inr (0, Some y, Some b')
           \<and> b' = s @ NUL # drop (length s + 1) b
           \<and> u_ptr y = Some b' \<and> unat (u_size y) = length s + 1
           \<and> u_flags y AND JSDRV_UNION_FLAG_HEAP_MEMORY = 0
           \<and> jsdrv_union_eq x y = Inr True"
proof -
  let ?z = "of_nat (length s + 1) :: u32"
  have z: "unat ?z = length s + 1" using assms(5) by (simp only: unat_of_nat) simp
  then have nz: "?z \<noteq> 0" by (metis add_is_0 one_neq_zero unat_0)
  have cp: "mem_copy (Some b) (u_ptr x) (unat ?z) = Inr (Some (s @ NUL # drop (length s + 1) b))"
    using assms(3,6,7) z by (simp add: mem_copy_def)
  have len: "mem_strlen (u_ptr x) = Inr (length s)" using assms(3,4) by (simp add: mem_strlen_def)
  define y where "y = x\<lparr>u_flags := u_flags x AND NOT JSDRV_UNION_FLAG_HEAP_MEMORY,
    u_ptr := Some (s @ NUL # drop (length s + 1) b), u_size := ?z\<rparr>"
  have "jsdrv_union_copy (Some d) (Some x) (Some b) n =
      Inr (0, Some y, Some (s @ NUL # drop (length s + 1) b))"
    unfolding jsdrv_union_copy_def Let_def
    using assms(1,2,3,6) len cp nz z
    by (auto simp: jsdrv_union_is_type_ptr_def y_def simp del: of_nat_add of_nat_Suc)
  moreover have "jsdrv_union_eq x y = Inr True"
    using assms(1-4) len z nz
    by (auto simp: jsdrv_union_eq_def y_def str_size_def mem_cmp_eq_def simp del: of_nat_add of_nat_Suc)
  moreover have "u_flags y AND JSDRV_UNION_FLAG_HEAP_MEMORY = 0"
    by (simp add: y_def and.assoc)
  ultimately show ?thesis using z by (simp add: y_def)
qed

theorem jsdrv_union_copy_str_witness:
  "\<exists>y b'. jsdrv_union_copy (Some jsdrv_union_null) (Some (jsdrv_union_str (''ab'' @ [NUL])))
      (Some (replicate 8 NUL)) 8 = Inr (0, Some y, Some b')
     \<and> jsdrv_union_eq (jsdrv_union_str (''ab'' @ [NUL])) y = Inr True"
  using jsdrv_union_copy_str [of "jsdrv_union_str (''ab'' @ [NUL])" "''ab''" "[]" 8
      "replicate 8 NUL" jsdrv_union_null]
  by (auto simp: jsdrv_union_str_def union_of_def)

end
