(* ===== verification/Json.thy ===== *)
theory Json
  imports Union "HOL-Library.Sublist"
begin

text \<open>
  The JSON tokenizer of \<^verbatim>\<open>src/json.c\<close>. The parser state holds the text that is left (the empty
  list is the terminator), the nesting depth and the callback's own state; the callback
  is a function on that state that may fault. \<^verbatim>\<open>pow(10.0, x)\<close> of the C math library is the
  argument \<open>pow10\<close>. The mutually recursive parser takes fuel; the theorems below show
  that \<^verbatim>\<open>jsdrv_json_parse\<close> starts it with enough.
\<close>

section \<open>Data\<close>

datatype json_token_e =
  JSON_VALUE | JSON_KEY | JSON_OBJ_START | JSON_OBJ_END | JSON_ARRAY_START | JSON_ARRAY_END

fun json_op :: "json_token_e \<Rightarrow> u8" where
  "json_op JSON_VALUE = 0"
| "json_op JSON_KEY = 1"
| "json_op JSON_OBJ_START = 2"
| "json_op JSON_OBJ_END = 3"
| "json_op JSON_ARRAY_START = 4"
| "json_op JSON_ARRAY_END = 5"

record 'u parse_s =
  p_rest :: string
  p_depth :: nat
  p_user :: 'u

type_synonym 'u json_fn = "'u \<Rightarrow> union_s \<Rightarrow> (int \<times> 'u) c"
type_synonym 'u parse_result = "(int \<times> 'u parse_s) c"

definition DEPTH_MAX :: nat where "DEPTH_MAX = 64"

definition json_delim :: "json_token_e \<Rightarrow> union_s" where
  "json_delim t = jsdrv_union_null\<lparr>u_op := json_op t\<rparr>"

definition NEXT :: "'u parse_s \<Rightarrow> char" where
  "NEXT s = (case p_rest s of [] \<Rightarrow> NUL | ch # _ \<Rightarrow> ch)"

definition ADVANCE :: "'u parse_s \<Rightarrow> 'u parse_s c" where
  "ADVANCE s = (case p_rest s of [] \<Rightarrow> Inl OutOfBounds | _ # r \<Rightarrow> Inr (s\<lparr>p_rest := r\<rparr>))"

text \<open>Return-on-error: continue only after a zero return code.\<close>

definition ROE :: "'u parse_result \<Rightarrow> ('u parse_s \<Rightarrow> 'u parse_result) \<Rightarrow> 'u parse_result" where
  "ROE m f = cbind m (\<lambda>(rc, s). if rc \<noteq> 0 then Inr (rc, s) else f s)"

definition emit :: "'u json_fn \<Rightarrow> 'u parse_s \<Rightarrow> union_s \<Rightarrow> 'u parse_result" where
  "emit cb s tok = cbind (cb (p_user s) tok) (\<lambda>(rc, u). Inr (rc, s\<lparr>p_user := u\<rparr>))"

definition is_whitespace :: "char \<Rightarrow> bool" where
  "is_whitespace ch \<longleftrightarrow> cord ch \<in> {32, 10, 9, 13}"

definition is_escape :: "char \<Rightarrow> bool" where
  "is_escape ch \<longleftrightarrow> ch \<in> {CHR 0x22, CHR 0x5C, CHR ''/'', CHR ''b'', CHR ''f'', CHR ''n'',
                            CHR ''r'', CHR ''t'', CHR ''u''}"

definition skip_whitespace :: "'u parse_s \<Rightarrow> 'u parse_s" where
  "skip_whitespace s = s\<lparr>p_rest := dropWhile is_whitespace (p_rest s)\<rparr>"

section \<open>Strings\<close>

text \<open>The scan for the closing quote: its position and the text from it on, or an error.\<close>

fun hex_digits :: "nat \<Rightarrow> string \<Rightarrow> string option" where
  "hex_digits 0 r = Some r"
| "hex_digits (Suc k) [] = None"
| "hex_digits (Suc k) (ch # r) = (if to_hex ch = None then None else hex_digits k r)"

lemma hex_digits_length: "hex_digits k r = Some r' \<Longrightarrow> length r = k + length r'"
  by (induction k r rule: hex_digits.induct) (auto simp del: to_hex.simps split: if_splits)

function string_loop :: "string \<Rightarrow> nat \<Rightarrow> (nat \<times> string) option" where
  "string_loop r n =
     (case r of
        [] \<Rightarrow> None
      | ch # r' \<Rightarrow>
          if ch = CHR 0x22 then Some (n, r)
          else if ch = CHR 0x5C then
            (case r' of
               [] \<Rightarrow> None
             | e # r'' \<Rightarrow>
                 if \<not> is_escape e then None
                 else if e = CHR ''u'' then
                   (case hex_digits 4 r'' of
                      None \<Rightarrow> None
                    | Some t \<Rightarrow> string_loop t (n + 6))
                 else string_loop r'' (n + 2))
          else string_loop r' (n + 1))"
  by pat_completeness auto
termination
  by (relation "measure (\<lambda>(r, n). length r)") (auto dest: hex_digits_length)

declare string_loop.simps [simp del]

definition json_str_token :: "json_token_e \<Rightarrow> string \<Rightarrow> nat \<Rightarrow> union_s" where
  "json_str_token op text n =
     \<lparr>u_type = U_STR, u_flags = JSDRV_UNION_FLAG_CONST, u_op = json_op op, u_app = 0,
      u_size = of_nat (n + 1), u_value = 0, u_ptr = Some (text @ [NUL])\<rparr>"

definition parse_string :: "'u json_fn \<Rightarrow> 'u parse_s \<Rightarrow> json_token_e \<Rightarrow> 'u parse_result" where
  "parse_string cb s op =
     (if NEXT s \<noteq> CHR 0x22 then Inr (ec SYNTAX_ERROR, s)
      else cbind (ADVANCE s) (\<lambda>s.
        case string_loop (p_rest s) 0 of
          None \<Rightarrow> Inr (ec SYNTAX_ERROR, s)
        | Some (n, r) \<Rightarrow>
            ROE (emit cb (s\<lparr>p_rest := r\<rparr>) (json_str_token op (p_rest s) n)) (\<lambda>s.
            cbind (ADVANCE s) (\<lambda>s. Inr (0, skip_whitespace s)))))"

section \<open>Literals and numbers\<close>

fun literal_loop :: "string \<Rightarrow> string \<Rightarrow> string option" where
  "literal_loop [] r = Some r"
| "literal_loop (l # ls) [] = None"
| "literal_loop (l # ls) (ch # r) = (if ch = l then literal_loop ls r else None)"

definition parse_literal ::
    "'u json_fn \<Rightarrow> 'u parse_s \<Rightarrow> string \<Rightarrow> union_s \<Rightarrow> 'u parse_result" where
  "parse_literal cb s lit tok =
     (case literal_loop lit (p_rest s) of
        None \<Rightarrow> Inr (ec SYNTAX_ERROR, s)
      | Some r \<Rightarrow> emit cb (s\<lparr>p_rest := r\<rparr>) tok)"

definition INT64_MAX :: int where "INT64_MAX = 9223372036854775807"

fun whole_loop :: "int \<Rightarrow> bool \<Rightarrow> string \<Rightarrow> int \<times> bool \<times> string" where
  "whole_loop whole ovf [] = (whole, ovf, [])"
| "whole_loop whole ovf (ch # r) =
     (if is_digit ch then
        (let d = int (cord ch) - 48 in
         if whole > (INT64_MAX - d) div 10 then whole_loop whole True r
         else whole_loop (whole * 10 + d) ovf r)
      else (whole, ovf, ch # r))"

fun fract_loop :: "u64 \<Rightarrow> int \<Rightarrow> string \<Rightarrow> u64 \<times> int \<times> string" where
  "fract_loop fract k [] = (fract, k, [])"
| "fract_loop fract k (ch # r) =
     (if is_digit ch
      then fract_loop (f64_add (f64_mul fract (int_to_f64 10)) (int_to_f64 (int (cord ch) - 48))) (k + 1) r
      else (fract, k, ch # r))"

fun exp_loop :: "int \<Rightarrow> string \<Rightarrow> int \<times> string" where
  "exp_loop whole [] = (whole, [])"
| "exp_loop whole (ch # r) =
     (if is_digit ch then exp_loop (min 100000 (whole * 10 + (int (cord ch) - 48))) r
      else (whole, ch # r))"

definition hd0 :: "string \<Rightarrow> char" where
  "hd0 r = (case r of [] \<Rightarrow> NUL | ch # _ \<Rightarrow> ch)"

text \<open>
  The exponent, after its letter: the sign, the digits and an optional fraction, whose
  \<^verbatim>\<open>int32_t\<close> power of ten overflows from the tenth digit on.
\<close>

definition number_exponent :: "string \<Rightarrow> (string + u64 \<times> string) c" where
  "number_exponent r0 =
     (let (neg, r) = (if hd0 r0 = CHR ''+'' then (False, tl r0)
                      else if hd0 r0 = CHR ''-'' then (True, tl r0) else (False, r0))
      in if \<not> is_digit (hd0 r) then Inr (Inl r)
         else
           let (whole, r) = exp_loop 0 r; e = int_to_f64 whole in
           if hd0 r = CHR ''.'' then
             (let (fract, k, r) = fract_loop (int_to_f64 0) 0 (tl r) in
              if k > 9 then Inl Undefined
              else
                let e = f64_add e (f64_div fract (int_to_f64 (10 ^ nat k)))
                in Inr (Inr (if neg then f64_neg e else e, r)))
           else Inr (Inr (if neg then f64_neg e else e, r)))"

definition jsdrv_union_i64 :: "int \<Rightarrow> union_s" where
  "jsdrv_union_i64 v = union_of U_I64 (of_int v)"
definition jsdrv_union_f64 :: "u64 \<Rightarrow> union_s" where
  "jsdrv_union_f64 v = union_of U_F64 v"

text \<open>
  After the digits: \<open>ch\<close> is the local variable of the C function, which still holds the digit
  when the whole part is the single digit 0.
\<close>

definition number_scale ::
    "(u64 \<Rightarrow> u64) \<Rightarrow> u64 \<Rightarrow> char \<Rightarrow> string \<Rightarrow> (string + u64 \<times> string) c" where
  "number_scale pow10 f64 ch r =
     (if ch = CHR ''e'' \<or> ch = CHR ''E'' then
        cbind (number_exponent (tl r)) (\<lambda>x.
          Inr (map_sum id (\<lambda>(e, r). (f64_mul f64 (pow10 e), r)) x))
      else Inr (Inr (f64, r)))"

definition number_f64 ::
    "(u64 \<Rightarrow> u64) \<Rightarrow> bool \<Rightarrow> int \<Rightarrow> char \<Rightarrow> string \<Rightarrow> (string + u64 \<times> string) c" where
  "number_f64 pow10 neg whole ch r0 =
     (let f64 = int_to_f64 whole;
          (f64, ch, r) =
            (if hd0 r0 = CHR ''.'' then
               (let (fract, k, r) = fract_loop (int_to_f64 0) 0 (tl r0)
                in (f64_add f64 (f64_mul fract (pow10 (int_to_f64 (- k)))), hd0 r, r))
             else (f64, ch, r0))
      in number_scale pow10 (if neg then f64_neg f64 else f64) ch r)"

definition parse_number ::
    "(u64 \<Rightarrow> u64) \<Rightarrow> 'u json_fn \<Rightarrow> 'u parse_s \<Rightarrow> 'u parse_result" where
  "parse_number pow10 cb s =
     (let (neg, r) = (if NEXT s = CHR ''-'' then (True, tl (p_rest s))
                      else if NEXT s = CHR ''+'' then (False, tl (p_rest s))
                      else (False, p_rest s));
          c0 = hd0 r
      in if \<not> is_digit c0 then Inr (ec SYNTAX_ERROR, s\<lparr>p_rest := r\<rparr>)
         else
           let (whole, ovf, r, ch) =
             (if c0 = CHR ''0'' then (0, False, tl r, c0)
              else let (w, f, r) = whole_loop 0 False r in (w, f, r, hd0 r))
           in if hd0 r \<noteq> CHR ''.'' \<and> hd0 r \<noteq> CHR ''e'' \<and> hd0 r \<noteq> CHR ''E'' then
                (if ovf then Inr (ec SYNTAX_ERROR, s\<lparr>p_rest := r\<rparr>)
                 else
                   let whole = (if neg then - whole else whole)
                   in emit cb (s\<lparr>p_rest := r\<rparr>)
                        (if -2147483648 \<le> whole \<and> whole \<le> 2147483647
                         then jsdrv_union_i32 whole else jsdrv_union_i64 whole))
              else
                cbind (number_f64 pow10 neg whole ch r) (\<lambda>x.
                  case x of
                    Inl r \<Rightarrow> Inr (ec SYNTAX_ERROR, s\<lparr>p_rest := r\<rparr>)
                  | Inr (f64, r) \<Rightarrow> emit cb (s\<lparr>p_rest := r\<rparr>) (jsdrv_union_f64 f64)))"

section \<open>Values, objects and arrays\<close>

text \<open>
  \<^verbatim>\<open>parse_value\<close>, \<^verbatim>\<open>parse_object\<close> and \<^verbatim>\<open>parse_array\<close> call each other. Each body takes the recursive
  calls as the argument \<open>call\<close>, and \<open>parse_at\<close> ties the knot with one unit of fuel per call;
  the two \<^verbatim>\<open>while\<close> loops are entries of their own.
\<close>

datatype entry = E_value | E_object | E_object_loop | E_array | E_array_loop

definition parse_value ::
    "(entry \<Rightarrow> 'u parse_s \<Rightarrow> 'u parse_result) \<Rightarrow> (u64 \<Rightarrow> u64) \<Rightarrow> 'u json_fn \<Rightarrow> 'u parse_s \<Rightarrow> 'u parse_result"
  where
  "parse_value call pow10 cb s0 =
     (let s = skip_whitespace s0; ch = NEXT s in
      if ch = NUL then Inr (ec SYNTAX_ERROR, s)
      else if ch = CHR 0x7B then call E_object s
      else if ch = CHR 0x5B then call E_array s
      else if ch = CHR 0x22 then parse_string cb s JSON_VALUE
      else if ch = CHR ''t'' then parse_literal cb s ''true'' (jsdrv_union_i32 1)
      else if ch = CHR ''f'' then parse_literal cb s ''false'' (jsdrv_union_i32 0)
      else if ch = CHR ''n'' then parse_literal cb s ''null'' jsdrv_union_null
      else if ch = CHR ''N'' then parse_literal cb s ''NaN'' (jsdrv_union_f64 F64_NAN)
      else parse_number pow10 cb s)"

definition parse_group ::
    "(entry \<Rightarrow> 'u parse_s \<Rightarrow> 'u parse_result) \<Rightarrow> 'u json_fn \<Rightarrow> char \<Rightarrow> json_token_e \<Rightarrow> entry \<Rightarrow>
     json_token_e \<Rightarrow> 'u parse_s \<Rightarrow> 'u parse_result" where
  "parse_group call cb opening start_tok loop end_tok s0 =
     (if NEXT s0 \<noteq> opening then Inr (ec SYNTAX_ERROR, s0)
      else
        let s = s0\<lparr>p_depth := p_depth s0 + 1\<rparr> in
        if p_depth s > DEPTH_MAX then Inr (ec SYNTAX_ERROR, s)
        else
          ROE (emit cb s (json_delim start_tok)) (\<lambda>s.
          cbind (ADVANCE s) (\<lambda>s.
          ROE (call loop (skip_whitespace s)) (\<lambda>s.
          ROE (emit cb s (json_delim end_tok)) (\<lambda>s.
          cbind (ADVANCE s) (\<lambda>s.
          Inr (0, s\<lparr>p_depth := p_depth s - 1\<rparr>)))))))"

definition parse_object ::
    "(entry \<Rightarrow> 'u parse_s \<Rightarrow> 'u parse_result) \<Rightarrow> 'u json_fn \<Rightarrow> 'u parse_s \<Rightarrow> 'u parse_result" where
  "parse_object call cb =
     parse_group call cb (CHR 0x7B) JSON_OBJ_START E_object_loop JSON_OBJ_END"

definition object_loop ::
    "(entry \<Rightarrow> 'u parse_s \<Rightarrow> 'u parse_result) \<Rightarrow> 'u json_fn \<Rightarrow> 'u parse_s \<Rightarrow> 'u parse_result" where
  "object_loop call cb s =
     (if NEXT s = CHR 0x7D then Inr (0, s)
      else
        ROE (parse_string cb (skip_whitespace s) JSON_KEY) (\<lambda>s.
        let s = skip_whitespace s in
        if NEXT s \<noteq> CHR '':'' then Inr (ec SYNTAX_ERROR, s)
        else
          cbind (ADVANCE s) (\<lambda>s.
          ROE (call E_value s) (\<lambda>s.
          let s = skip_whitespace s in
          if NEXT s = CHR '','' then
            cbind (ADVANCE s) (\<lambda>s.
              if NEXT s = CHR 0x7D then Inr (ec SYNTAX_ERROR, s) else call E_object_loop s)
          else call E_object_loop s))))"

definition parse_array ::
    "(entry \<Rightarrow> 'u parse_s \<Rightarrow> 'u parse_result) \<Rightarrow> 'u json_fn \<Rightarrow> 'u parse_s \<Rightarrow> 'u parse_result" where
  "parse_array call cb =
     parse_group call cb (CHR 0x5B) JSON_ARRAY_START E_array_loop JSON_ARRAY_END"

definition array_loop ::
    "(entry \<Rightarrow> 'u parse_s \<Rightarrow> 'u parse_result) \<Rightarrow> 'u json_fn \<Rightarrow> 'u parse_s \<Rightarrow> 'u parse_result" where
  "array_loop call cb s =
     (if NEXT s = CHR 0x5D then Inr (0, s)
      else
        ROE (call E_value (skip_whitespace s)) (\<lambda>s.
        let s = skip_whitespace s in
        if NEXT s = CHR '','' then
          cbind (ADVANCE s) (\<lambda>s.
          let s = skip_whitespace s in
          if NEXT s = CHR 0x5D then Inr (ec SYNTAX_ERROR, s) else call E_array_loop s)
        else call E_array_loop s))"

primrec parse_at ::
    "nat \<Rightarrow> (u64 \<Rightarrow> u64) \<Rightarrow> 'u json_fn \<Rightarrow> entry \<Rightarrow> 'u parse_s \<Rightarrow> 'u parse_result" where
  "parse_at 0 pow10 cb e s = Inl OutOfFuel"
| "parse_at (Suc k) pow10 cb e s =
     (let call = parse_at k pow10 cb in
      case e of
        E_value \<Rightarrow> parse_value call pow10 cb s
      | E_object \<Rightarrow> parse_object call cb s
      | E_object_loop \<Rightarrow> object_loop call cb s
      | E_array \<Rightarrow> parse_array call cb s
      | E_array_loop \<Rightarrow> array_loop call cb s)"

lemma parse_at_numeral [simp]:
  "parse_at (numeral n) pow10 cb e s =
     (let call = parse_at (pred_numeral n) pow10 cb in
      case e of
        E_value \<Rightarrow> parse_value call pow10 cb s
      | E_object \<Rightarrow> parse_object call cb s
      | E_object_loop \<Rightarrow> object_loop call cb s
      | E_array \<Rightarrow> parse_array call cb s
      | E_array_loop \<Rightarrow> array_loop call cb s)"
  by (simp only: numeral_eq_Suc parse_at.simps)

definition on_token_ignore :: "'u json_fn" where
  "on_token_ignore u tok = Inr (0, u)"

definition json_fuel :: "string \<Rightarrow> nat" where
  "json_fuel json = 3 * length json + 3"

definition jsdrv_json_parse ::
    "(u64 \<Rightarrow> u64) \<Rightarrow> string option \<Rightarrow> 'u json_fn option \<Rightarrow> 'u \<Rightarrow> (int \<times> 'u) c" where
  "jsdrv_json_parse pow10 json cbk user =
     (case json of
        None \<Rightarrow> Inr (ec PARAMETER_INVALID, user)
      | Some text \<Rightarrow>
          cbind (parse_at (json_fuel text) pow10
                   (case cbk of None \<Rightarrow> on_token_ignore | Some f \<Rightarrow> f) E_value
                   \<lparr>p_rest = text, p_depth = 0, p_user = user\<rparr>)
            (\<lambda>(rc, s). Inr (if rc = ec ABORTED then 0 else rc, p_user s)))"

text \<open>
  \<^verbatim>\<open>jsdrv_json_strcmp\<close> compares up to \<^verbatim>\<open>size - 1\<close> characters of the token; reading past the
  token's memory is out of bounds.
\<close>

fun json_strcmp_loop :: "string \<Rightarrow> char list \<Rightarrow> nat \<Rightarrow> int c" where
  "json_strcmp_loop str mem 0 = Inr (if str = [] then 0 else 1)"
| "json_strcmp_loop str [] (Suc n) = Inl OutOfBounds"
| "json_strcmp_loop [] (t # mem) (Suc n) =
     (if t = NUL then Inl OutOfBounds else Inr (-1))"
| "json_strcmp_loop (ch # str) (t # mem) (Suc n) =
     (if ch = t then json_strcmp_loop str mem n
      else Inr (if schar ch < schar t then -1 else 1))"

definition jsdrv_json_strcmp :: "string option \<Rightarrow> union_s option \<Rightarrow> int c" where
  "jsdrv_json_strcmp str token =
     (case str of
        None \<Rightarrow> Inr (-2)
      | Some s \<Rightarrow>
          (case token of
             None \<Rightarrow> Inr 2
           | Some t \<Rightarrow>
               if u_type t \<noteq> U_STR then Inr 2
               else (case u_ptr t of
                       None \<Rightarrow> if u_size t = 1 then Inr (if s = [] then 0 else 1) else Inl OutOfBounds
                     | Some mem \<Rightarrow> json_strcmp_loop s mem (unat (u_size t - 1)))))"

section \<open>The token grammar and the tokens fed to a callback\<close>

inductive json_tokens :: "entry \<Rightarrow> u8 list \<Rightarrow> bool" where
  jt_leaf: "json_tokens E_value [json_op JSON_VALUE]"
| jt_obj: "json_tokens E_object ts \<Longrightarrow> json_tokens E_value ts"
| jt_arr: "json_tokens E_array ts \<Longrightarrow> json_tokens E_value ts"
| jt_object: "json_tokens E_object_loop ts \<Longrightarrow>
    json_tokens E_object (json_op JSON_OBJ_START # ts @ [json_op JSON_OBJ_END])"
| jt_array: "json_tokens E_array_loop ts \<Longrightarrow>
    json_tokens E_array (json_op JSON_ARRAY_START # ts @ [json_op JSON_ARRAY_END])"
| jt_no_member: "json_tokens E_object_loop []"
| jt_member: "json_tokens E_value v \<Longrightarrow> json_tokens E_object_loop ts \<Longrightarrow>
    json_tokens E_object_loop (json_op JSON_KEY # v @ ts)"
| jt_no_elem: "json_tokens E_array_loop []"
| jt_elem: "json_tokens E_value v \<Longrightarrow> json_tokens E_array_loop ts \<Longrightarrow>
    json_tokens E_array_loop (v @ ts)"

text \<open>
  \<open>feeds cb u ts u'\<close>: calling the callback on tokens with the operations \<open>ts\<close>, each call
  returning 0, takes its state from \<open>u\<close> to \<open>u'\<close>.
\<close>

inductive feeds :: "'u json_fn \<Rightarrow> 'u \<Rightarrow> u8 list \<Rightarrow> 'u \<Rightarrow> bool" for cb where
  feeds_Nil: "feeds cb u [] u"
| feeds_Cons: "cb u tok = Inr (0, u1) \<Longrightarrow> feeds cb u1 ts u' \<Longrightarrow> feeds cb u (u_op tok # ts) u'"

lemma feeds_append: "feeds cb u ts u1 \<Longrightarrow> feeds cb u1 ts' u2 \<Longrightarrow> feeds cb u (ts @ ts') u2"
  by (induction rule: feeds.induct) (auto intro: feeds.intros)

lemma feeds_one: "cb u tok = Inr (0, u') \<Longrightarrow> feeds cb u [u_op tok] u'"
  by (auto intro: feeds.intros)

section \<open>What the scanners leave is a suffix\<close>

lemma suffix_tl_trans: "suffix r' (tl r) \<Longrightarrow> suffix r' r"
  using suffix_order.trans suffix_tl by blast

lemma hex_digits_suffix: "hex_digits k r = Some r' \<Longrightarrow> suffix r' r"
  by (induction k r rule: hex_digits.induct)
     (auto simp del: to_hex.simps split: if_splits intro: suffix_ConsI)

lemma string_loop_suffix:
  "string_loop r n = Some (m, r') \<Longrightarrow> suffix r' r \<and> r' \<noteq> [] \<and> m + length r' = n + length r"
proof (induction r arbitrary: n rule: length_induct)
  case (1 r)
  have IH: "suffix r' r \<and> r' \<noteq> [] \<and> m + length r' = n + length r"
    if "string_loop t k = Some (m, r')" "length t < length r" "suffix t r" "k + length t = n + length r" for t k
    using 1 that suffix_order.trans by metis
  obtain ch r1 where r: "r = ch # r1" using 1 by (cases r) (auto simp: string_loop.simps)
  consider "ch = CHR 0x22" | "ch = CHR 0x5C" | "ch \<noteq> CHR 0x22" "ch \<noteq> CHR 0x5C" by blast
  then show ?case
  proof cases
    case 1
    with "1.prems" r show ?thesis by (auto simp: string_loop.simps)
  next
    case 2
    with "1.prems" r obtain e r2 where r1: "r1 = e # r2"
      by (cases r1) (simp_all add: string_loop.simps)
    have s2: "suffix r2 r" using r r1 by (simp add: suffix_ConsI)
    show ?thesis
    proof (cases "e = CHR ''u''")
      case True
      with 2 "1.prems" r r1 obtain t where t: "hex_digits 4 r2 = Some t"
        and st: "string_loop t (n + 6) = Some (m, r')"
        by (subst (asm) string_loop.simps) (auto split: if_splits option.splits)
      have "length r2 = 4 + length t" using hex_digits_length [OF t] .
      with IH [OF st] r r1 hex_digits_suffix [OF t] s2 suffix_order.trans show ?thesis by force
    next
      case False
      with 2 "1.prems" r r1 have "string_loop r2 (n + 2) = Some (m, r')"
        by (subst (asm) string_loop.simps) (auto split: if_splits)
      from IH [OF this] r r1 s2 show ?thesis by simp
    qed
  next
    case 3
    with "1.prems" r have "string_loop r1 (n + 1) = Some (m, r')" by (simp add: string_loop.simps)
    from IH [OF this] r show ?thesis by (simp add: suffix_ConsI)
  qed
qed

lemma literal_loop_suffix: "literal_loop l r = Some r' \<Longrightarrow> r = l @ r'"
  by (induction l r rule: literal_loop.induct) (auto split: if_splits)

lemma whole_loop_suffix: "whole_loop w f r = (w', f', r') \<Longrightarrow> suffix r' r"
  by (induction w f r rule: whole_loop.induct) (auto simp: Let_def split: if_splits intro: suffix_ConsI)

lemma fract_loop_suffix: "fract_loop f k r = (f', k', r') \<Longrightarrow> suffix r' r"
  by (induction f k r rule: fract_loop.induct) (auto split: if_splits intro: suffix_ConsI)

lemma exp_loop_suffix: "exp_loop w r = (w', r') \<Longrightarrow> suffix r' r"
  by (induction w r rule: exp_loop.induct) (auto split: if_splits intro: suffix_ConsI)

lemma whole_loop_digit:
  "is_digit (hd0 r) \<Longrightarrow> whole_loop w f r = (w', f', r') \<Longrightarrow> suffix r' (tl r)"
  by (cases r) (auto simp: hd0_def Let_def is_digit_def split: if_splits dest: whole_loop_suffix)

lemma number_exponent_suffix:
  "number_exponent r = Inr (Inr (e, r')) \<Longrightarrow> suffix r' r"
proof -
  assume h: "number_exponent r = Inr (Inr (e, r'))"
  define p where "p = (if hd0 r = CHR ''+'' then (False, tl r)
      else if hd0 r = CHR ''-'' then (True, tl r) else (False, r))"
  obtain neg r1 where p1: "p = (neg, r1)" by (cases p)
  obtain w r2 where r2: "exp_loop 0 r1 = (w, r2)" by (cases "exp_loop 0 r1")
  obtain f k r3 where r3: "fract_loop (int_to_f64 0) 0 (tl r2) = (f, k, r3)"
    by (cases "fract_loop (int_to_f64 0) 0 (tl r2)")
  have "suffix r1 r" using p1 p_def by (auto split: if_splits)
  moreover have "suffix r2 r1" using exp_loop_suffix [OF r2] .
  moreover have "suffix r3 r2" using suffix_tl_trans [OF fract_loop_suffix [OF r3]] .
  moreover have "r' = r2 \<or> r' = r3"
    using h p1 r2 r3 unfolding number_exponent_def Let_def p_def [symmetric]
    by (auto split: if_splits)
  ultimately show ?thesis using suffix_order.trans by blast
qed

lemma number_exponent_fault: "number_exponent r = Inl f \<Longrightarrow> f = Undefined"
  by (auto simp: number_exponent_def Let_def split: if_splits prod.splits)

lemma number_scale_suffix:
  "number_scale pow10 f ch r = Inr (Inr (v, r')) \<Longrightarrow> suffix r' r"
proof (cases "number_exponent (tl r)")
  case (Inr x)
  assume h: "number_scale pow10 f ch r = Inr (Inr (v, r'))"
  then show ?thesis
    using Inr number_exponent_suffix [of "tl r"] suffix_tl_trans [of r' r]
    by (cases x) (fastforce simp: number_scale_def split: if_splits)+
qed (auto simp: number_scale_def split: if_splits)

lemma number_scale_fault: "number_scale pow10 f ch r = Inl e \<Longrightarrow> e = Undefined"
  by (auto simp: number_scale_def cbind_def split: if_splits sum.splits dest: number_exponent_fault)

lemma number_f64_suffix:
  assumes "number_f64 pow10 neg w ch r = Inr (Inr (v, r'))"
  shows "suffix r' r"
proof -
  obtain f k r1 where r1: "fract_loop (int_to_f64 0) 0 (tl r) = (f, k, r1)"
    by (cases "fract_loop (int_to_f64 0) 0 (tl r)")
  have "suffix r1 r" using suffix_tl_trans [OF fract_loop_suffix [OF r1]] .
  with assms r1 suffix_order.trans show ?thesis
    by (cases "hd0 r = CHR ''.''") (auto simp: number_f64_def Let_def dest!: number_scale_suffix)
qed

lemma number_f64_fault: "number_f64 pow10 neg w ch r = Inl f \<Longrightarrow> f = Undefined"
  by (auto simp: number_f64_def Let_def split: if_splits prod.splits dest: number_scale_fault)

lemma NEXT_hd0: "NEXT s = hd0 (p_rest s)"
  by (simp add: NEXT_def hd0_def)

lemma hd0_neq_NUL: "hd0 r \<noteq> NUL \<Longrightarrow> r \<noteq> []"
  by (auto simp: hd0_def)

lemma ADVANCE_eq: "NEXT s \<noteq> NUL \<Longrightarrow> ADVANCE s = Inr (s\<lparr>p_rest := tl (p_rest s)\<rparr>)"
  by (auto simp: ADVANCE_def NEXT_def split: list.splits)

lemma skip_whitespace_sel [simp]:
  "p_user (skip_whitespace s) = p_user s"
  "p_depth (skip_whitespace s) = p_depth s"
  by (simp_all add: skip_whitespace_def)

lemma skip_whitespace_suffix: "suffix (p_rest (skip_whitespace s)) (p_rest s)"
  by (simp add: skip_whitespace_def suffix_dropWhile)

lemmas skip_whitespace_length = suffix_length_le [OF skip_whitespace_suffix]

text \<open>
  A token a callback can receive: a string token points into a terminated text that is at
  least as long as the size says.
\<close>

definition json_token_ok :: "union_s \<Rightarrow> bool" where
  "json_token_ok tok \<longleftrightarrow> (u_type tok = U_STR \<longrightarrow>
     (\<exists>t n. u_ptr tok = Some (t @ [NUL]) \<and> is_cstr t \<and> n \<le> length t \<and> n + 1 < 2 ^ 32
        \<and> u_size tok = of_nat (n + 1)))"

text \<open>The text of a C string whose offsets fit the parser's \<^verbatim>\<open>uint32_t\<close>.\<close>

definition json_text :: "string \<Rightarrow> bool" where
  "json_text r \<longleftrightarrow> is_cstr r \<and> length r + 1 < 2 ^ 32"

lemma json_text_suffix: "suffix r' r \<Longrightarrow> json_text r \<Longrightarrow> json_text r'"
  using set_mono_suffix [of r' r] suffix_length_le [of r' r]
  by (auto simp: json_text_def is_cstr_def)

lemma json_token_ok_simps [simp]:
  "json_token_ok (jsdrv_union_i32 i)" "json_token_ok (jsdrv_union_i64 i)"
  "json_token_ok (jsdrv_union_f64 v)" "json_token_ok jsdrv_union_null" "json_token_ok (json_delim t)"
  by (simp_all add: json_token_ok_def jsdrv_union_i32_def jsdrv_union_i64_def jsdrv_union_f64_def
      jsdrv_union_null_def union_of_def json_delim_def)

lemma json_token_ok_str: "json_text t \<Longrightarrow> n \<le> length t \<Longrightarrow> json_token_ok (json_str_token op t n)"
  by (auto simp: json_token_ok_def json_str_token_def json_text_def simp del: of_nat_add of_nat_Suc)

section \<open>Parsing with an arbitrary callback\<close>

text \<open>
  What the parser asks of a callback: it does not itself run out of fuel. The callback
  may stop the parse with any return code, and may fault. \<open>textp\<close> is what is known of the
  text, and \<open>tokp\<close> what it gives for the tokens. \<open>ok r P\<close> says that the only
  faults of a parsing step are the callback's own and the undefined power of ten of a
  fractional exponent, that \<open>P\<close> holds of the state when the step returns 0, and that any
  other return code is a syntax error or the callback's.
\<close>

locale json_callback =
  fixes cb :: "'u json_fn"
    and textp :: "string \<Rightarrow> bool"
    and tokp :: "union_s \<Rightarrow> bool"
  assumes fuel_free: "cb u tok \<noteq> Inl OutOfFuel"
    and text_suffix: "suffix r' r \<Longrightarrow> textp r \<Longrightarrow> textp r'"
    and tok_str: "textp t \<Longrightarrow> n \<le> length t \<Longrightarrow> tokp (json_str_token op t n)"
    and tok_simps [simp]: "tokp (jsdrv_union_i32 i)" "tokp (jsdrv_union_i64 i)" "tokp (jsdrv_union_f64 v)"
      "tokp jsdrv_union_null" "tokp (json_delim d)"
begin

definition fault_ok :: "fault \<Rightarrow> bool" where
  "fault_ok f \<longleftrightarrow> f = Undefined \<or> (\<exists>u tok. tokp tok \<and> cb u tok = Inl f)"

definition rc_ok :: "int \<Rightarrow> bool" where
  "rc_ok rc \<longleftrightarrow> rc = ec SYNTAX_ERROR \<or> (\<exists>u tok u'. cb u tok = Inr (rc, u'))"

definition ok :: "'u parse_result \<Rightarrow> ('u parse_s \<Rightarrow> bool) \<Rightarrow> bool" where
  "ok r P \<longleftrightarrow> (case r of Inl f \<Rightarrow> fault_ok f | Inr (rc, s) \<Rightarrow> if rc = 0 then P s else rc_ok rc)"

text \<open>From \<open>s\<close> to \<open>s'\<close> the callback received \<open>ts\<close>, \<open>n\<close> characters or more were read, and the
  depth is as before.\<close>

definition reads :: "'u parse_s \<Rightarrow> u8 list \<Rightarrow> nat \<Rightarrow> 'u parse_s \<Rightarrow> bool" where
  "reads s ts n s' \<longleftrightarrow> feeds cb (p_user s) ts (p_user s') \<and> p_depth s' = p_depth s
     \<and> suffix (p_rest s') (p_rest s) \<and> n + length (p_rest s') \<le> length (p_rest s)"

lemma reads_refl: "reads s [] 0 s"
  by (simp add: reads_def feeds_Nil)

lemma reads_trans: "reads s ts n s1 \<Longrightarrow> reads s1 ts' m s2 \<Longrightarrow> reads s (ts @ ts') (n + m) s2"
  by (auto simp: reads_def intro: feeds_append suffix_order.trans)

lemma reads_text: "reads s ts n s' \<Longrightarrow> textp (p_rest s) \<Longrightarrow> textp (p_rest s')"
  by (auto simp: reads_def intro: text_suffix)

lemma reads_mono: "reads s ts n s' \<Longrightarrow> m \<le> n \<Longrightarrow> reads s ts m s'"
  by (auto simp: reads_def)

lemma reads_skip: "reads s [] 0 (skip_whitespace s)"
  by (simp add: reads_def feeds_Nil skip_whitespace_length skip_whitespace_suffix)

lemma reads_after_skip: "reads (skip_whitespace s) ts n s' \<Longrightarrow> reads s ts n s'"
  using reads_trans [OF reads_skip [of s], of ts n s'] by simp

lemma ok_undefined [simp]: "ok (Inl Undefined) P"
  by (simp add: ok_def fault_ok_def)

lemma ok_error: "ok (Inr (ec SYNTAX_ERROR, s)) P"
  by (simp add: ok_def rc_ok_def)

lemmas ok_error_num [simp] = ok_error [simplified]

lemma ok_ifI: "(b \<Longrightarrow> ok x P) \<Longrightarrow> (\<not> b \<Longrightarrow> ok y P) \<Longrightarrow> ok (if b then x else y) P"
  by simp

lemma ok_mono: "ok r P \<Longrightarrow> (\<And>s. P s \<Longrightarrow> Q s) \<Longrightarrow> ok r Q"
  by (auto simp: ok_def split: sum.splits)

lemma ok_ROE:
  assumes "ok m Q" and "\<And>s. Q s \<Longrightarrow> ok (f s) P"
  shows "ok (ROE m f) P"
proof (cases m)
  case (Inr x)
  obtain rc s where x: "x = (rc, s)" by (cases x)
  show ?thesis
  proof (cases "rc = 0")
    case True
    with Inr x assms(1) have "Q s" by (simp add: ok_def)
    with Inr x True assms(2) show ?thesis by (simp add: ROE_def)
  qed (use Inr x assms(1) in \<open>simp add: ROE_def ok_def\<close>)
qed (use assms(1) in \<open>simp add: ROE_def ok_def\<close>)

lemma ok_ADVANCE:
  assumes "NEXT s \<noteq> NUL" and "ok (f (s\<lparr>p_rest := tl (p_rest s)\<rparr>)) P"
  shows "ok (cbind (ADVANCE s) f) P"
  using assms by (simp add: ADVANCE_eq)

lemma reads_tl: "NEXT s \<noteq> NUL \<Longrightarrow> reads s [] 1 (s\<lparr>p_rest := tl (p_rest s)\<rparr>)"
  by (cases "p_rest s") (simp_all add: reads_def feeds_Nil NEXT_def suffix_ConsI)

lemma ok_emit:
  assumes "tokp tok"
  shows "ok (emit cb s tok) (\<lambda>s'. reads s [u_op tok] 0 s' \<and> p_rest s' = p_rest s)"
proof (cases "cb (p_user s) tok")
  case (Inl f)
  then show ?thesis using assms by (auto simp: emit_def ok_def fault_ok_def)
next
  case (Inr x)
  then show ?thesis by (cases x) (auto simp: emit_def ok_def reads_def rc_ok_def intro: feeds_one)
qed

lemma ok_emit_rest:
  assumes "n + length r \<le> length (p_rest s)" and "suffix r (p_rest s)" and "tokp tok"
  shows "ok (emit cb (s\<lparr>p_rest := r\<rparr>) tok) (reads s [u_op tok] n)"
  using ok_emit [OF assms(3), of "s\<lparr>p_rest := r\<rparr>"] assms by (elim ok_mono) (auto simp: reads_def)

lemma ok_parse_string:
  assumes "textp (p_rest s)"
  shows "ok (parse_string cb s op) (reads s [json_op op] 2)"
proof (cases "NEXT s = CHR 0x22")
  case True
  then obtain r where r: "p_rest s = CHR 0x22 # r" by (cases "p_rest s") (auto simp: NEXT_def)
  show ?thesis
  proof (cases "string_loop r 0")
    case None
    with True r show ?thesis by (simp add: parse_string_def ADVANCE_eq)
  next
    case (Some x)
    then obtain n q where q: "string_loop r 0 = Some (n, q)" by (cases x) auto
    have len: "length q \<le> length r" "q \<noteq> []" "suffix q r" "n \<le> length r"
      using string_loop_suffix [OF q] suffix_length_le [of q r] by auto
    have tok: "tokp (json_str_token op r n)"
      using assms r len(4) text_suffix [of r "p_rest s"]
      by (intro tok_str) (simp_all add: suffix_ConsI)
    define s1 where "s1 = s\<lparr>p_rest := q\<rparr>"
    have "ok (ROE (emit cb s1 (json_str_token op r n))
        (\<lambda>s. cbind (ADVANCE s) (\<lambda>s. Inr (0, skip_whitespace s)))) (reads s [json_op op] 2)"
    proof (rule ok_ROE [OF ok_emit [OF tok]])
      fix s2
      assume s2: "reads s1 [u_op (json_str_token op r n)] 0 s2 \<and> p_rest s2 = p_rest s1"
      then have "p_rest s2 = q" by (simp add: s1_def)
      with len obtain c q' where q': "p_rest s2 = c # q'" "q = c # q'" by (cases q) auto
      have "reads s [json_op op] 2 (s2\<lparr>p_rest := q'\<rparr>)"
        using s2 q' len r by (auto simp: reads_def s1_def json_str_token_def suffix_def)
      then show "ok (cbind (ADVANCE s2) (\<lambda>s. Inr (0, skip_whitespace s))) (reads s [json_op op] 2)"
        using reads_trans [OF _ reads_skip] q' by (fastforce simp: ADVANCE_def ok_def)
    qed
    with True r q show ?thesis by (simp add: parse_string_def ADVANCE_eq s1_def)
  qed
qed (simp add: parse_string_def)

lemma ok_parse_literal:
  assumes "u_op tok = 0" and "lit \<noteq> []" and "tokp tok"
  shows "ok (parse_literal cb s lit tok) (reads s [json_op JSON_VALUE] 1)"
proof (cases "literal_loop lit (p_rest s)")
  case (Some r)
  have "p_rest s = lit @ r" using literal_loop_suffix [OF Some] .
  with assms have "1 + length r \<le> length (p_rest s)" "suffix r (p_rest s)"
    by (cases lit, auto simp: suffix_def)+
  then show ?thesis
    using Some assms ok_emit_rest [of 1 r s tok] by (simp add: parse_literal_def)
qed (simp add: parse_literal_def)

lemma number_ops [simp]:
  "u_op (jsdrv_union_i32 i) = 0" "u_op (jsdrv_union_i64 i) = 0" "u_op (jsdrv_union_f64 v) = 0"
  "u_op jsdrv_union_null = 0"
  by (simp_all add: jsdrv_union_i32_def jsdrv_union_i64_def jsdrv_union_f64_def jsdrv_union_null_def
      union_of_def)

lemma ok_parse_number: "ok (parse_number pow10 cb s) (reads s [json_op JSON_VALUE] 1)"
proof -
  define p where "p = (if NEXT s = CHR ''-'' then (True, tl (p_rest s))
      else if NEXT s = CHR ''+'' then (False, tl (p_rest s)) else (False, p_rest s))"
  obtain neg r where pr: "p = (neg, r)" by (cases p)
  have lr: "suffix r (p_rest s)" using pr p_def by (auto split: if_splits)
  show ?thesis
  proof (cases "is_digit (hd0 r)")
    case False
    then show ?thesis
      unfolding parse_number_def p_def [symmetric] pr by simp
  next
    case True
    then have rne: "r \<noteq> []" by (auto simp: hd0_def is_digit_def)
    define q where "q = (if hd0 r = CHR ''0'' then (0, False, tl r, hd0 r)
        else let (w, f, r) = whole_loop 0 False r in (w, f, r, hd0 r))"
    obtain w ovf t ch where qr: "q = (w, ovf, t, ch)" by (cases q)
    have st: "suffix t (tl r)"
      using qr q_def whole_loop_digit [OF True] by (auto split: if_splits prod.splits)
    have lt: "1 + length t \<le> length (p_rest s)"
      using suffix_length_le [OF st] suffix_length_le [OF lr] rne by (cases r) auto
    have sx: "suffix t (p_rest s)" using suffix_order.trans [OF suffix_tl_trans [OF st] lr] .
    have body: "parse_number pow10 cb s =
        (if hd0 t \<noteq> CHR ''.'' \<and> hd0 t \<noteq> CHR ''e'' \<and> hd0 t \<noteq> CHR ''E'' then
           (if ovf then Inr (ec SYNTAX_ERROR, s\<lparr>p_rest := t\<rparr>)
            else let whole = (if neg then - w else w)
              in emit cb (s\<lparr>p_rest := t\<rparr>)
                   (if -2147483648 \<le> whole \<and> whole \<le> 2147483647
                    then jsdrv_union_i32 whole else jsdrv_union_i64 whole))
         else cbind (number_f64 pow10 neg w ch t) (\<lambda>x.
                case x of
                  Inl r \<Rightarrow> Inr (ec SYNTAX_ERROR, s\<lparr>p_rest := r\<rparr>)
                | Inr (f64, r) \<Rightarrow> emit cb (s\<lparr>p_rest := r\<rparr>) (jsdrv_union_f64 f64)))"
      unfolding parse_number_def p_def [symmetric] pr using True qr [unfolded q_def]
      by (simp add: Let_def)
    have em: "ok (emit cb (s\<lparr>p_rest := t\<rparr>) tok) (reads s [json_op JSON_VALUE] 1)"
      if "u_op tok = 0" "tokp tok" for tok
      using ok_emit_rest [OF lt sx that(2)] that by simp
    have fl: "ok (cbind (number_f64 pow10 neg w ch t) (\<lambda>x.
        case x of
          Inl r \<Rightarrow> Inr (ec SYNTAX_ERROR, s\<lparr>p_rest := r\<rparr>)
        | Inr (f64, r) \<Rightarrow> emit cb (s\<lparr>p_rest := r\<rparr>) (jsdrv_union_f64 f64)))
        (reads s [json_op JSON_VALUE] 1)"
    proof (cases "number_f64 pow10 neg w ch t")
      case (Inl f)
      then show ?thesis using number_f64_fault [OF Inl] by simp
    next
      case (Inr x)
      have "ok (emit cb (s\<lparr>p_rest := r'\<rparr>) (jsdrv_union_f64 v)) (reads s [json_op JSON_VALUE] 1)"
        if "x = Inr (v, r')" for v r'
      proof -
        have "suffix r' t" using number_f64_suffix [of pow10 neg w ch t v r'] that Inr by simp
        with lt sx have "1 + length r' \<le> length (p_rest s)" "suffix r' (p_rest s)"
          using suffix_length_le [of r' t] suffix_order.trans by auto
        from ok_emit_rest [OF this, of "jsdrv_union_f64 v"] show ?thesis by simp
      qed
      with Inr show ?thesis by (simp split: sum.split prod.split)
    qed
    show ?thesis unfolding body Let_def
      by (intro ok_ifI fl em ok_error) simp_all
  qed
qed

definition post :: "entry \<Rightarrow> 'u parse_s \<Rightarrow> 'u parse_s \<Rightarrow> bool" where
  "post e s s' \<longleftrightarrow> (\<exists>ts. json_tokens e ts \<and>
     (case e of
        E_object_loop \<Rightarrow> reads s ts 0 s' \<and> NEXT s' = CHR 0x7D
      | E_array_loop \<Rightarrow> reads s ts 0 s' \<and> NEXT s' = CHR 0x5D
      | _ \<Rightarrow> reads s ts 1 s'))"

definition need :: "entry \<Rightarrow> nat \<Rightarrow> nat" where
  "need e n = 3 * n + (case e of E_value \<Rightarrow> 3 | E_object \<Rightarrow> 2 | E_array \<Rightarrow> 2 | _ \<Rightarrow> 4)"

text \<open>The recursive calls, with enough fuel for any text of at most \<open>n\<close> characters.\<close>

definition calls_ok :: "(entry \<Rightarrow> 'u parse_s \<Rightarrow> 'u parse_result) \<Rightarrow> nat \<Rightarrow> bool" where
  "calls_ok call k \<longleftrightarrow> (\<forall>e s. textp (p_rest s) \<longrightarrow> need e (length (p_rest s)) \<le> k
     \<longrightarrow> ok (call e s) (post e s))"

lemma ok_parse_group:
  assumes "calls_ok call k" and "3 * length (p_rest s) + 2 \<le> Suc k" and tx: "textp (p_rest s)"
    and op: "op \<noteq> NUL" and loop: "loop = E_object_loop \<or> loop = E_array_loop"
    and close: "\<And>a b. post loop a b \<Longrightarrow> NEXT b \<noteq> NUL"
    and toks: "\<And>ts. json_tokens loop ts \<Longrightarrow> json_tokens e (json_op st # ts @ [json_op en])"
    and e: "e = E_object \<or> e = E_array"
  shows "ok (parse_group call cb op st loop en s) (post e s)"
proof (cases "NEXT s = op \<and> p_depth s + 1 \<le> DEPTH_MAX")
  case False
  then show ?thesis by (auto simp: parse_group_def Let_def)
next
  case True
  have nn: "NEXT s \<noteq> NUL" using True op by simp
  define s0 where "s0 = s\<lparr>p_depth := p_depth s + 1\<rparr>"
  have rest: "p_rest s0 = p_rest s" by (simp add: s0_def)
  have eq: "parse_group call cb op st loop en s = ROE (emit cb s0 (json_delim st)) (\<lambda>s.
      cbind (ADVANCE s) (\<lambda>s. ROE (call loop (skip_whitespace s))
        (\<lambda>s. ROE (emit cb s (json_delim en)) (\<lambda>s. cbind (ADVANCE s)
          (\<lambda>s. Inr (0, s\<lparr>p_depth := p_depth s - 1\<rparr>))))))"
    using True by (simp add: parse_group_def s0_def Let_def)
  show ?thesis unfolding eq
  proof (rule ok_ROE [OF ok_emit [OF tok_simps(5)]])
    fix s1
    assume s1: "reads s0 [u_op (json_delim st)] 0 s1 \<and> p_rest s1 = p_rest s0"
    have n1: "NEXT s1 \<noteq> NUL" using nn s1 rest by (simp add: NEXT_def)
    define s2 where "s2 = s1\<lparr>p_rest := tl (p_rest s1)\<rparr>"
    have r2: "reads s0 [json_op st] 1 s2"
      using reads_trans [OF conjunct1 [OF s1] reads_tl [OF n1]]
      by (simp add: s2_def json_delim_def)
    have "need loop (length (p_rest (skip_whitespace s2))) \<le> k"
      using r2 assms(2) loop skip_whitespace_length [of s2] rest
      by (auto simp: need_def reads_def)
    moreover have "textp (p_rest (skip_whitespace s2))"
      using reads_text [OF reads_trans [OF r2 reads_skip]] tx rest by simp
    ultimately have "ok (call loop (skip_whitespace s2)) (post loop (skip_whitespace s2))"
      using assms(1) by (simp add: calls_ok_def)
    then show "ok (cbind (ADVANCE s1) (\<lambda>s. ROE (call loop (skip_whitespace s))
        (\<lambda>s. ROE (emit cb s (json_delim en)) (\<lambda>s. cbind (ADVANCE s)
          (\<lambda>s. Inr (0, s\<lparr>p_depth := p_depth s - 1\<rparr>)))))) (post e s)"
      unfolding s2_def
    proof (rule ok_ADVANCE [OF n1 ok_ROE], fold s2_def)
      fix s3
      assume p3: "post loop (skip_whitespace s2) s3"
      then obtain ts where ts: "json_tokens loop ts" "reads (skip_whitespace s2) ts 0 s3"
        using loop by (auto simp: post_def)
      have n3: "NEXT s3 \<noteq> NUL" using close [OF p3] .
      show "ok (ROE (emit cb s3 (json_delim en)) (\<lambda>s. cbind (ADVANCE s)
          (\<lambda>s. Inr (0, s\<lparr>p_depth := p_depth s - 1\<rparr>)))) (post e s)"
      proof (rule ok_ROE [OF ok_emit [OF tok_simps(5)]])
        fix s4
        assume s4: "reads s3 [u_op (json_delim en)] 0 s4 \<and> p_rest s4 = p_rest s3"
        have n4: "NEXT s4 \<noteq> NUL" using n3 s4 by (simp add: NEXT_def)
        have "reads s0 (json_op st # ts @ [json_op en]) 1 s4"
          using reads_trans [OF reads_trans [OF r2 reads_after_skip [OF ts(2)]] conjunct1 [OF s4]]
          by (simp add: json_delim_def)
        from reads_trans [OF this reads_tl [OF n4]]
        have "reads s0 (json_op st # ts @ [json_op en]) 1 (s4\<lparr>p_rest := tl (p_rest s4)\<rparr>)"
          by (auto intro: reads_mono)
        then have "reads s (json_op st # ts @ [json_op en]) 1
            (s4\<lparr>p_rest := tl (p_rest s4), p_depth := p_depth s4 - 1\<rparr>)"
          by (auto simp: reads_def s0_def)
        with toks [OF ts(1)] e
        have "post e s (s4\<lparr>p_rest := tl (p_rest s4), p_depth := p_depth s4 - 1\<rparr>)"
          by (auto simp: post_def)
        then show "ok (cbind (ADVANCE s4) (\<lambda>s. Inr (0, s\<lparr>p_depth := p_depth s - 1\<rparr>))) (post e s)"
          using n4 by (simp add: ADVANCE_eq ok_def)
      qed
    qed
  qed
qed

lemma loop_continue:
  assumes "calls_ok call k" and "need loop (length (p_rest s2)) \<le> k"
    and "reads s ts n s2" and "loop = E_object_loop \<or> loop = E_array_loop"
    and "\<And>us. json_tokens loop us \<Longrightarrow> json_tokens loop (ts @ us)" and "textp (p_rest s)"
  shows "ok (call loop s2) (post loop s)"
proof -
  have "ok (call loop s2) (post loop s2)"
    using assms(1,2) reads_text [OF assms(3,6)] by (simp add: calls_ok_def)
  then show ?thesis
  proof (rule ok_mono)
    fix s3
    assume "post loop s2 s3"
    then obtain us where us: "json_tokens loop us" "reads s2 us 0 s3"
      and n: "loop = E_object_loop \<Longrightarrow> NEXT s3 = CHR 0x7D" "loop = E_array_loop \<Longrightarrow> NEXT s3 = CHR 0x5D"
      using assms(4) by (auto simp: post_def)
    from reads_mono [OF reads_trans [OF assms(3) us(2)]] assms(5) [OF us(1)] n assms(4)
    show "post loop s s3" by (auto simp: post_def)
  qed
qed

lemma post_value_reads: "post E_value s s' \<Longrightarrow> \<exists>v. json_tokens E_value v \<and> reads s v 1 s'"
  by (simp add: post_def)

lemma reads_step:
  assumes "reads s ts n s1" and "NEXT (skip_whitespace s1) \<noteq> NUL"
  shows "reads s ts n ((skip_whitespace s1)\<lparr>p_rest := tl (p_rest (skip_whitespace s1))\<rparr>)"
  using reads_mono [OF reads_trans [OF assms(1) reads_trans [OF reads_skip reads_tl [OF assms(2)]]]]
  by simp

lemma ok_object_loop:
  assumes c: "calls_ok call k" and n: "3 * length (p_rest s) + 4 \<le> Suc k"
    and tx: "textp (p_rest s)"
  shows "ok (object_loop call cb s) (post E_object_loop s)"
proof (cases "NEXT s = CHR 0x7D")
  case True
  then show ?thesis
    using jt_no_member reads_refl by (auto simp: object_loop_def ok_def post_def)
next
  case False
  have body: "ok (ROE (call E_value s2) (\<lambda>s.
      let s = skip_whitespace s in
      if NEXT s = CHR '','' then
        cbind (ADVANCE s) (\<lambda>s. if NEXT s = CHR 0x7D then Inr (ec SYNTAX_ERROR, s) else call E_object_loop s)
      else call E_object_loop s)) (post E_object_loop s)"
    if r2: "reads s [json_op JSON_KEY] 2 s2" for s2
  proof (rule ok_ROE)
    have "need E_value (length (p_rest s2)) \<le> k" using n r2 by (auto simp: need_def reads_def)
    then show "ok (call E_value s2) (post E_value s2)"
      using c reads_text [OF r2 tx] by (simp add: calls_ok_def)
  next
    fix s3
    assume "post E_value s2 s3"
    then obtain v where v: "json_tokens E_value v" "reads s2 v 1 s3" using post_value_reads by blast
    have r3: "reads s (json_op JSON_KEY # v) 3 s3" using reads_trans [OF r2 v(2)] by simp
    have cont: "ok (call E_object_loop t) (post E_object_loop s)"
      if "reads s (json_op JSON_KEY # v) 3 t" for t
      using that n tx
      by (intro loop_continue [OF c _ that]) (auto simp: need_def reads_def intro: jt_member [OF v(1), simplified])
    have t1: "reads s (json_op JSON_KEY # v) 3 (skip_whitespace s3)"
      using reads_trans [OF r3 reads_skip] by simp
    show "ok (let s = skip_whitespace s3 in
        if NEXT s = CHR '','' then
          cbind (ADVANCE s) (\<lambda>s. if NEXT s = CHR 0x7D then Inr (ec SYNTAX_ERROR, s) else call E_object_loop s)
        else call E_object_loop s) (post E_object_loop s)"
      unfolding Let_def
      by (intro ok_ifI ok_ADVANCE cont t1 reads_step r3 ok_error) simp_all
  qed
  show ?thesis
    unfolding object_loop_def if_not_P [OF False]
  proof (rule ok_ROE [OF ok_parse_string])
    show "textp (p_rest (skip_whitespace s))" using reads_text [OF reads_skip tx] .
  next
    fix s1
    assume "reads (skip_whitespace s) [json_op JSON_KEY] 2 s1"
    then have r1: "reads s [json_op JSON_KEY] 2 s1" by (rule reads_after_skip)
    show "ok (let s = skip_whitespace s1 in
        if NEXT s \<noteq> CHR '':'' then Inr (ec SYNTAX_ERROR, s)
        else cbind (ADVANCE s) (\<lambda>s. ROE (call E_value s) (\<lambda>s.
          let s = skip_whitespace s in
          if NEXT s = CHR '','' then
            cbind (ADVANCE s) (\<lambda>s. if NEXT s = CHR 0x7D then Inr (ec SYNTAX_ERROR, s) else call E_object_loop s)
          else call E_object_loop s))) (post E_object_loop s)"
      unfolding Let_def
      by (intro ok_ifI ok_ADVANCE body [unfolded Let_def] reads_step r1 ok_error) simp_all
  qed
qed

lemma ok_array_loop:
  assumes c: "calls_ok call k" and n: "3 * length (p_rest s) + 4 \<le> Suc k"
    and tx: "textp (p_rest s)"
  shows "ok (array_loop call cb s) (post E_array_loop s)"
proof (cases "NEXT s = CHR 0x5D")
  case True
  then show ?thesis
    using jt_no_elem reads_refl by (auto simp: array_loop_def ok_def post_def)
next
  case False
  show ?thesis
    unfolding array_loop_def if_not_P [OF False]
  proof (rule ok_ROE)
    have "need E_value (length (p_rest (skip_whitespace s))) \<le> k"
      using n skip_whitespace_length [of s] by (auto simp: need_def)
    then show "ok (call E_value (skip_whitespace s)) (post E_value (skip_whitespace s))"
      using c reads_text [OF reads_skip tx] by (simp add: calls_ok_def)
  next
    fix s3
    assume "post E_value (skip_whitespace s) s3"
    then obtain v where v: "json_tokens E_value v" "reads (skip_whitespace s) v 1 s3"
      using post_value_reads by blast
    have r3: "reads s v 1 s3" using reads_after_skip [OF v(2)] .
    have cont: "ok (call E_array_loop t) (post E_array_loop s)" if "reads s v 1 t" for t
      using that n tx
      by (intro loop_continue [OF c _ that]) (auto simp: need_def reads_def intro: jt_elem v(1))
    have t1: "reads s v 1 (skip_whitespace t)" if "reads s v 1 t" for t
      using reads_trans [OF that reads_skip] by simp
    show "ok (let s = skip_whitespace s3 in
        if NEXT s = CHR '','' then
          cbind (ADVANCE s) (\<lambda>s. let s = skip_whitespace s in
            if NEXT s = CHR 0x5D then Inr (ec SYNTAX_ERROR, s) else call E_array_loop s)
        else call E_array_loop s) (post E_array_loop s)"
      unfolding Let_def
      by (intro ok_ifI ok_ADVANCE cont t1 reads_step r3 ok_error) simp_all
  qed
qed

lemma ok_parse_value:
  assumes c: "calls_ok call k" and n: "3 * length (p_rest s) + 3 \<le> Suc k"
    and tx: "textp (p_rest s)"
  shows "ok (parse_value call pow10 cb s) (post E_value s)"
proof -
  let ?s = "skip_whitespace s"
  have len: "length (p_rest ?s) \<le> length (p_rest s)" by (rule skip_whitespace_length)
  have tx': "textp (p_rest ?s)" using reads_text [OF reads_skip tx] .
  have leaf: "post E_value s s'" if "reads ?s [json_op JSON_VALUE] 1 s'" for s'
    using reads_after_skip [OF that] jt_leaf unfolding post_def by fastforce
  have leaf2: "post E_value s s'" if "reads ?s [json_op JSON_VALUE] 2 s'" for s'
    using leaf [OF reads_mono [OF that]] by simp
  have obj: "ok (call e ?s) (post E_value s)" if "e = E_object \<or> e = E_array" for e
  proof -
    have "ok (call e ?s) (post e ?s)"
      using c n len that tx' by (auto simp: calls_ok_def need_def)
    then show ?thesis
      by (rule ok_mono) (use that jt_obj jt_arr reads_after_skip in \<open>unfold post_def, fastforce\<close>)
  qed
  show ?thesis
    unfolding parse_value_def Let_def
    by (intro ok_ifI ok_error obj ok_mono [OF ok_parse_string leaf2] tx' ok_mono [OF ok_parse_literal leaf]
        ok_mono [OF ok_parse_number leaf]) simp_all
qed

lemma parse_at_ok: "calls_ok (parse_at k pow10 cb) k"
proof (induction k)
  case 0
  then show ?case by (simp add: calls_ok_def need_def split: entry.split)
next
  case (Suc k)
  have "ok (parse_at (Suc k) pow10 cb e s) (post e s)"
    if "need e (length (p_rest s)) \<le> Suc k" and tx: "textp (p_rest s)" for e s
  proof (cases e)
    case E_value
    with that ok_parse_value [OF Suc _ tx] show ?thesis by (simp add: need_def)
  next
    case E_object
    then have "3 * length (p_rest s) + 2 \<le> Suc k" using that by (simp add: need_def)
    then have "ok (parse_object (parse_at k pow10 cb) cb s) (post E_object s)"
      unfolding parse_object_def
      by (rule ok_parse_group [OF Suc _ tx]) (use jt_object in \<open>auto simp: post_def\<close>)
    then show ?thesis using E_object by simp
  next
    case E_array
    then have "3 * length (p_rest s) + 2 \<le> Suc k" using that by (simp add: need_def)
    then have "ok (parse_array (parse_at k pow10 cb) cb s) (post E_array s)"
      unfolding parse_array_def
      by (rule ok_parse_group [OF Suc _ tx]) (use jt_array in \<open>auto simp: post_def\<close>)
    then show ?thesis using E_array by simp
  next
    case E_object_loop
    with that ok_object_loop [OF Suc _ tx] show ?thesis by (simp add: need_def)
  next
    case E_array_loop
    with that ok_array_loop [OF Suc _ tx] show ?thesis by (simp add: need_def)
  qed
  then show ?case by (simp add: calls_ok_def)
qed

text \<open>
  The parse of any text ends, with a fault only if the callback faults or an exponent has
  a fraction of ten digits; a return code other than 0 comes from the callback or is a
  syntax error, and after 0 the callback has accepted the tokens of one value.
\<close>

lemma json_parse_ok:
  assumes "textp text"
  shows "(\<exists>f. jsdrv_json_parse pow10 (Some text) (Some cb) u = Inl f \<and> fault_ok f \<and> f \<noteq> OutOfFuel)
    \<or> (\<exists>rc u'. jsdrv_json_parse pow10 (Some text) (Some cb) u = Inr (rc, u'))"
  and json_parse_tokens:
    "(\<And>v tok v'. cb v tok \<noteq> Inr (ec ABORTED, v')) \<Longrightarrow>
     jsdrv_json_parse pow10 (Some text) (Some cb) u = Inr (0, u')
     \<Longrightarrow> \<exists>ts. json_tokens E_value ts \<and> feeds cb u ts u'"
proof -
  let ?s = "\<lparr>p_rest = text, p_depth = 0, p_user = u\<rparr>"
  have "ok (parse_at (json_fuel text) pow10 cb E_value ?s) (post E_value ?s)"
    using parse_at_ok [of "json_fuel text" pow10] assms by (simp add: calls_ok_def need_def json_fuel_def)
  then have o: "case parse_at (json_fuel text) pow10 cb E_value ?s of
      Inl f \<Rightarrow> fault_ok f | Inr (rc, s') \<Rightarrow> if rc = 0 then post E_value ?s s' else rc_ok rc"
    by (simp add: ok_def)
  then show "(\<exists>f. jsdrv_json_parse pow10 (Some text) (Some cb) u = Inl f \<and> fault_ok f \<and> f \<noteq> OutOfFuel)
    \<or> (\<exists>rc u'. jsdrv_json_parse pow10 (Some text) (Some cb) u = Inr (rc, u'))"
    using fuel_free by (auto simp: jsdrv_json_parse_def cbind_def fault_ok_def split: sum.splits)
  assume ab: "\<And>v tok v'. cb v tok \<noteq> Inr (ec ABORTED, v')"
    and "jsdrv_json_parse pow10 (Some text) (Some cb) u = Inr (0, u')"
  then obtain rc s' where s': "parse_at (json_fuel text) pow10 cb E_value ?s = Inr (rc, s')"
    and rc: "rc = ec ABORTED \<or> rc = 0" and u': "u' = p_user s'"
    by (auto simp: jsdrv_json_parse_def cbind_eq_Inr split: if_splits)
  have "rc = 0" using o s' rc ab by (auto simp: rc_ok_def split: if_splits)
  with o s' u' show "\<exists>ts. json_tokens E_value ts \<and> feeds cb u ts u'"
    by (auto simp: post_def reads_def)
qed

end

lemma json_callbackI:
  "(\<And>u tok. cb u tok \<noteq> Inl OutOfFuel) \<Longrightarrow> json_callback cb json_text json_token_ok"
  by unfold_locales (auto intro: json_text_suffix json_token_ok_str)

lemma json_callback_anyI:
  "(\<And>u tok. cb u tok \<noteq> Inl OutOfFuel) \<Longrightarrow> json_callback cb (\<lambda>_. True) (\<lambda>_. True)"
  by unfold_locales auto

interpretation ignore_cb: json_callback on_token_ignore "\<lambda>_. True" "\<lambda>_. True"
  by (rule json_callback_anyI) (simp add: on_token_ignore_def)

section \<open>Properties\<close>

text \<open>
  C16. For every text and every callback that does not itself fault on the tokens it can
  receive, \<^verbatim>\<open>jsdrv_json_parse\<close> ends and reads only inside the text. The one other outcome is the undefined integer
  overflow of an exponent whose fraction has ten digits or more.
\<close>

theorem jsdrv_json_parse_total:
  assumes "\<And>u tok. json_token_ok tok \<Longrightarrow> \<exists>rc u'. cb u tok = Inr (rc, u')"
    and "\<And>u tok. cb u tok \<noteq> Inl OutOfFuel" and "json_text text"
  shows "jsdrv_json_parse pow10 (Some text) (Some cb) u = Inl Undefined
         \<or> (\<exists>rc u'. jsdrv_json_parse pow10 (Some text) (Some cb) u = Inr (rc, u'))"
proof -
  have cb: "json_callback cb json_text json_token_ok" using assms(2) by (rule json_callbackI)
  show ?thesis
    using json_callback.json_parse_ok [OF cb assms(3), of pow10 u] assms(1)
    unfolding json_callback.fault_ok_def [OF cb] by (metis sum.distinct(1))
qed

definition count_tokens :: "nat json_fn" where
  "count_tokens n tok = Inr (0, n + 1)"

theorem jsdrv_json_parse_total_witness:
  "jsdrv_json_parse id (Some ''[1,{}]'') (Some count_tokens) 0 = Inl Undefined
   \<or> (\<exists>rc u'. jsdrv_json_parse id (Some ''[1,{}]'') (Some count_tokens) 0 = Inr (rc, u'))"
  by (rule jsdrv_json_parse_total) (simp_all add: count_tokens_def json_text_def)

text \<open>
  C17. When a callback that never aborts sees the parse succeed, the tokens it accepted are
  exactly the tokens of one JSON value: every object and array that was started was
  ended, inside each other, and every key in an object is followed by one value.
\<close>

theorem jsdrv_json_parse_well_formed:
  assumes "\<And>v tok. cb v tok \<noteq> Inl OutOfFuel \<and> (\<forall>v'. cb v tok \<noteq> Inr (ec ABORTED, v'))"
    and "jsdrv_json_parse pow10 (Some text) (Some cb) u = Inr (0, u')"
  shows "\<exists>ts. json_tokens E_value ts \<and> feeds cb u ts u'"
proof -
  have cb: "json_callback cb (\<lambda>_. True) (\<lambda>_. True)" using assms(1) by (intro json_callback_anyI) simp
  show ?thesis using json_callback.json_parse_tokens [OF cb TrueI] assms by blast
qed

theorem jsdrv_json_parse_well_formed_witness:
  "\<exists>ts. json_tokens E_value ts \<and> feeds count_tokens 0 ts 4"
proof -
  have "jsdrv_json_parse id (Some ''[1,2]'') (Some count_tokens) 0 = Inr (0, 4)"
    by code_simp
  then show ?thesis
    using jsdrv_json_parse_well_formed [of count_tokens id "''[1,2]''" 0 4]
    by (simp add: count_tokens_def)
qed

text \<open>
  Where the parser departs from JSON: the exponent of a number whose whole part is the
  single digit 0 is not read, so such numbers are rejected inside an array; elements need
  no comma between them; and text after the value is not looked at.
\<close>

theorem jsdrv_json_parse_departures:
  "jsdrv_json_parse pow10 (Some ''[0e5]'') (Some count_tokens) 0 = Inr (10, 2)
   \<and> jsdrv_json_parse pow10 (Some ''[1 2]'') (Some count_tokens) 0 = Inr (0, 4)
   \<and> jsdrv_json_parse pow10 (Some ''1 x'') (Some count_tokens) 0 = Inr (0, 1)"
  by (simp add: jsdrv_json_parse_def json_fuel_def parse_value_def skip_whitespace_def
      is_whitespace_def NEXT_def parse_array_def parse_group_def DEPTH_MAX_def emit_def count_tokens_def
      ADVANCE_def array_loop_def ROE_def parse_number_def hd0_def is_digit_def number_f64_def
      number_scale_def Let_def cord_def INT64_MAX_def)

end
