(* ===== verification/Meta.thy ===== *)
theory Meta
  imports Json
begin

text \<open>
  The topic metadata functions of \<^verbatim>\<open>src/meta.c\<close>: five JSON callbacks, each a state machine on
  the tokens, and the functions that run them. A callback's state is its C structure,
  with the output value it points to as a field.
\<close>

section \<open>Syntax check\<close>

record syntax_check_s =
  sc_first_seen :: bool
  sc_root_is_obj :: bool

definition on_syntax_token :: "syntax_check_s json_fn" where
  "on_syntax_token s token =
     Inr (0, if \<not> sc_first_seen s
             then \<lparr>sc_first_seen = True, sc_root_is_obj = (u_op token = json_op JSON_OBJ_START)\<rparr>
             else s)"

definition jsdrv_meta_syntax_check :: "(u64 \<Rightarrow> u64) \<Rightarrow> string option \<Rightarrow> int c" where
  "jsdrv_meta_syntax_check pow10 meta =
     (case meta of
        None \<Rightarrow> Inr (ec PARAMETER_INVALID)
      | Some m \<Rightarrow>
          cbind (jsdrv_json_parse pow10 (Some m) (Some on_syntax_token)
                   \<lparr>sc_first_seen = False, sc_root_is_obj = False\<rparr>) (\<lambda>(rc, s).
          if rc \<noteq> 0 then Inr rc
          else if \<not> sc_first_seen s \<or> \<not> sc_root_is_obj s then Inr (ec SYNTAX_ERROR)
          else Inr 0))"

section \<open>Data type\<close>

definition dtype_map :: "(string \<times> union_e) list" where
  "dtype_map =
     [(''str'', U_STR), (''json'', U_JSON), (''bin'', U_BIN), (''std'', U_BIN),
      (''stdmsg'', U_BIN), (''frm'', U_BIN), (''frame'', U_BIN), (''u8'', U_U8), (''u16'', U_U16),
      (''u32'', U_U32), (''u64'', U_U64), (''i8'', U_I8), (''i16'', U_I16), (''i32'', U_I32),
      (''i64'', U_I64), (''f32'', U_F32), (''f64'', U_F64), (''bool'', U_U8)]"

fun dtype_lookup_loop :: "union_s \<Rightarrow> (string \<times> union_e) list \<Rightarrow> union_e option c" where
  "dtype_lookup_loop token [] = Inr None"
| "dtype_lookup_loop token ((name, dt) # m) =
     cbind (jsdrv_json_strcmp (Some name) (Some token)) (\<lambda>c.
     if c = 0 then Inr (Some dt) else dtype_lookup_loop token m)"

text \<open>
  When no name matches, the token is copied into a 32-byte buffer for the log message
  and terminated at \<^verbatim>\<open>sz - 1\<close>, a \<^verbatim>\<open>uint32_t\<close>.
\<close>

definition dtype_lookup :: "union_s \<Rightarrow> (int \<times> union_e option) c" where
  "dtype_lookup token =
     cbind (dtype_lookup_loop token dtype_map) (\<lambda>r.
     case r of
       Some dt \<Rightarrow> Inr (0, Some dt)
     | None \<Rightarrow>
         let sz = (if unat (u_size token) > 32 then 32 else u_size token) in
         cbind (if sz = 0 then Inr (Some (replicate 32 NUL))
                else mem_copy (Some (replicate 32 NUL)) (u_ptr token) (unat sz)) (\<lambda>b.
         cbind (buf_set (case b of Some d \<Rightarrow> d | None \<Rightarrow> []) (unat (sz - 1)) NUL) (\<lambda>_.
         Inr (ec PARAMETER_INVALID, None))))"

record dtype_s =
  d_dtype :: union_e
  d_found :: bool

definition is_op :: "union_s \<Rightarrow> json_token_e \<Rightarrow> bool" where
  "is_op token t \<longleftrightarrow> u_op token = json_op t"

definition token_is :: "string \<Rightarrow> union_s \<Rightarrow> bool c" where
  "token_is str token = cbind (jsdrv_json_strcmp (Some str) (Some token)) (\<lambda>c. Inr (c = 0))"

definition on_dtype :: "dtype_s json_fn" where
  "on_dtype s token =
     (if is_op token JSON_VALUE then
        (if d_found s then
           cbind (dtype_lookup token) (\<lambda>(rc, dt).
             Inr (if rc = 0 then ec ABORTED else rc,
                  case dt of None \<Rightarrow> s | Some t \<Rightarrow> s\<lparr>d_dtype := t\<rparr>))
         else Inr (0, s))
      else if is_op token JSON_KEY then
        cbind (token_is ''dtype'' token) (\<lambda>b. Inr (0, if b then s\<lparr>d_found := True\<rparr> else s))
      else Inr (0, s))"

definition jsdrv_meta_dtype ::
    "(u64 \<Rightarrow> u64) \<Rightarrow> string option \<Rightarrow> union_e option \<Rightarrow> (int \<times> union_e option) c" where
  "jsdrv_meta_dtype pow10 meta dtype =
     cbind (jsdrv_json_parse pow10 meta (Some on_dtype) \<lparr>d_dtype = U_NULL, d_found = False\<rparr>) (\<lambda>(rc, s).
     if rc \<noteq> 0 then Inr (rc, dtype)
     else if \<not> d_found s then Inr (ec NOT_FOUND, dtype)
     else Inr (0, map_option (\<lambda>_. d_dtype s) dtype))"

section \<open>Default value\<close>

datatype default_state_e =
  DEFAULT_ST_DTYPE_SEARCH | DEFAULT_ST_DTYPE_KEY | DEFAULT_ST_DEFAULT_SEARCH | DEFAULT_ST_DEFAULT_KEY

record default_s =
  df_state :: default_state_e
  df_depth :: u8
  df_found :: bool
  df_value :: union_s

definition on_default :: "default_s json_fn" where
  "on_default s token =
     (if is_op token JSON_VALUE then
        (if df_state s = DEFAULT_ST_DTYPE_KEY then
           cbind (dtype_lookup token) (\<lambda>(rc, dt).
             Inr (rc, s\<lparr>df_value := (case dt of None \<Rightarrow> df_value s | Some t \<Rightarrow> (df_value s)\<lparr>u_type := t\<rparr>),
                        df_state := DEFAULT_ST_DEFAULT_SEARCH\<rparr>))
         else if df_state s = DEFAULT_ST_DEFAULT_KEY then
           Inr (ec ABORTED, s\<lparr>df_found := True,
             df_value := (df_value s)\<lparr>u_value := u_value token, u_ptr := u_ptr token,
                                       u_flags := JSDRV_UNION_FLAG_RETAIN\<rparr>\<rparr>)
         else Inr (0, s))
      else if is_op token JSON_KEY then
        (if df_state s = DEFAULT_ST_DTYPE_SEARCH \<and> df_depth s = 1 then
           cbind (token_is ''dtype'' token) (\<lambda>b.
             Inr (0, if b then s\<lparr>df_state := DEFAULT_ST_DTYPE_KEY\<rparr> else s))
         else if df_state s = DEFAULT_ST_DEFAULT_SEARCH \<and> df_depth s = 1 then
           cbind (token_is ''default'' token) (\<lambda>b.
             Inr (0, if b then s\<lparr>df_state := DEFAULT_ST_DEFAULT_KEY\<rparr> else s))
         else Inr (0, s))
      else if is_op token JSON_OBJ_START \<or> is_op token JSON_ARRAY_START then
        Inr (0, s\<lparr>df_depth := df_depth s + 1\<rparr>)
      else if is_op token JSON_OBJ_END \<or> is_op token JSON_ARRAY_END then
        Inr (0, s\<lparr>df_depth := df_depth s - 1\<rparr>)
      else Inr (0, s))"

definition jsdrv_meta_default ::
    "(u64 \<Rightarrow> u64) \<Rightarrow> string option \<Rightarrow> union_s option \<Rightarrow> (int \<times> union_s option) c" where
  "jsdrv_meta_default pow10 meta value =
     (case (meta, value) of
        (Some m, Some v) \<Rightarrow>
          cbind (jsdrv_json_parse pow10 (Some m) (Some on_default)
                   \<lparr>df_state = DEFAULT_ST_DTYPE_SEARCH, df_depth = 0, df_found = False,
                    df_value = union_of U_NULL 0\<rparr>) (\<lambda>(rc, s).
          if rc \<noteq> 0 then Inr (rc, Some (df_value s))
          else Inr (0, Some (if \<not> df_found s then (df_value s)\<lparr>u_type := U_NULL\<rparr> else df_value s)))
      | _ \<Rightarrow> Inr (ec PARAMETER_INVALID, value))"

section \<open>Value validation\<close>

datatype value_state_e =
    VALUE_ST_DTYPE_SEARCH | VALUE_ST_DTYPE_KEY | VALUE_ST_SEARCH | VALUE_ST_RANGE_KEY
  | VALUE_ST_RANGE_VAL | VALUE_ST_OPTIONS | VALUE_ST_OPTIONS_VAL | VALUE_ST_OPTIONS_MATCH

text \<open>The inner union of \<^verbatim>\<open>option\<close> is the bit pattern and the memory of a pointer.\<close>

record value_s =
  vs_state :: value_state_e
  vs_type :: union_e
  vs_depth :: u8
  vs_array_idx :: u8
  vs_value :: union_s
  vs_option :: "u64 \<times> char list option"
  vs_range :: "u64 list"

definition str_of :: "union_s \<Rightarrow> string option" where
  "str_of v = map_option cstr_of (u_ptr v)"

definition maybe_convert_str_to_type :: "value_s \<Rightarrow> value_s" where
  "maybe_convert_str_to_type s =
     (let v = vs_value s in
      if u_type v \<noteq> U_STR then s
      else if vs_type s \<in> {U_U8, U_U16, U_U32} then
        (case jsdrv_cstr_to_u32 (str_of v) (Some 0) of
           (rc, u32) \<Rightarrow>
             if rc = 0
             then s\<lparr>vs_value := v\<lparr>u_type := vs_type s,
                      u_value := put_low 32 (u_value v) (ucast (the u32))\<rparr>\<rparr>
             else s)
      else if vs_type s \<in> {U_I8, U_I16, U_I32} then
        (case jsdrv_cstr_to_i32 (str_of v) (Some 0) of
           (rc, i32) \<Rightarrow>
             if rc = 0
             then s\<lparr>vs_value := v\<lparr>u_type := vs_type s,
                      u_value := put_low 32 (u_value v) (ucast (the i32))\<rparr>\<rparr>
             else s)
      else s)"

text \<open>
  The test for the \<^verbatim>\<open>bool\<close> data type reads the token as a string whatever its type: the bits
  of a number are used as an address, and only zero is harmless.
\<close>

definition token_starts_with :: "union_s \<Rightarrow> string \<Rightarrow> bool c" where
  "token_starts_with token pfx =
     (if u_type token = U_STR
      then Inr (jsdrv_cstr_starts_with (str_of token) (Some pfx) \<noteq> None)
      else if u_value token = 0 then Inr False
      else Inl OutOfBounds)"

definition on_value_dtype :: "value_s json_fn" where
  "on_value_dtype s token =
     cbind (token_starts_with token ''bool'') (\<lambda>is_bool.
     if is_bool then
       cbind (jsdrv_union_to_bool (vs_value s) False) (\<lambda>(rc, b).
         if rc = 0
         then Inr (ec ABORTED, s\<lparr>vs_value := (vs_value s)\<lparr>u_type := U_U8,
                u_value := put_low 8 (u_value (vs_value s)) (if b then 1 else 0)\<rparr>\<rparr>)
         else Inr (rc, s))
     else
       cbind (dtype_lookup token) (\<lambda>(rc, dt).
         let s = (case dt of None \<Rightarrow> s | Some t \<Rightarrow> s\<lparr>vs_type := t\<rparr>);
             s = maybe_convert_str_to_type s
         in Inr (rc, s\<lparr>vs_state := VALUE_ST_SEARCH\<rparr>)))"

definition on_value_option :: "value_s json_fn" where
  "on_value_option s token =
     cbind (if vs_array_idx s = 0
            then cbind (jsdrv_union_as_type token (vs_type s)) (\<lambda>(rc, t).
                   Inr (if rc \<noteq> 0 then None
                        else Some (s\<lparr>vs_array_idx := 1, vs_option := (u_value t, u_ptr t)\<rparr>)))
            else Inr (Some (s\<lparr>vs_array_idx := vs_array_idx s + 1\<rparr>))) (\<lambda>r.
     case r of
       None \<Rightarrow> Inr (ec PARAMETER_INVALID, s\<lparr>vs_array_idx := 1\<rparr>)
     | Some s \<Rightarrow>
         cbind (jsdrv_union_equiv (vs_value s) token) (\<lambda>e.
           Inr (0, if e
                   then s\<lparr>vs_value := (vs_value s)\<lparr>u_value := fst (vs_option s),
                            u_ptr := snd (vs_option s), u_type := vs_type s\<rparr>,
                          vs_state := VALUE_ST_OPTIONS_MATCH\<rparr>
                   else s)))"

definition on_value_array_start :: "value_s \<Rightarrow> value_s" where
  "on_value_array_start s0 =
     (let s = s0\<lparr>vs_depth := vs_depth s0 + 1\<rparr>;
          s = (if vs_state s = VALUE_ST_OPTIONS \<and> vs_depth s = 3
               then s\<lparr>vs_array_idx := 0, vs_state := VALUE_ST_OPTIONS_VAL\<rparr> else s)
      in if vs_state s = VALUE_ST_RANGE_KEY
         then s\<lparr>vs_array_idx := 0, vs_state := VALUE_ST_RANGE_VAL\<rparr> else s)"

definition on_value_array_end :: "value_s \<Rightarrow> int \<times> value_s" where
  "on_value_array_end s =
     (let (rc, s) =
        (if vs_state s = VALUE_ST_OPTIONS_VAL \<and> vs_depth s = 3 then (0, s\<lparr>vs_state := VALUE_ST_OPTIONS\<rparr>)
         else if vs_state s = VALUE_ST_OPTIONS \<and> vs_depth s = 2 then (ec PARAMETER_INVALID, s)
         else if vs_state s = VALUE_ST_OPTIONS_MATCH \<and> vs_depth s = 2 then (0, s\<lparr>vs_state := VALUE_ST_SEARCH\<rparr>)
         else if vs_state s = VALUE_ST_RANGE_VAL \<and> vs_depth s = 2 then (0, s\<lparr>vs_state := VALUE_ST_SEARCH\<rparr>)
         else (0, s))
      in (rc, s\<lparr>vs_depth := vs_depth s - 1\<rparr>))"

definition on_value_key :: "value_s json_fn" where
  "on_value_key s token =
     cbind (if vs_state s = VALUE_ST_DTYPE_SEARCH \<and> vs_depth s = 1 then token_is ''dtype'' token
            else Inr False) (\<lambda>b1.
     if b1 then Inr (0, s\<lparr>vs_state := VALUE_ST_DTYPE_KEY\<rparr>)
     else cbind (if vs_state s = VALUE_ST_SEARCH \<and> vs_depth s = 1 then token_is ''range'' token
                 else Inr False) (\<lambda>b2.
     if b2 then Inr (0, s\<lparr>vs_state := VALUE_ST_RANGE_KEY\<rparr>)
     else cbind (if vs_state s = VALUE_ST_SEARCH \<and> vs_depth s = 1 then token_is ''options'' token
                 else Inr False) (\<lambda>b3.
     Inr (0, if b3 then s\<lparr>vs_state := VALUE_ST_OPTIONS\<rparr> else s))))"

definition on_value :: "value_s json_fn" where
  "on_value s token =
     (if is_op token JSON_VALUE then
        (if vs_state s = VALUE_ST_DTYPE_KEY then on_value_dtype s token
         else if vs_state s = VALUE_ST_RANGE_VAL then
           (if vs_array_idx s \<ge> 3 then Inr (ec PARAMETER_INVALID, s)
            else cbind (buf_set (vs_range s) (unat (vs_array_idx s)) (u_value token)) (\<lambda>r.
                 Inr (0, s\<lparr>vs_range := r, vs_array_idx := vs_array_idx s + 1\<rparr>)))
         else if vs_state s = VALUE_ST_OPTIONS_VAL then on_value_option s token
         else Inr (0, s))
      else if is_op token JSON_KEY then on_value_key s token
      else if is_op token JSON_OBJ_START then Inr (0, s\<lparr>vs_depth := vs_depth s + 1\<rparr>)
      else if is_op token JSON_OBJ_END then Inr (0, s\<lparr>vs_depth := vs_depth s - 1\<rparr>)
      else if is_op token JSON_ARRAY_START then Inr (0, on_value_array_start s)
      else if is_op token JSON_ARRAY_END then Inr (on_value_array_end s)
      else Inr (0, s))"

definition jsdrv_meta_value ::
    "(u64 \<Rightarrow> u64) \<Rightarrow> string option \<Rightarrow> union_s option \<Rightarrow> (int \<times> union_s option) c" where
  "jsdrv_meta_value pow10 meta value =
     (case (meta, value) of
        (Some m, Some v) \<Rightarrow>
          cbind (jsdrv_json_parse pow10 (Some m) (Some on_value)
                   \<lparr>vs_state = VALUE_ST_DTYPE_SEARCH, vs_type = U_NULL, vs_depth = 0, vs_array_idx = 0,
                    vs_value = v, vs_option = (0, None), vs_range = [0, 0, 0]\<rparr>) (\<lambda>(rc, s).
          Inr (rc, Some (vs_value s)))
      | _ \<Rightarrow> Inr (ec PARAMETER_INVALID, value))"

section \<open>Flags\<close>

datatype flags_state_e = FLAGS_ST_SEARCH | FLAGS_ST_KEY | FLAGS_ST_ARRAY

record flags_s =
  fl_state :: flags_state_e
  fl_depth :: u8
  fl_flags :: u32

definition flag_of_token :: "union_s \<Rightarrow> u32 c" where
  "flag_of_token token =
     cbind (token_is ''ro'' token) (\<lambda>ro. if ro then Inr 1 else
     cbind (token_is ''hide'' token) (\<lambda>hide. if hide then Inr 2 else
     cbind (token_is ''dev'' token) (\<lambda>dev. Inr (if dev then 4 else 0))))"

definition on_flags :: "flags_s json_fn" where
  "on_flags s token =
     (if is_op token JSON_VALUE then
        (if fl_state s = FLAGS_ST_KEY \<or> fl_state s = FLAGS_ST_ARRAY then
           cbind (flag_of_token token) (\<lambda>f.
             Inr (if fl_state s = FLAGS_ST_KEY then ec ABORTED else 0,
                  s\<lparr>fl_flags := fl_flags s OR f\<rparr>))
         else Inr (0, s))
      else if is_op token JSON_KEY then
        (if fl_depth s = 1 then
           cbind (token_is ''flags'' token) (\<lambda>b. Inr (0, if b then s\<lparr>fl_state := FLAGS_ST_KEY\<rparr> else s))
         else Inr (0, s))
      else if is_op token JSON_OBJ_START then Inr (0, s\<lparr>fl_depth := fl_depth s + 1\<rparr>)
      else if is_op token JSON_OBJ_END then Inr (0, s\<lparr>fl_depth := fl_depth s - 1\<rparr>)
      else if is_op token JSON_ARRAY_START then
        Inr (0, if fl_state s = FLAGS_ST_KEY then s\<lparr>fl_state := FLAGS_ST_ARRAY\<rparr> else s)
      else if is_op token JSON_ARRAY_END then
        Inr (if fl_state s = FLAGS_ST_ARRAY then ec ABORTED else 0, s)
      else Inr (0, s))"

definition jsdrv_meta_flags ::
    "(u64 \<Rightarrow> u64) \<Rightarrow> string option \<Rightarrow> u32 option \<Rightarrow> (int \<times> u32 option) c" where
  "jsdrv_meta_flags pow10 meta flags =
     (case (meta, flags) of
        (Some m, Some f) \<Rightarrow>
          cbind (jsdrv_json_parse pow10 (Some m) (Some on_flags)
                   \<lparr>fl_state = FLAGS_ST_SEARCH, fl_depth = 0, fl_flags = 0\<rparr>) (\<lambda>(rc, s).
          Inr (0, Some (fl_flags s)))
      | _ \<Rightarrow> Inr (ec PARAMETER_INVALID, flags))"

section \<open>The callbacks never run out of fuel\<close>

definition nf :: "'a c \<Rightarrow> bool" where
  "nf m \<longleftrightarrow> m \<noteq> Inl OutOfFuel"

lemma nf_Inr [simp]: "nf (Inr x)" and nf_Inl [simp]: "nf (Inl f) \<longleftrightarrow> f \<noteq> OutOfFuel"
  by (simp_all add: nf_def)

lemma nf_cbind [intro!]: "nf m \<Longrightarrow> (\<And>x. nf (f x)) \<Longrightarrow> nf (cbind m f)"
  by (cases m) (auto simp: nf_def)

lemma nf_buf_set [simp]: "nf (buf_set b i v)"
  by (simp add: buf_set_def)

lemma nf_buf_get [simp]: "nf (buf_get b i)"
  by (simp add: buf_get_def)

lemma nf_json_strcmp_loop [simp]: "nf (json_strcmp_loop s mem n)"
  by (induction s mem n rule: json_strcmp_loop.induct) auto

lemma nf_jsdrv_json_strcmp [simp]: "nf (jsdrv_json_strcmp s tok)"
  by (simp add: jsdrv_json_strcmp_def split: option.splits)

lemma nf_token_is [simp]: "nf (token_is s tok)"
  by (auto simp: token_is_def)

lemma nf_mem_copy [simp]: "nf (mem_copy d s n)"
  by (simp add: mem_copy_def split: option.splits)

lemma nf_dtype_lookup_loop [simp]: "nf (dtype_lookup_loop tok m)"
  by (induction tok m rule: dtype_lookup_loop.induct) auto

lemma nf_dtype_lookup [simp]: "nf (dtype_lookup tok)"
  by (auto simp: dtype_lookup_def Let_def split: option.splits)

lemma nf_cstr_copy_loop [simp]: "nf (cstr_copy_loop b t e s)"
  by (induction s arbitrary: b t) auto

lemma nf_cstr_toupper_loop [simp]: "nf (cstr_toupper_loop b i n)"
  by (induction n arbitrary: b i) auto

lemma nf_jsdrv_cstr_to_bool [simp]: "nf (jsdrv_cstr_to_bool s v)"
  by (auto simp: jsdrv_cstr_to_bool_def jsdrv_cstr_copy_def jsdrv_cstr_toupper_def Let_def
      split: option.splits)

lemma nf_jsdrv_union_to_bool [simp]: "nf (jsdrv_union_to_bool v b)"
  by (auto simp: jsdrv_union_to_bool_def Let_def split: union_e.splits option.splits)

lemma nf_mem_cmp_eq [simp]: "nf (mem_cmp_eq p q n)"
  by (simp add: mem_cmp_eq_def split: option.splits)

lemma nf_str_size [simp]: "nf (str_size v)"
  by (auto simp: str_size_def mem_strlen_def split: option.splits)

lemma nf_jsdrv_union_eq [simp]: "nf (jsdrv_union_eq v w)"
  by (auto simp: jsdrv_union_eq_def Let_def split: union_e.splits)

lemma nf_jsdrv_union_equiv [simp]: "nf (jsdrv_union_equiv v w)"
  by (auto simp: jsdrv_union_equiv_def Let_def split: union_e.splits)

lemma nf_as_type_f64 [simp]: "nf (as_type_f64 v t)"
  by (cases t) (auto simp: as_f64_def split: option.splits)

lemma nf_jsdrv_union_as_type [simp]: "nf (jsdrv_union_as_type v t)"
  by (auto simp: jsdrv_union_as_type_def Let_def split: union_e.splits)

lemma nf_on_dtype: "nf (on_dtype s tok)"
  by (auto simp: on_dtype_def)

lemma nf_on_default: "nf (on_default s tok)"
  by (auto simp: on_default_def)

lemma nf_on_value: "nf (on_value s tok)"
  by (auto simp: on_value_def on_value_dtype_def token_starts_with_def on_value_option_def
      on_value_key_def Let_def split: option.splits)

lemma nf_on_flags: "nf (on_flags s tok)"
  by (auto simp: on_flags_def flag_of_token_def)

interpretation syntax_cb: json_callback on_syntax_token "\<lambda>_. True" "\<lambda>_. True"
  by (rule json_callback_anyI) (simp add: on_syntax_token_def)

interpretation dtype_cb: json_callback on_dtype "\<lambda>_. True" "\<lambda>_. True"
  by (rule json_callback_anyI) (use nf_on_dtype in \<open>simp add: nf_def\<close>)

interpretation default_cb: json_callback on_default "\<lambda>_. True" "\<lambda>_. True"
  by (rule json_callback_anyI) (use nf_on_default in \<open>simp add: nf_def\<close>)

interpretation value_cb: json_callback on_value "\<lambda>_. True" "\<lambda>_. True"
  by (rule json_callback_anyI) (use nf_on_value in \<open>simp add: nf_def\<close>)

interpretation flags_cb: json_callback on_flags json_text json_token_ok
  by (rule json_callbackI) (use nf_on_flags in \<open>simp add: nf_def\<close>)

lemma nf_jsdrv_meta_value [simp]: "nf (jsdrv_meta_value pow10 m v)"
proof -
  have "nf (jsdrv_json_parse pow10 (Some t) (Some on_value) s)" for t s
    using value_cb.json_parse_ok [OF TrueI, of pow10 t s] by (auto simp: nf_def)
  then show ?thesis by (auto simp: jsdrv_meta_value_def split: option.splits)
qed

section \<open>Comparing a token\<close>

lemma json_strcmp_loop_eq:
  "is_cstr t \<Longrightarrow> n \<le> length t \<Longrightarrow>
   \<exists>c. json_strcmp_loop s (t @ m) n = Inr c \<and> (c = 0 \<longleftrightarrow> s = take n t)"
proof (induction n arbitrary: s t)
  case (Suc n)
  then obtain x t' where t: "t = x # t'" by (cases t) auto
  show ?case
  proof (cases s)
    case Nil
    with Suc t show ?thesis by simp
  next
    case (Cons ch s')
    with Suc t show ?thesis by (cases "ch = x") (auto simp: schar_def)
  qed
qed simp

lemma token_is_safe: "json_token_ok tok \<Longrightarrow> \<exists>b. token_is s tok = Inr b"
proof (cases "u_type tok = U_STR")
  case True
  assume "json_token_ok tok"
  with True obtain t n where t: "u_ptr tok = Some (t @ [NUL])" "is_cstr t" "n \<le> length t"
    "n + 1 < 2 ^ 32" "u_size tok = of_nat (n + 1)"
    by (auto simp: json_token_ok_def)
  have "unat (u_size tok - 1) = n" using t(4,5) by (simp add: unat_of_nat)
  then show ?thesis
    using json_strcmp_loop_eq [OF t(2,3), of s "[NUL]"] True t(1)
    by (auto simp: token_is_def jsdrv_json_strcmp_def)
qed (auto simp: token_is_def jsdrv_json_strcmp_def)

lemma flag_of_token_safe:
  assumes "json_token_ok tok"
  shows "\<exists>f. flag_of_token tok = Inr f \<and> f AND NOT 7 = 0"
proof -
  obtain a b c where "token_is ''ro'' tok = Inr a" "token_is ''hide'' tok = Inr b"
    "token_is ''dev'' tok = Inr c"
    using token_is_safe [OF assms] by metis
  then show ?thesis by (auto simp: flag_of_token_def)
qed

lemma on_flags_safe: "json_token_ok tok \<Longrightarrow> \<exists>rc s'. on_flags s tok = Inr (rc, s')"
  using flag_of_token_safe [of tok] token_is_safe [of tok "''flags''"]
  by (auto simp: on_flags_def)

section \<open>Properties\<close>

text \<open>
  \<^verbatim>\<open>jsdrv_meta_flags\<close> and \<^verbatim>\<open>jsdrv_meta_syntax_check\<close> end and stay inside the text for every
  metadata string shorter than 4 GiB, whatever a device sends: the one exception is the
  undefined exponent overflow of the number parser. The flags function reports success
  on every text.
\<close>

theorem jsdrv_meta_flags_safe:
  assumes "json_text m"
  shows "(jsdrv_meta_flags pow10 (Some m) (Some f0) = Inl Undefined
          \<or> (\<exists>f. jsdrv_meta_flags pow10 (Some m) (Some f0) = Inr (0, Some f)))
       \<and> (jsdrv_meta_syntax_check pow10 (Some m) = Inl Undefined
          \<or> (\<exists>rc. jsdrv_meta_syntax_check pow10 (Some m) = Inr rc))"
proof
  let ?s0 = "\<lparr>fl_state = FLAGS_ST_SEARCH, fl_depth = 0, fl_flags = 0\<rparr>"
  have "jsdrv_json_parse pow10 (Some m) (Some on_flags) ?s0 = Inl Undefined
      \<or> (\<exists>rc u'. jsdrv_json_parse pow10 (Some m) (Some on_flags) ?s0 = Inr (rc, u'))"
    using flags_cb.json_parse_ok [OF assms, of pow10 ?s0] on_flags_safe
    unfolding flags_cb.fault_ok_def by (metis sum.distinct(1))
  then show "jsdrv_meta_flags pow10 (Some m) (Some f0) = Inl Undefined
      \<or> (\<exists>f. jsdrv_meta_flags pow10 (Some m) (Some f0) = Inr (0, Some f))"
    by (auto simp: jsdrv_meta_flags_def)
  let ?c0 = "\<lparr>sc_first_seen = False, sc_root_is_obj = False\<rparr>"
  have "jsdrv_json_parse pow10 (Some m) (Some on_syntax_token) ?c0 = Inl Undefined
      \<or> (\<exists>rc u'. jsdrv_json_parse pow10 (Some m) (Some on_syntax_token) ?c0 = Inr (rc, u'))"
    using syntax_cb.json_parse_ok [OF TrueI, of pow10 m ?c0]
    by (auto simp: syntax_cb.fault_ok_def on_syntax_token_def)
  then show "jsdrv_meta_syntax_check pow10 (Some m) = Inl Undefined
      \<or> (\<exists>rc. jsdrv_meta_syntax_check pow10 (Some m) = Inr rc)"
    by (auto simp: jsdrv_meta_syntax_check_def split: if_splits)
qed

theorem jsdrv_meta_flags_safe_witness:
  "jsdrv_meta_flags id (Some ''{'') (Some 0) = Inl Undefined
   \<or> (\<exists>f. jsdrv_meta_flags id (Some ''{'') (Some 0) = Inr (0, Some f))"
  using jsdrv_meta_flags_safe [of "''{''" id 0] by (simp add: json_text_def)

lemma on_syntax_token_feeds:
  "feeds on_syntax_token s ts s' \<Longrightarrow>
   (sc_first_seen s \<longrightarrow> s' = s) \<and>
   (\<not> sc_first_seen s \<longrightarrow> ts \<noteq> [] \<longrightarrow> sc_root_is_obj s' = (hd ts = json_op JSON_OBJ_START))"
  by (induction rule: feeds.induct) (auto simp: on_syntax_token_def split: if_splits)

lemma json_tokens_object:
  "json_tokens e ts \<Longrightarrow> e = E_value \<Longrightarrow> ts \<noteq> [] \<and> (hd ts = json_op JSON_OBJ_START \<longrightarrow> json_tokens E_object ts)"
  by (induction rule: json_tokens.induct) (auto elim: json_tokens.cases)


lemmas json_eval =
  jsdrv_json_parse_def json_fuel_def parse_value_def skip_whitespace_def
  is_whitespace_def NEXT_def parse_object_def parse_array_def parse_group_def DEPTH_MAX_def emit_def
  ADVANCE_def array_loop_def object_loop_def ROE_def parse_string_def string_loop.simps is_escape_def
  json_str_token_def json_delim_def jsdrv_union_null_def union_of_def
  parse_number_def hd0_def is_digit_def Let_def cord_def INT64_MAX_def


lemma json_strcmp_loop_numeral [simp]:
  "json_strcmp_loop [] (t # mem) (numeral n) = (if t = NUL then Inl OutOfBounds else Inr (-1))"
  "json_strcmp_loop (ch # str) (t # mem) (numeral n) =
     (if ch = t then json_strcmp_loop str mem (pred_numeral n)
      else Inr (if schar ch < schar t then -1 else 1))"
  by (simp_all only: numeral_eq_Suc json_strcmp_loop.simps)

lemma buf_set_wrapped [simp]: "buf_set (replicate 32 NUL) (unat (- 1 :: u32)) v = Inl OutOfBounds"
  by (simp add: buf_set_def unsigned_minus_1_eq_mask mask_eq_exp_minus_1)

lemmas meta_eval = json_eval on_dtype_def is_op_def token_is_def jsdrv_json_strcmp_def
  dtype_lookup_def dtype_map_def jsdrv_union_i32_def

text \<open>
  A metadata string whose \<^verbatim>\<open>dtype\<close> is not a string makes \<^verbatim>\<open>dtype_lookup\<close> write outside its local
  buffer: the token has size 0 and the terminator goes to index \<^verbatim>\<open>0 - 1\<close>.
\<close>

theorem jsdrv_meta_dtype_overflow:
  "jsdrv_meta_dtype pow10 (Some [CHR 0x7B, CHR 0x22, CHR ''d'', CHR ''t'', CHR ''y'', CHR ''p'',
      CHR ''e'', CHR 0x22, CHR '':'', CHR ''1'', CHR 0x7D]) dt = Inl OutOfBounds"
  by (simp add: jsdrv_meta_dtype_def meta_eval)

text \<open>
  \<^verbatim>\<open>jsdrv_meta_value\<close> parses the \<^verbatim>\<open>range\<close> of a parameter but never compares the value with it: a
  value outside the range is accepted unchanged.
\<close>

theorem jsdrv_meta_value_range_ignored:
  "jsdrv_meta_value pow10
     (Some [CHR 0x7B, CHR 0x22, CHR ''d'', CHR ''t'', CHR ''y'', CHR ''p'', CHR ''e'', CHR 0x22,
        CHR '':'', CHR 0x22, CHR ''u'', CHR ''8'', CHR 0x22, CHR '','', CHR 0x22, CHR ''r'', CHR ''a'',
        CHR ''n'', CHR ''g'', CHR ''e'', CHR 0x22, CHR '':'', CHR 0x5B, CHR ''0'', CHR '','', CHR ''5'',
        CHR 0x5D, CHR 0x7D])
     (Some (union_of U_U8 200)) = Inr (0, Some (union_of U_U8 200))"
  by (simp add: jsdrv_meta_value_def meta_eval on_value_def on_value_key_def on_value_dtype_def
      token_starts_with_def str_of_def cstr_of_def jsdrv_cstr_starts_with_def
      maybe_convert_str_to_type_def on_value_array_start_def on_value_array_end_def word_le_nat_alt)

text \<open>
  The default of a string parameter is the text from its first character on: it is not
  terminated at the closing quote and its size is left at 0, so a reader that relies on
  the terminator takes the rest of the metadata with it.
\<close>

theorem jsdrv_meta_default_str_overrun:
  "\<exists>v. jsdrv_meta_default pow10
     (Some [CHR 0x7B, CHR 0x22, CHR ''d'', CHR ''t'', CHR ''y'', CHR ''p'', CHR ''e'', CHR 0x22,
        CHR '':'', CHR 0x22, CHR ''s'', CHR ''t'', CHR ''r'', CHR 0x22, CHR '','', CHR 0x22, CHR ''d'',
        CHR ''e'', CHR ''f'', CHR ''a'', CHR ''u'', CHR ''l'', CHR ''t'', CHR 0x22, CHR '':'', CHR 0x22,
        CHR ''a'', CHR 0x22, CHR 0x7D])
     (Some jsdrv_union_null) = Inr (0, Some v)
   \<and> u_type v = U_STR \<and> u_size v = 0
   \<and> map_option cstr_of (u_ptr v) = Some [CHR ''a'', CHR 0x22, CHR 0x7D]"
  by (simp add: jsdrv_meta_default_def meta_eval on_default_def cstr_of_def)

end
