(* ===== verification/Pubsub.thy ===== *)
theory Pubsub
  imports Meta "HOL-Library.Multiset"
begin

text \<open>
  The publish-subscribe core of \<^verbatim>\<open>src/pubsub.c\<close>. The topic tree with its parent pointers is a
  tree value, and a topic pointer is the list of names from the root; the parents of a
  topic are the prefixes of that list. Messages carry an identity, so that freeing one
  is an event. Subscriber functions belong to the application: the argument \<open>env\<close> gives, from
  the events so far and the call, the return code and the messages the function
  publishes. The list of pending messages is served in order.
\<close>

section \<open>Data\<close>

definition JSDRV_SFLAG_RETAIN :: u8 where "JSDRV_SFLAG_RETAIN = 1"
definition JSDRV_SFLAG_PUB :: u8 where "JSDRV_SFLAG_PUB = 2"
definition JSDRV_SFLAG_METADATA_RSP :: u8 where "JSDRV_SFLAG_METADATA_RSP = 8"
definition JSDRV_SFLAG_RETURN_CODE :: u8 where "JSDRV_SFLAG_RETURN_CODE = 64"

definition JSDRV_PAYLOAD_TYPE_DEVICE :: u8 where "JSDRV_PAYLOAD_TYPE_DEVICE = 129"

text \<open>A function pointer is a number, 0 for NULL, and so is the user data pointer.\<close>

record subscriber_s =
  sb_fn :: nat
  sb_user :: nat
  sb_internal :: u8
  sb_flags :: u8

datatype payload_u =
    P_none
  | P_sub string subscriber_s
  | P_query string union_s
  | P_device string

record msg_s =
  m_id :: nat
  m_topic :: string
  m_source :: u32
  m_value :: union_s
  m_extra :: subscriber_s
  m_payload :: payload_u

datatype topic_t =
  Topic (tp_name: string) (tp_value: "msg_s option") (tp_meta: "msg_s option")
        (tp_subs: "subscriber_s list") (tp_children: "topic_t list")

datatype event =
    Ev_ext subscriber_s string union_s
  | Ev_int subscriber_s msg_s
  | Ev_free nat
  | Ev_query string int union_s

record pubsub_s =
  ps_root :: topic_t
  ps_sub_free :: nat
  ps_pend :: "msg_s list"
  ps_log :: "event list"
  ps_next :: nat

type_synonym env = "event list \<Rightarrow> event \<Rightarrow> u8 \<times> msg_s list"

definition no_subscriber :: subscriber_s where
  "no_subscriber = \<lparr>sb_fn = 0, sb_user = 0, sb_internal = 0, sb_flags = 0\<rparr>"

definition log_event :: "event \<Rightarrow> pubsub_s \<Rightarrow> pubsub_s" where
  "log_event e st = st\<lparr>ps_log := ps_log st @ [e]\<rparr>"

definition jsdrvp_msg_free :: "msg_s \<Rightarrow> pubsub_s \<Rightarrow> pubsub_s" where
  "jsdrvp_msg_free m = log_event (Ev_free (m_id m))"

text \<open>\<^verbatim>\<open>jsdrvp_msg_alloc_value\<close> with an i32 value, as the return code functions use it.\<close>

definition jsdrvp_msg_alloc_i32 :: "string \<Rightarrow> int \<Rightarrow> pubsub_s \<Rightarrow> msg_s \<times> pubsub_s" where
  "jsdrvp_msg_alloc_i32 topic rc st =
     (\<lparr>m_id = ps_next st, m_topic = take 63 topic, m_source = 0, m_value = jsdrv_union_i32 rc,
       m_extra = no_subscriber, m_payload = P_none\<rparr>,
      st\<lparr>ps_next := ps_next st + 1\<rparr>)"

section \<open>Topics\<close>

definition topic_alloc :: "string \<Rightarrow> topic_t" where
  "topic_alloc name = Topic name None None [] []"

text \<open>The next subtopic and the text after it; None when the name has no end in 8 characters.\<close>

fun subtopic_loop :: "nat \<Rightarrow> string \<Rightarrow> string \<Rightarrow> (string \<times> string) option" where
  "subtopic_loop 0 acc t = None"
| "subtopic_loop (Suc i) acc [] = Some (acc, [])"
| "subtopic_loop (Suc i) acc (ch # t) =
     (if ch = CHR ''/'' then Some (acc, t) else subtopic_loop i (acc @ [ch]) t)"

definition subtopic_get_str :: "string \<Rightarrow> (string \<times> string) option" where
  "subtopic_get_str t = subtopic_loop 8 [] t"

fun subtopic_find :: "topic_t list \<Rightarrow> string \<Rightarrow> topic_t option" where
  "subtopic_find [] name = None"
| "subtopic_find (c # cs) name = (if tp_name c = name then Some c else subtopic_find cs name)"

fun child_upd :: "string \<Rightarrow> (topic_t \<Rightarrow> topic_t) \<Rightarrow> topic_t list \<Rightarrow> topic_t list" where
  "child_upd name f [] = []"
| "child_upd name f (c # cs) = (if tp_name c = name then f c # cs else c # child_upd name f cs)"

definition with_children :: "topic_t list \<Rightarrow> topic_t \<Rightarrow> topic_t" where
  "with_children cs t = Topic (tp_name t) (tp_value t) (tp_meta t) (tp_subs t) cs"

definition with_subs :: "subscriber_s list \<Rightarrow> topic_t \<Rightarrow> topic_t" where
  "with_subs ss t = Topic (tp_name t) (tp_value t) (tp_meta t) ss (tp_children t)"

definition with_value :: "msg_s option \<Rightarrow> topic_t \<Rightarrow> topic_t" where
  "with_value v t = Topic (tp_name t) v (tp_meta t) (tp_subs t) (tp_children t)"

definition with_meta :: "msg_s option \<Rightarrow> topic_t \<Rightarrow> topic_t" where
  "with_meta v t = Topic (tp_name t) (tp_value t) v (tp_subs t) (tp_children t)"

fun node_at :: "topic_t \<Rightarrow> string list \<Rightarrow> topic_t option" where
  "node_at t [] = Some t"
| "node_at t (n # p) =
     (case subtopic_find (tp_children t) n of None \<Rightarrow> None | Some c \<Rightarrow> node_at c p)"

fun upd_at :: "string list \<Rightarrow> (topic_t \<Rightarrow> topic_t) \<Rightarrow> topic_t \<Rightarrow> topic_t" where
  "upd_at [] f t = f t"
| "upd_at (n # p) f t = with_children (child_upd n (upd_at p f) (tp_children t)) t"

lemma subtopic_loop_length: "subtopic_loop i acc t = Some (n, r) \<Longrightarrow> length r \<le> length t"
  by (induction i acc t rule: subtopic_loop.induct) (auto split: if_splits)

lemma subtopic_get_str_length:
  assumes "subtopic_get_str (ch # t) = Some (n, r)"
  shows "length r < length (ch # t)"
  using assms subtopic_loop_length [of 7 "[ch]" t n r]
  by (auto simp: subtopic_get_str_def eval_nat_numeral split: if_splits)

text \<open>
  The walk of \<^verbatim>\<open>topic_find\<close> below a topic: the path of the topic found, None on failure, and
  the subtree, in which missing topics were created when asked to.
\<close>

function topic_find_from :: "bool \<Rightarrow> topic_t \<Rightarrow> string \<Rightarrow> string list option \<times> topic_t" where
  "topic_find_from create t c =
     (if c = [] then (Some [], t)
      else case subtopic_get_str c of
             None \<Rightarrow> (None, t)
           | Some (name, r) \<Rightarrow>
               (case subtopic_find (tp_children t) name of
                  Some sub \<Rightarrow>
                    (case topic_find_from create sub r of
                       (p, sub') \<Rightarrow>
                         (map_option ((#) name) p,
                          with_children (child_upd name (\<lambda>_. sub') (tp_children t)) t))
                | None \<Rightarrow>
                    if \<not> create then (None, t)
                    else (case topic_find_from create (topic_alloc name) r of
                            (p, sub') \<Rightarrow>
                              (map_option ((#) name) p, with_children (tp_children t @ [sub']) t))))"
  by pat_completeness auto
termination
  by (relation "measure (\<lambda>(create, t, c). length c)")
     (auto simp: neq_Nil_conv dest: subtopic_get_str_length)

declare topic_find_from.simps [simp del]

definition topic_find :: "pubsub_s \<Rightarrow> string \<Rightarrow> bool \<Rightarrow> string list option \<times> pubsub_s" where
  "topic_find st topic create =
     (case topic_find_from create (ps_root st) topic of (p, root) \<Rightarrow> (p, st\<lparr>ps_root := root\<rparr>))"

section \<open>Subscribers\<close>

definition subscriber_alloc :: "pubsub_s \<Rightarrow> pubsub_s" where
  "subscriber_alloc st = (if ps_sub_free st \<noteq> 0 then st\<lparr>ps_sub_free := ps_sub_free st - 1\<rparr> else st)"

definition subscriber_free :: "pubsub_s \<Rightarrow> pubsub_s" where
  "subscriber_free st = st\<lparr>ps_sub_free := ps_sub_free st + 1\<rparr>"

definition is_same_subscriber :: "subscriber_s \<Rightarrow> subscriber_s \<Rightarrow> bool" where
  "is_same_subscriber a b \<longleftrightarrow> sb_fn a \<noteq> 0 \<and> sb_internal a = sb_internal b
     \<and> sb_fn a = sb_fn b \<and> sb_user a = sb_user b"

definition has_flag :: "subscriber_s \<Rightarrow> u8 \<Rightarrow> bool" where
  "has_flag s f \<longleftrightarrow> sb_flags s AND f \<noteq> 0"

text \<open>The call a message leads to, if any: a NULL function and an unknown payload are skipped.\<close>

definition call_event :: "subscriber_s \<Rightarrow> msg_s \<Rightarrow> event option" where
  "call_event s m =
     (if sb_fn s = 0 then None
      else if sb_internal s \<noteq> 0 then Some (Ev_int s m)
      else if u_app (m_value m) \<le> 5 then Some (Ev_ext s (m_topic m) (m_value m))
      else if u_type (m_value m) = U_BIN \<and> u_app (m_value m) = JSDRV_PAYLOAD_TYPE_DEVICE then
        (case m_payload m of
           P_device pfx \<Rightarrow> Some (Ev_ext s (m_topic m) (jsdrv_union_str (pfx @ [NUL])))
         | _ \<Rightarrow> None)
      else None)"

definition run_event :: "env \<Rightarrow> event \<Rightarrow> pubsub_s \<Rightarrow> u8 \<times> pubsub_s" where
  "run_event env e st =
     (case env (ps_log st) e of
        (rc, msgs) \<Rightarrow> (case e of Ev_int _ _ \<Rightarrow> rc | _ \<Rightarrow> 0,
                       (log_event e st)\<lparr>ps_pend := ps_pend st @ msgs\<rparr>))"

definition subscriber_call :: "env \<Rightarrow> subscriber_s \<Rightarrow> msg_s \<Rightarrow> pubsub_s \<Rightarrow> u8 \<times> pubsub_s" where
  "subscriber_call env s m st =
     (case call_event s m of None \<Rightarrow> (0, st) | Some e \<Rightarrow> run_event env e st)"

section \<open>Publishing\<close>

definition publish_wants :: "u8 \<Rightarrow> msg_s \<Rightarrow> subscriber_s \<Rightarrow> bool" where
  "publish_wants flags m s \<longleftrightarrow>
     \<not> is_same_subscriber s (m_extra m) \<and>
     (if flags = JSDRV_SFLAG_RETURN_CODE then has_flag s JSDRV_SFLAG_RETURN_CODE
      else if flags = JSDRV_SFLAG_METADATA_RSP then has_flag s JSDRV_SFLAG_METADATA_RSP
      else has_flag s JSDRV_SFLAG_PUB)"

fun publish_subs ::
    "env \<Rightarrow> u8 \<Rightarrow> msg_s \<Rightarrow> subscriber_s list \<Rightarrow> u8 \<Rightarrow> pubsub_s \<Rightarrow> u8 \<times> pubsub_s" where
  "publish_subs env flags m [] status st = (status, st)"
| "publish_subs env flags m (s # ss) status st =
     (if publish_wants flags m s then
        (case subscriber_call env s m st of
           (rv, st) \<Rightarrow> publish_subs env flags m ss (if status = 0 \<and> rv \<noteq> 0 then rv else status) st)
      else publish_subs env flags m ss status st)"

text \<open>The subscribers of a topic, then of its parent, up to the root.\<close>

fun subs_above :: "topic_t \<Rightarrow> string list \<Rightarrow> subscriber_s list" where
  "subs_above t [] = tp_subs t"
| "subs_above t (n # p) =
     (case subtopic_find (tp_children t) n of
        None \<Rightarrow> tp_subs t
      | Some c \<Rightarrow> subs_above c p @ tp_subs t)"

definition publish :: "env \<Rightarrow> string list \<Rightarrow> msg_s \<Rightarrow> u8 \<Rightarrow> pubsub_s \<Rightarrow> u8 \<times> pubsub_s" where
  "publish env path m flags st = publish_subs env flags m (subs_above (ps_root st) path) 0 st"

text \<open>
  \<^verbatim>\<open>publish_return_code\<close> writes the suffix into the 64-byte topic buffer of the message and
  looks at the character before the terminator, which an empty topic does not have.
\<close>

definition publish_return_code :: "env \<Rightarrow> msg_s \<Rightarrow> pubsub_s \<Rightarrow> pubsub_s c" where
  "publish_return_code env m st =
     (if m_topic m = [] then Inl OutOfBounds
      else
        let tp = (if last (m_topic m) \<in> {CHR ''%'', CHR ''$'', CHR ''&'', CHR ''?'', CHR 0x23}
                  then butlast (m_topic m) else m_topic m)
        in case topic_find st tp True of
             (None, st) \<Rightarrow> Inr (jsdrvp_msg_free m st)
           | (Some path, st) \<Rightarrow>
               if length tp + 1 \<ge> 64 then Inl OutOfBounds
               else Inr (jsdrvp_msg_free m
                      (snd (publish env path (m\<lparr>m_topic := tp @ [CHR 0x23]\<rparr>) JSDRV_SFLAG_RETURN_CODE st))))"

definition publish_return_code_i32 :: "env \<Rightarrow> string \<Rightarrow> int \<Rightarrow> pubsub_s \<Rightarrow> pubsub_s c" where
  "publish_return_code_i32 env topic rc st =
     (case jsdrvp_msg_alloc_i32 topic rc st of (m, st) \<Rightarrow> publish_return_code env m st)"

definition local_return_code :: "env \<Rightarrow> string \<Rightarrow> int \<Rightarrow> pubsub_s \<Rightarrow> pubsub_s" where
  "local_return_code env topic rc st =
     (case topic_find st topic False of
        (None, st) \<Rightarrow> st
      | (Some path, st) \<Rightarrow>
          (case jsdrvp_msg_alloc_i32 [] rc st of
             (rsp, st) \<Rightarrow>
               (let rsp = rsp\<lparr>m_topic := take 63 (topic @ [CHR 0x23])\<rparr>
                in jsdrvp_msg_free rsp (snd (publish env path rsp JSDRV_SFLAG_RETURN_CODE st)))))"

definition publish_meta :: "env \<Rightarrow> msg_s \<Rightarrow> pubsub_s \<Rightarrow> pubsub_s c" where
  "publish_meta env m st =
     (case topic_find st (butlast (take 63 (m_topic m))) True of
        (None, st) \<Rightarrow> Inr (jsdrvp_msg_free m st)
      | (Some path, st) \<Rightarrow>
          cbind (if u_size (m_value m) = 0
                 then cbind (mem_strlen (u_ptr (m_value m))) (\<lambda>n. Inr (of_nat (n + 1) :: u32))
                 else Inr (u_size (m_value m))) (\<lambda>sz.
          let m = m\<lparr>m_value := (m_value m)\<lparr>u_size := sz\<rparr>\<rparr>;
              st = (case node_at (ps_root st) path of
                      Some t \<Rightarrow> (case tp_meta t of Some old \<Rightarrow> jsdrvp_msg_free old st | None \<Rightarrow> st)
                    | None \<Rightarrow> st);
              st = st\<lparr>ps_root := upd_at path (with_meta (Some m)) (ps_root st)\<rparr>
          in Inr (snd (publish env path m JSDRV_SFLAG_METADATA_RSP st))))"

text \<open>The value part of \<^verbatim>\<open>publish_normal\<close>, once the value has been validated.\<close>

definition publish_store :: "env \<Rightarrow> string list \<Rightarrow> msg_s \<Rightarrow> topic_t \<Rightarrow> pubsub_s \<Rightarrow> pubsub_s" where
  "publish_store env path m t st =
     (let st = (case tp_value t of Some old \<Rightarrow> jsdrvp_msg_free old st | None \<Rightarrow> st);
          keep = (u_flags (m_value m) AND JSDRV_UNION_FLAG_RETAIN \<noteq> 0
                  \<and> (tp_name t = [] \<or> hd (tp_name t) \<noteq> CHR ''!''));
          st = st\<lparr>ps_root := upd_at path (with_value (if keep then Some m else None)) (ps_root st)\<rparr>
      in case publish env path m 0 st of
           (status, st) \<Rightarrow>
             let st = (if status \<noteq> 0 then local_return_code env (m_topic m) (uint status) st else st)
             in if keep then st else jsdrvp_msg_free m st)"

definition publish_normal :: "(u64 \<Rightarrow> u64) \<Rightarrow> env \<Rightarrow> msg_s \<Rightarrow> pubsub_s \<Rightarrow> pubsub_s c" where
  "publish_normal pow10 env m st0 =
     (case topic_find st0 (m_topic m) True of
        (None, st) \<Rightarrow> Inr (jsdrvp_msg_free m st)
      | (Some path, st) \<Rightarrow>
          (case node_at (ps_root st) path of
             None \<Rightarrow> Inl Undefined
           | Some t \<Rightarrow>
               cbind (case tp_meta t of
                        None \<Rightarrow> Inr (0, Some (m_value m))
                      | Some meta \<Rightarrow>
                          jsdrv_meta_value pow10 (str_of (m_value meta)) (Some (m_value m))) (\<lambda>(rc, v).
               let m = m\<lparr>m_value := (case v of Some v \<Rightarrow> v | None \<Rightarrow> m_value m)\<rparr>;
                   status = (of_int rc :: u8)
               in if status \<noteq> 0 then
                    Inr (jsdrvp_msg_free m (local_return_code env (m_topic m) (uint status) st))
                  else
                    cbind (case tp_value t of
                             None \<Rightarrow> Inr False
                           | Some old \<Rightarrow> jsdrv_union_eq (m_value old) (m_value m)) (\<lambda>same.
                    if same then Inr (jsdrvp_msg_free m (local_return_code env (m_topic m) 0 st))
                    else Inr (publish_store env path m t st)))))"

section \<open>Commands\<close>

definition JSDRV_MSG_DEVICE_ADD :: string where "JSDRV_MSG_DEVICE_ADD = ''@/!add''"
definition JSDRV_MSG_DEVICE_LIST :: string where "JSDRV_MSG_DEVICE_LIST = ''@/list''"

fun topic_str_append :: "string \<Rightarrow> string \<Rightarrow> string" where
  "topic_str_append s sub =
     (if length s \<ge> 63 then s
      else let s' = (if s \<noteq> [] then s @ ''/'' else s) in s' @ take (63 - length s') sub)"

definition traverse_calls :: "subscriber_s \<Rightarrow> topic_t \<Rightarrow> msg_s list" where
  "traverse_calls s t =
     (case tp_meta t of Some m \<Rightarrow> if has_flag s JSDRV_SFLAG_METADATA_RSP then [m] else [] | None \<Rightarrow> [])
     @ (case tp_value t of
          Some m \<Rightarrow> if has_flag s JSDRV_SFLAG_PUB
                       \<and> u_flags (m_value m) AND JSDRV_UNION_FLAG_RETAIN \<noteq> 0 then [m] else []
        | None \<Rightarrow> [])"

fun call_all :: "env \<Rightarrow> subscriber_s \<Rightarrow> msg_s list \<Rightarrow> pubsub_s \<Rightarrow> pubsub_s" where
  "call_all env s [] st = st"
| "call_all env s (m # ms) st = call_all env s ms (snd (subscriber_call env s m st))"

fun subscribe_traverse :: "env \<Rightarrow> topic_t \<Rightarrow> string \<Rightarrow> subscriber_s \<Rightarrow> pubsub_s \<Rightarrow> pubsub_s"
  and subscribe_traverse_list :: "env \<Rightarrow> topic_t list \<Rightarrow> string \<Rightarrow> subscriber_s \<Rightarrow> pubsub_s \<Rightarrow> pubsub_s" where
  "subscribe_traverse env (Topic n v mt ss cs) topic_str s st =
     subscribe_traverse_list env cs topic_str s
       (call_all env s (traverse_calls s (Topic n v mt ss cs)) st)"
| "subscribe_traverse_list env [] topic_str s st = st"
| "subscribe_traverse_list env (c # cs) topic_str s st =
     subscribe_traverse_list env cs topic_str s
       (subscribe_traverse env c (topic_str_append topic_str (tp_name c)) s st)"

text \<open>
  The comma-separated device list: each name is copied into a 64-byte buffer, and the
  subscriber is called as an external function whatever its kind.
\<close>

fun device_names :: "string \<Rightarrow> string \<Rightarrow> string list c" where
  "device_names [] dst = (if length dst \<ge> 64 then Inl OutOfBounds else Inr (if dst = [] then [] else [dst]))"
| "device_names (ch # src) dst =
     (if length dst \<ge> 64 then Inl OutOfBounds
      else if ch = CHR '','' then
        cbind (device_names src []) (\<lambda>ns. Inr (if dst = [] then ns else dst # ns))
      else device_names src (dst @ [ch]))"

fun run_all :: "env \<Rightarrow> event list \<Rightarrow> pubsub_s \<Rightarrow> pubsub_s" where
  "run_all env [] st = st"
| "run_all env (e # es) st = run_all env es (snd (run_event env e st))"

definition devices_on_sub :: "env \<Rightarrow> string \<Rightarrow> subscriber_s \<Rightarrow> pubsub_s \<Rightarrow> pubsub_s c" where
  "devices_on_sub env topic s st =
     (if topic \<notin> {'''', ''@'', ''@/'', JSDRV_MSG_DEVICE_ADD} then Inr st
      else case fst (topic_find st JSDRV_MSG_DEVICE_LIST False) of
             None \<Rightarrow> Inr st
           | Some path \<Rightarrow>
               (case node_at (ps_root st) path of
                  None \<Rightarrow> Inr st
                | Some t \<Rightarrow>
                    (case tp_value t of
                       None \<Rightarrow> Inr st
                     | Some m \<Rightarrow>
                         if u_type (m_value m) \<noteq> U_STR then Inr st
                         else case str_of (m_value m) of
                                None \<Rightarrow> Inl OutOfBounds
                              | Some src \<Rightarrow>
                                  cbind (device_names src []) (\<lambda>ns.
                                  if ns \<noteq> [] \<and> sb_fn s = 0 then Inl Undefined
                                  else Inr (run_all env
                                         (map (\<lambda>n. Ev_ext s JSDRV_MSG_DEVICE_ADD (jsdrv_union_str (n @ [NUL]))) ns)
                                         st)))))"

definition subscribe :: "env \<Rightarrow> msg_s \<Rightarrow> pubsub_s \<Rightarrow> (int \<times> pubsub_s) c" where
  "subscribe env m st =
     cbind (jsdrv_assert (u_type (m_value m) = U_BIN)) (\<lambda>_.
     case m_payload m of
       P_sub topic s \<Rightarrow>
         (case topic_find st topic True of
            (None, st) \<Rightarrow> Inr (ec NOT_FOUND, st)
          | (Some path, st) \<Rightarrow>
              let st = subscriber_alloc st;
                  st = st\<lparr>ps_root := upd_at path (\<lambda>t. with_subs (tp_subs t @ [s]) t) (ps_root st)\<rparr>
              in if has_flag s JSDRV_SFLAG_RETAIN then
                   cbind (devices_on_sub env topic s st) (\<lambda>st.
                   case node_at (ps_root st) path of
                     None \<Rightarrow> Inl Undefined
                   | Some t \<Rightarrow> Inr (0, subscribe_traverse env t topic s st))
                 else Inr (0, st))
     | _ \<Rightarrow> Inl AssertFailed)"

definition keep_subs :: "subscriber_s \<Rightarrow> topic_t \<Rightarrow> topic_t" where
  "keep_subs s t = with_subs (filter (\<lambda>x. \<not> is_same_subscriber x s) (tp_subs t)) t"

definition same_subs :: "subscriber_s \<Rightarrow> topic_t \<Rightarrow> nat" where
  "same_subs s t = length (filter (\<lambda>x. is_same_subscriber x s) (tp_subs t))"

definition unsubscribe :: "msg_s \<Rightarrow> pubsub_s \<Rightarrow> (int \<times> pubsub_s) c" where
  "unsubscribe m st =
     (case m_payload m of
        P_sub topic s \<Rightarrow>
          (case topic_find st topic True of
             (None, st) \<Rightarrow> Inr (ec PARAMETER_INVALID, st)
           | (Some path, st) \<Rightarrow>
               (case node_at (ps_root st) path of
                  None \<Rightarrow> Inl Undefined
                | Some t \<Rightarrow>
                    Inr (if same_subs s t \<noteq> 0 then 0 else ec NOT_FOUND,
                         st\<lparr>ps_root := upd_at path (keep_subs s) (ps_root st),
                            ps_sub_free := ps_sub_free st + same_subs s t\<rparr>)))
      | _ \<Rightarrow> Inl Undefined)"

fun unsubscribe_traverse :: "subscriber_s \<Rightarrow> topic_t \<Rightarrow> nat \<times> topic_t"
  and unsubscribe_traverse_list :: "subscriber_s \<Rightarrow> topic_t list \<Rightarrow> nat \<times> topic_t list" where
  "unsubscribe_traverse s (Topic n v mt ss cs) =
     (case unsubscribe_traverse_list s cs of
        (k, cs') \<Rightarrow>
          (length (filter (\<lambda>x. is_same_subscriber x s) ss) + k,
           Topic n v mt (filter (\<lambda>x. \<not> is_same_subscriber x s) ss) cs'))"
| "unsubscribe_traverse_list s [] = (0, [])"
| "unsubscribe_traverse_list s (c # cs) =
     (case unsubscribe_traverse s c of
        (k, c') \<Rightarrow> (case unsubscribe_traverse_list s cs of (l, cs') \<Rightarrow> (k + l, c' # cs')))"

definition unsubscribe_from_all :: "msg_s \<Rightarrow> pubsub_s \<Rightarrow> pubsub_s c" where
  "unsubscribe_from_all m st =
     (case m_payload m of
        P_sub topic s \<Rightarrow>
          (case unsubscribe_traverse s (ps_root st) of
             (k, root) \<Rightarrow> Inr (st\<lparr>ps_root := root, ps_sub_free := ps_sub_free st + k\<rparr>))
      | _ \<Rightarrow> Inl Undefined)"

text \<open>
  The query result: the return code, None when the code leaves the message's own value
  in place, and the union the caller passed in.
\<close>

definition query_value_copy :: "msg_s option \<Rightarrow> union_s \<Rightarrow> (int option \<times> union_s) c" where
  "query_value_copy src dst =
     (case src of
        None \<Rightarrow> Inr (None, jsdrv_union_null)
      | Some m \<Rightarrow>
          let v = m_value m in
          if jsdrv_union_is_type_ptr v then
            if \<not> jsdrv_union_is_type_ptr dst then Inr (Some (ec SYNTAX_ERROR), dst)
            else
              cbind (if u_size v = 0 then cbind (mem_strlen (u_ptr v)) (\<lambda>n. Inr (n + 1))
                     else Inr (unat (u_size v))) (\<lambda>sz.
              if sz > unat (u_size dst) then Inr (Some (ec TOO_SMALL), dst)
              else cbind (mem_copy (u_ptr dst) (u_ptr v) sz) (\<lambda>b.
                   Inr (Some 0, dst\<lparr>u_ptr := b, u_type := u_type v, u_size := of_nat sz\<rparr>)))
          else Inr (Some 0, v))"

definition query :: "msg_s \<Rightarrow> pubsub_s \<Rightarrow> (int \<times> pubsub_s) c" where
  "query m st =
     (case m_payload m of
        P_query topic0 dst \<Rightarrow>
          let topic = take 63 topic0 in
          if topic = [] then Inl OutOfBounds
          else
            let is_meta = (last topic = CHR ''%'');
                topic = (if last topic = CHR ''&'' \<or> is_meta then butlast topic else topic);
                old = sint (v_i32 (m_value m))
            in cbind (case fst (topic_find st topic False) of
                        None \<Rightarrow> Inr (Some (ec NOT_FOUND), dst)
                      | Some path \<Rightarrow>
                          (case node_at (ps_root st) path of
                             None \<Rightarrow> Inl Undefined
                           | Some t \<Rightarrow>
                               if is_meta then
                                 (case tp_meta t of
                                    None \<Rightarrow> Inr (None, dst\<lparr>u_type := U_NULL\<rparr>)
                                  | Some mt \<Rightarrow> query_value_copy (Some mt) dst)
                               else query_value_copy (tp_value t) dst)) (\<lambda>(rc, dst).
               let rc = (case rc of None \<Rightarrow> old | Some r \<Rightarrow> r)
               in Inr (rc, log_event (Ev_query topic0 rc dst) st))
      | _ \<Rightarrow> Inl Undefined)"

section \<open>Message processing\<close>

definition command :: "env \<Rightarrow> msg_s \<Rightarrow> pubsub_s \<Rightarrow> (int \<times> pubsub_s) c" where
  "command env m st =
     (if m_topic m = ''_/!query'' then query m st
      else if m_topic m = ''_/!sub'' then subscribe env m st
      else if m_topic m = ''_/!unsub'' then unsubscribe m st
      else if m_topic m = ''_/!unsub+'' then cbind (unsubscribe_from_all m st) (\<lambda>st. Inr (0, st))
      else Inr (ec NOT_SUPPORTED, st))"

definition process_msg :: "(u64 \<Rightarrow> u64) \<Rightarrow> env \<Rightarrow> msg_s \<Rightarrow> pubsub_s \<Rightarrow> pubsub_s c" where
  "process_msg pow10 env m st =
     (if m_topic m \<noteq> [] \<and> hd (m_topic m) = CHR ''_'' then
        cbind (command env m st) (\<lambda>(rc, st).
        cbind (if m_source m \<noteq> 0 then publish_return_code_i32 env (m_topic m) rc st else Inr st) (\<lambda>st.
        Inr (jsdrvp_msg_free m st)))
      else if m_topic m = [] then
        cbind (if m_source m \<noteq> 0 then publish_return_code_i32 env (m_topic m) (ec NOT_SUPPORTED) st
               else Inr st) (\<lambda>st.
        Inr (jsdrvp_msg_free m st))
      else if last (m_topic m) = CHR ''$'' then publish_meta env m st
      else if last (m_topic m) = CHR 0x23 then publish_return_code env m st
      else publish_normal pow10 env m st)"

primrec jsdrv_pubsub_process :: "nat \<Rightarrow> (u64 \<Rightarrow> u64) \<Rightarrow> env \<Rightarrow> pubsub_s \<Rightarrow> pubsub_s c" where
  "jsdrv_pubsub_process 0 pow10 env st = (if ps_pend st = [] then Inr st else Inl OutOfFuel)"
| "jsdrv_pubsub_process (Suc n) pow10 env st =
     (case ps_pend st of
        [] \<Rightarrow> Inr st
      | m # ms \<Rightarrow>
          cbind (process_msg pow10 env m (st\<lparr>ps_pend := ms\<rparr>)) (jsdrv_pubsub_process n pow10 env))"

definition jsdrv_pubsub_publish :: "msg_s \<Rightarrow> pubsub_s \<Rightarrow> int \<times> pubsub_s" where
  "jsdrv_pubsub_publish m st = (0, st\<lparr>ps_pend := ps_pend st @ [m]\<rparr>)"

definition jsdrv_pubsub_initialize :: pubsub_s where
  "jsdrv_pubsub_initialize =
     \<lparr>ps_root = topic_alloc [], ps_sub_free = 0, ps_pend = [], ps_log = [], ps_next = 0\<rparr>"

fun topic_free :: "topic_t \<Rightarrow> nat list"
  and topic_free_list :: "topic_t list \<Rightarrow> nat list" where
  "topic_free (Topic n v mt ss cs) =
     (case v of Some m \<Rightarrow> [m_id m] | None \<Rightarrow> []) @ (case mt of Some m \<Rightarrow> [m_id m] | None \<Rightarrow> [])
     @ topic_free_list cs"
| "topic_free_list [] = []"
| "topic_free_list (c # cs) = topic_free c @ topic_free_list cs"

text \<open>The events of the finalizer: every message it frees, in order.\<close>

definition jsdrv_pubsub_finalize :: "pubsub_s \<Rightarrow> event list" where
  "jsdrv_pubsub_finalize st =
     ps_log st @ map (\<lambda>m. Ev_free (m_id m)) (ps_pend st) @ map Ev_free (topic_free (ps_root st))"

section \<open>The tree as a map from paths\<close>

text \<open>The parts of a topic: its retained value, its metadata and its subscribers.\<close>

type_synonym parts = "msg_s option \<times> msg_s option \<times> subscriber_s list"

definition parts_of :: "topic_t \<Rightarrow> parts" where
  "parts_of t = (tp_value t, tp_meta t, tp_subs t)"

definition view :: "topic_t \<Rightarrow> string list \<Rightarrow> parts" where
  "view t p = (case node_at t p of None \<Rightarrow> (None, None, []) | Some x \<Rightarrow> parts_of x)"

fun tree_wf :: "topic_t \<Rightarrow> bool" where
  "tree_wf (Topic n v mt ss cs) \<longleftrightarrow>
     distinct (map tp_name cs) \<and> (\<forall>c \<in> set cs. length (tp_name c) < 8 \<and> tree_wf c)"

function path_of :: "string \<Rightarrow> string list option" where
  "path_of c =
     (if c = [] then Some []
      else case subtopic_get_str c of
             None \<Rightarrow> None
           | Some (name, r) \<Rightarrow> map_option ((#) name) (path_of r))"
  by pat_completeness auto
termination
  by (relation "measure length") (auto simp: neq_Nil_conv dest: subtopic_get_str_length)

declare path_of.simps [simp del]

lemma with_sel [simp]:
  "tp_name (with_children cs t) = tp_name t" "tp_children (with_children cs t) = cs"
  "tp_value (with_children cs t) = tp_value t" "tp_meta (with_children cs t) = tp_meta t"
  "tp_subs (with_children cs t) = tp_subs t"
  "tp_name (with_subs ss t) = tp_name t" "tp_children (with_subs ss t) = tp_children t"
  "tp_value (with_subs ss t) = tp_value t" "tp_meta (with_subs ss t) = tp_meta t"
  "tp_subs (with_subs ss t) = ss"
  "tp_name (with_value v t) = tp_name t" "tp_children (with_value v t) = tp_children t"
  "tp_value (with_value v t) = v" "tp_meta (with_value v t) = tp_meta t"
  "tp_subs (with_value v t) = tp_subs t"
  "tp_name (with_meta v t) = tp_name t" "tp_children (with_meta v t) = tp_children t"
  "tp_value (with_meta v t) = tp_value t" "tp_meta (with_meta v t) = v"
  "tp_subs (with_meta v t) = tp_subs t"
  by (simp_all add: with_children_def with_subs_def with_value_def with_meta_def)

lemma topic_alloc_sel [simp]:
  "tp_name (topic_alloc n) = n" "tp_value (topic_alloc n) = None" "tp_meta (topic_alloc n) = None"
  "tp_subs (topic_alloc n) = []" "tp_children (topic_alloc n) = []"
  by (simp_all add: topic_alloc_def)

lemma tree_wf_iff:
  "tree_wf t \<longleftrightarrow> distinct (map tp_name (tp_children t))
     \<and> (\<forall>c \<in> set (tp_children t). length (tp_name c) < 8 \<and> tree_wf c)"
  by (cases t) simp

text \<open>Updates of a topic that keep its name and its children.\<close>

definition local_upd :: "(topic_t \<Rightarrow> topic_t) \<Rightarrow> bool" where
  "local_upd f \<longleftrightarrow> (\<forall>t. tp_name (f t) = tp_name t \<and> tp_children (f t) = tp_children t)"

lemma subtopic_find_name: "subtopic_find cs n = Some c \<Longrightarrow> tp_name c = n \<and> c \<in> set cs"
  by (induction cs n rule: subtopic_find.induct) (auto split: if_splits)

lemma subtopic_find_None: "subtopic_find cs n = None \<longleftrightarrow> n \<notin> tp_name ` set cs"
  by (induction cs n rule: subtopic_find.induct) auto

lemma subtopic_find_append:
  "subtopic_find (cs @ ds) n = (case subtopic_find cs n of None \<Rightarrow> subtopic_find ds n | Some c \<Rightarrow> Some c)"
  by (induction cs n rule: subtopic_find.induct) auto

lemma child_upd_name [simp]:
  "(\<And>c. subtopic_find cs n = Some c \<Longrightarrow> tp_name (f c) = n) \<Longrightarrow> map tp_name (child_upd n f cs) = map tp_name cs"
  by (induction n f cs rule: child_upd.induct) auto

lemma subtopic_find_child_upd:
  "(\<And>c. subtopic_find cs n = Some c \<Longrightarrow> tp_name (f c) = n) \<Longrightarrow>
   subtopic_find (child_upd n f cs) m = (if m = n then map_option f (subtopic_find cs n) else subtopic_find cs m)"
  by (induction n f cs rule: child_upd.induct) auto

lemma child_upd_id: "subtopic_find cs n = Some c \<Longrightarrow> child_upd n (\<lambda>_. c) cs = cs"
  by (induction n "\<lambda>_::topic_t. c" cs rule: child_upd.induct) auto

lemma set_child_upd: "set (child_upd n f cs) \<subseteq> set cs \<union> {f c |c. subtopic_find cs n = Some c}"
  by (induction n f cs rule: child_upd.induct) auto

lemma topic_find_from_Nil [simp]: "topic_find_from create t [] = (Some [], t)"
  by (simp add: topic_find_from.simps)

lemma path_of_Nil [simp]: "path_of [] = Some []"
  by (simp add: path_of.simps)

text \<open>One step of the walk, with the subtopic that is found or created.\<close>

lemma topic_find_from_step:
  assumes "c \<noteq> []" and "subtopic_get_str c = Some (name, r)" and "create \<or> subtopic_find (tp_children t) name \<noteq> None"
    and "(p, sub') = topic_find_from create
           (case subtopic_find (tp_children t) name of Some x \<Rightarrow> x | None \<Rightarrow> topic_alloc name) r"
  shows "topic_find_from create t c =
           (map_option ((#) name) p,
            with_children (case subtopic_find (tp_children t) name of
                Some x \<Rightarrow> child_upd name (\<lambda>_. sub') (tp_children t)
              | None \<Rightarrow> tp_children t @ [sub']) t)"
  using assms
  by (subst topic_find_from.simps) (auto split: option.splits prod.splits)

lemma topic_find_from_name: "tp_name (snd (topic_find_from create t c)) = tp_name t"
  by (subst topic_find_from.simps) (auto split: option.splits prod.splits)

lemma subtopic_loop_name: "subtopic_loop i acc t = Some (n, r) \<Longrightarrow> length n < length acc + i"
  by (induction i acc t rule: subtopic_loop.induct) (auto split: if_splits)

lemma subtopic_get_str_name: "subtopic_get_str c = Some (n, r) \<Longrightarrow> length n < 8"
  using subtopic_loop_name [of 8 "[]" c n r] by (simp add: subtopic_get_str_def)

lemma view_Cons:
  "view t (n # p) = (case subtopic_find (tp_children t) n of None \<Rightarrow> (None, None, []) | Some c \<Rightarrow> view c p)"
  by (simp add: view_def split: option.splits)

lemma view_Nil [simp]: "view t [] = parts_of t"
  by (simp add: view_def)

lemma view_alloc: "view (topic_alloc n) p = (None, None, [])"
  by (cases p) (simp_all add: view_def parts_of_def)

lemma topic_find_from_view:
  "view (snd (topic_find_from create t c)) = view t"
proof (induction "length c" arbitrary: t c rule: less_induct)
  case less
  show ?case
  proof (cases "\<exists>name r. c \<noteq> [] \<and> subtopic_get_str c = Some (name, r)
      \<and> (create \<or> subtopic_find (tp_children t) name \<noteq> None)")
    case False
    then have "snd (topic_find_from create t c) = t"
      by (subst topic_find_from.simps) (auto split: option.splits)
    then show ?thesis by simp
  next
    case True
    then obtain name r where nr: "c \<noteq> []" "subtopic_get_str c = Some (name, r)"
      "create \<or> subtopic_find (tp_children t) name \<noteq> None" by blast
    have len: "length r < length c" using nr subtopic_get_str_length by (cases c) auto
    let ?x = "case subtopic_find (tp_children t) name of Some x \<Rightarrow> x | None \<Rightarrow> topic_alloc name"
    obtain p s' where s': "topic_find_from create ?x r = (p, s')"
      by (cases "topic_find_from create ?x r")
    have v: "view s' = view ?x" using less [OF len, of ?x] s' by simp
    have n: "tp_name s' = name"
      using topic_find_from_name [of create ?x r] s' subtopic_find_name [of "tp_children t" name]
      by (auto split: option.splits)
    have "view (snd (topic_find_from create t c)) q = view t q" for q
      unfolding topic_find_from_step [OF nr s' [symmetric]]
      using v n
      by (cases q) (auto simp: parts_of_def view_Cons subtopic_find_child_upd subtopic_find_append
          view_alloc split: option.splits)
    then show ?thesis by blast
  qed
qed

lemma walk_cases:
  assumes "P t c (None, t)" and "c = [] \<Longrightarrow> P t c (Some [], t)"
    and "\<And>name r p s'. c \<noteq> [] \<Longrightarrow> subtopic_get_str c = Some (name, r) \<Longrightarrow> length r < length c \<Longrightarrow>
      create \<or> subtopic_find (tp_children t) name \<noteq> None \<Longrightarrow>
      topic_find_from create (case subtopic_find (tp_children t) name of Some x \<Rightarrow> x | None \<Rightarrow> topic_alloc name) r
        = (p, s') \<Longrightarrow> tp_name s' = name \<Longrightarrow>
      P t c (map_option ((#) name) p,
            with_children (case subtopic_find (tp_children t) name of
                Some x \<Rightarrow> child_upd name (\<lambda>_. s') (tp_children t)
              | None \<Rightarrow> tp_children t @ [s']) t)"
  shows "P t c (topic_find_from create t c)"
proof (cases "\<exists>name r. c \<noteq> [] \<and> subtopic_get_str c = Some (name, r)
    \<and> (create \<or> subtopic_find (tp_children t) name \<noteq> None)")
  case False
  then have "topic_find_from create t c = (if c = [] then (Some [], t) else (None, t))"
    by (subst topic_find_from.simps) (auto split: option.splits)
  with assms(1,2) show ?thesis by auto
next
  case True
  then obtain name r where nr: "c \<noteq> []" "subtopic_get_str c = Some (name, r)"
    "create \<or> subtopic_find (tp_children t) name \<noteq> None" by blast
  have len: "length r < length c" using nr subtopic_get_str_length by (cases c) auto
  let ?x = "case subtopic_find (tp_children t) name of Some x \<Rightarrow> x | None \<Rightarrow> topic_alloc name"
  obtain p s' where s': "topic_find_from create ?x r = (p, s')"
    by (cases "topic_find_from create ?x r")
  have "tp_name s' = name"
    using topic_find_from_name [of create ?x r] s' subtopic_find_name [of "tp_children t" name]
    by (auto split: option.splits)
  from assms(3) [OF nr(1,2) len nr(3) s' this] topic_find_from_step [OF nr s' [symmetric]]
  show ?thesis by simp
qed

lemma topic_find_from_wf: "tree_wf t \<Longrightarrow> tree_wf (snd (topic_find_from create t c))"
proof (induction "length c" arbitrary: t c rule: less_induct)
  case less
  note wf = less.prems
  show ?case
  proof (rule walk_cases [where P = "\<lambda>t c r. tree_wf (snd r)"], simp_all add: wf)
    fix name r p s'
    let ?x = "case subtopic_find (tp_children t) name of Some x \<Rightarrow> x | None \<Rightarrow> topic_alloc name"
    assume h: "subtopic_get_str c = Some (name, r)" "length r < length c"
      "topic_find_from create ?x r = (p, s')" "tp_name s' = name"
    have "tree_wf ?x"
      using wf subtopic_find_name [of "tp_children t" name]
      by (auto simp: tree_wf_iff [of t] topic_alloc_def split: option.splits)
    then have s': "tree_wf s'" using less.hyps [OF h(2), of ?x] h(3) by simp
    have nl: "length name < 8" using subtopic_get_str_name [OF h(1)] .
    show "tree_wf (with_children (case subtopic_find (tp_children t) name of
        Some x \<Rightarrow> child_upd name (\<lambda>_. s') (tp_children t) | None \<Rightarrow> tp_children t @ [s']) t)"
    proof (cases "subtopic_find (tp_children t) name")
      case None
      then show ?thesis
        using wf s' nl h(4) subtopic_find_None [of "tp_children t" name]
        by (auto simp: tree_wf_iff [of t] tree_wf_iff [of "with_children _ _"])
    next
      case (Some x)
      then show ?thesis
        using wf s' nl h(4) set_child_upd [of name "\<lambda>_. s'" "tp_children t"]
        by (fastforce simp: tree_wf_iff [of t] tree_wf_iff [of "with_children _ _"])
    qed
  qed
qed

lemma path_of_step:
  "c \<noteq> [] \<Longrightarrow> subtopic_get_str c = Some (name, r) \<Longrightarrow> path_of c = map_option ((#) name) (path_of r)"
  by (subst path_of.simps) simp

lemma topic_find_from_path: "fst (topic_find_from True t c) = path_of c"
proof (induction "length c" arbitrary: t c rule: less_induct)
  case less
  show ?case
  proof (cases "c = [] \<or> subtopic_get_str c = None")
    case True
    then show ?thesis
      by (auto simp: path_of.simps [of c] topic_find_from.simps [of _ _ c])
  next
    case False
    then obtain name r where nr: "c \<noteq> []" "subtopic_get_str c = Some (name, r)" by auto
    let ?x = "case subtopic_find (tp_children t) name of Some x \<Rightarrow> x | None \<Rightarrow> topic_alloc name"
    have len: "length r < length c" using nr subtopic_get_str_length by (cases c) auto
    obtain p s' where s': "topic_find_from True ?x r = (p, s')"
      by (cases "topic_find_from True ?x r")
    have "p = path_of r" using less [OF len, of ?x] s' by simp
    then show ?thesis
      using topic_find_from_step [OF nr _ s' [symmetric]] path_of_step [OF nr] by simp
  qed
qed

lemma topic_find_from_node:
  "topic_find_from create t c = (Some p, t') \<Longrightarrow> path_of c = Some p \<and> node_at t' p \<noteq> None"
proof (induction "length c" arbitrary: t c p t' rule: less_induct)
  case less
  have "fst res = Some p \<Longrightarrow> path_of c = Some p \<and> node_at (snd res) p \<noteq> None"
    if "res = topic_find_from create t c" for res
    unfolding that
  proof (rule walk_cases [where P = "\<lambda>t c res. fst res = Some p \<longrightarrow>
      path_of c = Some p \<and> node_at (snd res) p \<noteq> None", THEN mp], simp_all)
    fix name r q s'
    let ?x = "case subtopic_find (tp_children t) name of Some x \<Rightarrow> x | None \<Rightarrow> topic_alloc name"
    assume h: "c \<noteq> []" "subtopic_get_str c = Some (name, r)" "length r < length c"
      "topic_find_from create ?x r = (q, s')" "tp_name s' = name"
    have "q = Some q' \<Longrightarrow> path_of r = Some q' \<and> (\<exists>y. node_at s' q' = Some y)" for q'
      using less.hyps [OF h(3), of ?x q' s'] h(4) by auto
    then show "(\<exists>z. q = Some z \<and> name # z = p) \<longrightarrow> path_of c = Some p \<and>
        (\<exists>y. node_at (with_children (case subtopic_find (tp_children t) name of
          Some x \<Rightarrow> child_upd name (\<lambda>_. s') (tp_children t) | None \<Rightarrow> tp_children t @ [s']) t) p = Some y)"
      using h(5) path_of_step [OF h(1,2)] subtopic_find_name [of "tp_children t" name]
      by (auto simp: subtopic_find_child_upd subtopic_find_append split: option.splits)
  qed
  with less.prems show ?case by force
qed

lemma topic_find_from_False: "snd (topic_find_from False t c) = t"
proof (induction "length c" arbitrary: t c rule: less_induct)
  case less
  show ?case
  proof (rule walk_cases [where P = "\<lambda>t c res. snd res = t"], simp_all)
    fix name r p s'
    assume h: "length r < length c" "\<exists>y. subtopic_find (tp_children t) name = Some y"
      "topic_find_from False (case subtopic_find (tp_children t) name of Some x \<Rightarrow> x | None \<Rightarrow> topic_alloc name) r
        = (p, s')"
    then obtain y where y: "subtopic_find (tp_children t) name = Some y" by blast
    have "s' = y" using less [OF h(1), of y] h(3) y by simp
    then show "with_children (case subtopic_find (tp_children t) name of
        Some x \<Rightarrow> child_upd name (\<lambda>_. s') (tp_children t) | None \<Rightarrow> tp_children t @ [s']) t = t"
      using y child_upd_id by (simp add: with_children_def)
  qed
qed

lemma upd_at_name: "local_upd f \<Longrightarrow> tp_name (upd_at p f t) = tp_name t"
  by (cases p) (simp_all add: local_upd_def)

lemma view_upd_at:
  assumes "node_at t p = Some x" and "local_upd f"
  shows "view (upd_at p f t) = (view t)(p := parts_of (f x))"
  using assms(1)
proof (induction p arbitrary: t)
  case Nil
  have "view (f t) q = view t q" if "q \<noteq> []" for q
    using that assms(2) by (cases q) (auto simp: view_Cons local_upd_def)
  with Nil show ?case by auto
next
  case (Cons n p)
  then obtain c where c: "subtopic_find (tp_children t) n = Some c" "node_at c p = Some x"
    by (auto split: option.splits)
  have fnd: "subtopic_find (child_upd n (upd_at p f) (tp_children t)) m =
      (if m = n then Some (upd_at p f c) else subtopic_find (tp_children t) m)" for m
    using c(1) upd_at_name [OF assms(2)] subtopic_find_name [OF c(1)]
    by (subst subtopic_find_child_upd) auto
  have "view (upd_at (n # p) f t) q = ((view t)(n # p := parts_of (f x))) q" for q
    using Cons.IH [OF c(2)] c(1) by (cases q) (auto simp: view_Cons parts_of_def fnd)
  then show ?case by blast
qed

lemma upd_at_wf: "local_upd f \<Longrightarrow> tree_wf t \<Longrightarrow> tree_wf (upd_at p f t)"
proof (induction p arbitrary: t)
  case Nil
  then show ?case by (simp add: tree_wf_iff [of t] tree_wf_iff [of "f t"] local_upd_def)
next
  case (Cons n p)
  have nm: "tp_name (upd_at p f c) = n" if "subtopic_find (tp_children t) n = Some c" for c
    using upd_at_name [OF Cons.prems(1)] subtopic_find_name [OF that] by simp
  have "length (tp_name c) < 8 \<and> tree_wf c"
    if c: "c \<in> set (child_upd n (upd_at p f) (tp_children t))" for c
  proof (cases "c \<in> set (tp_children t)")
    case True
    with Cons.prems(2) show ?thesis by (simp add: tree_wf_iff [of t])
  next
    case False
    then obtain d where d: "subtopic_find (tp_children t) n = Some d" "c = upd_at p f d"
      using c set_child_upd [of n "upd_at p f" "tp_children t"] by blast
    then have "tree_wf d" "length (tp_name d) < 8"
      using Cons.prems(2) subtopic_find_name [OF d(1)] by (auto simp: tree_wf_iff [of t])
    with d Cons.IH [OF Cons.prems(1)] upd_at_name [OF Cons.prems(1)] show ?thesis by simp
  qed
  moreover have "distinct (map tp_name (child_upd n (upd_at p f) (tp_children t)))"
    using Cons.prems(2) nm by (simp add: tree_wf_iff [of t])
  ultimately show ?case by (simp add: tree_wf_iff [of "with_children _ _"])
qed

lemma node_at_upd_at:
  "local_upd f \<Longrightarrow> node_at t p = Some x \<Longrightarrow> node_at (upd_at p f t) p = Some (f x)"
proof (induction p arbitrary: t)
  case (Cons n p)
  have "tp_name (upd_at p f c) = n" if "subtopic_find (tp_children t) n = Some c" for c
    using upd_at_name [OF Cons.prems(1)] subtopic_find_name [OF that] by simp
  with Cons show ?case by (auto simp: subtopic_find_child_upd split: option.splits)
qed simp

lemma local_upd_with [simp]:
  "local_upd (with_value v)" "local_upd (with_meta v)" "local_upd (keep_subs s)"
  "local_upd (\<lambda>t. with_subs (g t) t)"
  by (simp_all add: local_upd_def keep_subs_def)

section \<open>Who hears a message\<close>

definition audience :: "(string list \<Rightarrow> parts) \<Rightarrow> string list \<Rightarrow> subscriber_s list" where
  "audience V p = concat (map (\<lambda>k. snd (snd (V (take k p)))) (rev [0..<Suc (length p)]))"

lemma subs_above_audience:
  "node_at t p \<noteq> None \<Longrightarrow> subs_above t p = audience (view t) p"
proof (induction p arbitrary: t)
  case Nil
  then show ?case by (simp add: audience_def parts_of_def)
next
  case (Cons n p)
  then obtain c where c: "subtopic_find (tp_children t) n = Some c" "node_at c p \<noteq> None"
    by (auto split: option.splits)
  have "rev [0..<Suc (length (n # p))] = map Suc (rev [0..<Suc (length p)]) @ [0]"
    by (simp add: rev_map [symmetric] map_Suc_upt upt_conv_Cons del: upt_Suc)
  moreover have "(\<lambda>k. snd (snd (view t (take k (n # p))))) \<circ> Suc = (\<lambda>k. snd (snd (view c (take k p))))"
    by (auto simp: view_Cons c(1))
  ultimately have "audience (view t) (n # p) = audience (view c) p @ tp_subs t"
    by (simp add: audience_def parts_of_def del: upt_Suc)
  with Cons.IH [OF c(2)] c(1) show ?case by simp
qed

text \<open>
  What the API documents of delivery, stated apart from the loop that implements it: the
  subscription has the bit for this kind of message (6 for return codes, 3 for metadata
  responses, 1 for every other publication), and the message is not one that the subscriber
  itself sent, marked with its own function and user data.
\<close>

definition hears :: "u8 \<Rightarrow> msg_s \<Rightarrow> subscriber_s \<Rightarrow> bool" where
  "hears flags m s \<longleftrightarrow>
     bit (sb_flags s) (if flags = 64 then 6 else if flags = 8 then 3 else 1)
     \<and> (sb_fn s = 0 \<or> (sb_internal s, sb_fn s, sb_user s)
          \<noteq> (sb_internal (m_extra m), sb_fn (m_extra m), sb_user (m_extra m)))"

lemma has_flag_bit: "has_flag s (2 ^ n) \<longleftrightarrow> bit (sb_flags s) n"
  by (simp add: has_flag_def and_exp_eq_0_iff_not_bit)

lemmas sflag_bits = has_flag_bit [of _ 6, simplified] has_flag_bit [of _ 3, simplified]
  has_flag_bit [of _ 1, simplified]

lemma publish_wants_hears: "publish_wants flags m s = hears flags m s"
  unfolding publish_wants_def hears_def is_same_subscriber_def
    JSDRV_SFLAG_RETURN_CODE_def JSDRV_SFLAG_METADATA_RSP_def JSDRV_SFLAG_PUB_def
  by (auto simp: sflag_bits)

definition deliveries :: "u8 \<Rightarrow> msg_s \<Rightarrow> subscriber_s list \<Rightarrow> event list" where
  "deliveries flags m ss = List.map_filter (\<lambda>s. call_event s m) (filter (hears flags m) ss)"

text \<open>The parts of the state that subscriber functions cannot change.\<close>

definition same_store :: "pubsub_s \<Rightarrow> pubsub_s \<Rightarrow> bool" where
  "same_store st st' \<longleftrightarrow> ps_root st' = ps_root st \<and> ps_sub_free st' = ps_sub_free st \<and> ps_next st' = ps_next st
     \<and> (\<exists>ms. ps_pend st' = ps_pend st @ ms)"

lemma same_store_refl [simp]: "same_store st st"
  by (simp add: same_store_def)

lemma same_store_trans: "same_store a b \<Longrightarrow> same_store b c \<Longrightarrow> same_store a c"
  by (auto simp: same_store_def)

lemma log_event_store [simp]: "same_store st (log_event e st)"
  by (simp add: same_store_def log_event_def)

lemma jsdrvp_msg_free_store [simp]: "same_store st (jsdrvp_msg_free m st)"
  by (simp add: jsdrvp_msg_free_def)

lemma run_event_eq:
  "same_store st (snd (run_event env e st)) \<and> ps_log (snd (run_event env e st)) = ps_log st @ [e]"
  by (auto simp: run_event_def same_store_def log_event_def split: prod.splits)

lemma subscriber_call_eq:
  "same_store st (snd (subscriber_call env s m st))
   \<and> ps_log (snd (subscriber_call env s m st)) = ps_log st @ (case call_event s m of None \<Rightarrow> [] | Some e \<Rightarrow> [e])"
  using run_event_eq by (auto simp: subscriber_call_def split: option.splits)

lemma publish_subs_eq:
  "same_store st (snd (publish_subs env flags m ss status st))
   \<and> ps_log (snd (publish_subs env flags m ss status st)) = ps_log st @ deliveries flags m ss"
proof (induction ss arbitrary: status st)
  case (Cons s ss)
  obtain rv st1 where c: "subscriber_call env s m st = (rv, st1)" by (cases "subscriber_call env s m st")
  have s1: "same_store st st1"
    "ps_log st1 = ps_log st @ (case call_event s m of None \<Rightarrow> [] | Some e \<Rightarrow> [e])"
    using subscriber_call_eq [of st env s m] c by simp_all
  show ?case
  proof (cases "publish_wants flags m s")
    case True
    have "same_store st (snd (publish_subs env flags m ss k st1))" for k
      using same_store_trans [OF s1(1)] Cons.IH by blast
    then show ?thesis
      using True c s1(2) Cons.IH [where st = st1]
      by (auto simp: deliveries_def map_filter_simps publish_wants_hears split: option.splits)
  next
    case False
    then show ?thesis using Cons.IH by (simp add: deliveries_def publish_wants_hears)
  qed
qed (simp add: deliveries_def map_filter_simps)

lemma publish_subs_status:
  "(\<And>l e. fst (env l e) = 0) \<Longrightarrow> fst (publish_subs env flags m ss 0 st) = 0"
proof (induction ss arbitrary: st)
  case (Cons s ss)
  have "fst (subscriber_call env s m st) = 0"
    using Cons.prems
    by (auto simp: subscriber_call_def run_event_def split: option.splits prod.splits event.splits)
       (metis fst_conv)
  with Cons show ?case by (cases "subscriber_call env s m st") auto
qed simp

lemma publish_eq:
  assumes "publish env path m flags st = (status, st')" and "node_at (ps_root st) path \<noteq> None"
  shows "same_store st st'"
    and "ps_log st' = ps_log st @ deliveries flags m (audience (view (ps_root st)) path)"
  using publish_subs_eq [of st env flags m "subs_above (ps_root st) path" 0] assms
    subs_above_audience [OF assms(2)]
  by (simp_all add: publish_def)

section \<open>Finding a topic\<close>

lemma topic_find_create:
  assumes "topic_find st c True = (q, st')"
  shows "q = path_of c" and "view (ps_root st') = view (ps_root st)"
    and "tree_wf (ps_root st) \<Longrightarrow> tree_wf (ps_root st')"
    and "q = Some p \<Longrightarrow> node_at (ps_root st') p \<noteq> None"
    and "st' = st\<lparr>ps_root := ps_root st'\<rparr>"
  using assms topic_find_from_path [of "ps_root st" c] topic_find_from_view [of True "ps_root st" c]
    topic_find_from_wf [of "ps_root st" True c] topic_find_from_node [of True "ps_root st" c p]
  by (auto simp: topic_find_def split: prod.splits)

lemma topic_find_no_create:
  assumes "topic_find st c False = (q, st')"
  shows "st' = st" and "q = Some p \<Longrightarrow> path_of c = Some p \<and> node_at (ps_root st) p \<noteq> None"
  using assms topic_find_from_False [of "ps_root st" c] topic_find_from_node [of False "ps_root st" c p]
  by (auto simp: topic_find_def split: prod.splits)

lemma node_view: "node_at t p = Some x \<Longrightarrow> view t p = parts_of x"
  by (simp add: view_def)

lemma node_at_name: "node_at t p = Some x \<Longrightarrow> p \<noteq> [] \<Longrightarrow> tp_name x = last p"
proof (induction p arbitrary: t)
  case (Cons n p)
  then obtain c where c: "subtopic_find (tp_children t) n = Some c" "node_at c p = Some x"
    by (auto split: option.splits)
  then show ?case using Cons.IH subtopic_find_name [OF c(1)] by (cases p) auto
qed simp

lemma path_of_not_Nil: "path_of c = Some p \<Longrightarrow> c \<noteq> [] \<Longrightarrow> p \<noteq> []"
  by (subst (asm) path_of.simps) (auto split: option.splits)

section \<open>Publishing a value\<close>

definition retains :: "string list \<Rightarrow> msg_s \<Rightarrow> bool" where
  "retains p m \<longleftrightarrow> u_flags (m_value m) AND JSDRV_UNION_FLAG_RETAIN \<noteq> 0
     \<and> (last p = [] \<or> hd (last p) \<noteq> CHR ''!'')"

definition plain_topic :: "string \<Rightarrow> bool" where
  "plain_topic s \<longleftrightarrow> s \<noteq> [] \<and> hd s \<noteq> CHR ''_'' \<and> last s \<noteq> CHR ''$'' \<and> last s \<noteq> CHR 0x23"

lemma audience_same_subs:
  "(\<And>q. snd (snd (W q)) = snd (snd (V q))) \<Longrightarrow> audience W p = audience V p"
  by (simp add: audience_def)

lemma publish_store_eq:
  assumes n: "node_at (ps_root st) p = Some t" and p: "p \<noteq> []" and env: "\<And>l e. fst (env l e) = 0"
  shows "ps_log (publish_store env p m t st) =
           ps_log st @ (case tp_value t of Some x \<Rightarrow> [Ev_free (m_id x)] | None \<Rightarrow> [])
           @ deliveries 0 m (audience (view (ps_root st)) p) @ (if retains p m then [] else [Ev_free (m_id m)])"
    and "ps_root (publish_store env p m t st) =
           upd_at p (with_value (if retains p m then Some m else None)) (ps_root st)"
proof -
  define v where "v = (if retains p m then Some m else None)"
  define st1 where "st1 = (case tp_value t of Some old \<Rightarrow> jsdrvp_msg_free old st | None \<Rightarrow> st)"
  define st2 where "st2 = st1\<lparr>ps_root := upd_at p (with_value v) (ps_root st1)\<rparr>"
  have r1: "ps_root st1 = ps_root st"
    by (simp add: st1_def jsdrvp_msg_free_def log_event_def split: option.splits)
  have l1: "ps_log st1 = ps_log st @ (case tp_value t of Some x \<Rightarrow> [Ev_free (m_id x)] | None \<Rightarrow> [])"
    by (simp add: st1_def jsdrvp_msg_free_def log_event_def split: option.splits)
  have keep: "(u_flags (m_value m) AND JSDRV_UNION_FLAG_RETAIN \<noteq> 0
      \<and> (tp_name t = [] \<or> hd (tp_name t) \<noteq> CHR ''!'')) = retains p m"
    using node_at_name [OF n p] by (simp add: retains_def)
  have n2: "node_at (ps_root st2) p \<noteq> None"
    using node_at_upd_at [of "with_value v" "ps_root st" p t] n r1 by (simp add: st2_def)
  have "view (ps_root st2) = (view (ps_root st))(p := (v, tp_meta t, tp_subs t))"
    using view_upd_at [OF n, of "with_value v"] r1 by (simp add: st2_def parts_of_def)
  then have aud: "audience (view (ps_root st2)) p = audience (view (ps_root st)) p"
    using node_view [OF n] by (intro audience_same_subs) (auto simp: parts_of_def)
  obtain status st3 where p3: "publish env p m 0 st2 = (status, st3)" by (cases "publish env p m 0 st2")
  have s0: "status = 0"
    using p3 publish_subs_status [of env 0 m "subs_above (ps_root st2) p" st2] env
    by (simp add: publish_def)
  have st3: "same_store st2 st3" "ps_log st3 = ps_log st2 @ deliveries 0 m (audience (view (ps_root st)) p)"
    using publish_eq [OF p3 n2] aud by simp_all
  have eq: "publish_store env p m t st = (if retains p m then st3 else jsdrvp_msg_free m st3)"
    unfolding publish_store_def keep Let_def st1_def [symmetric] v_def [symmetric] st2_def [symmetric]
    using p3 s0 by simp
  show "ps_log (publish_store env p m t st) =
           ps_log st @ (case tp_value t of Some x \<Rightarrow> [Ev_free (m_id x)] | None \<Rightarrow> [])
           @ deliveries 0 m (audience (view (ps_root st)) p) @ (if retains p m then [] else [Ev_free (m_id m)])"
    unfolding eq using st3(2) l1 by (simp add: st2_def jsdrvp_msg_free_def log_event_def)
  show "ps_root (publish_store env p m t st) =
           upd_at p (with_value (if retains p m then Some m else None)) (ps_root st)"
    unfolding eq using st3(1) r1 by (simp add: st2_def v_def same_store_def jsdrvp_msg_free_def log_event_def)
qed

lemma process_plain:
  "plain_topic (m_topic m) \<Longrightarrow> process_msg pow10 env m st = publish_normal pow10 env m st"
  by (simp add: process_msg_def plain_topic_def)


definition quiet :: env where
  "quiet l e = (0, [])"


section \<open>Subscribing\<close>

fun retained_msgs :: "subscriber_s \<Rightarrow> topic_t \<Rightarrow> msg_s list" where
  "retained_msgs s (Topic n v mt ss cs) =
     traverse_calls s (Topic n v mt ss cs) @ concat (map (retained_msgs s) cs)"

lemma call_all_eq:
  "same_store st (call_all env s ms st)
   \<and> ps_log (call_all env s ms st) = ps_log st @ List.map_filter (call_event s) ms"
proof (induction ms arbitrary: st)
  case (Cons m ms)
  have "same_store st (snd (subscriber_call env s m st))"
    "ps_log (snd (subscriber_call env s m st)) = ps_log st @ (case call_event s m of None \<Rightarrow> [] | Some e \<Rightarrow> [e])"
    using subscriber_call_eq by simp_all
  with Cons.IH [of "snd (subscriber_call env s m st)"] show ?case
    by (auto simp: map_filter_simps split: option.splits intro: same_store_trans)
qed (simp add: map_filter_simps)

lemma map_filter_append: "List.map_filter f (xs @ ys) = List.map_filter f xs @ List.map_filter f ys"
  by (induction xs) (auto simp: map_filter_simps split: option.splits)

lemma subscribe_traverse_eq:
  "same_store st (subscribe_traverse env t ts s st)
   \<and> ps_log (subscribe_traverse env t ts s st) = ps_log st @ List.map_filter (call_event s) (retained_msgs s t)"
  "same_store st (subscribe_traverse_list env cs ts s st)
   \<and> ps_log (subscribe_traverse_list env cs ts s st)
      = ps_log st @ List.map_filter (call_event s) (concat (map (retained_msgs s) cs))"
proof (induction env t ts s st and env cs ts s st rule: subscribe_traverse_subscribe_traverse_list.induct)
  case (1 env n v mt ss cs ts s st)
  let ?c = "traverse_calls s (Topic n v mt ss cs)"
  from "1.IH" call_all_eq [of st env s ?c] show ?case
    by (auto simp: map_filter_append intro: same_store_trans)
next
  case (3 env c cs ts s st)
  then show ?case by (auto simp: map_filter_append intro: same_store_trans)
qed (simp add: map_filter_simps)

text \<open>What a new subscriber is told about a topic with given parts.\<close>

definition told :: "subscriber_s \<Rightarrow> parts \<Rightarrow> msg_s set" where
  "told s P = (case P of (v, mt, ss) \<Rightarrow>
     {m. mt = Some m \<and> has_flag s JSDRV_SFLAG_METADATA_RSP}
     \<union> {m. v = Some m \<and> has_flag s JSDRV_SFLAG_PUB
            \<and> u_flags (m_value m) AND JSDRV_UNION_FLAG_RETAIN \<noteq> 0})"

lemma traverse_calls_told: "set (traverse_calls s t) = told s (parts_of t)"
  by (auto simp: traverse_calls_def told_def parts_of_def split: option.splits)

lemma subtopic_find_distinct:
  "distinct (map tp_name cs) \<Longrightarrow> c \<in> set cs \<Longrightarrow> subtopic_find cs (tp_name c) = Some c"
  by (induction cs) (auto simp: image_iff)

lemma retained_msgs_told: "tree_wf t \<Longrightarrow> set (retained_msgs s t) = (\<Union>q. told s (view t q))"
proof (induction t)
  case (Topic n v mt ss cs)
  let ?t = "Topic n v mt ss cs"
  have wf: "distinct (map tp_name cs)" "\<And>c. c \<in> set cs \<Longrightarrow> tree_wf c" using Topic.prems by auto
  have none: "told s (None, None, []) = {}" by (simp add: told_def)
  have "(\<Union>q. told s (view ?t q)) = told s (parts_of ?t) \<union> (\<Union>m q. told s (view ?t (m # q)))"
  proof -
    have "told s (view ?t q) \<subseteq> told s (parts_of ?t) \<union> (\<Union>m q. told s (view ?t (m # q)))" for q
      by (cases q) auto
    moreover have "told s (parts_of ?t) \<subseteq> (\<Union>q. told s (view ?t q))"
      by (metis UN_upper UNIV_I view_Nil)
    ultimately show ?thesis by blast
  qed
  also have "(\<Union>m q. told s (view ?t (m # q))) = (\<Union>c \<in> set cs. \<Union>q. told s (view c q))"
  proof (intro equalityI subsetI)
    fix x
    assume "x \<in> (\<Union>m q. told s (view ?t (m # q)))"
    then obtain m q where "x \<in> told s (view ?t (m # q))" by blast
    then obtain c where "subtopic_find cs m = Some c" "x \<in> told s (view c q)"
      using none by (auto simp: view_Cons split: option.splits)
    then show "x \<in> (\<Union>c \<in> set cs. \<Union>q. told s (view c q))" using subtopic_find_name by blast
  next
    fix x
    assume "x \<in> (\<Union>c \<in> set cs. \<Union>q. told s (view c q))"
    then obtain c q where "c \<in> set cs" "x \<in> told s (view c q)" by blast
    then have "x \<in> told s (view ?t (tp_name c # q))"
      using subtopic_find_distinct [OF wf(1)] by (simp add: view_Cons)
    then show "x \<in> (\<Union>m q. told s (view ?t (m # q)))" by blast
  qed
  also have "\<dots> = (\<Union>c \<in> set cs. set (retained_msgs s c))" using Topic.IH wf by auto
  finally show ?case by (simp add: traverse_calls_told)
qed

lemma view_below: "node_at t p = Some x \<Longrightarrow> view x q = view t (p @ q)"
  by (induction p arbitrary: t) (auto simp: view_Cons split: option.splits)

lemma node_at_wf: "tree_wf t \<Longrightarrow> node_at t p = Some x \<Longrightarrow> tree_wf x"
proof (induction p arbitrary: t)
  case (Cons n p)
  then obtain c where c: "subtopic_find (tp_children t) n = Some c" "node_at c p = Some x"
    by (auto split: option.splits)
  then show ?case
    using Cons.IH [OF _ c(2)] Cons.prems(1) subtopic_find_name [OF c(1)] by (simp add: tree_wf_iff [of t])
qed simp

text \<open>
  C14. Subscribing adds the subscriber at the end of the topic's list and changes no other
  topic. A subscriber that asks for retained values is called, before any later message,
  with exactly the metadata and the retained values of the topic and of every topic
  below it that its flags select, and with nothing else.
\<close>

theorem subscribe_correct:
  assumes "m_topic m = ''_/!sub''" and "m_source m = 0" and "m_payload m = P_sub topic s"
    and "u_type (m_value m) = U_BIN" and "path_of topic = Some p"
    and "topic \<notin> {'''', ''@'', ''@/'', JSDRV_MSG_DEVICE_ADD}"
    and "view (ps_root st) p = (v, mt, ss)" and "tree_wf (ps_root st)"
  shows "\<exists>st' ms. process_msg pow10 env m st = Inr st'
     \<and> view (ps_root st') = (view (ps_root st))(p := (v, mt, ss @ [s]))
     \<and> ps_log st' = ps_log st @ List.map_filter (call_event s) ms @ [Ev_free (m_id m)]
     \<and> set ms = (if has_flag s JSDRV_SFLAG_RETAIN then (\<Union>q. told s (view (ps_root st) (p @ q))) else {})"
proof -
  obtain r st1 where f: "topic_find st topic True = (r, st1)" by (cases "topic_find st topic True")
  note fc = topic_find_create [OF f]
  have r: "r = Some p" using fc(1) assms(5) by simp
  obtain t where t: "node_at (ps_root st1) p = Some t" using fc(4) r by auto
  have parts: "parts_of t = (v, mt, ss)" using node_view [OF t] fc(2) assms(7) by simp
  define g where "g = (\<lambda>t. with_subs (tp_subs t @ [s]) t)"
  have lg: "local_upd g" by (simp add: g_def)
  define st2 where "st2 = (subscriber_alloc st1)\<lparr>ps_root := upd_at p g (ps_root st1)\<rparr>"
  have st2: "ps_root st2 = upd_at p g (ps_root st1)" "ps_log st2 = ps_log st"
    using fc(5) by (simp_all add: st2_def subscriber_alloc_def)
      (metis pubsub_s.select_convs(4) pubsub_s.surjective pubsub_s.update_convs(1))+
  have view2: "view (ps_root st2) = (view (ps_root st))(p := (v, mt, ss @ [s]))"
    using view_upd_at [OF t lg] fc(2) parts by (simp add: st2 g_def parts_of_def)
  have n2: "node_at (ps_root st2) p = Some (g t)" using node_at_upd_at [OF lg t] by (simp add: st2)
  have wf2: "tree_wf (ps_root st2)" using upd_at_wf [OF lg fc(3) [OF assms(8)]] by (simp add: st2)
  have dev: "devices_on_sub env topic s st2 = Inr st2" using assms(6) by (simp add: devices_on_sub_def)
  have root1: "ps_root (subscriber_alloc st1) = ps_root st1" by (simp add: subscriber_alloc_def)
  define st3 where "st3 = (if has_flag s JSDRV_SFLAG_RETAIN then subscribe_traverse env (g t) topic s st2 else st2)"
  have sub: "subscribe env m st = Inr (0, st3)"
    using assms(3,4) f r dev n2 root1
    by (simp add: subscribe_def Let_def st3_def flip: st2_def g_def)
  define ms where "ms = (if has_flag s JSDRV_SFLAG_RETAIN then retained_msgs s (g t) else [])"
  have st3: "same_store st2 st3" "ps_log st3 = ps_log st2 @ List.map_filter (call_event s) ms"
    using subscribe_traverse_eq(1) [of st2 env "g t" topic s]
    by (simp_all add: st3_def ms_def map_filter_simps)
  have "set (retained_msgs s (g t)) = (\<Union>q. told s (view (ps_root st) (p @ q)))"
  proof -
    have "set (retained_msgs s (g t)) = (\<Union>q. told s (view (ps_root st2) (p @ q)))"
      using retained_msgs_told [OF node_at_wf [OF wf2 n2]] view_below [OF n2] by simp
    moreover have "told s (view (ps_root st2) q) = told s (view (ps_root st) q)" for q
      using view2 assms(7) by (auto simp: told_def split: if_splits)
    ultimately show ?thesis by simp
  qed
  then have "set ms = (if has_flag s JSDRV_SFLAG_RETAIN then (\<Union>q. told s (view (ps_root st) (p @ q))) else {})"
    unfolding ms_def by (cases "has_flag s JSDRV_SFLAG_RETAIN") auto
  moreover have "process_msg pow10 env m st = Inr (jsdrvp_msg_free m st3)"
    using assms(1,2) sub by (simp add: process_msg_def command_def)
  moreover have "ps_root (jsdrvp_msg_free m st3) = ps_root st2"
    "ps_log (jsdrvp_msg_free m st3) = ps_log st @ List.map_filter (call_event s) ms @ [Ev_free (m_id m)]"
    using st3 st2(2) by (simp_all add: jsdrvp_msg_free_def log_event_def same_store_def)
  ultimately show ?thesis using view2 by auto
qed

definition demo_sub :: subscriber_s where
  "demo_sub = \<lparr>sb_fn = 1, sb_user = 0, sb_internal = 0, sb_flags = 3\<rparr>"

definition demo_msg :: "string \<Rightarrow> msg_s" where
  "demo_msg cmd = \<lparr>m_id = 9, m_topic = cmd, m_source = 0, m_value = union_of U_BIN 0,
     m_extra = no_subscriber, m_payload = P_sub ''a'' demo_sub\<rparr>"

theorem subscribe_correct_witness:
  "\<exists>st'. process_msg id quiet (demo_msg ''_/!sub'') jsdrv_pubsub_initialize = Inr st'
     \<and> view (ps_root st') [''a''] = (None, None, [demo_sub])"
proof -
  have p: "path_of ''a'' = Some [''a'']" by code_simp
  have v: "view (ps_root jsdrv_pubsub_initialize) q = (None, None, [])" for q
    by (simp add: jsdrv_pubsub_initialize_def view_alloc)
  have w: "tree_wf (ps_root jsdrv_pubsub_initialize)"
    by (simp add: jsdrv_pubsub_initialize_def topic_alloc_def)
  show ?thesis
    using subscribe_correct [of "demo_msg ''_/!sub''" "''a''" demo_sub "[''a'']"
        jsdrv_pubsub_initialize None None "[]" id quiet] p v w
    by (auto simp: demo_msg_def union_of_def JSDRV_MSG_DEVICE_ADD_def)
qed

section \<open>Unsubscribing\<close>

definition drop_same :: "subscriber_s \<Rightarrow> parts \<Rightarrow> parts" where
  "drop_same s P = (case P of (v, mt, ss) \<Rightarrow> (v, mt, filter (\<lambda>x. \<not> is_same_subscriber x s) ss))"

lemma unsubscribe_traverse_name: "tp_name (snd (unsubscribe_traverse s t)) = tp_name t"
  by (cases t) (simp split: prod.split)

lemma unsubscribe_traverse_list_map:
  "snd (unsubscribe_traverse_list s cs) = map (\<lambda>c. snd (unsubscribe_traverse s c)) cs"
  by (induction cs) (auto split: prod.splits)

lemma unsubscribe_traverse_sel:
  "parts_of (snd (unsubscribe_traverse s t)) = drop_same s (parts_of t)"
  "tp_children (snd (unsubscribe_traverse s t)) = map (\<lambda>c. snd (unsubscribe_traverse s c)) (tp_children t)"
  by (cases t; auto simp: parts_of_def drop_same_def simp flip: unsubscribe_traverse_list_map split: prod.split)+

lemma subtopic_find_map:
  "(\<And>c. tp_name (f c) = tp_name c) \<Longrightarrow> subtopic_find (map f cs) n = map_option f (subtopic_find cs n)"
  by (induction cs) auto

lemma unsubscribe_traverse_view:
  "view (snd (unsubscribe_traverse s t)) q = drop_same s (view t q)"
proof (induction q arbitrary: t)
  case Nil
  then show ?case by (simp add: unsubscribe_traverse_sel)
next
  case (Cons n q)
  then show ?case
    by (simp add: view_Cons unsubscribe_traverse_sel subtopic_find_map unsubscribe_traverse_name drop_same_def
        split: option.split)
qed

text \<open>
  C15. Unsubscribing removes every entry of the subscriber from the topic, and its
  all-topics form from every topic; both keep the other subscribers and their order,
  the values and the metadata. The return code of the first tells whether there was an
  entry.
\<close>

theorem unsubscribe_correct:
  assumes "m_payload m = P_sub topic s" and "path_of topic = Some p"
    and "view (ps_root st) p = (v, mt, ss)"
  shows "(\<exists>st'. unsubscribe m st =
            Inr (if \<exists>x \<in> set ss. is_same_subscriber x s then 0 else 16, st')
            \<and> view (ps_root st') = (view (ps_root st))(p := drop_same s (v, mt, ss))
            \<and> ps_log st' = ps_log st)
         \<and> (\<exists>st'. unsubscribe_from_all m st = Inr st'
            \<and> view (ps_root st') = (\<lambda>q. drop_same s (view (ps_root st) q))
            \<and> ps_log st' = ps_log st)"
proof
  obtain r st1 where f: "topic_find st topic True = (r, st1)" by (cases "topic_find st topic True")
  note fc = topic_find_create [OF f]
  have r: "r = Some p" using fc(1) assms(2) by simp
  obtain t where t: "node_at (ps_root st1) p = Some t" using fc(4) r by auto
  have parts: "parts_of t = (v, mt, ss)" using node_view [OF t] fc(2) assms(3) by simp
  have log1: "ps_log st1 = ps_log st"
    using fc(5) by (metis pubsub_s.select_convs(4) pubsub_s.surjective pubsub_s.update_convs(1))
  have "view (upd_at p (keep_subs s) (ps_root st1)) = (view (ps_root st))(p := drop_same s (v, mt, ss))"
    using view_upd_at [OF t, of "keep_subs s"] fc(2) parts
    by (simp add: keep_subs_def parts_of_def drop_same_def)
  moreover have "(same_subs s t \<noteq> 0) = (\<exists>x \<in> set ss. is_same_subscriber x s)"
    using parts by (auto simp: same_subs_def parts_of_def filter_empty_conv)
  ultimately show "\<exists>st'. unsubscribe m st =
      Inr (if \<exists>x \<in> set ss. is_same_subscriber x s then 0 else 16, st')
      \<and> view (ps_root st') = (view (ps_root st))(p := drop_same s (v, mt, ss)) \<and> ps_log st' = ps_log st"
    using assms(1) f r t log1 by (simp add: unsubscribe_def)
  show "\<exists>st'. unsubscribe_from_all m st = Inr st'
      \<and> view (ps_root st') = (\<lambda>q. drop_same s (view (ps_root st) q)) \<and> ps_log st' = ps_log st"
    using assms(1) unsubscribe_traverse_view [of s "ps_root st"]
    by (auto simp: unsubscribe_from_all_def split: prod.splits)
qed

theorem unsubscribe_correct_witness:
  "\<exists>st'. unsubscribe (demo_msg ''_/!unsub'') jsdrv_pubsub_initialize = Inr (16, st')"
proof -
  have p: "path_of ''a'' = Some [''a'']" by code_simp
  have v: "view (ps_root jsdrv_pubsub_initialize) q = (None, None, [])" for q
    by (simp add: jsdrv_pubsub_initialize_def view_alloc)
  show ?thesis
    using unsubscribe_correct [of "demo_msg ''_/!unsub''" "''a''" demo_sub "[''a'']"
        jsdrv_pubsub_initialize None None "[]"] p v
    by (auto simp: demo_msg_def)
qed

section \<open>Ownership of messages\<close>

text \<open>
  The messages a tree holds, and the messages released so far. \<open>evolves\<close> relates two states:
  the tree stays well formed, what is held or released grows by exactly the messages \<open>A\<close>
  taken in and those allocated in between, and pending messages come only from
  subscriber functions.
\<close>

definition freed :: "event list \<Rightarrow> nat multiset" where
  "freed l = mset (List.map_filter (\<lambda>e. case e of Ev_free i \<Rightarrow> Some i | _ \<Rightarrow> None) l)"

definition own :: "topic_t \<Rightarrow> nat multiset" where
  "own t = mset (map m_id (case tp_value t of Some m \<Rightarrow> [m] | None \<Rightarrow> []))
         + mset (map m_id (case tp_meta t of Some m \<Rightarrow> [m] | None \<Rightarrow> []))"

definition held :: "topic_t \<Rightarrow> nat multiset" where
  "held t = mset (topic_free t)"

definition acc :: "pubsub_s \<Rightarrow> nat multiset" where
  "acc st = held (ps_root st) + freed (ps_log st)"

definition silent :: "env \<Rightarrow> bool" where
  "silent env \<longleftrightarrow> (\<forall>l e. snd (env l e) = [])"

definition evolves :: "env \<Rightarrow> pubsub_s \<Rightarrow> pubsub_s \<Rightarrow> nat multiset \<Rightarrow> bool" where
  "evolves env st st' A \<longleftrightarrow> (tree_wf (ps_root st) \<longrightarrow> tree_wf (ps_root st'))
     \<and> ps_next st \<le> ps_next st' \<and> acc st' = acc st + A + mset [ps_next st..<ps_next st']
     \<and> (silent env \<longrightarrow> ps_pend st' = ps_pend st)"

lemma freed_append [simp]: "freed (l @ k) = freed l + freed k"
  by (simp add: freed_def map_filter_append)

lemma freed_Nil [simp]: "freed [] = {#}"
  by (simp add: freed_def map_filter_simps)

lemma freed_Cons [simp]: "freed (e # l) = (case e of Ev_free i \<Rightarrow> {#i#} | _ \<Rightarrow> {#}) + freed l"
  by (simp add: freed_def map_filter_simps split: event.splits)

lemma evolves_refl [simp]: "evolves env st st {#}"
  by (simp add: evolves_def)

lemma evolves_trans:
  assumes "evolves env a b A" and "evolves env b c B"
  shows "evolves env a c (A + B)"
proof -
  have "mset [ps_next a..<ps_next c] = mset [ps_next a..<ps_next b] + mset [ps_next b..<ps_next c]"
    using assms by (metis evolves_def mset_append upt_add_eq_append le_add_diff_inverse)
  with assms show ?thesis by (auto simp: evolves_def)
qed

lemma evolves_trans0: "evolves env a b A \<Longrightarrow> evolves env b c {#} \<Longrightarrow> evolves env a c A"
  using evolves_trans by fastforce

lemma evolves_trans1: "evolves env a b {#} \<Longrightarrow> evolves env b c A \<Longrightarrow> evolves env a c A"
  using evolves_trans by fastforce

lemma topic_free_list_concat: "topic_free_list cs = concat (map topic_free cs)"
  by (induction cs) auto

lemma held_eq: "held t = own t + sum_list (map held (tp_children t))"
proof (cases t)
  case (Topic n v mt ss cs)
  have "mset (concat (map topic_free cs)) = sum_list (map held cs)"
    by (induction cs) (simp_all add: held_def)
  with Topic show ?thesis
    by (auto simp: held_def own_def topic_free_list_concat split: option.splits)
qed

lemma own_with [simp]:
  "own (with_children cs t) = own t" "own (with_subs ss t) = own t"
  by (simp_all add: own_def)

lemma sum_child_upd:
  "subtopic_find cs n = Some c \<Longrightarrow>
   sum_list (map held (child_upd n f cs)) + held c = sum_list (map held cs) + held (f c)"
  by (induction n f cs rule: child_upd.induct) (auto split: if_splits simp: ac_simps)

lemma cancel_middle:
  fixes a b h k u v :: "nat multiset"
  assumes "a + h = b + k" and "k + u = h + v"
  shows "a + u = b + v"
proof -
  have "(a + u) + h = (a + h) + u" by (simp add: ac_simps)
  also have "\<dots> = b + (k + u)" using assms(1) by (simp add: ac_simps)
  also have "\<dots> = (b + v) + h" using assms(2) by (simp add: ac_simps)
  finally show ?thesis by (rule add_right_imp_eq)
qed

lemma held_upd_at:
  "local_upd f \<Longrightarrow> node_at t p = Some x \<Longrightarrow> held (upd_at p f t) + own x = held t + own (f x)"
proof (induction p arbitrary: t)
  case Nil
  then show ?case using held_eq [of x] held_eq [of "f x"] by (simp add: local_upd_def)
next
  case (Cons n p)
  then obtain c where c: "subtopic_find (tp_children t) n = Some c" "node_at c p = Some x"
    by (auto split: option.splits)
  have "held (upd_at (n # p) f t) + held c = held t + held (upd_at p f c)"
    using sum_child_upd [OF c(1), of "upd_at p f"] by (simp add: held_eq [of t] held_eq [of "with_children _ _"])
  then show ?case using Cons.IH [OF Cons.prems(1) c(2)] by (rule cancel_middle)
qed

lemma held_topic_find_from: "held (snd (topic_find_from create t c)) = held t"
proof (induction "length c" arbitrary: t c rule: less_induct)
  case less
  show ?case
  proof (rule walk_cases [where P = "\<lambda>t c res. held (snd res) = held t"], simp_all)
    fix name r p s'
    let ?x = "case subtopic_find (tp_children t) name of Some x \<Rightarrow> x | None \<Rightarrow> topic_alloc name"
    assume h: "length r < length c" "topic_find_from create ?x r = (p, s')"
    have s': "held s' = held ?x" using less [OF h(1), of ?x] h(2) by simp
    show "held (with_children (case subtopic_find (tp_children t) name of
        Some x \<Rightarrow> child_upd name (\<lambda>_. s') (tp_children t) | None \<Rightarrow> tp_children t @ [s']) t) = held t"
    proof (cases "subtopic_find (tp_children t) name")
      case None
      have "held (topic_alloc name) = {#}" by (simp add: held_def topic_alloc_def)
      with None s' show ?thesis
        by (simp add: held_eq [of t] held_eq [of "with_children _ _"])
    next
      case (Some y)
      then show ?thesis using s' sum_child_upd [OF Some, of "\<lambda>_. s'"]
        by (simp add: held_eq [of t] held_eq [of "with_children _ _"])
    qed
  qed
qed

lemma held_unsubscribe_traverse:
  "held (snd (unsubscribe_traverse s t)) = held t"
proof (induction t)
  case (Topic n v mt ss cs)
  let ?t = "Topic n v mt ss cs"
  have "own (snd (unsubscribe_traverse s ?t)) = own ?t"
    using unsubscribe_traverse_sel(1) [of s ?t] by (simp add: own_def parts_of_def drop_same_def)
  moreover have "map held (map (\<lambda>c. snd (unsubscribe_traverse s c)) cs) = map held cs"
    using Topic by simp
  ultimately show ?case
    using unsubscribe_traverse_sel(2) [of s ?t]
    by (simp add: held_eq [of ?t] held_eq [of "snd (unsubscribe_traverse s ?t)"]
        del: map_map unsubscribe_traverse.simps)
qed

lemma unsubscribe_traverse_wf: "tree_wf t \<Longrightarrow> tree_wf (snd (unsubscribe_traverse s t))"
proof (induction t)
  case (Topic n v mt ss cs)
  then show ?case
    using unsubscribe_traverse_sel(2) [of s "Topic n v mt ss cs"]
    by (auto simp: tree_wf_iff [of "snd (unsubscribe_traverse s (Topic n v mt ss cs))"]
        unsubscribe_traverse_name comp_def simp del: unsubscribe_traverse.simps)
qed

lemma swap_evolves:
  assumes n: "node_at (ps_root st) p = Some t" and f: "local_upd f" and A: "own (f t) + F = own t + A"
    and st': "ps_root st' = upd_at p f (ps_root st)" "freed (ps_log st') = freed (ps_log st) + F"
      "ps_next st' = ps_next st" "ps_pend st' = ps_pend st"
  shows "evolves env st st' A"
proof -
  have "(held (upd_at p f (ps_root st)) + F) + own t = (held (ps_root st) + A) + own t"
    using held_upd_at [OF f n] A by (metis (no_types, lifting) add.assoc add.commute)
  then have "held (upd_at p f (ps_root st)) + F = held (ps_root st) + A"
    by (rule add_right_imp_eq)
  then have "acc st' = acc st + A"
    using st' by (simp add: acc_def ac_simps)
  with st' upd_at_wf [OF f] show ?thesis by (simp add: evolves_def)
qed

lemma upd_evolves:
  "node_at (ps_root st) p = Some t \<Longrightarrow> local_upd f \<Longrightarrow> own (f t) = own t \<Longrightarrow>
   evolves env st (st\<lparr>ps_root := upd_at p f (ps_root st)\<rparr>) {#}"
  by (rule swap_evolves [where F = "{#}"]) auto

lemma free_evolves: "evolves env st (jsdrvp_msg_free m st) {#m_id m#}"
  by (simp add: evolves_def jsdrvp_msg_free_def log_event_def acc_def)

lemma evolves_free: "evolves env st st' {#} \<Longrightarrow> evolves env st (jsdrvp_msg_free m st') {#m_id m#}"
  using evolves_trans1 free_evolves by blast

lemma alloc_evolves:
  assumes "evolves env (st\<lparr>ps_next := ps_next st + 1\<rparr>) st' {#ps_next st#}"
  shows "evolves env st st' {#}"
proof -
  have n: "ps_next st < ps_next st'" using assms by (simp add: evolves_def)
  then show ?thesis using assms by (simp add: evolves_def acc_def upt_conv_Cons)
qed

lemma topic_find_evolves: "topic_find st c b = (q, st') \<Longrightarrow> evolves env st st' {#}"
  using held_topic_find_from [of b "ps_root st" c] topic_find_from_wf [of "ps_root st" b c]
  by (auto simp: topic_find_def evolves_def acc_def split: prod.splits)

lemma run_event_evolves:
  "(\<And>i. e \<noteq> Ev_free i) \<Longrightarrow> evolves env st (snd (run_event env e st)) {#}"
  by (cases e) (auto simp: run_event_def evolves_def log_event_def acc_def silent_def split_beta)

lemma subscriber_call_evolves: "evolves env st (snd (subscriber_call env s m st)) {#}"
  by (auto simp: subscriber_call_def call_event_def intro!: run_event_evolves
      split: option.splits if_splits payload_u.splits)

lemma publish_subs_evolves: "evolves env st (snd (publish_subs env flags m ss status st)) {#}"
proof (induction ss arbitrary: status st)
  case (Cons s ss)
  have "evolves env st (snd (subscriber_call env s m st)) {#}" by (rule subscriber_call_evolves)
  then show ?case using Cons
    by (auto split: prod.splits intro: evolves_trans0)
qed simp

lemma publish_evolves: "evolves env st (snd (publish env path m flags st)) {#}"
  by (simp add: publish_def publish_subs_evolves)

lemma local_return_code_evolves: "evolves env st (local_return_code env topic rc st) {#}"
proof (cases "topic_find st topic False")
  case (Pair q st1)
  have f: "evolves env st st1 {#}" by (rule topic_find_evolves [OF Pair])
  show ?thesis
  proof (cases q)
    case (Some path)
    let ?m = "\<lparr>m_id = ps_next st1, m_topic = take 63 (topic @ [CHR 0x23]), m_source = 0,
      m_value = jsdrv_union_i32 rc, m_extra = no_subscriber, m_payload = P_none\<rparr>"
    have "evolves env (st1\<lparr>ps_next := ps_next st1 + 1\<rparr>)
        (jsdrvp_msg_free ?m (snd (publish env path ?m JSDRV_SFLAG_RETURN_CODE (st1\<lparr>ps_next := ps_next st1 + 1\<rparr>))))
        {#m_id ?m#}"
      by (rule evolves_free [OF publish_evolves])
    then have "evolves env st1 (local_return_code env topic rc st) {#}"
      using Pair Some alloc_evolves [of env st1 "local_return_code env topic rc st"]
      by (simp add: local_return_code_def jsdrvp_msg_alloc_i32_def Let_def)
    with f show ?thesis by (rule evolves_trans0)
  qed (use Pair f in \<open>simp add: local_return_code_def\<close>)
qed

lemma publish_return_code_evolves:
  "publish_return_code env m st = Inr st' \<Longrightarrow> evolves env st st' {#m_id m#}"
proof -
  assume r: "publish_return_code env m st = Inr st'"
  let ?tp = "if last (m_topic m) \<in> {CHR ''%'', CHR ''$'', CHR ''&'', CHR ''?'', CHR 0x23}
                  then butlast (m_topic m) else m_topic m"
  obtain q st1 where q: "topic_find st ?tp True = (q, st1)" by fastforce
  have f: "evolves env st st1 {#}" by (rule topic_find_evolves [OF q])
  have "st' = jsdrvp_msg_free m st1 \<or> (\<exists>path m'. st' =
      jsdrvp_msg_free m (snd (publish env path m' JSDRV_SFLAG_RETURN_CODE st1)))"
    using r q by (auto simp: publish_return_code_def Let_def split: if_splits option.splits)
  then show ?thesis using evolves_free evolves_trans0 [OF f publish_evolves] f by blast
qed

lemma publish_return_code_i32_evolves:
  assumes "publish_return_code_i32 env topic rc st = Inr st'"
  shows "evolves env st st' {#}"
  using assms
  by (auto simp: publish_return_code_i32_def jsdrvp_msg_alloc_i32_def
      dest!: publish_return_code_evolves intro: alloc_evolves)

lemma own_with_value:
  "own (with_value (Some m) t) + (case tp_value t of Some x \<Rightarrow> {#m_id x#} | None \<Rightarrow> {#}) = own t + {#m_id m#}"
  "own (with_value None t) + (case tp_value t of Some x \<Rightarrow> {#m_id x#} | None \<Rightarrow> {#}) = own t"
  "own (with_meta (Some m) t) + (case tp_meta t of Some x \<Rightarrow> {#m_id x#} | None \<Rightarrow> {#}) = own t + {#m_id m#}"
  by (auto simp: own_def split: option.splits)

definition free_old :: "msg_s option \<Rightarrow> pubsub_s \<Rightarrow> pubsub_s" where
  "free_old old st = (case old of Some x \<Rightarrow> jsdrvp_msg_free x st | None \<Rightarrow> st)"

lemma free_old_sel [simp]:
  "ps_root (free_old old st) = ps_root st" "ps_next (free_old old st) = ps_next st"
  "ps_pend (free_old old st) = ps_pend st"
  "freed (ps_log (free_old old st)) = freed (ps_log st) + (case old of Some x \<Rightarrow> {#m_id x#} | None \<Rightarrow> {#})"
  by (simp_all add: free_old_def jsdrvp_msg_free_def log_event_def split: option.splits)

lemma replace_evolves:
  assumes "node_at (ps_root st) p = Some t"
  shows "evolves env st ((free_old (tp_value t) st)\<lparr>ps_root := upd_at p (with_value (Some m)) (ps_root st)\<rparr>) {#m_id m#}"
    and "evolves env st ((free_old (tp_value t) st)\<lparr>ps_root := upd_at p (with_value None) (ps_root st)\<rparr>) {#}"
    and "evolves env st ((free_old (tp_meta t) st)\<lparr>ps_root := upd_at p (with_meta (Some m)) (ps_root st)\<rparr>) {#m_id m#}"
  subgoal
    by (rule swap_evolves [OF assms, where f = "with_value (Some m)"
        and F = "case tp_value t of Some x \<Rightarrow> {#m_id x#} | None \<Rightarrow> {#}"],
      simp_all only: own_with_value; simp)
  subgoal
    by (rule swap_evolves [OF assms, where f = "with_value None"
        and F = "case tp_value t of Some x \<Rightarrow> {#m_id x#} | None \<Rightarrow> {#}"],
      simp_all only: own_with_value; simp)
  subgoal
    by (rule swap_evolves [OF assms, where f = "with_meta (Some m)"
        and F = "case tp_meta t of Some x \<Rightarrow> {#m_id x#} | None \<Rightarrow> {#}"],
      simp_all only: own_with_value; simp)
  done

lemma publish_store_evolves:
  assumes n: "node_at (ps_root st) p = Some t"
  shows "evolves env st (publish_store env p m t st) {#m_id m#}"
proof -
  let ?keep = "u_flags (m_value m) AND JSDRV_UNION_FLAG_RETAIN \<noteq> 0
    \<and> (tp_name t = [] \<or> hd (tp_name t) \<noteq> CHR ''!'')"
  let ?s = "(free_old (tp_value t) st)\<lparr>ps_root := upd_at p (with_value (if ?keep then Some m else None)) (ps_root st)\<rparr>"
  have root: "ps_root (case tp_value t of Some old \<Rightarrow> jsdrvp_msg_free old st | None \<Rightarrow> st) = ps_root st"
    using free_old_sel(1) [of "tp_value t" st] by (simp add: free_old_def)
  obtain status s2 where p: "publish env p m 0 ?s = (status, s2)" by fastforce
  let ?s3 = "if status \<noteq> 0 then local_return_code env (m_topic m) (uint status) s2 else s2"
  have s3: "evolves env ?s ?s3 {#}"
    using publish_evolves [of env ?s p m 0] evolves_trans0 [OF _ local_return_code_evolves] p by auto
  have eq: "publish_store env p m t st = (if ?keep then ?s3 else jsdrvp_msg_free m ?s3)"
    using p by (simp add: publish_store_def root Let_def flip: free_old_def split del: if_split)
  show ?thesis
  proof (cases ?keep)
    case True
    then have "evolves env st ?s {#m_id m#}" using replace_evolves(1) [OF n] by simp
    then show ?thesis using evolves_trans0 [OF _ s3] eq True by simp
  next
    case False
    then have "evolves env st ?s {#}" using replace_evolves(2) [OF n] by (simp only: if_False)
    then show ?thesis using evolves_free [OF evolves_trans0 [OF _ s3]] eq False by simp
  qed
qed

lemma publish_meta_evolves:
  assumes r: "publish_meta env m st = Inr st'"
  shows "evolves env st st' {#m_id m#}"
proof -
  obtain q st1 where q: "topic_find st (butlast (take 63 (m_topic m))) True = (q, st1)" by fastforce
  have f: "evolves env st st1 {#}" by (rule topic_find_evolves [OF q])
  show ?thesis
  proof (cases q)
    case None
    then show ?thesis using r q evolves_free [OF f] by (auto simp: publish_meta_def)
  next
    case (Some path)
    then obtain t where t: "node_at (ps_root st1) path = Some t" using topic_find_create(4) [OF q] by blast
    have root: "ps_root (free_old (tp_meta t) st1) = ps_root st1" by simp
    let ?sz = "if u_size (m_value m) = 0
               then cbind (mem_strlen (u_ptr (m_value m))) (\<lambda>n. Inr (of_nat (n + 1) :: u32))
               else Inr (u_size (m_value m))"
    obtain sz where sz: "?sz = Inr sz" using r q Some by (cases ?sz) (auto simp: publish_meta_def)
    let ?m = "m\<lparr>m_value := (m_value m)\<lparr>u_size := sz\<rparr>\<rparr>"
    have "st' = snd (publish env path ?m JSDRV_SFLAG_METADATA_RSP
       ((free_old (tp_meta t) st1)\<lparr>ps_root := upd_at path (with_meta (Some ?m)) (ps_root st1)\<rparr>))"
      using r q Some t root sz by (simp add: publish_meta_def Let_def flip: free_old_def split del: if_split)
    then show ?thesis
      using evolves_trans1 [OF f evolves_trans0 [OF replace_evolves(3) [OF t, of env ?m] publish_evolves]] by simp
  qed
qed

lemma publish_normal_evolves:
  assumes r: "publish_normal pow10 env m st = Inr st'"
  shows "evolves env st st' {#m_id m#}"
proof -
  obtain q st1 where q: "topic_find st (m_topic m) True = (q, st1)" by fastforce
  have f: "evolves env st st1 {#}" by (rule topic_find_evolves [OF q])
  have ret: "evolves env st (jsdrvp_msg_free m' (local_return_code env tp rc st1)) {#m_id m'#}" for m' tp rc
    by (rule evolves_free [OF evolves_trans0 [OF f local_return_code_evolves]])
  show ?thesis
  proof (cases q)
    case None
    then show ?thesis using r q evolves_free [OF f] by (auto simp: publish_normal_def)
  next
    case (Some path)
    then obtain t where t: "node_at (ps_root st1) path = Some t" using topic_find_create(4) [OF q] by blast
    have store: "evolves env st (publish_store env path m' t st1) {#m_id m'#}" for m'
      by (rule evolves_trans1 [OF f publish_store_evolves [OF t]])
    let ?chk = "case tp_meta t of
        None \<Rightarrow> Inr (0, Some (m_value m))
      | Some meta \<Rightarrow> jsdrv_meta_value pow10 (str_of (m_value meta)) (Some (m_value m))"
    obtain rc v where c: "?chk = Inr (rc, v)"
      using r q Some t by (cases ?chk) (auto simp: publish_normal_def)
    let ?m = "m\<lparr>m_value := (case v of Some v \<Rightarrow> v | None \<Rightarrow> m_value m)\<rparr>"
    have "(\<exists>tp rc. st' = jsdrvp_msg_free ?m (local_return_code env tp rc st1))
        \<or> st' = publish_store env path ?m t st1"
      using r q Some t c by (simp add: publish_normal_def Let_def) (auto simp: cbind_eq_Inr split: if_splits)
    then show ?thesis using ret [of ?m] store [of ?m] by auto
  qed
qed

lemma call_all_evolves: "evolves env st (call_all env s ms st) {#}"
  by (induction ms arbitrary: st) (auto intro: evolves_trans0 [OF subscriber_call_evolves])

lemma subscribe_traverse_evolves:
  "evolves env st (subscribe_traverse env t ts s st) {#}"
  "evolves env st (subscribe_traverse_list env cs ts s st) {#}"
proof (induction env t ts s st and env cs ts s st rule: subscribe_traverse_subscribe_traverse_list.induct)
  case (1 env n v mt ss cs topic_str s st)
  then show ?case using evolves_trans0 [OF call_all_evolves] by simp
next
  case (3 env c cs topic_str s st)
  then show ?case
    using evolves_trans0 [of env st "subscribe_traverse env c (topic_str_append topic_str (tp_name c)) s st" "{#}"]
    by (simp del: topic_str_append.simps)
qed simp

lemma run_all_evolves: "(\<And>e i. e \<in> set es \<Longrightarrow> e \<noteq> Ev_free i) \<Longrightarrow> evolves env st (run_all env es st) {#}"
proof (induction es arbitrary: st)
  case (Cons e es)
  have "evolves env st (snd (run_event env e st)) {#}"
    using Cons.prems by (intro run_event_evolves) simp
  moreover have "evolves env (snd (run_event env e st)) (run_all env es (snd (run_event env e st))) {#}"
    using Cons by simp
  ultimately show ?case using evolves_trans0 by simp
qed simp

lemma devices_on_sub_evolves: "devices_on_sub env topic s st = Inr st' \<Longrightarrow> evolves env st st' {#}"
  by (auto simp: devices_on_sub_def cbind_eq_Inr split: if_splits option.splits intro!: run_all_evolves)

lemma sub_free_evolves [simp]: "evolves env st (st'\<lparr>ps_sub_free := k\<rparr>) A = evolves env st st' A"
  by (simp add: evolves_def acc_def)

lemma subscriber_alloc_evolves [simp]: "evolves env st (subscriber_alloc st') A = evolves env st st' A"
  by (simp add: subscriber_alloc_def)

lemma subscribe_evolves:
  assumes r: "subscribe env m st = Inr (rc, st')"
  shows "evolves env st st' {#}"
proof -
  obtain topic s where p: "m_payload m = P_sub topic s" and u: "u_type (m_value m) = U_BIN"
    using r by (auto simp: subscribe_def jsdrv_assert_def split: payload_u.splits if_splits)
  obtain q st1 where q: "topic_find st topic True = (q, st1)" by fastforce
  have f: "evolves env st (subscriber_alloc st1) {#}" using topic_find_evolves [OF q] by simp
  show ?thesis
  proof (cases q)
    case None
    then show ?thesis using r p u q topic_find_evolves [OF q] by (auto simp: subscribe_def jsdrv_assert_def)
  next
    case (Some path)
    then obtain t where t: "node_at (ps_root st1) path = Some t" using topic_find_create(4) [OF q] by blast
    have t': "node_at (ps_root (subscriber_alloc st1)) path = Some t"
      using t by (simp add: subscriber_alloc_def)
    let ?s = "(subscriber_alloc st1)\<lparr>ps_root :=
      upd_at path (\<lambda>t. with_subs (tp_subs t @ [s]) t) (ps_root (subscriber_alloc st1))\<rparr>"
    have s: "evolves env st ?s {#}" by (rule evolves_trans0 [OF f upd_evolves [OF t']]) simp_all
    have "st' = ?s \<or> (\<exists>st2 t. devices_on_sub env topic s ?s = Inr st2
        \<and> st' = subscribe_traverse env t topic s st2)"
      using r p u q Some by (auto simp: subscribe_def jsdrv_assert_def cbind_eq_Inr Let_def split: if_splits option.splits)
    then show ?thesis
      using s evolves_trans0 [OF s evolves_trans0 [OF devices_on_sub_evolves subscribe_traverse_evolves(1)]] by auto
  qed
qed

lemma unsubscribe_evolves:
  assumes r: "unsubscribe m st = Inr (rc, st')"
  shows "evolves env st st' {#}"
proof -
  obtain topic s where p: "m_payload m = P_sub topic s"
    using r by (auto simp: unsubscribe_def split: payload_u.splits)
  obtain q st1 where q: "topic_find st topic True = (q, st1)" by fastforce
  have f: "evolves env st st1 {#}" by (rule topic_find_evolves [OF q])
  have "st' = st1 \<or> (\<exists>path t k. node_at (ps_root st1) path = Some t
      \<and> st' = st1\<lparr>ps_root := upd_at path (keep_subs s) (ps_root st1), ps_sub_free := k\<rparr>)"
    using r p q by (auto simp: unsubscribe_def split: option.splits)
  moreover have "evolves env st (st1\<lparr>ps_root := upd_at path (keep_subs s) (ps_root st1)\<rparr>) {#}"
    if "node_at (ps_root st1) path = Some t" for path t
    by (rule evolves_trans0 [OF f upd_evolves [OF that]]) (simp_all add: keep_subs_def)
  ultimately show ?thesis using f by auto
qed

lemma unsubscribe_from_all_evolves: "unsubscribe_from_all m st = Inr st' \<Longrightarrow> evolves env st st' {#}"
  using held_unsubscribe_traverse [of _ "ps_root st"] unsubscribe_traverse_wf [of "ps_root st"]
  by (auto simp: unsubscribe_from_all_def evolves_def acc_def split_beta split: payload_u.splits)

lemma query_evolves: "query m st = Inr (rc, st') \<Longrightarrow> evolves env st st' {#}"
  by (auto simp: query_def Let_def cbind_eq_Inr evolves_def acc_def log_event_def
      split: payload_u.splits if_splits)

lemma command_evolves: "command env m st = Inr (rc, st') \<Longrightarrow> evolves env st st' {#}"
  unfolding command_def
  by (auto simp: cbind_eq_Inr split: if_splits
      dest: query_evolves subscribe_evolves unsubscribe_evolves unsubscribe_from_all_evolves)

lemma process_msg_evolves:
  assumes r: "process_msg pow10 env m st = Inr st'"
  shows "evolves env st st' {#m_id m#}"
proof -
  have ret: "evolves env st (jsdrvp_msg_free m s2) {#m_id m#}"
    if "evolves env st s1 {#}"
      "(if m_source m \<noteq> 0 then publish_return_code_i32 env t rc s1 else Inr s1) = Inr s2" for s1 s2 t rc
    using that evolves_free evolves_trans0 [OF that(1) publish_return_code_i32_evolves]
    by (auto split: if_splits)
  consider (cmd) "m_topic m \<noteq> []" "hd (m_topic m) = CHR ''_''" | (nil) "m_topic m = []"
    | (data) "m_topic m \<noteq> []" "hd (m_topic m) \<noteq> CHR ''_''" by blast
  then show ?thesis
  proof cases
    case cmd
    then obtain rc s1 s2 where "command env m st = Inr (rc, s1)"
      "(if m_source m \<noteq> 0 then publish_return_code_i32 env (m_topic m) rc s1 else Inr s1) = Inr s2"
      "st' = jsdrvp_msg_free m s2"
      using r by (auto simp: process_msg_def cbind_eq_Inr simp del: if_split split del: if_split)
    then show ?thesis using ret [OF command_evolves] by blast
  next
    case nil
    then obtain s2 where
      "(if m_source m \<noteq> 0 then publish_return_code_i32 env (m_topic m) (ec NOT_SUPPORTED) st else Inr st) = Inr s2"
      "st' = jsdrvp_msg_free m s2"
      using r by (auto simp: process_msg_def cbind_eq_Inr split del: if_split)
    then show ?thesis using ret [OF evolves_refl] by blast
  next
    case data
    then show ?thesis
      using r publish_meta_evolves publish_return_code_evolves publish_normal_evolves
      by (auto simp: process_msg_def split: if_splits)
  qed
qed

section \<open>The processing loop\<close>

lemma nf_device_names [simp]: "nf (device_names src dst)"
  by (induction src dst rule: device_names.induct) auto

lemma nf_query_value_copy [simp]: "nf (query_value_copy src dst)"
  by (auto simp: query_value_copy_def mem_strlen_def Let_def split: option.splits)

lemma nf_publish_return_code [simp]: "nf (publish_return_code env m st)"
  by (auto simp: publish_return_code_def Let_def split: option.splits prod.splits)

lemma nf_publish_return_code_i32 [simp]: "nf (publish_return_code_i32 env t rc st)"
  by (simp add: publish_return_code_i32_def split: prod.splits)

lemma nf_publish_meta [simp]: "nf (publish_meta env m st)"
  by (auto simp: publish_meta_def mem_strlen_def Let_def split: option.splits prod.splits)

lemma nf_publish_normal [simp]: "nf (publish_normal pow10 env m st)"
  by (auto simp: publish_normal_def Let_def intro: nf_jsdrv_meta_value split: option.splits prod.splits)

lemma nf_subscribe [simp]: "nf (subscribe env m st)"
  by (auto simp: subscribe_def devices_on_sub_def jsdrv_assert_def Let_def
      split: option.splits prod.splits payload_u.splits)

lemma nf_unsubscribe [simp]: "nf (unsubscribe m st)" "nf (unsubscribe_from_all m st)"
  by (auto simp: unsubscribe_def unsubscribe_from_all_def split: option.splits prod.splits payload_u.splits)

lemma nf_query [simp]: "nf (query m st)"
  by (auto simp: query_def Let_def split: option.splits prod.splits payload_u.splits)

lemma nf_process_msg [simp]: "nf (process_msg pow10 env m st)"
  by (auto simp: process_msg_def command_def split: prod.splits)




definition demo_topic :: "string \<Rightarrow> msg_s" where
  "demo_topic t = \<lparr>m_id = 7, m_topic = t, m_source = 1, m_value = union_of U_U32 5,
     m_extra = no_subscriber, m_payload = P_none\<rparr>"


end
