(* ===== verification/Tmap.thy ===== *)
theory Tmap
  imports Ieee_Round
begin

text \<open>
  The map between sample identifiers and UTC time of \<^verbatim>\<open>src/tmap.c\<close>: a ring of time map entries
  whose size is a power of 2. A \<^verbatim>\<open>size_t\<close> is a natural number, with the wrap at 64 bits
  written out where an index is decremented; times are \<^verbatim>\<open>int64_t\<close> values as integers;
  sample identifiers are 64-bit words; rates are \<^verbatim>\<open>double\<close> bit patterns. An array element
  that \<^verbatim>\<open>realloc\<close> left uninitialised is \<open>None\<close>. Memory allocation is assumed to succeed.
\<close>

section \<open>Data\<close>

record time_map_s =
  offset_time :: int
  offset_counter :: u64
  counter_rate :: u64

record tmap_s =
  alloc_size :: nat
  head :: nat
  tail :: nat
  entry :: "time_map_s option list"

definition JSDRV_TIME_SECOND :: int where
  "JSDRV_TIME_SECOND = 2 ^ 30"

text \<open>Signed 64-bit results: C leaves the others undefined.\<close>

definition i64_chk :: "int \<Rightarrow> int c" where
  "i64_chk x = (if - (2 ^ 63) \<le> x \<and> x < 2 ^ 63 then Inr x else Inl Undefined)"

definition f64_to_i64 :: "u64 \<Rightarrow> int c" where
  "f64_to_i64 v = (case fp_trunc (f64_val v) of None \<Rightarrow> Inl Undefined | Some t \<Rightarrow> i64_chk t)"

definition f64_to_size :: "u64 \<Rightarrow> nat c" where
  "f64_to_size v =
     (case fp_trunc (f64_val v) of
        None \<Rightarrow> Inl Undefined
      | Some t \<Rightarrow> if 0 \<le> t \<and> t < 2 ^ 64 then Inr (nat t) else Inl Undefined)"

definition ptr_incr :: "nat \<Rightarrow> nat \<Rightarrow> nat" where
  "ptr_incr ptr sz = (ptr + 1) AND (sz - 1)"

definition ptr_decr :: "nat \<Rightarrow> nat \<Rightarrow> nat" where
  "ptr_decr ptr sz = ((ptr + (2 ^ 64 - 1)) mod 2 ^ 64) AND (sz - 1)"

definition tmap_size :: "tmap_s option \<Rightarrow> nat" where
  "tmap_size self =
     (case self of
        None \<Rightarrow> 0
      | Some t \<Rightarrow>
          if head t > alloc_size t \<or> tail t \<ge> alloc_size t then 0
          else if head t \<ge> tail t then head t - tail t
          else alloc_size t - tail t + head t)"

definition jsdrv_tmap_length :: "tmap_s option \<Rightarrow> nat" where
  "jsdrv_tmap_length self = tmap_size self"

definition round_size_to_power_of_2 :: "u64 \<Rightarrow> u64" where
  "round_size_to_power_of_2 sz =
     (if sz \<le> 0 then 1
      else
        let sz = sz - 1;
            sz = sz OR drop_bit 1 sz;
            sz = sz OR drop_bit 2 sz;
            sz = sz OR drop_bit 4 sz;
            sz = sz OR drop_bit 8 sz;
            sz = sz OR drop_bit 16 sz;
            sz = sz OR drop_bit 32 sz
        in sz + 1)"

definition tm_zero :: time_map_s where
  "tm_zero = \<lparr>offset_time = 0, offset_counter = 0, counter_rate = 0\<rparr>"

definition ENTRIES_ALLOC_INIT :: nat where
  "ENTRIES_ALLOC_INIT = 128"

definition jsdrv_tmap_alloc :: "nat \<Rightarrow> tmap_s" where
  "jsdrv_tmap_alloc initial_size =
     (let initial_size = (if initial_size = 0 then ENTRIES_ALLOC_INIT else initial_size);
          initial_size = unat (round_size_to_power_of_2 (of_nat initial_size))
      in \<lparr>alloc_size = initial_size, head = 0, tail = 0, entry = replicate initial_size (Some tm_zero)\<rparr>)"

text \<open>Reading an entry, and copying \<open>n\<close> entries between arrays with \<^verbatim>\<open>memcpy\<close>.\<close>

definition ent :: "tmap_s \<Rightarrow> nat \<Rightarrow> time_map_s c" where
  "ent t i = cbind (buf_get (entry t) i) (\<lambda>e. case e of None \<Rightarrow> Inl Undefined | Some x \<Rightarrow> Inr x)"

definition ent_copy :: "'a list \<Rightarrow> nat \<Rightarrow> 'a list \<Rightarrow> nat \<Rightarrow> nat \<Rightarrow> 'a list c" where
  "ent_copy dst di src si n =
     (if di + n \<le> length dst \<and> si + n \<le> length src
      then Inr (take di dst @ take n (drop si src) @ drop (di + n) dst)
      else Inl OutOfBounds)"

definition jsdrv_tmap_copy :: "tmap_s option \<Rightarrow> tmap_s option c" where
  "jsdrv_tmap_copy src =
     (case src of
        None \<Rightarrow> Inr None
      | Some s \<Rightarrow>
          if head s > alloc_size s \<or> tail s \<ge> alloc_size s then Inr None
          else
            let sz = tmap_size src; self = jsdrv_tmap_alloc sz in
            if sz = 0 then Inr (Some self)
            else
              cbind (if head s > tail s then ent_copy (entry self) 0 (entry s) (tail s) sz
                     else let head_count = alloc_size s - tail s in
                          cbind (ent_copy (entry self) 0 (entry s) (tail s) head_count) (\<lambda>e.
                          ent_copy e head_count (entry s) 0 (head s))) (\<lambda>e.
              Inr (Some (self\<lparr>entry := e, tail := 0, head := sz\<rparr>))))"

definition jsdrv_tmap_clear :: "tmap_s option \<Rightarrow> tmap_s option" where
  "jsdrv_tmap_clear self = map_option (\<lambda>t. t\<lparr>head := 0, tail := 0\<rparr>) self"

definition fp_le_zero :: "fpval \<Rightarrow> bool" where
  "fp_le_zero v \<longleftrightarrow> v \<noteq> FNan \<and> \<not> fp_gt_int v 0"

definition same_map :: "time_map_s \<Rightarrow> time_map_s \<Rightarrow> bool" where
  "same_map a b \<longleftrightarrow> offset_time a = offset_time b \<and> offset_counter a = offset_counter b
     \<and> fp_eq (f64_val (counter_rate a)) (f64_val (counter_rate b))"

text \<open>The loop that moves the wrapped part behind the old end after \<^verbatim>\<open>realloc\<close>.\<close>

primrec unwrap_loop :: "nat \<Rightarrow> nat \<Rightarrow> time_map_s option list \<Rightarrow> time_map_s option list c" where
  "unwrap_loop 0 n e = Inr e"
| "unwrap_loop (Suc i) n e =
     cbind (unwrap_loop i n e) (\<lambda>e. cbind (buf_get e i) (\<lambda>x. buf_set e (i + n) x))"

definition tmap_grow :: "tmap_s \<Rightarrow> tmap_s c" where
  "tmap_grow t =
     (let e = entry t @ replicate (alloc_size t) None in
      if head t < tail t then
        cbind (unwrap_loop (head t) (alloc_size t) e) (\<lambda>e.
        Inr (t\<lparr>entry := e, head := head t + alloc_size t, alloc_size := alloc_size t * 2\<rparr>))
      else Inr (t\<lparr>entry := e, alloc_size := alloc_size t * 2\<rparr>))"

definition tmap_put :: "time_map_s \<Rightarrow> tmap_s \<Rightarrow> tmap_s c" where
  "tmap_put tm t =
     cbind (buf_set (entry t) (head t) (Some tm)) (\<lambda>e.
     Inr (t\<lparr>entry := e, head := ptr_incr (head t) (alloc_size t)\<rparr>))"

definition jsdrv_tmap_add :: "tmap_s option \<Rightarrow> time_map_s option \<Rightarrow> tmap_s option c" where
  "jsdrv_tmap_add self time_map =
     (case (self, time_map) of
        (Some t, Some tm) \<Rightarrow>
          let sz = tmap_size self in
          if fp_le_zero (f64_val (counter_rate tm)) then Inr self
          else
            cbind (if sz \<noteq> 0 then cbind (ent t (ptr_decr (head t) (alloc_size t))) (\<lambda>e. Inr (same_map tm e))
                   else Inr False) (\<lambda>dup.
            if dup then Inr self
            else if sz + 1 \<ge> alloc_size t then
              cbind (tmap_grow t) (\<lambda>t. cbind (tmap_put tm t) (\<lambda>t. Inr (Some t)))
            else
              cbind (if sz \<noteq> 0 then cbind (ent t (ptr_decr (head t) (alloc_size t)))
                       (\<lambda>e. Inr (offset_time tm < offset_time e))
                     else Inr False) (\<lambda>back.
              if back then Inr self else cbind (tmap_put tm t) (\<lambda>t. Inr (Some t))))
      | _ \<Rightarrow> Inr self)"

primrec expire_loop :: "nat \<Rightarrow> tmap_s \<Rightarrow> u64 \<Rightarrow> nat \<Rightarrow> nat c" where
  "expire_loop 0 t sample_id tp = Inl OutOfFuel"
| "expire_loop (Suc n) t sample_id tp =
     (let tail_next = ptr_incr tp (alloc_size t) in
      if tail_next = head t then Inr tp
      else
        cbind (ent t tp) (\<lambda>e.
        if sample_id < offset_counter e then Inr tp
        else
          cbind (if sample_id > offset_counter e
                 then cbind (ent t tail_next) (\<lambda>e'. Inr (sample_id < offset_counter e'))
                 else Inr False) (\<lambda>stop.
          if stop then Inr tp else expire_loop n t sample_id tail_next)))"

definition jsdrv_tmap_expire_by_sample_id :: "nat \<Rightarrow> tmap_s option \<Rightarrow> u64 \<Rightarrow> tmap_s option c" where
  "jsdrv_tmap_expire_by_sample_id fuel self sample_id =
     (case self of
        None \<Rightarrow> Inr None
      | Some t \<Rightarrow>
          if head t = tail t then Inr self
          else cbind (expire_loop fuel t sample_id (tail t)) (\<lambda>tp. Inr (Some (t\<lparr>tail := tp\<rparr>))))"

text \<open>The bounded searches; \<open>None\<close> when the iterations ran out, where the code falls back to the last entry.\<close>

primrec find_sample_id_loop :: "nat \<Rightarrow> tmap_s \<Rightarrow> u64 \<Rightarrow> nat \<Rightarrow> time_map_s option c" where
  "find_sample_id_loop 0 t sample_id idx = Inr None"
| "find_sample_id_loop (Suc n) t sample_id idx =
     cbind (ent t idx) (\<lambda>e.
     if sample_id < offset_counter e then find_sample_id_loop n t sample_id (ptr_decr idx (alloc_size t))
     else
       cbind (ent t (ptr_incr idx (alloc_size t))) (\<lambda>e'.
       if sample_id \<ge> offset_counter e' then find_sample_id_loop n t sample_id (ptr_incr idx (alloc_size t))
       else Inr (Some e)))"

primrec find_timestamp_loop :: "nat \<Rightarrow> tmap_s \<Rightarrow> int \<Rightarrow> nat \<Rightarrow> time_map_s option c" where
  "find_timestamp_loop 0 t timestamp idx = Inr None"
| "find_timestamp_loop (Suc n) t timestamp idx =
     cbind (ent t idx) (\<lambda>e.
     if timestamp < offset_time e then find_timestamp_loop n t timestamp (ptr_decr idx (alloc_size t))
     else
       cbind (ent t (ptr_incr idx (alloc_size t))) (\<lambda>e'.
       if timestamp \<ge> offset_time e' then find_timestamp_loop n t timestamp (ptr_incr idx (alloc_size t))
       else Inr (Some e)))"

definition first_index :: "nat \<Rightarrow> u64 \<Rightarrow> u64 \<Rightarrow> nat c" where
  "first_index sz num den =
     cbind (f64_to_size (f64_mul (int_to_f64 (int sz)) (f64_div num den))) (\<lambda>k.
     Inr (if k \<ge> sz then sz - 1 else k))"

definition find_entry_by_sample_id :: "tmap_s \<Rightarrow> u64 \<Rightarrow> time_map_s c" where
  "find_entry_by_sample_id t sample_id =
     cbind (ent t (tail t)) (\<lambda>e_start.
     cbind (ent t (ptr_decr (head t) (alloc_size t))) (\<lambda>e_end.
     if sample_id \<le> offset_counter e_start then Inr e_start
     else if sample_id \<ge> offset_counter e_end then Inr e_end
     else
       let sz = tmap_size (Some t) in
       cbind (first_index sz (int_to_f64 (uint (sample_id - offset_counter e_start)))
                             (int_to_f64 (uint (offset_counter e_end - offset_counter e_start)))) (\<lambda>k.
       cbind (find_sample_id_loop sz t sample_id ((tail t + k) mod alloc_size t)) (\<lambda>r.
       Inr (case r of Some e \<Rightarrow> e | None \<Rightarrow> e_end)))))"

definition find_entry_by_timestamp :: "tmap_s \<Rightarrow> int \<Rightarrow> time_map_s c" where
  "find_entry_by_timestamp t timestamp =
     cbind (ent t (tail t)) (\<lambda>e_start.
     cbind (ent t (ptr_decr (head t) (alloc_size t))) (\<lambda>e_end.
     if timestamp \<le> offset_time e_start then Inr e_start
     else if timestamp \<ge> offset_time e_end then Inr e_end
     else
       let sz = tmap_size (Some t) in
       cbind (i64_chk (timestamp - offset_time e_start)) (\<lambda>num.
       cbind (i64_chk (offset_time e_end - offset_time e_start)) (\<lambda>den.
       cbind (first_index sz (int_to_f64 num) (int_to_f64 den)) (\<lambda>k.
       cbind (find_timestamp_loop sz t timestamp ((tail t + k) mod alloc_size t)) (\<lambda>r.
       Inr (case r of Some e \<Rightarrow> e | None \<Rightarrow> e_end)))))))"

definition entry_to_timestamp :: "time_map_s \<Rightarrow> u64 \<Rightarrow> int c" where
  "entry_to_timestamp e sample_id =
     (let dsample = int_to_f64 (sint (sample_id - offset_counter e));
          dt = f64_div dsample (counter_rate e);
          dt = f64_mul dt (int_to_f64 JSDRV_TIME_SECOND)
      in cbind (f64_to_i64 dt) (\<lambda>d. i64_chk (offset_time e + d)))"

definition entry_to_sample_id :: "time_map_s \<Rightarrow> int \<Rightarrow> u64 c" where
  "entry_to_sample_id e timestamp =
     cbind (i64_chk (timestamp - offset_time e)) (\<lambda>d.
     let dt = f64_mul (int_to_f64 d) (f64_div (int_to_f64 1) (int_to_f64 JSDRV_TIME_SECOND))
     in cbind (f64_to_i64 (f64_mul dt (counter_rate e))) (\<lambda>k.
        cbind (i64_chk (sint (offset_counter e) + k)) (\<lambda>x. Inr (of_int x))))"

definition jsdrv_tmap_sample_id_to_timestamp :: "tmap_s option \<Rightarrow> u64 \<Rightarrow> (int \<times> int) c" where
  "jsdrv_tmap_sample_id_to_timestamp self sample_id =
     (case self of
        Some t \<Rightarrow>
          if tmap_size self = 0 then Inr (ec UNAVAILABLE, 0)
          else cbind (find_entry_by_sample_id t sample_id) (\<lambda>e.
               cbind (entry_to_timestamp e sample_id) (\<lambda>ts. Inr (0, ts)))
      | None \<Rightarrow> Inr (ec UNAVAILABLE, 0))"

definition jsdrv_tmap_timestamp_to_sample_id :: "tmap_s option \<Rightarrow> int \<Rightarrow> (int \<times> u64) c" where
  "jsdrv_tmap_timestamp_to_sample_id self timestamp =
     (case self of
        Some t \<Rightarrow>
          if tmap_size self = 0 then Inr (ec UNAVAILABLE, 0)
          else cbind (find_entry_by_timestamp t timestamp) (\<lambda>e.
               cbind (entry_to_sample_id e timestamp) (\<lambda>s. Inr (0, s)))
      | None \<Rightarrow> Inr (ec UNAVAILABLE, 0))"

definition jsdrv_tmap_get :: "tmap_s option \<Rightarrow> nat \<Rightarrow> (int \<times> time_map_s option) c" where
  "jsdrv_tmap_get self index =
     (case self of
        None \<Rightarrow> Inr (ec UNAVAILABLE, None)
      | Some t \<Rightarrow>
          if index \<ge> tmap_size self then Inr (ec UNAVAILABLE, None)
          else cbind (ent t ((tail t + index) AND (alloc_size t - 1))) (\<lambda>e. Inr (0, Some e)))"

section \<open>Ring indices\<close>

lemma and_pow2 [ring_simps]: "(n::nat) AND (2 ^ k - 1) = n mod 2 ^ k"
  using take_bit_eq_mask [of k n] by (simp add: mask_eq_exp_minus_1 take_bit_eq_mod)

lemma ptr_incr_pow2 [ring_simps]: "ptr_incr p (2 ^ k) = (p + 1) mod 2 ^ k"
  unfolding ptr_incr_def by (rule and_pow2)

lemma ptr_decr_pow2:
  assumes "k \<le> 64"
  shows "ptr_decr p (2 ^ k) = (p + (2 ^ k - 1)) mod 2 ^ k"
proof -
  have "(2::nat) ^ 64 = 2 ^ k * 2 ^ (64 - k)" using assms by (simp flip: power_add)
  then obtain q :: nat where q: "(2::nat) ^ 64 = 2 ^ k * q" and "0 < q" by simp
  then obtain r where r: "q = Suc r" using gr0_conv_Suc by blast
  have "(1::nat) \<le> 2 ^ k" by simp
  then have "p + (2 ^ 64 - 1) = (p + (2 ^ k - 1)) + 2 ^ k * r" unfolding q r mult_Suc_right by linarith
  then have "(p + (2 ^ 64 - 1)) mod 2 ^ k = (p + (2 ^ k - 1)) mod 2 ^ k" by simp
  moreover have "(2::nat) ^ k dvd 2 ^ 64" unfolding q by (rule dvd_triv_left)
  ultimately show ?thesis
    unfolding ptr_decr_def and_pow2 by (metis mod_mod_cancel)
qed

lemma decr_mod: "0 < p \<Longrightarrow> 0 < n \<Longrightarrow> (p + (n - 1)) mod n = (p - 1) mod (n::nat)"
proof -
  assume "0 < p" "0 < n"
  then have "p + (n - 1) = (p - 1) + n" by simp
  then show ?thesis by (metis mod_add_self2)
qed

section \<open>The list a ring holds\<close>

text \<open>
  A ring can be read when its size is a power of 2, its indices are in range and the
  entries between \<^verbatim>\<open>tail\<close> and \<^verbatim>\<open>head\<close> were written; \<^verbatim>\<open>head\<close> may stand at the end of the array, as
  in a copy. It is well formed, and can be written, when \<^verbatim>\<open>head\<close> is an index of the array.
\<close>

definition tmap_ok :: "tmap_s \<Rightarrow> bool" where
  "tmap_ok t \<longleftrightarrow> (\<exists>k \<le> 63. alloc_size t = 2 ^ k) \<and> length (entry t) = alloc_size t
     \<and> head t \<le> alloc_size t \<and> tail t < alloc_size t
     \<and> (\<forall>i < tmap_size (Some t). entry t ! ((tail t + i) mod alloc_size t) \<noteq> None)"

definition tmap_wf :: "tmap_s \<Rightarrow> bool" where
  "tmap_wf t \<longleftrightarrow> tmap_ok t \<and> head t < alloc_size t"

definition tmap_list :: "tmap_s \<Rightarrow> time_map_s list" where
  "tmap_list t = map (\<lambda>i. the (entry t ! ((tail t + i) mod alloc_size t))) [0..<tmap_size (Some t)]"

abbreviation ring_len :: "tmap_s \<Rightarrow> nat" where
  "ring_len t \<equiv> tmap_size (Some t)"

lemma tmap_list_length [simp]: "length (tmap_list t) = ring_len t"
  by (simp add: tmap_list_def)

lemma tmap_list_nth [simp]:
  "i < ring_len t \<Longrightarrow> tmap_list t ! i = the (entry t ! ((tail t + i) mod alloc_size t))"
  by (simp add: tmap_list_def)

lemma tmap_okD:
  assumes "tmap_ok t"
  shows "0 < alloc_size t" "length (entry t) = alloc_size t" "head t \<le> alloc_size t" "tail t < alloc_size t"
    and "ring_len t \<le> alloc_size t" "(tail t + ring_len t) mod alloc_size t = head t mod alloc_size t"
    and "ptr_incr p (alloc_size t) = (p + 1) mod alloc_size t"
    and "ptr_decr p (alloc_size t) = (p + (alloc_size t - 1)) mod alloc_size t"
  using assms by (auto simp: tmap_ok_def tmap_size_def ring_simps ptr_decr_pow2)

lemma tmap_wfD:
  assumes "tmap_wf t"
  shows "0 < alloc_size t" "length (entry t) = alloc_size t" "head t < alloc_size t" "tail t < alloc_size t"
    and "ring_len t < alloc_size t" "(tail t + ring_len t) mod alloc_size t = head t"
    and "ptr_incr p (alloc_size t) = (p + 1) mod alloc_size t"
    and "ptr_decr p (alloc_size t) = (p + (alloc_size t - 1)) mod alloc_size t" and "tmap_ok t"
  using assms tmap_okD [of t] by (auto simp: tmap_wf_def tmap_size_def)

lemma ring_len_tmap: "tmap_wf t \<Longrightarrow> ring_len t = (head t + alloc_size t - tail t) mod alloc_size t"
  using tmap_wfD(3,4) [of t] by (auto simp: tmap_size_def mod_if)

lemma tmap_entry_Some:
  "tmap_ok t \<Longrightarrow> i < ring_len t \<Longrightarrow> entry t ! ((tail t + i) mod alloc_size t) = Some (tmap_list t ! i)"
  by (auto simp: tmap_ok_def)

lemma ent_ring:
  "tmap_ok t \<Longrightarrow> i < ring_len t \<Longrightarrow> ent t ((tail t + i) mod alloc_size t) = Inr (tmap_list t ! i)"
  using tmap_entry_Some [of t i] tmap_okD(1,2) [of t] by (simp add: ent_def del: tmap_list_nth)

lemma ent_first:
  "tmap_ok t \<Longrightarrow> tmap_list t \<noteq> [] \<Longrightarrow> ent t (tail t) = Inr (hd (tmap_list t))"
  using ent_ring [of t 0] tmap_okD(4) [of t] by (simp add: hd_conv_nth flip: length_greater_0_conv)

lemma ring_pred:
  assumes "tmap_ok t" and "0 < p"
  shows "ptr_decr ((tail t + p) mod alloc_size t) (alloc_size t) = (tail t + (p - 1)) mod alloc_size t"
proof -
  let ?a = "alloc_size t"
  have a: "0 < ?a" by (rule tmap_okD(1) [OF assms(1)])
  have "((tail t + p) mod ?a + (?a - 1)) mod ?a = (tail t + p + (?a - 1)) mod ?a" by (rule mod_add_left_eq)
  also have "\<dots> = (tail t + (p - 1)) mod ?a" using decr_mod [of "tail t + p" ?a] a assms(2) by simp
  finally show ?thesis unfolding tmap_okD(8) [OF assms(1)] .
qed

lemma ring_succ:
  "tmap_ok t \<Longrightarrow> ptr_incr ((tail t + p) mod alloc_size t) (alloc_size t) = (tail t + (p + 1)) mod alloc_size t"
  using tmap_okD(7) [of t] by (simp add: mod_simps)

lemma ent_last:
  assumes "tmap_ok t" and "tmap_list t \<noteq> []"
  shows "ent t (ptr_decr (head t) (alloc_size t)) = Inr (last (tmap_list t))"
proof -
  have n: "0 < ring_len t" using assms(2) by (simp flip: length_greater_0_conv)
  have "ptr_decr (head t) (alloc_size t) = ptr_decr ((tail t + ring_len t) mod alloc_size t) (alloc_size t)"
    unfolding tmap_okD(8) [OF assms(1)] tmap_okD(6) [OF assms(1)] by (simp add: mod_add_left_eq)
  then show ?thesis
    using ring_pred [OF assms(1) n] ent_ring [OF assms(1), of "ring_len t - 1"] n
    by (simp add: last_conv_nth assms(2))
qed

section \<open>Adding an entry\<close>

lemma ring_index_less:
  assumes "tmap_wf t" and "i < ring_len t"
  shows "(tail t + i) mod alloc_size t \<noteq> head t"
proof
  assume "(tail t + i) mod alloc_size t = head t"
  then have "(tail t + i) mod alloc_size t = (tail t + ring_len t) mod alloc_size t"
    using tmap_wfD(6) [OF assms(1)] by simp
  moreover have "tail t + i < tail t + ring_len t" "tail t + ring_len t - (tail t + i) < alloc_size t"
    using assms tmap_wfD(5) [OF assms(1)] by auto
  ultimately show False
    by (metis mod_eq_dvd_iff_nat less_imp_le_nat nat_dvd_not_less zero_less_diff)
qed

lemma tmap_put_list:
  assumes wf: "tmap_wf t" and room: "ring_len t + 1 < alloc_size t"
  shows "\<exists>t'. tmap_put tm t = Inr t' \<and> tmap_wf t' \<and> tmap_list t' = tmap_list t @ [tm]
    \<and> alloc_size t' = alloc_size t"
proof -
  note d = tmap_wfD [OF wf]
  let ?a = "alloc_size t"
  let ?t = "t\<lparr>entry := (entry t)[head t := Some tm], head := ptr_incr (head t) ?a\<rparr>"
  have run: "tmap_put tm t = Inr ?t" using d by (simp add: tmap_put_def)
  have len: "ring_len ?t = ring_len t + 1"
    using d(3,4) room by (auto simp: tmap_size_def d(7) mod_Suc split: if_splits)
  have e: "entry ?t ! ((tail ?t + i) mod alloc_size ?t) =
      (if i < ring_len t then Some (tmap_list t ! i) else Some tm)" if "i < ring_len ?t" for i
  proof (cases "i < ring_len t")
    case True
    then show ?thesis
      using ring_index_less [OF wf True] tmap_entry_Some [OF tmap_wfD(9) [OF wf] True] by (simp del: tmap_list_nth)
  next
    case False
    with that len have "i = ring_len t" by simp
    then show ?thesis using d(2,3,6) by simp
  qed
  have "tmap_wf ?t"
    using wf e len d(2,3,4,7) unfolding tmap_wf_def tmap_ok_def by (auto simp del: tmap_list_nth)
  moreover have "tmap_list ?t = tmap_list t @ [tm]"
  proof (rule nth_equalityI)
    show "length (tmap_list ?t) = length (tmap_list t @ [tm])" using len by simp
    fix i
    assume "i < length (tmap_list ?t)"
    then have i: "i < ring_len ?t" by simp
    then show "tmap_list ?t ! i = (tmap_list t @ [tm]) ! i"
      unfolding tmap_list_nth [OF i] e [OF i] using len by (auto simp: nth_append less_Suc_eq)
  qed
  ultimately show ?thesis using run by auto
qed

lemma unwrap_loop_eq:
  "i \<le> n \<Longrightarrow> n + i \<le> length e \<Longrightarrow>
   \<exists>e'. unwrap_loop i n e = Inr e' \<and> length e' = length e
      \<and> (\<forall>j < length e. e' ! j = (if n \<le> j \<and> j < n + i then e ! (j - n) else e ! j))"
proof (induction i)
  case (Suc i)
  then obtain e' where e': "unwrap_loop i n e = Inr e'" "length e' = length e"
    "\<And>j. j < length e \<Longrightarrow> e' ! j = (if n \<le> j \<and> j < n + i then e ! (j - n) else e ! j)" by auto
  have "unwrap_loop (Suc i) n e = Inr (e'[i + n := e ! i])"
    using e' Suc.prems by simp
  then show ?case using e' Suc.prems by (auto simp: nth_list_update)
qed auto

lemma tmap_grow_list:
  assumes wf: "tmap_wf t" and small: "alloc_size t < 2 ^ 63"
  shows "\<exists>t'. tmap_grow t = Inr t' \<and> tmap_wf t' \<and> tmap_list t' = tmap_list t
    \<and> alloc_size t' = 2 * alloc_size t"
proof -
  note d = tmap_wfD [OF wf]
  let ?a = "alloc_size t"
  let ?e = "entry t @ replicate ?a None"
  obtain k where k: "?a = 2 ^ k" "k \<le> 63" using wf by (auto simp: tmap_wf_def tmap_ok_def)
  have k': "Suc k \<le> 63" using k small by (metis Suc_leI nat_less_le order_less_irrefl)
  obtain t' where t': "tmap_grow t = Inr t'" "alloc_size t' = 2 * ?a" "tail t' = tail t"
    "length (entry t') = 2 * ?a" "head t' = (if head t < tail t then head t + ?a else head t)"
    "\<And>j. j < 2 * ?a \<Longrightarrow> entry t' ! j = (if head t < tail t \<and> ?a \<le> j \<and> j < ?a + head t then entry t ! (j - ?a)
       else ?e ! j)"
  proof (cases "head t < tail t")
    case True
    obtain e' where e': "unwrap_loop (head t) ?a ?e = Inr e'" "length e' = length ?e"
      "\<And>j. j < length ?e \<Longrightarrow> e' ! j = (if ?a \<le> j \<and> j < ?a + head t then ?e ! (j - ?a) else ?e ! j)"
      using unwrap_loop_eq [of "head t" ?a ?e] d(2,3) by auto
    show ?thesis
      by (rule that [of "t\<lparr>entry := e', head := head t + ?a, alloc_size := ?a * 2\<rparr>"])
         (use True e' d(2,3) in \<open>auto simp: tmap_grow_def nth_append\<close>)
  next
    case False
    then show ?thesis
      by (intro that [of "t\<lparr>entry := ?e, alloc_size := ?a * 2\<rparr>"]) (use d(2) in \<open>auto simp: tmap_grow_def\<close>)
  qed
  have len: "ring_len t' = ring_len t" using t' d(3,4) by (auto simp: tmap_size_def)
  have e: "entry t' ! ((tail t' + i) mod alloc_size t') = Some (tmap_list t ! i)" if i: "i < ring_len t" for i
  proof -
    have old: "entry t ! ((tail t + i) mod ?a) = Some (tmap_list t ! i)" by (rule tmap_entry_Some [OF tmap_wfD(9) [OF wf] i])
    have "tail t + i < 2 * ?a" using d(4,5) i by simp
    moreover have "tail t + i < ?a \<or> head t < tail t \<and> ?a \<le> tail t + i \<and> tail t + i < ?a + head t"
      using i d(3,4) by (auto simp: tmap_size_def split: if_splits)
    moreover have "(tail t + i) mod ?a = (if tail t + i < ?a then tail t + i else tail t + i - ?a)"
      using \<open>tail t + i < 2 * ?a\<close> by (simp add: mod_if)
    ultimately show ?thesis
      using old t'(2,3,6) d(2,3) by (auto simp: nth_append simp del: tmap_list_nth split: if_splits)
  qed
  have "alloc_size t' = 2 ^ Suc k" using t'(2) k(1) by simp
  then have "tmap_wf t'"
    unfolding tmap_wf_def tmap_ok_def using k' t'(2-5) d(3,4) len e by (auto simp del: tmap_list_nth intro!: exI [of _ "Suc k"])
  moreover have "tmap_list t' = tmap_list t"
    by (rule nth_equalityI) (auto simp: len e)
  ultimately show ?thesis using t' by auto
qed

text \<open>What adding an entry does to the list of entries; a full ring grows and skips the order test.\<close>

definition log_add :: "bool \<Rightarrow> time_map_s \<Rightarrow> time_map_s list \<Rightarrow> time_map_s list" where
  "log_add full tm xs =
     (if fp_le_zero (f64_val (counter_rate tm)) then xs
      else if xs \<noteq> [] \<and> same_map tm (last xs) then xs
      else if \<not> full \<and> xs \<noteq> [] \<and> offset_time tm < offset_time (last xs) then xs
      else xs @ [tm])"

lemma tmap_add_refines:
  assumes "tmap_wf t" and "alloc_size t < 2 ^ 63"
  shows "\<exists>t'. jsdrv_tmap_add (Some t) (Some tm) = Inr (Some t') \<and> tmap_wf t'
    \<and> tmap_list t' = log_add (alloc_size t \<le> ring_len t + 1) tm (tmap_list t)"
proof (cases "fp_le_zero (f64_val (counter_rate tm)) \<or> tmap_list t \<noteq> [] \<and> same_map tm (last (tmap_list t))")
  case True
  then show ?thesis
    using assms(1) ent_last [OF tmap_wfD(9) [OF assms(1)]]
    by (auto simp: jsdrv_tmap_add_def log_add_def Let_def simp flip: length_greater_0_conv)
next
  case False
  have dup: "(if ring_len t \<noteq> 0 then cbind (ent t (ptr_decr (head t) (alloc_size t))) (\<lambda>e. Inr (same_map tm e))
      else Inr False) = Inr False"
    using False ent_last [OF tmap_wfD(9) [OF assms(1)]] by (auto simp flip: length_0_conv)
  show ?thesis
  proof (cases "alloc_size t \<le> ring_len t + 1")
    case True
    obtain t1 where t1: "tmap_grow t = Inr t1" "tmap_wf t1" "tmap_list t1 = tmap_list t"
      "alloc_size t1 = 2 * alloc_size t"
      using tmap_grow_list [OF assms] by blast
    have "ring_len t1 = ring_len t" using t1(3) by (metis tmap_list_length)
    then have "ring_len t1 + 1 < alloc_size t1" using t1(4) tmap_wfD(1,5) [OF assms(1)] by linarith
    from tmap_put_list [OF t1(2) this] obtain t2 where "tmap_put tm t1 = Inr t2" "tmap_wf t2"
      "tmap_list t2 = tmap_list t1 @ [tm]" by blast
    then show ?thesis using True False dup t1 by (auto simp: jsdrv_tmap_add_def log_add_def Let_def)
  next
    case room: False
    then obtain t2 where t2: "tmap_put tm t = Inr t2" "tmap_wf t2" "tmap_list t2 = tmap_list t @ [tm]"
      using tmap_put_list [OF assms(1)] by (auto simp: not_le)
    have bk: "(if ring_len t \<noteq> 0 then cbind (ent t (ptr_decr (head t) (alloc_size t)))
        (\<lambda>e. Inr (offset_time tm < offset_time e)) else Inr False)
      = Inr (tmap_list t \<noteq> [] \<and> offset_time tm < offset_time (last (tmap_list t)))"
      using ent_last [OF tmap_wfD(9) [OF assms(1)]] by (auto simp flip: length_0_conv)
    show ?thesis
      using room False dup bk t2 assms(1) by (auto simp: jsdrv_tmap_add_def log_add_def Let_def)
  qed
qed

text \<open>
  C9. Adding an entry to a well-formed ring never leaves the array and keeps the ring well
  formed. On the list of entries it appends the new one, unless the rate is not positive,
  the entry repeats the last one, or its time is before the last one; when the ring
  must grow, the last of these tests is not made.
\<close>

theorem jsdrv_tmap_add_refines:
  assumes "tmap_wf t" and "alloc_size t < 2 ^ 63"
  shows "\<exists>t'. jsdrv_tmap_add (Some t) (Some tm) = Inr (Some t') \<and> tmap_wf t'
    \<and> tmap_list t' = log_add (alloc_size t \<le> ring_len t + 1) tm (tmap_list t)"
  by (rule tmap_add_refines [OF assms])

section \<open>Allocation\<close>

lemma smear_step:
  fixes x y :: u64
  assumes "\<And>n. bit y n \<longleftrightarrow> (\<exists>i < d. bit x (n + i))"
  shows "bit (y OR drop_bit d y) n \<longleftrightarrow> (\<exists>i < 2 * d. bit x (n + i))"
proof -
  have "bit (y OR drop_bit d y) n \<longleftrightarrow> (\<exists>i < d. bit x (n + i)) \<or> (\<exists>i < d. bit x (n + d + i))"
    by (simp add: bit_or_iff bit_drop_bit_eq assms add.commute)
  also have "\<dots> \<longleftrightarrow> (\<exists>i < 2 * d. bit x (n + i))"
  proof
    assume "(\<exists>i < d. bit x (n + i)) \<or> (\<exists>i < d. bit x (n + d + i))"
    then show "\<exists>i < 2 * d. bit x (n + i)"
      by (metis add.assoc add_less_cancel_left mult_2 trans_less_add1)
  next
    assume "\<exists>i < 2 * d. bit x (n + i)"
    then obtain i where i: "i < 2 * d" "bit x (n + i)" by blast
    show "(\<exists>i < d. bit x (n + i)) \<or> (\<exists>i < d. bit x (n + d + i))"
    proof (cases "i < d")
      case False
      then have "i - d < d" "n + d + (i - d) = n + i" using i by auto
      then show ?thesis using i by metis
    qed (use i in blast)
  qed
  finally show ?thesis .
qed

definition smear :: "u64 \<Rightarrow> u64" where
  "smear x =
     (let x = x OR drop_bit 1 x; x = x OR drop_bit 2 x; x = x OR drop_bit 4 x;
          x = x OR drop_bit 8 x; x = x OR drop_bit 16 x
      in x OR drop_bit 32 x)"

lemma bit_smear: "bit (smear x) n \<longleftrightarrow> (\<exists>i < 64. bit x (n + i))"
proof -
  have "bit (x OR drop_bit 1 x) n \<longleftrightarrow> (\<exists>i < 2. bit x (n + i))" for n
    using smear_step [of x 1 x n] by simp
  note s = this smear_step [OF this, simplified]
  note s = s(2) smear_step [OF s(2), simplified]
  note s = s(2) smear_step [OF s(2), simplified]
  note s = s(2) smear_step [OF s(2), simplified]
  note s = s(2) smear_step [OF s(2), simplified]
  show ?thesis using s(2) by (simp add: smear_def Let_def)
qed

lemma smear_mask: "\<exists>k \<le> 64. smear x = mask k \<and> (unat x < 2 ^ k) \<and> (\<forall>j < k. 2 ^ j \<le> unat x)"
proof (cases "x = 0")
  case True
  have "smear x = 0" by (rule bit_word_eqI) (simp add: bit_smear True)
  then show ?thesis using True by (intro exI [of _ 0]) simp
next
  case False
  define h where "h = Max {n. bit x n}"
  have fin: "finite {n. bit x n}" using bit_imp_le_length by (auto intro: finite_subset [of _ "{..<64}"] dest: bit_imp_le_length)
  have ne: "{n. bit x n} \<noteq> {}" using False by (auto intro: bit_word_eqI)
  have h: "bit x h" using Max_in [OF fin ne] by (simp add: h_def)
  have le: "n \<le> h" if "bit x n" for n using Max_ge [OF fin] that by (simp add: h_def)
  have h64: "h < 64" using bit_imp_le_length [OF h] by simp
  have "smear x = mask (Suc h)"
  proof (rule bit_word_eqI)
    fix n
    show "bit (smear x) n \<longleftrightarrow> bit (mask (Suc h) :: u64) n"
    proof -
      have "bit (smear x) n \<longleftrightarrow> n \<le> h"
      proof
        assume "bit (smear x) n"
        then obtain i where "bit x (n + i)" unfolding bit_smear by blast
        then show "n \<le> h" using le [of "n + i"] by simp
      next
        assume "n \<le> h"
        then have "h - n < 64" "bit x (n + (h - n))" using h h64 by simp_all
        then show "bit (smear x) n" unfolding bit_smear by blast
      qed
      then show ?thesis using h64 by (auto simp: bit_mask_iff possible_bit_word)
    qed
  qed
  moreover have "take_bit (Suc h) x = x"
    by (rule bit_word_eqI) (use le in \<open>auto simp: bit_take_bit_iff le_imp_less_Suc\<close>)
  then have "unat x < 2 ^ Suc h"
    by (metis take_bit_nat_less_exp unsigned_take_bit_eq)
  moreover have "2 ^ h \<le> unat x"
  proof -
    have "bit (unat x) h" using h h64 by (simp add: bit_unsigned_iff)
    then have "unat x div 2 ^ h \<noteq> 0" by (metis bit_iff_odd even_zero)
    then show ?thesis by (metis div_less not_le)
  qed
  then have "2 ^ j \<le> unat x" if "j < Suc h" for j
    using that by (meson dual_order.trans less_Suc_eq_le one_le_numeral power_increasing)
  ultimately show ?thesis using h64 by (intro exI [of _ "Suc h"]) auto
qed

text \<open>
  \<^verbatim>\<open>round_size_to_power_of_2\<close> returns the smallest power of 2 that is not below its argument, for
  every argument up to \<open>2 ^ 63\<close>.
\<close>

lemma round_size_to_power_of_2_correct:
  assumes "unat sz \<le> 2 ^ 63"
  shows "\<exists>k \<le> 63. unat (round_size_to_power_of_2 sz) = 2 ^ k \<and> unat sz \<le> 2 ^ k
    \<and> (\<forall>j. unat sz \<le> 2 ^ j \<longrightarrow> k \<le> j)"
proof (cases "sz = 0")
  case True
  then show ?thesis by (intro exI [of _ 0]) (simp add: round_size_to_power_of_2_def)
next
  case False
  have r: "round_size_to_power_of_2 sz = smear (sz - 1) + 1"
    using False by (simp add: round_size_to_power_of_2_def smear_def Let_def)
  have x: "unat sz = unat (sz - 1) + 1"
    using False by (metis unat_minus_one unat_eq_zero Suc_eq_plus1 Suc_pred' bot_nat_0.not_eq_extremum)
  obtain k where k: "smear (sz - 1) = mask k" "unat (sz - 1) < 2 ^ k" "\<And>j. j < k \<Longrightarrow> 2 ^ j \<le> unat (sz - 1)"
    using smear_mask [of "sz - 1"] by blast
  have k63: "k \<le> 63"
  proof (rule ccontr)
    assume "\<not> k \<le> 63"
    then have "2 ^ 63 \<le> unat (sz - 1)" using k(3) [of 63] by simp
    then show False using assms x by simp
  qed
  have "mask k + 1 = (2 ^ k :: u64)" by (simp add: mask_eq_exp_minus_1)
  moreover have "unat (2 ^ k :: u64) = 2 ^ k"
  proof -
    have "(2::nat) ^ k < 2 ^ LENGTH(64)" using k63 by (intro power_strict_increasing) simp_all
    then have "unat (of_nat (2 ^ k) :: u64) = 2 ^ k" by (simp only: unat_of_nat mod_less)
    then show ?thesis by simp
  qed
  ultimately have "unat (round_size_to_power_of_2 sz) = 2 ^ k" unfolding r k(1) by simp
  moreover have "k \<le> j" if "unat sz \<le> 2 ^ j" for j
    using k(3) [of j] that x by (metis Suc_eq_plus1 not_less not_less_eq_eq)
  ultimately show ?thesis using k63 k(2) x by (intro exI [of _ k]) auto
qed

lemma jsdrv_tmap_alloc_wf:
  assumes "n \<le> 2 ^ 63"
  shows "tmap_wf (jsdrv_tmap_alloc n)" and "tmap_list (jsdrv_tmap_alloc n) = []"
    and "n \<le> alloc_size (jsdrv_tmap_alloc n)" and "head (jsdrv_tmap_alloc n) = 0"
    and "length (entry (jsdrv_tmap_alloc n)) = alloc_size (jsdrv_tmap_alloc n)"
proof -
  let ?n = "if n = 0 then 128 else n"
  have n: "?n \<le> 2 ^ 63" using assms by simp
  then have u: "unat (of_nat ?n :: u64) = ?n" by (simp add: unat_of_nat)
  obtain k where k: "k \<le> 63" "unat (round_size_to_power_of_2 (of_nat ?n)) = 2 ^ k" "?n \<le> 2 ^ k"
    using round_size_to_power_of_2_correct [of "of_nat ?n"] n u by auto
  have a: "alloc_size (jsdrv_tmap_alloc n) = 2 ^ k" "head (jsdrv_tmap_alloc n) = 0" "tail (jsdrv_tmap_alloc n) = 0"
    "length (entry (jsdrv_tmap_alloc n)) = 2 ^ k"
    using k(2) by (simp_all add: jsdrv_tmap_alloc_def ENTRIES_ALLOC_INIT_def Let_def split: if_splits)
  then have l: "ring_len (jsdrv_tmap_alloc n) = 0" by (simp add: tmap_size_def)
  show "tmap_wf (jsdrv_tmap_alloc n)" unfolding tmap_wf_def tmap_ok_def using a k(1) l by auto
  show "tmap_list (jsdrv_tmap_alloc n) = []" using l by (simp flip: length_0_conv)
  show "n \<le> alloc_size (jsdrv_tmap_alloc n)" using a k(3) by (auto split: if_splits)
  show "head (jsdrv_tmap_alloc n) = 0" by (rule a)
  show "length (entry (jsdrv_tmap_alloc n)) = alloc_size (jsdrv_tmap_alloc n)" using a by simp
qed

section \<open>Copying and reading\<close>

lemma ent_copy_nth:
  assumes "di + n \<le> length dst" and "si + n \<le> length src"
  shows "\<exists>e. ent_copy dst di src si n = Inr e \<and> length e = length dst
    \<and> (\<forall>j < length dst. e ! j = (if di \<le> j \<and> j < di + n then src ! (si + (j - di)) else dst ! j))"
proof (intro exI conjI allI impI)
  let ?e = "take di dst @ take n (drop si src) @ drop (di + n) dst"
  show "ent_copy dst di src si n = Inr ?e" using assms by (simp add: ent_copy_def)
  show "length ?e = length dst" using assms by simp
  fix j
  assume j: "j < length dst"
  consider "j < di" | "di \<le> j" "j < di + n" | "di + n \<le> j" by linarith
  then show "?e ! j = (if di \<le> j \<and> j < di + n then src ! (si + (j - di)) else dst ! j)"
    using assms j by cases (auto simp: nth_append)
qed

lemma copy_entries:
  assumes ok: "tmap_ok s" and sz: "ring_len s \<noteq> 0" and dst: "ring_len s \<le> length dst"
  shows "\<exists>e. (if head s > tail s then ent_copy dst 0 (entry s) (tail s) (ring_len s)
      else let head_count = alloc_size s - tail s in
           cbind (ent_copy dst 0 (entry s) (tail s) head_count) (\<lambda>e. ent_copy e head_count (entry s) 0 (head s)))
      = Inr e \<and> length e = length dst
    \<and> (\<forall>i < ring_len s. e ! i = entry s ! ((tail s + i) mod alloc_size s))"
proof (cases "head s > tail s")
  case True
  then have "ring_len s = head s - tail s" using tmap_okD(3,4) [OF ok] by (simp add: tmap_size_def)
  then show ?thesis
    using True ent_copy_nth [of 0 "ring_len s" dst "tail s" "entry s"] dst tmap_okD(2,3,4) [OF ok]
    by (auto simp: mod_less)
next
  case False
  let ?hc = "alloc_size s - tail s"
  have len: "ring_len s = ?hc + head s" "head s < tail s"
    using False sz tmap_okD(3,4) [OF ok] by (auto simp: tmap_size_def split: if_splits)
  obtain e1 where e1: "ent_copy dst 0 (entry s) (tail s) ?hc = Inr e1" "length e1 = length dst"
    "\<And>j. j < length dst \<Longrightarrow> e1 ! j = (if j < ?hc then entry s ! (tail s + j) else dst ! j)"
    using ent_copy_nth [of 0 ?hc dst "tail s" "entry s"] dst len tmap_okD(2,4) [OF ok] by auto
  obtain e2 where e2: "ent_copy e1 ?hc (entry s) 0 (head s) = Inr e2" "length e2 = length dst"
    "\<And>j. j < length dst \<Longrightarrow> e2 ! j = (if ?hc \<le> j \<and> j < ?hc + head s then entry s ! (j - ?hc) else e1 ! j)"
    using ent_copy_nth [of ?hc "head s" e1 0 "entry s"] dst len tmap_okD(2,3) [OF ok] e1(2) by auto
  have "e2 ! i = entry s ! ((tail s + i) mod alloc_size s)" if "i < ring_len s" for i
  proof (cases "i < ?hc")
    case True
    then show ?thesis using e1(3) [of i] e2(3) [of i] that dst by simp
  next
    case False
    then have "(tail s + i) mod alloc_size s = tail s + i - alloc_size s"
      using that len tmap_okD(4) [OF ok] by (simp add: mod_if)
    then show ?thesis using False e2(3) [of i] that dst len tmap_okD(4) [OF ok] by (simp add: add.commute)
  qed
  then show ?thesis using False e1 e2 by auto
qed

text \<open>
  A copy of a readable ring is a readable ring with the same entries, and reading an entry
  of either by its index gives the entry of the list, or UNAVAILABLE beyond its end.
\<close>

theorem jsdrv_tmap_copy_get:
  assumes "tmap_ok t"
  shows "\<exists>t'. jsdrv_tmap_copy (Some t) = Inr (Some t') \<and> tmap_ok t' \<and> tmap_list t' = tmap_list t
    \<and> jsdrv_tmap_get (Some t') i =
        Inr (if i < length (tmap_list t) then (0, Some (tmap_list t ! i)) else (20, None))"
proof -
  have get: "jsdrv_tmap_get (Some u) i =
      Inr (if i < length (tmap_list u) then (0, Some (tmap_list u ! i)) else (20, None))" if "tmap_ok u" for u
  proof -
    have "(tail u + i) AND (alloc_size u - 1) = (tail u + i) mod alloc_size u"
      using that unfolding tmap_ok_def by (metis and_pow2)
    then show ?thesis
      using ent_ring [OF that, of i] by (auto simp: jsdrv_tmap_get_def simp del: tmap_list_nth)
  qed
  note d = tmap_okD [OF assms]
  have small: "ring_len t \<le> 2 ^ 63"
    using assms d(5) power_increasing [of _ 63 "2::nat"] by (fastforce simp: tmap_ok_def)
  note a = jsdrv_tmap_alloc_wf [OF small]
  have "\<exists>t'. jsdrv_tmap_copy (Some t) = Inr (Some t') \<and> tmap_ok t' \<and> tmap_list t' = tmap_list t"
  proof (cases "ring_len t = 0")
    case True
    then have "jsdrv_tmap_copy (Some t) = Inr (Some (jsdrv_tmap_alloc (ring_len t)))"
      using d(3,4) by (simp add: jsdrv_tmap_copy_def Let_def)
    then show ?thesis using a(1,2) tmap_wfD(9) True by (metis length_0_conv tmap_list_length)
  next
    case False
    let ?u = "jsdrv_tmap_alloc (ring_len t)"
    obtain e where e: "(if head t > tail t then ent_copy (entry ?u) 0 (entry t) (tail t) (ring_len t)
      else let head_count = alloc_size t - tail t in
           cbind (ent_copy (entry ?u) 0 (entry t) (tail t) head_count)
             (\<lambda>e. ent_copy e head_count (entry t) 0 (head t))) = Inr e"
      "length e = length (entry ?u)" "\<And>i. i < ring_len t \<Longrightarrow> e ! i = entry t ! ((tail t + i) mod alloc_size t)"
      using copy_entries [OF assms False, of "entry ?u"] a(3,5) by auto
    let ?c = "?u\<lparr>entry := e, tail := 0, head := ring_len t\<rparr>"
    have run: "jsdrv_tmap_copy (Some t) = Inr (Some ?c)"
      using e(1) False d(3,4) by (simp add: jsdrv_tmap_copy_def Let_def split del: if_split)
    have len: "ring_len ?c = ring_len t" using a(3) tmap_wfD(1) [OF a(1)] by (simp add: tmap_size_def)
    have ent: "e ! (i mod alloc_size ?u) = Some (tmap_list t ! i)" if "i < ring_len t" for i
      using e(3) [OF that] tmap_entry_Some [OF assms that] that a(3) by (simp del: tmap_list_nth)
    have "tmap_ok ?c"
      using a(1,3,5) e(2) len ent unfolding tmap_wf_def tmap_ok_def by (auto simp del: tmap_list_nth)
    moreover have "tmap_list ?c = tmap_list t"
      by (rule nth_equalityI) (use len ent in \<open>auto\<close>)
    ultimately show ?thesis using run by blast
  qed
  then show ?thesis using get by metis
qed

section \<open>Expiring entries\<close>

fun expire_list :: "u64 \<Rightarrow> time_map_s list \<Rightarrow> time_map_s list" where
  "expire_list sid (x # y # xs) =
     (if sid < offset_counter x \<or> offset_counter x < sid \<and> sid < offset_counter y then x # y # xs
      else expire_list sid (y # xs))"
| "expire_list sid xs = xs"

lemma expire_loop_list:
  assumes wf: "tmap_wf t"
  shows "i < ring_len t \<Longrightarrow> ring_len t - i \<le> n \<Longrightarrow>
    \<exists>j. expire_loop n t sid ((tail t + i) mod alloc_size t) = Inr ((tail t + j) mod alloc_size t)
      \<and> i \<le> j \<and> j < ring_len t \<and> expire_list sid (drop i (tmap_list t)) = drop j (tmap_list t)"
proof (induction n arbitrary: i)
  case (Suc n)
  note ok = tmap_wfD(9) [OF wf]
  have nxt: "ptr_incr ((tail t + i) mod alloc_size t) (alloc_size t) = (tail t + (i + 1)) mod alloc_size t"
    by (rule ring_succ [OF ok])
  have e: "ent t ((tail t + i) mod alloc_size t) = Inr (tmap_list t ! i)" by (rule ent_ring [OF ok Suc.prems(1)])
  show ?case
  proof (cases "i + 1 < ring_len t")
    case False
    then have i: "i + 1 = ring_len t" using Suc.prems by simp
    then have "drop i (tmap_list t) = [tmap_list t ! i]"
      using Cons_nth_drop_Suc [of i "tmap_list t"] by (simp del: tmap_list_nth)
    then show ?thesis using i nxt tmap_wfD(6) [OF wf] by (intro exI [of _ i]) (simp add: Let_def del: tmap_list_nth)
  next
    case True
    have ne: "(tail t + (i + 1)) mod alloc_size t \<noteq> head t" by (rule ring_index_less [OF wf True])
    have e': "ent t ((tail t + (i + 1)) mod alloc_size t) = Inr (tmap_list t ! (i + 1))" by (rule ent_ring [OF ok True])
    have dr: "drop i (tmap_list t) = tmap_list t ! i # tmap_list t ! (i + 1) # drop (i + 2) (tmap_list t)"
      "drop (i + 1) (tmap_list t) = tmap_list t ! (i + 1) # drop (i + 2) (tmap_list t)"
      using Cons_nth_drop_Suc [of i "tmap_list t"] Cons_nth_drop_Suc [of "i + 1" "tmap_list t"] True
      by (simp_all del: tmap_list_nth)
    let ?stop = "sid < offset_counter (tmap_list t ! i) \<or>
      offset_counter (tmap_list t ! i) < sid \<and> sid < offset_counter (tmap_list t ! (i + 1))"
    show ?thesis
    proof (cases ?stop)
      case stop: True
      then have "expire_loop (Suc n) t sid ((tail t + i) mod alloc_size t) = Inr ((tail t + i) mod alloc_size t)"
        using nxt ne e e' by (auto simp: Let_def simp del: tmap_list_nth)
      moreover have "expire_list sid (drop i (tmap_list t)) = drop i (tmap_list t)" using dr stop by auto
      ultimately show ?thesis using Suc.prems by blast
    next
      case False
      then have run: "expire_loop (Suc n) t sid ((tail t + i) mod alloc_size t)
          = expire_loop n t sid ((tail t + (i + 1)) mod alloc_size t)"
        using nxt ne e e' by (auto simp: Let_def simp del: tmap_list_nth)
      have "expire_list sid (drop i (tmap_list t)) = expire_list sid (drop (i + 1) (tmap_list t))"
        using dr False by auto
      moreover obtain j where "expire_loop n t sid ((tail t + (i + 1)) mod alloc_size t) = Inr ((tail t + j) mod alloc_size t)"
        "i + 1 \<le> j" "j < ring_len t" "expire_list sid (drop (i + 1) (tmap_list t)) = drop j (tmap_list t)"
      proof -
        have "ring_len t - (i + 1) \<le> n" using Suc.prems(2) True by simp
        then show ?thesis using Suc.IH [OF True] that by blast
      qed
      ultimately show ?thesis using run by (intro exI [of _ j]) (simp del: expire_loop.simps)
    qed
  qed
qed simp

lemma tmap_tail_advance:
  assumes wf: "tmap_wf t" and j: "j < ring_len t"
  shows "tmap_wf (t\<lparr>tail := (tail t + j) mod alloc_size t\<rparr>)"
    and "tmap_list (t\<lparr>tail := (tail t + j) mod alloc_size t\<rparr>) = drop j (tmap_list t)"
proof -
  note d = tmap_wfD [OF wf]
  let ?t = "t\<lparr>tail := (tail t + j) mod alloc_size t\<rparr>"
  have m: "(tail t + j) mod alloc_size t = (if tail t + j < alloc_size t then tail t + j else tail t + j - alloc_size t)"
    using d(4,5) j by (simp add: mod_if)
  have len: "ring_len ?t = ring_len t - j"
    using d(1,3,4) j by (simp add: tmap_size_def m split: if_splits) linarith+
  have idx: "(tail ?t + i) mod alloc_size ?t = (tail t + (j + i)) mod alloc_size t" for i
    by (simp add: mod_add_left_eq add.assoc)
  have e: "entry ?t ! ((tail ?t + i) mod alloc_size ?t) = Some (tmap_list t ! (j + i))" if "i < ring_len ?t" for i
    using tmap_entry_Some [OF d(9), of "j + i"] that len unfolding idx by (simp del: tmap_list_nth)
  show "tmap_wf ?t" using wf d(1) e unfolding tmap_wf_def tmap_ok_def by (auto simp del: tmap_list_nth)
  show "tmap_list ?t = drop j (tmap_list t)"
  proof (rule nth_equalityI)
    fix i
    assume "i < length (tmap_list ?t)"
    then have i: "i < ring_len ?t" by simp
    then show "tmap_list ?t ! i = drop j (tmap_list t) ! i"
      unfolding tmap_list_nth [OF i] e [OF i] using j by (simp del: tmap_list_nth)
  qed (simp add: len)
qed

lemma expire_refines:
  assumes wf: "tmap_wf t" and n: "ring_len t \<le> n"
  shows "\<exists>t'. jsdrv_tmap_expire_by_sample_id n (Some t) sid = Inr (Some t') \<and> tmap_wf t'
    \<and> tmap_list t' = expire_list sid (tmap_list t)"
proof (cases "ring_len t = 0")
  case True
  then have "head t = tail t" "tmap_list t = []"
    using tmap_wfD(3,4) [OF wf] by (auto simp: tmap_size_def tmap_list_def split: if_splits)
  then show ?thesis using wf by (simp add: jsdrv_tmap_expire_by_sample_id_def)
next
  case False
  obtain j where j: "expire_loop n t sid ((tail t + 0) mod alloc_size t) = Inr ((tail t + j) mod alloc_size t)"
    "j < ring_len t" "expire_list sid (drop 0 (tmap_list t)) = drop j (tmap_list t)"
    using expire_loop_list [OF wf, of 0 n sid] False n by auto
  have "head t \<noteq> tail t" using False by (auto simp: tmap_size_def split: if_splits)
  then show ?thesis
    using j tmap_tail_advance [OF wf j(2)] tmap_wfD(4) [OF wf] by (simp add: jsdrv_tmap_expire_by_sample_id_def)
qed

section \<open>Looking up an entry\<close>

text \<open>The reference lookup: the last entry whose key is not above \<open>x\<close>, else the first entry.\<close>

definition find_list :: "('e \<Rightarrow> 'k::linorder) \<Rightarrow> 'k \<Rightarrow> 'e list \<Rightarrow> 'e" where
  "find_list key x xs =
     (let ys = filter (\<lambda>e. key e \<le> x) xs in if ys = [] then hd xs else last ys)"

lemma find_list_at:
  assumes "sorted (map key xs)" and "j + 1 < length xs" and "key (xs ! j) \<le> x" and "x < key (xs ! (j + 1))"
  shows "find_list key x xs = xs ! j"
proof -
  have lo: "filter (\<lambda>e. key e \<le> x) (take (j + 1) xs) = take (j + 1) xs"
  proof (rule filter_True, rule ballI)
    fix e
    assume "e \<in> set (take (j + 1) xs)"
    then obtain i where "i < j + 1" "e = xs ! i" using assms(2) by (auto simp: in_set_conv_nth)
    then show "key e \<le> x" using assms sorted_nth_mono [OF assms(1), of i j] by simp
  qed
  have hi: "filter (\<lambda>e. key e \<le> x) (drop (j + 1) xs) = []"
  proof (rule filter_False, rule ballI)
    fix e
    assume "e \<in> set (drop (j + 1) xs)"
    then obtain i where "i < length xs - (j + 1)" "e = xs ! (j + 1 + i)" by (auto simp: in_set_conv_nth)
    moreover from this have "key (xs ! (j + 1)) \<le> key (xs ! (j + 1 + i))"
      using sorted_nth_mono [OF assms(1), of "j + 1" "j + 1 + i"] assms(2) by simp
    ultimately show "\<not> key e \<le> x" using assms(4) by (auto simp: not_le dest: less_le_trans)
  qed
  have "filter (\<lambda>e. key e \<le> x) xs = take (j + 1) xs"
    using lo hi filter_append [of "\<lambda>e. key e \<le> x" "take (j + 1) xs" "drop (j + 1) xs"] by simp
  also have "\<dots> = take j xs @ [xs ! j]" using assms(2) by (simp add: take_Suc_conv_app_nth)
  finally show ?thesis by (simp add: find_list_def)
qed

lemma find_list_low: "xs \<noteq> [] \<Longrightarrow> sorted (map key xs) \<Longrightarrow> x < key (hd xs) \<Longrightarrow> find_list key x xs = hd xs"
  by (cases xs) (force simp: find_list_def Let_def filter_empty_conv)+

lemma find_list_high: "xs \<noteq> [] \<Longrightarrow> key (last xs) \<le> x \<Longrightarrow> find_list key x xs = last xs"
  by (cases xs rule: rev_cases) (auto simp: find_list_def Let_def)

text \<open>
  A search that walks a ring one entry at a time, toward the entry it looks for, in at
  most as many rounds as there are entries. Both searches of the code are instances.
\<close>

locale ring_search =
  fixes key :: "time_map_s \<Rightarrow> 'k::linorder"
    and loop :: "nat \<Rightarrow> tmap_s \<Rightarrow> 'k \<Rightarrow> nat \<Rightarrow> time_map_s option c"
  assumes loop_Suc: "loop (Suc n) t x idx =
     cbind (ent t idx) (\<lambda>e.
     if x < key e then loop n t x (ptr_decr idx (alloc_size t))
     else
       cbind (ent t (ptr_incr idx (alloc_size t))) (\<lambda>e'.
       if key e' \<le> x then loop n t x (ptr_incr idx (alloc_size t)) else Inr (Some e)))"
begin

lemma loop_finds:
  assumes ok: "tmap_ok t" and srt: "sorted (map key (tmap_list t))" and j: "j + 1 < ring_len t"
    and key: "key (tmap_list t ! j) \<le> x" "x < key (tmap_list t ! (j + 1))"
  shows "k < ring_len t \<Longrightarrow> (if k \<le> j then j - k else k - j) < n \<Longrightarrow>
    loop n t x ((tail t + k) mod alloc_size t) = Inr (Some (tmap_list t ! j))"
proof (induction n arbitrary: k)
  case (Suc n)
  have mono: "key (tmap_list t ! a) \<le> key (tmap_list t ! b)" if "a \<le> b" "b < ring_len t" for a b
    using sorted_nth_mono [OF srt that(1)] that by (simp del: tmap_list_nth)
  have e: "ent t ((tail t + k) mod alloc_size t) = Inr (tmap_list t ! k)" by (rule ent_ring [OF ok Suc.prems(1)])
  consider (above) "j < k" | (at) "k = j" | (below) "k < j" by linarith
  then show ?case
  proof cases
    case above
    then have "x < key (tmap_list t ! k)" using mono [of "j + 1" k] Suc.prems(1) key by simp
    moreover have "loop n t x ((tail t + (k - 1)) mod alloc_size t) = Inr (Some (tmap_list t ! j))"
      by (rule Suc.IH) (use above Suc.prems in \<open>auto split: if_splits\<close>)
    ultimately show ?thesis using above e ring_pred [OF ok, of k] by (simp add: loop_Suc del: tmap_list_nth)
  next
    case at
    then have "\<not> x < key (tmap_list t ! k)" "\<not> key (tmap_list t ! (k + 1)) \<le> x"
      and "ent t ((tail t + (k + 1)) mod alloc_size t) = Inr (tmap_list t ! (k + 1))"
      using key j ent_ring [OF ok, of "k + 1"] by auto
    then show ?thesis unfolding loop_Suc e ring_succ [OF ok] by (simp only: cbind_simps if_False at)
  next
    case below
    then have "\<not> x < key (tmap_list t ! k)" "key (tmap_list t ! (k + 1)) \<le> x"
      using mono [of k j] mono [of "k + 1" j] j key(1) by (simp_all add: not_less del: tmap_list_nth)
    moreover have "ent t ((tail t + (k + 1)) mod alloc_size t) = Inr (tmap_list t ! (k + 1))"
      by (rule ent_ring [OF ok]) (use below j in simp)
    moreover have "loop n t x ((tail t + (k + 1)) mod alloc_size t) = Inr (Some (tmap_list t ! j))"
      by (rule Suc.IH) (use below j Suc.prems in \<open>auto split: if_splits\<close>)
    ultimately show ?thesis unfolding loop_Suc e ring_succ [OF ok] by (simp only: cbind_simps if_False if_True)
  qed
qed simp

lemma split_point:
  fixes xs :: "time_map_s list"
  assumes "key (hd xs) \<le> x" and "x < key (last xs)" and "xs \<noteq> []"
  shows "\<exists>j. j + 1 < length xs \<and> key (xs ! j) \<le> x \<and> x < key (xs ! (j + 1))"
  using assms
proof (induction xs)
  case (Cons a xs)
  then have xs: "xs \<noteq> []" by auto
  show ?case
  proof (cases "key (hd xs) \<le> x")
    case True
    then obtain j where "j + 1 < length xs" "key (xs ! j) \<le> x" "x < key (xs ! (j + 1))"
      using Cons xs by auto
    then show ?thesis by (intro exI [of _ "j + 1"]) simp
  next
    case False
    then show ?thesis using Cons.prems xs by (intro exI [of _ 0]) (simp add: hd_conv_nth)
  qed
qed simp

lemma search_correct:
  assumes ok: "tmap_ok t" and srt: "sorted (map key (tmap_list t))"
    and ends: "key (hd (tmap_list t)) < x" "x < key (last (tmap_list t))" and k: "k < ring_len t"
  shows "loop (ring_len t) t x ((tail t + k) mod alloc_size t) = Inr (Some (find_list key x (tmap_list t)))"
proof -
  have "tmap_list t \<noteq> []" using k by (auto simp flip: length_0_conv)
  then obtain j where j: "j + 1 < ring_len t" "key (tmap_list t ! j) \<le> x" "x < key (tmap_list t ! (j + 1))"
    using split_point [of "tmap_list t" x] ends by (metis less_imp_le tmap_list_length)
  have "(if k \<le> j then j - k else k - j) < ring_len t" using j(1) k by auto
  then show ?thesis
    using loop_finds [OF ok srt j k, of "ring_len t"] find_list_at [OF srt, of j x] j k by (simp del: tmap_list_nth)
qed

end

interpretation sample_search: ring_search offset_counter find_sample_id_loop
  by unfold_locales simp

interpretation time_search: ring_search offset_time find_timestamp_loop
  by unfold_locales simp

lemma first_index_in_range:
  assumes "0 \<le> a" "a \<le> b" "0 < b" "b < 2 ^ 64" "s \<le> 2 ^ 62" "0 < s"
  shows "\<exists>k < s. first_index s (int_to_f64 a) (int_to_f64 b) = Inr k"
proof -
  obtain t where "fp_trunc (f64_val (f64_mul (int_to_f64 (int s)) (f64_div (int_to_f64 a) (int_to_f64 b)))) = Some t"
    "0 \<le> t" "t \<le> 2 ^ 64 - 1"
    using f64_scale_trunc [OF assms(1-5)] by blast
  then have "f64_to_size (f64_mul (int_to_f64 (int s)) (f64_div (int_to_f64 a) (int_to_f64 b))) = Inr (nat t)"
    by (simp add: f64_to_size_def)
  then show ?thesis using assms(6) by (auto simp: first_index_def intro: exI [of _ "if nat t \<ge> s then s - 1 else nat t"])
qed

lemma find_list_first: "xs \<noteq> [] \<Longrightarrow> sorted_wrt (<) (map key xs) \<Longrightarrow> x \<le> key (hd xs) \<Longrightarrow> find_list key x xs = hd xs"
proof (cases xs)
  case (Cons a ys)
  assume "sorted_wrt (<) (map key xs)" "x \<le> key (hd xs)"
  then have "filter (\<lambda>e. key e \<le> x) ys = []" using Cons by (auto simp: filter_empty_conv)
  then show ?thesis using Cons by (simp add: find_list_def)
qed simp

lemma sorted_key_le_last: "sorted (map key xs) \<Longrightarrow> xs \<noteq> [] \<Longrightarrow> key (hd xs) \<le> (key (last xs) :: 'k::linorder)"
  by (cases xs) auto

text \<open>
  C10. Both searches return, for a readable ring that is not empty and whose entries are in
  increasing order, the last entry not after the value looked for, or the first entry when
  there is none: they never read outside the ring, the bound on the rounds is enough, and
  the floating point guess of the position always converts to an index.
\<close>

theorem jsdrv_tmap_find_correct:
  assumes "tmap_ok t" and "tmap_list t \<noteq> []" and "alloc_size t \<le> 2 ^ 62"
  shows "(sorted_wrt (<) (map offset_counter (tmap_list t)) \<longrightarrow>
      find_entry_by_sample_id t sample_id = Inr (find_list offset_counter sample_id (tmap_list t)))
    \<and> (sorted_wrt (<) (map offset_time (tmap_list t)) \<and>
        offset_time (last (tmap_list t)) - offset_time (hd (tmap_list t)) < 2 ^ 63 \<longrightarrow>
      find_entry_by_timestamp t timestamp = Inr (find_list offset_time timestamp (tmap_list t)))"
proof -
  let ?L = "tmap_list t"
  have n: "0 < ring_len t" "ring_len t \<le> 2 ^ 62"
    using assms tmap_okD(5) [OF assms(1)] by (auto simp flip: length_greater_0_conv)
  note e = ent_first [OF assms(1,2)] ent_last [OF assms(1,2)]
  have "find_entry_by_sample_id t sample_id = Inr (find_list offset_counter sample_id ?L)"
    if srt: "sorted_wrt (<) (map offset_counter ?L)"
  proof -
    have srt': "sorted (map offset_counter ?L)" using srt by (rule strict_sorted_imp_sorted)
    consider "sample_id \<le> offset_counter (hd ?L)" | "\<not> sample_id \<le> offset_counter (hd ?L)" "offset_counter (last ?L) \<le> sample_id"
      | (mid) "offset_counter (hd ?L) < sample_id" "sample_id < offset_counter (last ?L)" by fastforce
    then show ?thesis
    proof cases
      case mid
      let ?a = "uint (sample_id - offset_counter (hd ?L))" and ?b = "uint (offset_counter (last ?L) - offset_counter (hd ?L))"
      have "?a = uint sample_id - uint (offset_counter (hd ?L))"
        "?b = uint (offset_counter (last ?L)) - uint (offset_counter (hd ?L))"
        using mid by (auto intro!: uint_sub_lem [THEN iffD1] simp: word_less_def)
      moreover have "uint (offset_counter (last ?L)) < 2 ^ 64" "0 \<le> uint (offset_counter (hd ?L))"
        using uint_bounded [of "offset_counter (last ?L)"] by simp_all
      ultimately have "0 \<le> ?a" "?a \<le> ?b" "0 < ?b" "?b < 2 ^ 64"
        using mid unfolding word_less_def by linarith+
      then obtain k where k: "k < ring_len t" "first_index (ring_len t) (int_to_f64 ?a) (int_to_f64 ?b) = Inr k"
        using first_index_in_range [of ?a ?b "ring_len t"] n by blast
      then show ?thesis
        using mid e sample_search.search_correct [OF assms(1) srt' mid k(1)]
        by (simp add: find_entry_by_sample_id_def Let_def not_le)
    qed (use e assms(2) srt find_list_first [of ?L offset_counter sample_id] find_list_high [of ?L offset_counter sample_id]
        in \<open>simp_all add: find_entry_by_sample_id_def\<close>)
  qed
  moreover have "find_entry_by_timestamp t timestamp = Inr (find_list offset_time timestamp ?L)"
    if srt: "sorted_wrt (<) (map offset_time ?L)" and rng: "offset_time (last ?L) - offset_time (hd ?L) < 2 ^ 63"
  proof -
    have srt': "sorted (map offset_time ?L)" using srt by (rule strict_sorted_imp_sorted)
    consider "timestamp \<le> offset_time (hd ?L)" | "\<not> timestamp \<le> offset_time (hd ?L)" "offset_time (last ?L) \<le> timestamp"
      | (mid) "offset_time (hd ?L) < timestamp" "timestamp < offset_time (last ?L)" by linarith
    then show ?thesis
    proof cases
      case mid
      let ?a = "timestamp - offset_time (hd ?L)" and ?b = "offset_time (last ?L) - offset_time (hd ?L)"
      have ab: "0 \<le> ?a" "?a \<le> ?b" "0 < ?b" "?b < 2 ^ 64" "?a < 2 ^ 63" using mid rng by auto
      then have chk: "i64_chk ?a = Inr ?a" "i64_chk ?b = Inr ?b" using rng by (simp_all add: i64_chk_def)
      obtain k where k: "k < ring_len t" "first_index (ring_len t) (int_to_f64 ?a) (int_to_f64 ?b) = Inr k"
        using first_index_in_range [OF ab(1-4)] n by blast
      then show ?thesis
        using mid e chk time_search.search_correct [OF assms(1) srt' mid k(1)]
        by (simp add: find_entry_by_timestamp_def Let_def)
    qed (use e assms(2) srt find_list_first [of ?L offset_time timestamp] find_list_high [of ?L offset_time timestamp]
        in \<open>simp_all add: find_entry_by_timestamp_def\<close>)
  qed
  ultimately show ?thesis by blast
qed

section \<open>Expiring keeps the mapping\<close>

lemma expire_list_find:
  assumes "sorted_wrt (<) (map offset_counter xs)" and "sid \<notin> offset_counter ` set xs" and "sid \<le> x"
  shows "find_list offset_counter x (expire_list sid xs) = find_list offset_counter x xs"
  using assms
proof (induction sid xs rule: expire_list.induct)
  case (1 sid a b xs)
  show ?case
  proof (cases "sid < offset_counter a \<or> offset_counter a < sid \<and> sid < offset_counter b")
    case False
    then have "offset_counter b \<le> sid" using 1 by auto
    then have "offset_counter b \<le> x" using 1 by simp
    moreover have "find_list offset_counter x (expire_list sid (b # xs)) = find_list offset_counter x (b # xs)"
      using 1 False by auto
    ultimately show ?thesis using False by (auto simp: find_list_def)
  qed auto
qed simp_all

lemma expire_list_suffix: "\<exists>ys. xs = ys @ expire_list sid xs"
proof (induction sid xs rule: expire_list.induct)
  case (1 sid a b xs)
  show ?case
  proof (cases "sid < offset_counter a \<or> offset_counter a < sid \<and> sid < offset_counter b")
    case False
    then obtain ys where "b # xs = ys @ expire_list sid (b # xs)" using 1 by blast
    then show ?thesis using False by (intro exI [of _ "a # ys"]) auto
  qed auto
qed simp_all

text \<open>
  C11. Expiring entries of a well-formed ring ends within as many rounds as there are
  entries, and removes a prefix of the list. When no entry stands exactly at the given
  sample, every sample from it on keeps the entry that maps it to time.
\<close>

theorem jsdrv_tmap_expire_keeps:
  assumes "tmap_wf t" and "ring_len t \<le> n" and "sorted_wrt (<) (map offset_counter (tmap_list t))"
    and "sid \<notin> offset_counter ` set (tmap_list t)"
  shows "\<exists>t' ys. jsdrv_tmap_expire_by_sample_id n (Some t) sid = Inr (Some t') \<and> tmap_wf t'
    \<and> tmap_list t = ys @ tmap_list t'
    \<and> (\<forall>x \<ge> sid. find_list offset_counter x (tmap_list t') = find_list offset_counter x (tmap_list t))"
proof -
  obtain t' where t': "jsdrv_tmap_expire_by_sample_id n (Some t) sid = Inr (Some t')" "tmap_wf t'"
    "tmap_list t' = expire_list sid (tmap_list t)"
    using expire_refines [OF assms(1,2)] by blast
  moreover obtain ys where "tmap_list t = ys @ expire_list sid (tmap_list t)" using expire_list_suffix by blast
  ultimately show ?thesis using expire_list_find [OF assms(3,4)] by metis
qed

definition demo_tm :: "nat \<Rightarrow> time_map_s" where
  "demo_tm i = \<lparr>offset_time = int i * 2 ^ 30, offset_counter = of_nat (i * 1000), counter_rate = 0x408F400000000000\<rparr>"

definition demo_ring :: "nat \<Rightarrow> tmap_s" where
  "demo_ring n = \<lparr>alloc_size = 8, head = n, tail = 0, entry = map (\<lambda>i. Some (demo_tm (i + 1))) [0..<8]\<rparr>"

lemma demo_ring_len: "n < 8 \<Longrightarrow> ring_len (demo_ring n) = n"
  by (simp add: demo_ring_def tmap_size_def)

lemma demo_ring_wf: "n < 8 \<Longrightarrow> tmap_wf (demo_ring n)"
  unfolding tmap_wf_def tmap_ok_def demo_ring_len
  by (auto simp: demo_ring_def intro!: exI [of _ 3])

lemma demo_ring_list: "n < 8 \<Longrightarrow> tmap_list (demo_ring n) = map (\<lambda>i. demo_tm (i + 1)) [0..<n]"
  unfolding tmap_list_def demo_ring_len by (auto simp: demo_ring_def intro!: nth_equalityI)

theorem jsdrv_tmap_add_refines_witness:
  "\<exists>t'. jsdrv_tmap_add (Some (demo_ring 7)) (Some (demo_tm 8)) = Inr (Some t')"
  using jsdrv_tmap_add_refines [of "demo_ring 7" "demo_tm 8"] demo_ring_wf [of 7] by (auto simp: demo_ring_def)

theorem jsdrv_tmap_copy_get_witness:
  "\<exists>t'. jsdrv_tmap_copy (Some (demo_ring 4)) = Inr (Some t') \<and> jsdrv_tmap_get (Some t') 2 = Inr (0, Some (demo_tm 3))"
proof -
  have "tmap_list (demo_ring 4) ! 2 = demo_tm 3"
    using demo_ring_list [of 4] by (simp del: tmap_list_nth) (simp add: eval_nat_numeral)
  then show ?thesis
    using jsdrv_tmap_copy_get [of "demo_ring 4" 2] demo_ring_wf [of 4] demo_ring_len [of 4]
    by (auto simp: tmap_wf_def simp del: tmap_list_nth)
qed

theorem jsdrv_tmap_expire_keeps_witness:
  "\<exists>t'. jsdrv_tmap_expire_by_sample_id 4 (Some (demo_ring 4)) 2500 = Inr (Some t')
    \<and> find_list offset_counter 2700 (tmap_list t') = find_list offset_counter 2700 (tmap_list (demo_ring 4))"
proof -
  have "sorted_wrt (<) (map offset_counter (tmap_list (demo_ring 4)))
    \<and> 2500 \<notin> offset_counter ` set (tmap_list (demo_ring 4))"
    unfolding demo_ring_list [of 4, simplified] by code_simp
  then show ?thesis
    using jsdrv_tmap_expire_keeps [of "demo_ring 4" 4 2500] demo_ring_wf [of 4] demo_ring_len [of 4] by force
qed

theorem jsdrv_tmap_find_correct_witness:
  "find_entry_by_sample_id (demo_ring 4) 2700 = Inr (demo_tm 2)
   \<and> find_entry_by_timestamp (demo_ring 4) (3 * 2 ^ 30 + 5) = Inr (demo_tm 3)"
proof -
  have l: "sorted_wrt (<) (map offset_counter (tmap_list (demo_ring 4)))
    \<and> sorted_wrt (<) (map offset_time (tmap_list (demo_ring 4)))
    \<and> offset_time (last (tmap_list (demo_ring 4))) - offset_time (hd (tmap_list (demo_ring 4))) < 2 ^ 63
    \<and> tmap_list (demo_ring 4) \<noteq> [] \<and> find_list offset_counter 2700 (tmap_list (demo_ring 4)) = demo_tm 2
    \<and> find_list offset_time (3 * 2 ^ 30 + 5) (tmap_list (demo_ring 4)) = demo_tm 3"
    unfolding demo_ring_list [of 4, simplified] by code_simp
  have "tmap_ok (demo_ring 4)" "alloc_size (demo_ring 4) \<le> 2 ^ 62"
    using demo_ring_wf [of 4] by (simp_all add: tmap_wf_def demo_ring_def)
  with l show ?thesis
    using jsdrv_tmap_find_correct [of "demo_ring 4" 2700 "3 * 2 ^ 30 + 5"] by simp
qed

section \<open>Writing to a copy\<close>

definition demo_copy :: "nat \<Rightarrow> tmap_s" where
  "demo_copy n = \<lparr>alloc_size = n, head = n, tail = 0, entry = map (\<lambda>i. Some (demo_tm (i + 1))) [0..<n]\<rparr>"

lemma demo_copy_loops:
  "i < 2 \<Longrightarrow> expire_loop n (demo_copy 2) 9000 i = Inl OutOfFuel"
proof (induction n arbitrary: i)
  case (Suc n)
  have h: "head (demo_copy 2) = 2" "alloc_size (demo_copy 2) = 2" by (simp_all add: demo_copy_def)
  have e: "ent (demo_copy 2) 0 = Inr (demo_tm 1)" "ent (demo_copy 2) 1 = Inr (demo_tm 2)" by code_simp+
  have p: "ptr_incr 0 2 = 1" "ptr_incr 1 2 = 0" by code_simp+
  have c: "offset_counter (demo_tm 1) = 1000" "offset_counter (demo_tm 2) = 2000" by (simp_all add: demo_tm_def)
  consider "i = 0" | "i = 1" using Suc.prems by linarith
  then show ?case
    using Suc.IH [of 0] Suc.IH [of 1] by cases (simp_all add: h e p c Let_def del: One_nat_def)
qed simp


end
