(* ===== verification/Stdmsg.thy ===== *)
theory Stdmsg
  imports Union
begin

text \<open>
  The messages between the host and a Minibitty device that the JS320 drivers use
  (\<^verbatim>\<open>include_private/mb/stdmsg.h\<close>): the memory transaction \<^verbatim>\<open>mb_stdmsg_mem_s\<close> with its little-endian
  layout, the values that carry them, and the calls the drivers make into \<^verbatim>\<open>mb_device\<close>, as
  events in the order they are made.
\<close>

section \<open>Bytes\<close>

definition get_u16 :: "u8 list \<Rightarrow> nat \<Rightarrow> u16" where
  "get_u16 b i = ucast (b ! i) OR push_bit 8 (ucast (b ! (i + 1)))"

definition get_u32 :: "u8 list \<Rightarrow> nat \<Rightarrow> u32" where
  "get_u32 b i = ucast (b ! i) OR push_bit 8 (ucast (b ! (i + 1)))
     OR push_bit 16 (ucast (b ! (i + 2))) OR push_bit 24 (ucast (b ! (i + 3)))"

definition put_u16 :: "u16 \<Rightarrow> u8 list" where
  "put_u16 w = [ucast w, ucast (drop_bit 8 w)]"

definition put_u32 :: "u32 \<Rightarrow> u8 list" where
  "put_u32 w = [ucast w, ucast (drop_bit 8 w), ucast (drop_bit 16 w), ucast (drop_bit 24 w)]"

section \<open>Memory transactions\<close>

datatype mem_op = OP_READ | OP_WRITE | OP_ERASE | OP_CUSTOM nat

fun mem_op_code :: "mem_op \<Rightarrow> u8" where
  "mem_op_code OP_READ = 1"
| "mem_op_code OP_WRITE = 2"
| "mem_op_code OP_ERASE = 3"
| "mem_op_code (OP_CUSTOM n) = of_nat (8 + n)"

record mem_s =
  transaction_id :: u32
  target :: u8
  operation :: u8
  mflags :: u8
  status :: u8
  timeout_ms :: u16
  offset :: u32
  mlength :: u32
  delay_us :: u32
  mdata :: "u8 list"

definition mem_clr :: mem_s where
  "mem_clr = \<lparr>transaction_id = 0, target = 0, operation = 0, mflags = 0, status = 0, timeout_ms = 0,
     offset = 0, mlength = 0, delay_us = 0, mdata = []\<rparr>"

definition MEM_SIZE :: nat where "MEM_SIZE = 24"
definition HDR_SIZE :: nat where "HDR_SIZE = 8"

definition mem_bytes :: "mem_s \<Rightarrow> u8 list" where
  "mem_bytes m = put_u32 (transaction_id m) @ [target m, operation m, mflags m, status m]
     @ put_u16 (timeout_ms m) @ [0, 0] @ put_u32 (offset m) @ put_u32 (mlength m) @ put_u32 (delay_us m)
     @ mdata m"

definition mem_of :: "u8 list \<Rightarrow> nat \<Rightarrow> mem_s" where
  "mem_of b i = \<lparr>transaction_id = get_u32 b i, target = b ! (i + 4), operation = b ! (i + 5),
     mflags = b ! (i + 6), status = b ! (i + 7), timeout_ms = get_u16 b (i + 8), offset = get_u32 b (i + 12),
     mlength = get_u32 b (i + 16), delay_us = get_u32 b (i + 20), mdata = drop (i + MEM_SIZE) b\<rparr>"

text \<open>A received binary value: its type and bytes; the size field is their number.\<close>

record bin_value =
  bv_type :: union_e
  bv_bin :: "u8 list"

definition hdr_offset :: "bin_value \<Rightarrow> nat" where
  "hdr_offset v = (if bv_type v = U_STDMSG then HDR_SIZE else 0)"

section \<open>Calls into the device layer\<close>

datatype call =
    To_device string mem_s
  | To_device_u8 string u8
  | To_device_u32 string u32
  | To_frontend string "u8 list"
  | Set_timeout int

section \<open>Layout\<close>

lemma get_put_u16: "length p = n \<Longrightarrow> get_u16 (p @ put_u16 w @ r) n = w"
  by (rule bit_word_eqI)
     (auto simp: get_u16_def put_u16_def nth_append bit_simps bit_or_iff bit_push_bit_iff bit_unsigned_iff bit_drop_bit_eq)

lemma get_put_u32: "length p = n \<Longrightarrow> get_u32 (p @ put_u32 w @ r) n = w"
proof (rule bit_word_eqI)
  fix k
  assume p: "length p = n" and "k < LENGTH(32)"
  then consider "k < 8" | "8 \<le> k" "k < 16" | "16 \<le> k" "k < 24" | "24 \<le> k" "k < 32" by fastforce
  then show "bit (get_u32 (p @ put_u32 w @ r) n) k = bit w k"
    by cases (use p in \<open>auto simp: get_u32_def put_u32_def nth_append bit_simps\<close>)
qed

text \<open>
  Reading a memory transaction back from its bytes, with or without a message header
  before them, gives the transaction.
\<close>

theorem mem_of_bytes:
  assumes "length p = i"
  shows "mem_of (p @ mem_bytes m) i = m"
proof -
  let ?t = "put_u32 (transaction_id m)" and ?b = "[target m, operation m, mflags m, status m]"
  let ?w = "put_u16 (timeout_ms m)" and ?o = "put_u32 (offset m)" and ?l = "put_u32 (mlength m)"
  let ?d = "put_u32 (delay_us m)" and ?x = "p @ mem_bytes m"
  have len [simp]: "length (put_u32 w) = 4" "length (put_u16 v) = 2" for w v
    by (simp_all add: put_u32_def put_u16_def)
  have "get_u32 ?x i = transaction_id m"
    unfolding mem_bytes_def append_assoc by (rule get_put_u32 [OF assms])
  moreover have "get_u16 ?x (i + 8) = timeout_ms m"
    using get_put_u16 [of "p @ ?t @ ?b" "i + 8" "timeout_ms m"] assms by (simp add: mem_bytes_def)
  moreover have "get_u32 ?x (i + 12) = offset m"
    using get_put_u32 [of "p @ ?t @ ?b @ ?w @ [0, 0]" "i + 12" "offset m"] assms by (simp add: mem_bytes_def)
  moreover have "get_u32 ?x (i + 16) = mlength m"
    using get_put_u32 [of "p @ ?t @ ?b @ ?w @ [0, 0] @ ?o" "i + 16" "mlength m"] assms by (simp add: mem_bytes_def)
  moreover have "get_u32 ?x (i + 20) = delay_us m"
    using get_put_u32 [of "p @ ?t @ ?b @ ?w @ [0, 0] @ ?o @ ?l" "i + 20" "delay_us m"] assms by (simp add: mem_bytes_def)
  moreover have "?x ! (i + 4) = target m" "?x ! (i + 5) = operation m" "?x ! (i + 6) = mflags m" "?x ! (i + 7) = status m"
    using assms by (simp_all add: mem_bytes_def nth_append)
  moreover have "drop (i + MEM_SIZE) ?x = mdata m"
    using assms by (simp add: mem_bytes_def MEM_SIZE_def)
  ultimately show ?thesis by (simp add: mem_of_def)
qed

theorem mem_of_bytes_witness: "mem_of ([0, 0, 0, 0, 0, 0, 0, 0] @ mem_bytes mem_clr) 8 = mem_clr"
  by (rule mem_of_bytes) simp

end
