(* ===== verification/Jtag.thy ===== *)
theory Jtag
  imports Stdmsg
begin

text \<open>
  Programming of the AES key fuses of the JS320 FPGA over JTAG (\<^verbatim>\<open>src/devices/js320/js320_jtag.c\<close>):
  the table-driven state machine, its entry functions and guards, and the handlers the
  upper driver calls. The time of day is the argument \<open>now\<close>. Commands to the device and
  responses to the host are appended to \<open>jt_calls\<close>.
\<close>

section \<open>Data\<close>

definition TAP_TEST_LOGIC_RESET :: u32 where "TAP_TEST_LOGIC_RESET = 0"
definition TAP_RUN_TEST_IDLE :: u32 where "TAP_RUN_TEST_IDLE = 1"
definition TAP_SHIFT_DR :: u32 where "TAP_SHIFT_DR = 4"
definition TAP_SHIFT_IR :: u32 where "TAP_SHIFT_IR = 11"

definition ECP5_LFE5U25_IDCODE :: u32 where "ECP5_LFE5U25_IDCODE = 0x41111043"
definition ECP5_READ_ID :: u8 where "ECP5_READ_ID = 0xE0"
definition ECP5_ISC_ENABLE :: u8 where "ECP5_ISC_ENABLE = 0xC6"
definition ECP5_ISC_DISABLE :: u8 where "ECP5_ISC_DISABLE = 0x26"
definition ECP5_LSC_READ_STATUS :: u8 where "ECP5_LSC_READ_STATUS = 0x3C"
definition ECP5_LSC_INIT_ADDRESS :: u8 where "ECP5_LSC_INIT_ADDRESS = 0x46"
definition ECP5_LSC_READ_CIPHER_KEY :: u8 where "ECP5_LSC_READ_CIPHER_KEY = 0xF4"
definition ECP5_LSC_PROG_CIPHER_KEY :: u8 where "ECP5_LSC_PROG_CIPHER_KEY = 0xF3"
definition ECP5_LSC_PROG_FEABITS :: u8 where "ECP5_LSC_PROG_FEABITS = 0xF8"
definition ECP5_LSC_READ_FEABITS :: u8 where "ECP5_LSC_READ_FEABITS = 0xFB"

definition ECP5_BLANK_CIPHER_KEY :: "u8 list" where
  "ECP5_BLANK_CIPHER_KEY =
     [0xD5, 0x53, 0x51, 0x69, 0x0F, 0xF2, 0x17, 0xAE, 0x6C, 0xEA, 0xA3, 0x45, 0xB4, 0xF1, 0x43, 0x00]"

definition ECP5_AES_FLAG_KEY_LOCK :: u32 where "ECP5_AES_FLAG_KEY_LOCK = 1"
definition ECP5_AES_FLAG_ENCRYPT_ONLY :: u32 where "ECP5_AES_FLAG_ENCRYPT_ONLY = 2"

abbreviation JS320_JTAG_OP_GOTO_STATE :: mem_op where "JS320_JTAG_OP_GOTO_STATE \<equiv> OP_CUSTOM 0"
abbreviation JS320_JTAG_OP_SHIFT :: mem_op where "JS320_JTAG_OP_SHIFT \<equiv> OP_CUSTOM 1"

datatype aes_state_e =
    AES_IDLE | AES_READ_IDCODE | AES_ISC_ENABLE | AES_READ_STATUS | AES_INIT_ADDRESS | AES_READ_CIPHER
  | AES_PROG_CIPHER | AES_KEY_BURN_WAIT | AES_PROG_EO | AES_EO_BURN_WAIT | AES_VERIFY_EO | AES_PROG_KL
  | AES_KL_BURN_WAIT | AES_VERIFY_KL | AES_ISC_DISABLE | AES_DONE

datatype aes_event_e = AES_EV_CMD | AES_EV_JTAG_RSP | AES_EV_TIMER

record jtag_s =
  aes_state :: aes_state_e
  aes_transaction_id :: u32
  aes_jtag_cmd_id :: u32
  aes_flags :: u32
  aes_key :: "u8 list"
  aes_error_code :: int
  aes_expected_responses :: u8
  aes_current_response_idx :: u8
  aes_target_response_idx :: u8
  aes_response_buf :: "u8 list"
  aes_response_size :: u8
  jt_dev :: bool
  jt_calls :: "call list"

definition jt_call :: "call \<Rightarrow> jtag_s \<Rightarrow> jtag_s" where
  "jt_call c s = s\<lparr>jt_calls := jt_calls s @ [c]\<rparr>"

section \<open>JTAG command helpers\<close>

definition jtag_send :: "mem_s \<Rightarrow> jtag_s \<Rightarrow> jtag_s" where
  "jtag_send m s =
     (let n = aes_jtag_cmd_id s + 1
      in jt_call (To_device ''c/jtag/!cmd'' (m\<lparr>transaction_id := n\<rparr>)) (s\<lparr>aes_jtag_cmd_id := n\<rparr>))"

definition jtag_goto :: "u32 \<Rightarrow> jtag_s \<Rightarrow> jtag_s" where
  "jtag_goto st = jtag_send (mem_clr\<lparr>operation := mem_op_code JS320_JTAG_OP_GOTO_STATE, offset := st\<rparr>)"

definition jtag_wait_us :: "u32 \<Rightarrow> jtag_s \<Rightarrow> jtag_s" where
  "jtag_wait_us us =
     jtag_send (mem_clr\<lparr>operation := mem_op_code JS320_JTAG_OP_GOTO_STATE, offset := TAP_RUN_TEST_IDLE, delay_us := us\<rparr>)"

definition jtag_shift :: "u8 list \<Rightarrow> nat \<Rightarrow> bool \<Rightarrow> jtag_s \<Rightarrow> jtag_s" where
  "jtag_shift data bits must_end s =
     (let s = jtag_send (mem_clr\<lparr>operation := mem_op_code JS320_JTAG_OP_SHIFT, mflags := (if must_end then 1 else 0),
                mlength := of_nat bits, mdata := take ((bits + 7) div 8) data\<rparr>) s
      in s\<lparr>aes_expected_responses := aes_expected_responses s + 1\<rparr>)"

definition aes_begin_batch :: "u8 \<Rightarrow> u8 \<Rightarrow> jtag_s \<Rightarrow> jtag_s" where
  "aes_begin_batch target_idx tsize s =
     s\<lparr>aes_expected_responses := 0, aes_current_response_idx := 0, aes_target_response_idx := target_idx,
       aes_response_size := tsize, aes_response_buf := replicate 16 0\<rparr>"

definition zeros :: "nat \<Rightarrow> u8 list" where "zeros n = replicate n 0"

definition ecp_jtag_cmd :: "u8 \<Rightarrow> jtag_s \<Rightarrow> jtag_s" where
  "ecp_jtag_cmd cmd s =
     (let s = jtag_goto TAP_SHIFT_IR s;
          s = jtag_shift [cmd] 8 True s;
          s = jtag_goto TAP_RUN_TEST_IDLE s
      in jtag_shift (zeros 4) 32 False s)"

definition ecp_jtag_cmd8 :: "u8 \<Rightarrow> u8 \<Rightarrow> jtag_s \<Rightarrow> jtag_s" where
  "ecp_jtag_cmd8 cmd operand s =
     (let s = jtag_goto TAP_SHIFT_IR s;
          s = jtag_shift [cmd] 8 True s;
          s = jtag_goto TAP_SHIFT_DR s;
          s = jtag_shift [operand] 8 True s;
          s = jtag_goto TAP_RUN_TEST_IDLE s
      in jtag_shift (zeros 4) 32 False s)"

section \<open>State entry functions\<close>

definition on_read_idcode :: "jtag_s \<Rightarrow> jtag_s" where
  "on_read_idcode s =
     (let s = aes_begin_batch 1 4 s;
          s = jtag_goto TAP_TEST_LOGIC_RESET s;
          s = jtag_goto TAP_SHIFT_IR s;
          s = jtag_shift [ECP5_READ_ID] 8 True s;
          s = jtag_goto TAP_SHIFT_DR s
      in jtag_shift (zeros 4) 32 True s)"

definition on_isc_enable :: "jtag_s \<Rightarrow> jtag_s" where
  "on_isc_enable s =
     jtag_wait_us 10000 (ecp_jtag_cmd8 ECP5_ISC_ENABLE 0x02 (aes_begin_batch 0xFF 0 s))"

definition on_read_status :: "jtag_s \<Rightarrow> jtag_s" where
  "on_read_status s =
     (let s = aes_begin_batch 2 4 s;
          s = jtag_goto TAP_SHIFT_IR s;
          s = jtag_shift [ECP5_LSC_READ_STATUS] 8 True s;
          s = jtag_goto TAP_RUN_TEST_IDLE s;
          s = jtag_shift (zeros 1) 2 False s;
          s = jtag_wait_us 1000 s;
          s = jtag_goto TAP_SHIFT_DR s
      in jtag_shift (zeros 4) 32 True s)"

definition on_init_address :: "jtag_s \<Rightarrow> jtag_s" where
  "on_init_address s =
     jtag_wait_us 10000 (ecp_jtag_cmd8 ECP5_LSC_INIT_ADDRESS 0x00 (aes_begin_batch 0xFF 0 s))"

definition on_read_cipher :: "jtag_s \<Rightarrow> jtag_s" where
  "on_read_cipher s =
     (let s = aes_begin_batch 2 16 s;
          s = jtag_goto TAP_SHIFT_IR s;
          s = jtag_shift [ECP5_LSC_READ_CIPHER_KEY] 8 True s;
          s = jtag_goto TAP_RUN_TEST_IDLE s;
          s = jtag_shift (zeros 1) 5 False s;
          s = jtag_wait_us 1000 s;
          s = jtag_goto TAP_SHIFT_DR s
      in jtag_shift (zeros 16) 128 True s)"

definition on_prog_cipher :: "jtag_s \<Rightarrow> jtag_s" where
  "on_prog_cipher s =
     (let s = aes_begin_batch 0xFF 0 s;
          s = jtag_goto TAP_SHIFT_IR s;
          s = jtag_shift [ECP5_LSC_PROG_CIPHER_KEY] 8 True s;
          key_tdi = rev (aes_key s);
          s = jtag_goto TAP_SHIFT_DR s;
          s = jtag_shift key_tdi 128 True s;
          s = jtag_goto TAP_RUN_TEST_IDLE s
      in jtag_shift (zeros 13) 100 False s)"

definition on_key_burn_wait :: "int \<Rightarrow> jtag_s \<Rightarrow> jtag_s" where
  "on_key_burn_wait now = jt_call (Set_timeout (now + 5 * 2 ^ 30))"

definition on_prog_feabits :: "u8 \<Rightarrow> jtag_s \<Rightarrow> jtag_s" where
  "on_prog_feabits v s =
     (let s = aes_begin_batch 0xFF 0 s;
          s = jtag_goto TAP_SHIFT_IR s;
          s = jtag_shift [ECP5_LSC_PROG_FEABITS] 8 True s;
          s = jtag_goto TAP_SHIFT_DR s;
          s = jtag_shift [v, 0] 16 True s;
          s = jtag_goto TAP_RUN_TEST_IDLE s
      in jtag_shift (zeros 1) 2 False s)"

definition on_prog_eo :: "jtag_s \<Rightarrow> jtag_s" where "on_prog_eo = on_prog_feabits 0x02"

definition on_eo_burn_wait :: "int \<Rightarrow> jtag_s \<Rightarrow> jtag_s" where
  "on_eo_burn_wait now = jt_call (Set_timeout (now + 2 * 2 ^ 30))"

definition on_read_feabits :: "jtag_s \<Rightarrow> jtag_s" where
  "on_read_feabits s =
     (let s = aes_begin_batch 2 2 s;
          s = jtag_goto TAP_SHIFT_IR s;
          s = jtag_shift [ECP5_LSC_READ_FEABITS] 8 True s;
          s = jtag_goto TAP_RUN_TEST_IDLE s;
          s = jtag_shift (zeros 1) 2 False s;
          s = jtag_wait_us 1000 s;
          s = jtag_goto TAP_SHIFT_DR s
      in jtag_shift (zeros 2) 16 True s)"

definition on_prog_kl :: "jtag_s \<Rightarrow> jtag_s" where "on_prog_kl = on_prog_feabits 0x01"

definition on_kl_burn_wait :: "int \<Rightarrow> jtag_s \<Rightarrow> jtag_s" where
  "on_kl_burn_wait now = jt_call (Set_timeout (now + 2 * 2 ^ 30))"

definition on_isc_disable :: "jtag_s \<Rightarrow> jtag_s" where
  "on_isc_disable s =
     (let s = aes_begin_batch 0xFF 0 s;
          s = ecp_jtag_cmd ECP5_ISC_DISABLE s;
          s = jtag_wait_us 50000 s;
          s = jtag_wait_us 50000 s;
          s = jtag_wait_us 50000 s;
          s = jtag_wait_us 50000 s;
          s = ecp_jtag_cmd 0xFF s
      in jtag_wait_us 1000 s)"

definition aes_send_rsp :: "int \<Rightarrow> jtag_s \<Rightarrow> jtag_s" where
  "aes_send_rsp st s =
     jt_call (To_frontend ''h/jtag/aes/!rsp'' (put_u32 (aes_transaction_id s) @ put_u32 (of_int st))) s"

definition on_done :: "jtag_s \<Rightarrow> jtag_s" where
  "on_done s = (aes_send_rsp (aes_error_code s) s)\<lparr>aes_state := AES_IDLE\<rparr>"

section \<open>Guards\<close>

type_synonym guard = "jtag_s \<Rightarrow> bool \<times> jtag_s"

definition guard_fail :: guard where
  "guard_fail s = (False, s\<lparr>aes_error_code := ec IO\<rparr>)"

definition guard_idcode_ok :: guard where
  "guard_idcode_ok s =
     (if get_u32 (aes_response_buf s) 0 = ECP5_LFE5U25_IDCODE then (True, s) else guard_fail s)"

definition guard_status_ok :: guard where
  "guard_status_ok s =
     (let st = get_u32 (aes_response_buf s) 0 in
      if st AND 0x00024040 \<noteq> 0 then guard_fail s
      else if st AND 0x00003C00 \<noteq> 0x00000C00 then guard_fail s
      else (True, s))"

definition guard_cipher_blank :: guard where
  "guard_cipher_blank s =
     (if take 16 (aes_response_buf s) \<noteq> ECP5_BLANK_CIPHER_KEY then guard_fail s else (True, s))"

definition guard_encrypt_only :: guard where
  "guard_encrypt_only s = (aes_flags s AND ECP5_AES_FLAG_ENCRYPT_ONLY \<noteq> 0, s)"

definition guard_key_lock :: guard where
  "guard_key_lock s = (aes_flags s AND ECP5_AES_FLAG_KEY_LOCK \<noteq> 0, s)"

definition guard_eo_ok_and_kl :: guard where
  "guard_eo_ok_and_kl s =
     (if aes_response_buf s ! 0 AND 0x02 \<noteq> 0x02 then guard_fail s
      else (aes_flags s AND ECP5_AES_FLAG_KEY_LOCK \<noteq> 0, s))"

definition guard_eo_ok :: guard where
  "guard_eo_ok s = (if aes_response_buf s ! 0 AND 0x02 \<noteq> 0x02 then guard_fail s else (True, s))"

definition guard_kl_ok :: guard where
  "guard_kl_ok s = (if aes_response_buf s ! 0 AND 0x01 \<noteq> 0x01 then guard_fail s else (True, s))"

section \<open>The state machine\<close>

fun aes_transitions :: "aes_state_e \<Rightarrow> (aes_event_e \<times> aes_state_e \<times> guard option) list" where
  "aes_transitions AES_IDLE = [(AES_EV_CMD, AES_READ_IDCODE, None)]"
| "aes_transitions AES_READ_IDCODE =
     [(AES_EV_JTAG_RSP, AES_ISC_ENABLE, Some guard_idcode_ok), (AES_EV_JTAG_RSP, AES_DONE, None)]"
| "aes_transitions AES_ISC_ENABLE = [(AES_EV_JTAG_RSP, AES_READ_STATUS, None)]"
| "aes_transitions AES_READ_STATUS =
     [(AES_EV_JTAG_RSP, AES_INIT_ADDRESS, Some guard_status_ok), (AES_EV_JTAG_RSP, AES_ISC_DISABLE, None)]"
| "aes_transitions AES_INIT_ADDRESS = [(AES_EV_JTAG_RSP, AES_READ_CIPHER, None)]"
| "aes_transitions AES_READ_CIPHER =
     [(AES_EV_JTAG_RSP, AES_PROG_CIPHER, Some guard_cipher_blank), (AES_EV_JTAG_RSP, AES_ISC_DISABLE, None)]"
| "aes_transitions AES_PROG_CIPHER = [(AES_EV_JTAG_RSP, AES_KEY_BURN_WAIT, None)]"
| "aes_transitions AES_KEY_BURN_WAIT =
     [(AES_EV_TIMER, AES_PROG_EO, Some guard_encrypt_only), (AES_EV_TIMER, AES_PROG_KL, Some guard_key_lock),
      (AES_EV_TIMER, AES_ISC_DISABLE, None)]"
| "aes_transitions AES_PROG_EO = [(AES_EV_JTAG_RSP, AES_EO_BURN_WAIT, None)]"
| "aes_transitions AES_EO_BURN_WAIT = [(AES_EV_TIMER, AES_VERIFY_EO, None)]"
| "aes_transitions AES_VERIFY_EO =
     [(AES_EV_JTAG_RSP, AES_PROG_KL, Some guard_eo_ok_and_kl), (AES_EV_JTAG_RSP, AES_ISC_DISABLE, Some guard_eo_ok),
      (AES_EV_JTAG_RSP, AES_ISC_DISABLE, None)]"
| "aes_transitions AES_PROG_KL = [(AES_EV_JTAG_RSP, AES_KL_BURN_WAIT, None)]"
| "aes_transitions AES_KL_BURN_WAIT = [(AES_EV_TIMER, AES_VERIFY_KL, None)]"
| "aes_transitions AES_VERIFY_KL =
     [(AES_EV_JTAG_RSP, AES_ISC_DISABLE, Some guard_kl_ok), (AES_EV_JTAG_RSP, AES_ISC_DISABLE, None)]"
| "aes_transitions AES_ISC_DISABLE = [(AES_EV_JTAG_RSP, AES_DONE, None)]"
| "aes_transitions AES_DONE = []"

fun aes_on_enter :: "int \<Rightarrow> aes_state_e \<Rightarrow> jtag_s \<Rightarrow> jtag_s" where
  "aes_on_enter now AES_IDLE s = s"
| "aes_on_enter now AES_READ_IDCODE s = on_read_idcode s"
| "aes_on_enter now AES_ISC_ENABLE s = on_isc_enable s"
| "aes_on_enter now AES_READ_STATUS s = on_read_status s"
| "aes_on_enter now AES_INIT_ADDRESS s = on_init_address s"
| "aes_on_enter now AES_READ_CIPHER s = on_read_cipher s"
| "aes_on_enter now AES_PROG_CIPHER s = on_prog_cipher s"
| "aes_on_enter now AES_KEY_BURN_WAIT s = on_key_burn_wait now s"
| "aes_on_enter now AES_PROG_EO s = on_prog_eo s"
| "aes_on_enter now AES_EO_BURN_WAIT s = on_eo_burn_wait now s"
| "aes_on_enter now AES_VERIFY_EO s = on_read_feabits s"
| "aes_on_enter now AES_PROG_KL s = on_prog_kl s"
| "aes_on_enter now AES_KL_BURN_WAIT s = on_kl_burn_wait now s"
| "aes_on_enter now AES_VERIFY_KL s = on_read_feabits s"
| "aes_on_enter now AES_ISC_DISABLE s = on_isc_disable s"
| "aes_on_enter now AES_DONE s = on_done s"

definition aes_state_transition :: "int \<Rightarrow> aes_state_e \<Rightarrow> jtag_s \<Rightarrow> jtag_s" where
  "aes_state_transition now state_next s = aes_on_enter now state_next (s\<lparr>aes_state := state_next\<rparr>)"

fun aes_transitions_evaluate ::
    "int \<Rightarrow> (aes_event_e \<times> aes_state_e \<times> guard option) list \<Rightarrow> aes_event_e \<Rightarrow> jtag_s \<Rightarrow> bool \<times> jtag_s" where
  "aes_transitions_evaluate now [] event s = (False, s)"
| "aes_transitions_evaluate now ((ev, nxt, g) # ts) event s =
     (if ev = event then
        (case (case g of None \<Rightarrow> (True, s) | Some f \<Rightarrow> f s) of
           (True, s) \<Rightarrow> (True, aes_state_transition now nxt s)
         | (False, s) \<Rightarrow> aes_transitions_evaluate now ts event s)
      else aes_transitions_evaluate now ts event s)"

definition aes_process :: "int \<Rightarrow> aes_event_e \<Rightarrow> jtag_s \<Rightarrow> jtag_s" where
  "aes_process now event s = snd (aes_transitions_evaluate now (aes_transitions (aes_state s)) event s)"

section \<open>Handlers\<close>

definition js320_jtag_alloc :: jtag_s where
  "js320_jtag_alloc =
     \<lparr>aes_state = AES_IDLE, aes_transaction_id = 0, aes_jtag_cmd_id = 0, aes_flags = 0, aes_key = zeros 16,
      aes_error_code = 0, aes_expected_responses = 0, aes_current_response_idx = 0, aes_target_response_idx = 0,
      aes_response_buf = zeros 16, aes_response_size = 0, jt_dev = False, jt_calls = []\<rparr>"

definition js320_jtag_on_open :: "jtag_s \<Rightarrow> jtag_s" where
  "js320_jtag_on_open s = s\<lparr>jt_dev := True\<rparr>"

definition js320_jtag_on_close :: "jtag_s \<Rightarrow> jtag_s" where
  "js320_jtag_on_close s =
     (if aes_state s \<noteq> AES_IDLE then (jt_call (Set_timeout 0) s)\<lparr>aes_state := AES_IDLE\<rparr> else s)\<lparr>jt_dev := False\<rparr>"

definition js320_jtag_handle_cmd :: "int \<Rightarrow> string \<Rightarrow> bin_value \<Rightarrow> jtag_s \<Rightarrow> bool \<times> jtag_s" where
  "js320_jtag_handle_cmd now subtopic v s =
     (if subtopic \<noteq> ''h/jtag/aes/!cmd'' then (False, s)
      else if aes_state s \<noteq> AES_IDLE then
        (True, aes_send_rsp (ec BUSY)
           (if bv_type v = U_BIN \<and> length (bv_bin v) \<ge> 4
            then s\<lparr>aes_transaction_id := get_u32 (bv_bin v) 0\<rparr> else s))
      else if bv_type v \<noteq> U_BIN \<or> length (bv_bin v) < 24 then (True, aes_send_rsp (ec PARAMETER_INVALID) s)
      else
        (True, aes_process now AES_EV_CMD
           (s\<lparr>aes_transaction_id := get_u32 (bv_bin v) 0, aes_flags := get_u32 (bv_bin v) 4,
              aes_key := take 16 (drop 8 (bv_bin v)), aes_error_code := 0, aes_jtag_cmd_id := 0\<rparr>)))"

text \<open>The part of the response handler that keeps the data of the response it waits for.\<close>

definition jtag_store_rsp :: "bin_value \<Rightarrow> jtag_s \<Rightarrow> jtag_s" where
  "jtag_store_rsp v s =
     (if aes_current_response_idx s = aes_target_response_idx s then
        let data = drop (hdr_offset v + MEM_SIZE) (bv_bin v);
            copy_size = (if length data < unat (aes_response_size s) then length data else unat (aes_response_size s))
        in s\<lparr>aes_response_buf := take copy_size data @ drop copy_size (aes_response_buf s)\<rparr>
      else s)"

definition js320_jtag_handle_publish :: "int \<Rightarrow> string \<Rightarrow> bin_value \<Rightarrow> jtag_s \<Rightarrow> bool \<times> jtag_s" where
  "js320_jtag_handle_publish now subtopic v s =
     (if aes_state s = AES_IDLE then (False, s)
      else if subtopic \<noteq> ''h/!rsp'' then (False, s)
      else if length (bv_bin v) < hdr_offset v + MEM_SIZE then (True, s)
      else
        let s = jtag_store_rsp v s;
            s = s\<lparr>aes_current_response_idx := aes_current_response_idx s + 1,
                  aes_expected_responses := aes_expected_responses s - 1\<rparr>
        in (True, if aes_expected_responses s = 0 then aes_process now AES_EV_JTAG_RSP s else s))"

definition js320_jtag_on_timeout :: "int \<Rightarrow> jtag_s \<Rightarrow> jtag_s" where
  "js320_jtag_on_timeout now s = aes_process now AES_EV_TIMER s"

section \<open>Runs\<close>

text \<open>
  An event is one call of a handler by the upper driver. The log of a run, from the last
  accepted command on, holds the device responses, each with the state and the index at
  which it arrived, and the calls made.
\<close>

datatype jt_event =
    Ev_open
  | Ev_close
  | Ev_cmd int string bin_value
  | Ev_publish int string bin_value
  | Ev_timeout int

datatype jt_log = Got aes_state_e u8 "u8 list" | Sent call

fun jt_step :: "jt_event \<Rightarrow> jtag_s \<Rightarrow> jtag_s" where
  "jt_step Ev_open s = js320_jtag_on_open s"
| "jt_step Ev_close s = js320_jtag_on_close s"
| "jt_step (Ev_cmd now t v) s = snd (js320_jtag_handle_cmd now t v s)"
| "jt_step (Ev_publish now t v) s = snd (js320_jtag_handle_publish now t v s)"
| "jt_step (Ev_timeout now) s = js320_jtag_on_timeout now s"

definition jt_new :: "jt_event \<Rightarrow> jtag_s \<Rightarrow> call list" where
  "jt_new e s = drop (length (jt_calls s)) (jt_calls (jt_step e s))"

fun jt_in :: "jt_event \<Rightarrow> jtag_s \<Rightarrow> jt_log list \<Rightarrow> jt_log list" where
  "jt_in (Ev_cmd now t v) s l = (if aes_state s = AES_IDLE then [] else l)"
| "jt_in (Ev_publish now t v) s l =
     (if hdr_offset v + MEM_SIZE \<le> length (bv_bin v)
      then l @ [Got (aes_state s) (aes_current_response_idx s) (drop (hdr_offset v + MEM_SIZE) (bv_bin v))] else l)"
| "jt_in _ s l = l"

definition jt_log :: "jt_event \<Rightarrow> jtag_s \<Rightarrow> jt_log list \<Rightarrow> jt_log list" where
  "jt_log e s l = jt_in e s l @ map Sent (jt_new e s)"

inductive jt_reach :: "jtag_s \<Rightarrow> jt_log list \<Rightarrow> bool" where
  jt_init: "jt_reach js320_jtag_alloc []"
| jt_next: "jt_reach s l \<Longrightarrow> jt_reach (jt_step e s) (jt_log e s l)"

section \<open>What the device has answered\<close>

definition answer :: "nat \<Rightarrow> u8 list \<Rightarrow> u8 list" where
  "answer n d = take n d @ replicate (16 - min n (length d)) 0"

definition id_ok :: "jt_log list \<Rightarrow> bool" where
  "id_ok l \<longleftrightarrow> (\<exists>d. Got AES_READ_IDCODE 1 d \<in> set l \<and> get_u32 (answer 4 d) 0 = ECP5_LFE5U25_IDCODE)"

definition status_ok :: "jt_log list \<Rightarrow> bool" where
  "status_ok l \<longleftrightarrow> (\<exists>d. Got AES_READ_STATUS 2 d \<in> set l \<and> get_u32 (answer 4 d) 0 AND 0x00024040 = 0
     \<and> get_u32 (answer 4 d) 0 AND 0x00003C00 = 0x00000C00)"

definition key_blank :: "jt_log list \<Rightarrow> bool" where
  "key_blank l \<longleftrightarrow> (\<exists>d. Got AES_READ_CIPHER 2 d \<in> set l \<and> answer 16 d = ECP5_BLANK_CIPHER_KEY)"

definition eo_ok :: "jt_log list \<Rightarrow> bool" where
  "eo_ok l \<longleftrightarrow> (\<exists>d. Got AES_VERIFY_EO 2 d \<in> set l \<and> answer 2 d ! 0 AND 0x02 = 0x02)"

definition kl_ok :: "jt_log list \<Rightarrow> bool" where
  "kl_ok l \<longleftrightarrow> (\<exists>d. Got AES_VERIFY_KL 2 d \<in> set l \<and> answer 2 d ! 0 AND 0x01 = 0x01)"

definition may_burn :: "jt_log list \<Rightarrow> bool" where
  "may_burn l \<longleftrightarrow> id_ok l \<and> status_ok l \<and> key_blank l"

fun shifted :: "call \<Rightarrow> u8 list list" where
  "shifted (To_device t m) = (if operation m = mem_op_code JS320_JTAG_OP_SHIFT then [mdata m] else [])"
| "shifted _ = []"

text \<open>The data of the shift commands among the calls, in order, and whether a log holds one of them.\<close>

definition shift_data :: "call list \<Rightarrow> u8 list list" where
  "shift_data cs = concat (map shifted cs)"

definition key_sent :: "u8 list \<Rightarrow> jt_log list \<Rightarrow> bool" where
  "key_sent k l \<longleftrightarrow> (\<exists>c. Sent c \<in> set l \<and> rev k \<in> set (shifted c))"

abbreviation wants_eo :: "jtag_s \<Rightarrow> bool" where
  "wants_eo s \<equiv> aes_flags s AND ECP5_AES_FLAG_ENCRYPT_ONLY \<noteq> 0"

abbreviation wants_kl :: "jtag_s \<Rightarrow> bool" where
  "wants_kl s \<equiv> aes_flags s AND ECP5_AES_FLAG_KEY_LOCK \<noteq> 0"

section \<open>Invariant\<close>

text \<open>For a state that waits for responses: their number, the index of the one it keeps and the bytes it keeps.\<close>

fun batch :: "aes_state_e \<Rightarrow> (nat \<times> u8 \<times> u8) option" where
  "batch AES_READ_IDCODE = Some (2, 1, 4)"
| "batch AES_ISC_ENABLE = Some (3, 0xFF, 0)"
| "batch AES_READ_STATUS = Some (3, 2, 4)"
| "batch AES_INIT_ADDRESS = Some (3, 0xFF, 0)"
| "batch AES_READ_CIPHER = Some (3, 2, 16)"
| "batch AES_PROG_CIPHER = Some (3, 0xFF, 0)"
| "batch AES_PROG_EO = Some (3, 0xFF, 0)"
| "batch AES_VERIFY_EO = Some (3, 2, 2)"
| "batch AES_PROG_KL = Some (3, 0xFF, 0)"
| "batch AES_VERIFY_KL = Some (3, 2, 2)"
| "batch AES_ISC_DISABLE = Some (4, 0xFF, 0)"
| "batch _ = None"

definition batch_ok :: "jtag_s \<Rightarrow> bool" where
  "batch_ok s \<longleftrightarrow> (case batch (aes_state s) of None \<Rightarrow> True | Some (n, t, z) \<Rightarrow>
     unat (aes_current_response_idx s) < n \<and> unat (aes_expected_responses s) + unat (aes_current_response_idx s) = n
     \<and> aes_target_response_idx s = t \<and> aes_response_size s = z \<and> aes_response_buf s = zeros 16)"

fun stage :: "aes_state_e \<Rightarrow> jtag_s \<Rightarrow> jt_log list \<Rightarrow> bool" where
  "stage AES_IDLE s l = True"
| "stage AES_READ_IDCODE s l = (aes_error_code s = 0)"
| "stage AES_ISC_ENABLE s l = (aes_error_code s = 0 \<and> id_ok l)"
| "stage AES_READ_STATUS s l = (aes_error_code s = 0 \<and> id_ok l)"
| "stage AES_INIT_ADDRESS s l = (aes_error_code s = 0 \<and> id_ok l \<and> status_ok l)"
| "stage AES_READ_CIPHER s l = (aes_error_code s = 0 \<and> id_ok l \<and> status_ok l)"
| "stage AES_PROG_CIPHER s l = (aes_error_code s = 0 \<and> may_burn l \<and> key_sent (aes_key s) l)"
| "stage AES_KEY_BURN_WAIT s l = (aes_error_code s = 0 \<and> may_burn l \<and> key_sent (aes_key s) l)"
| "stage AES_PROG_EO s l = (aes_error_code s = 0 \<and> may_burn l \<and> key_sent (aes_key s) l \<and> wants_eo s)"
| "stage AES_EO_BURN_WAIT s l = (aes_error_code s = 0 \<and> may_burn l \<and> key_sent (aes_key s) l \<and> wants_eo s)"
| "stage AES_VERIFY_EO s l = (aes_error_code s = 0 \<and> may_burn l \<and> key_sent (aes_key s) l \<and> wants_eo s)"
| "stage AES_PROG_KL s l =
     (aes_error_code s = 0 \<and> may_burn l \<and> key_sent (aes_key s) l \<and> wants_kl s \<and> (wants_eo s \<longrightarrow> eo_ok l))"
| "stage AES_KL_BURN_WAIT s l =
     (aes_error_code s = 0 \<and> may_burn l \<and> key_sent (aes_key s) l \<and> wants_kl s \<and> (wants_eo s \<longrightarrow> eo_ok l))"
| "stage AES_VERIFY_KL s l =
     (aes_error_code s = 0 \<and> may_burn l \<and> key_sent (aes_key s) l \<and> wants_kl s \<and> (wants_eo s \<longrightarrow> eo_ok l))"
| "stage AES_ISC_DISABLE s l =
     (aes_error_code s = 0 \<longrightarrow> may_burn l \<and> key_sent (aes_key s) l \<and> (wants_eo s \<longrightarrow> eo_ok l) \<and> (wants_kl s \<longrightarrow> kl_ok l))"
| "stage AES_DONE s l = False"

definition jt_inv :: "jtag_s \<Rightarrow> jt_log list \<Rightarrow> bool" where
  "jt_inv s l \<longleftrightarrow> length (aes_key s) = 16 \<and> (aes_error_code s = 0 \<or> aes_error_code s = ec IO) \<and> batch_ok s
     \<and> stage (aes_state s) s l"

lemmas jt_helper_defs = jt_call_def jtag_send_def jtag_goto_def jtag_wait_us_def jtag_shift_def aes_begin_batch_def Let_def

lemmas jt_entry_defs = on_read_idcode_def on_isc_enable_def on_read_status_def on_init_address_def on_read_cipher_def
  on_prog_cipher_def on_key_burn_wait_def on_prog_feabits_def on_prog_eo_def on_eo_burn_wait_def on_read_feabits_def
  on_prog_kl_def on_kl_burn_wait_def on_isc_disable_def on_done_def aes_send_rsp_def ecp_jtag_cmd_def ecp_jtag_cmd8_def
  Let_def

lemmas jt_guard_defs = guard_fail_def guard_idcode_ok_def guard_status_ok_def guard_cipher_blank_def
  guard_encrypt_only_def guard_key_lock_def guard_eo_ok_and_kl_def guard_eo_ok_def guard_kl_ok_def

text \<open>What each helper does to each field.\<close>

lemma jt_call_sel [simp]:
  "aes_state (jt_call c s) = aes_state s" "aes_transaction_id (jt_call c s) = aes_transaction_id s"
  "aes_flags (jt_call c s) = aes_flags s" "aes_key (jt_call c s) = aes_key s"
  "aes_error_code (jt_call c s) = aes_error_code s" "aes_expected_responses (jt_call c s) = aes_expected_responses s"
  "aes_current_response_idx (jt_call c s) = aes_current_response_idx s"
  "aes_target_response_idx (jt_call c s) = aes_target_response_idx s"
  "aes_response_buf (jt_call c s) = aes_response_buf s" "aes_response_size (jt_call c s) = aes_response_size s"
  "jt_calls (jt_call c s) = jt_calls s @ [c]"
  by (simp_all add: jt_call_def)

definition sent_msg :: "mem_s \<Rightarrow> jtag_s \<Rightarrow> call" where
  "sent_msg m s = To_device ''c/jtag/!cmd'' (m\<lparr>transaction_id := aes_jtag_cmd_id s + 1\<rparr>)"

lemma jtag_send_sel [simp]:
  "aes_state (jtag_send m s) = aes_state s" "aes_transaction_id (jtag_send m s) = aes_transaction_id s"
  "aes_flags (jtag_send m s) = aes_flags s" "aes_key (jtag_send m s) = aes_key s"
  "aes_error_code (jtag_send m s) = aes_error_code s" "aes_expected_responses (jtag_send m s) = aes_expected_responses s"
  "aes_current_response_idx (jtag_send m s) = aes_current_response_idx s"
  "aes_target_response_idx (jtag_send m s) = aes_target_response_idx s"
  "aes_response_buf (jtag_send m s) = aes_response_buf s" "aes_response_size (jtag_send m s) = aes_response_size s"
  "jt_calls (jtag_send m s) = jt_calls s @ [sent_msg m s]"
  by (simp_all add: jtag_send_def Let_def sent_msg_def)

definition shift_msg :: "u8 list \<Rightarrow> nat \<Rightarrow> bool \<Rightarrow> mem_s" where
  "shift_msg data bits e = mem_clr\<lparr>operation := mem_op_code JS320_JTAG_OP_SHIFT, mflags := (if e then 1 else 0),
     mlength := of_nat bits, mdata := take ((bits + 7) div 8) data\<rparr>"

lemma jtag_shift_sel [simp]:
  "aes_state (jtag_shift d b e s) = aes_state s" "aes_transaction_id (jtag_shift d b e s) = aes_transaction_id s"
  "aes_flags (jtag_shift d b e s) = aes_flags s" "aes_key (jtag_shift d b e s) = aes_key s"
  "aes_error_code (jtag_shift d b e s) = aes_error_code s"
  "aes_expected_responses (jtag_shift d b e s) = aes_expected_responses s + 1"
  "aes_current_response_idx (jtag_shift d b e s) = aes_current_response_idx s"
  "aes_target_response_idx (jtag_shift d b e s) = aes_target_response_idx s"
  "aes_response_buf (jtag_shift d b e s) = aes_response_buf s"
  "aes_response_size (jtag_shift d b e s) = aes_response_size s"
  "jt_calls (jtag_shift d b e s) = jt_calls s @ [sent_msg (shift_msg d b e) s]"
  by (simp_all add: jtag_shift_def Let_def shift_msg_def)

lemma jtag_goto_send: "jtag_goto st = jtag_send (mem_clr\<lparr>operation := mem_op_code JS320_JTAG_OP_GOTO_STATE, offset := st\<rparr>)"
  "jtag_wait_us us = jtag_send (mem_clr\<lparr>operation := mem_op_code JS320_JTAG_OP_GOTO_STATE, offset := TAP_RUN_TEST_IDLE, delay_us := us\<rparr>)"
  by (simp_all add: jtag_goto_def jtag_wait_us_def)

lemma aes_begin_batch_sel [simp]:
  "aes_state (aes_begin_batch t z s) = aes_state s" "aes_transaction_id (aes_begin_batch t z s) = aes_transaction_id s"
  "aes_flags (aes_begin_batch t z s) = aes_flags s" "aes_key (aes_begin_batch t z s) = aes_key s"
  "aes_error_code (aes_begin_batch t z s) = aes_error_code s" "aes_expected_responses (aes_begin_batch t z s) = 0"
  "aes_current_response_idx (aes_begin_batch t z s) = 0" "aes_target_response_idx (aes_begin_batch t z s) = t"
  "aes_response_buf (aes_begin_batch t z s) = replicate 16 0" "aes_response_size (aes_begin_batch t z s) = z"
  "jt_calls (aes_begin_batch t z s) = jt_calls s"
  by (simp_all add: aes_begin_batch_def)

lemmas jt_run = jt_entry_defs jtag_goto_send

text \<open>What entering a state leaves: the command's parameters, a fresh batch, and more calls.\<close>

lemma aes_on_enter_keeps [simp]:
  "aes_key (aes_on_enter now st s) = aes_key s"
  "aes_flags (aes_on_enter now st s) = aes_flags s"
  "aes_error_code (aes_on_enter now st s) = aes_error_code s"
  "aes_transaction_id (aes_on_enter now st s) = aes_transaction_id s"
  by (cases st; simp add: jt_run)+

lemma aes_on_enter_state [simp]:
  "aes_state (aes_on_enter now st s) = (if st = AES_DONE then AES_IDLE else aes_state s)"
  by (cases st; simp add: jt_run)

lemma aes_on_enter_batch:
  "aes_state s = st \<Longrightarrow> batch_ok (aes_on_enter now st s)"
  by (cases st; simp add: batch_ok_def jt_run zeros_def)

definition entry_calls :: "int \<Rightarrow> aes_state_e \<Rightarrow> jtag_s \<Rightarrow> call list" where
  "entry_calls now st s = drop (length (jt_calls s)) (jt_calls (aes_on_enter now st s))"

lemma aes_on_enter_calls: "jt_calls (aes_on_enter now st s) = jt_calls s @ entry_calls now st s"
  by (cases st; simp add: entry_calls_def jt_run)

lemma shift_data_simps [simp]:
  "shift_data [] = []" "shift_data (c # cs) = shifted c @ shift_data cs" "shift_data (cs @ ds) = shift_data cs @ shift_data ds"
  by (simp_all add: shift_data_def)

lemma shifted_sent_msg [simp]:
  "shifted (sent_msg m s) = (if operation m = mem_op_code JS320_JTAG_OP_SHIFT then [mdata m] else [])"
  by (simp add: sent_msg_def)

text \<open>The data that entering each state shifts.\<close>

fun entry_data :: "aes_state_e \<Rightarrow> u8 list \<Rightarrow> u8 list list" where
  "entry_data AES_READ_IDCODE k = [[ECP5_READ_ID], zeros 4]"
| "entry_data AES_ISC_ENABLE k = [[ECP5_ISC_ENABLE], [2], zeros 4]"
| "entry_data AES_READ_STATUS k = [[ECP5_LSC_READ_STATUS], zeros 1, zeros 4]"
| "entry_data AES_INIT_ADDRESS k = [[ECP5_LSC_INIT_ADDRESS], [0], zeros 4]"
| "entry_data AES_READ_CIPHER k = [[ECP5_LSC_READ_CIPHER_KEY], zeros 1, zeros 16]"
| "entry_data AES_PROG_CIPHER k = [[ECP5_LSC_PROG_CIPHER_KEY], rev k, zeros 13]"
| "entry_data AES_PROG_EO k = [[ECP5_LSC_PROG_FEABITS], [2, 0], zeros 1]"
| "entry_data AES_VERIFY_EO k = [[ECP5_LSC_READ_FEABITS], zeros 1, zeros 2]"
| "entry_data AES_PROG_KL k = [[ECP5_LSC_PROG_FEABITS], [1, 0], zeros 1]"
| "entry_data AES_VERIFY_KL k = [[ECP5_LSC_READ_FEABITS], zeros 1, zeros 2]"
| "entry_data AES_ISC_DISABLE k = [[ECP5_ISC_DISABLE], zeros 4, [0xFF], zeros 4]"
| "entry_data _ k = []"

lemma entry_calls_data:
  "length (aes_key s) = 16 \<Longrightarrow> shift_data (entry_calls now st s) = entry_data st (aes_key s)"
  by (cases st; simp add: entry_calls_def jt_run shift_msg_def mem_clr_def zeros_def)

lemma key_sent_map: "key_sent k (l @ map Sent cs) \<longleftrightarrow> key_sent k l \<or> rev k \<in> set (shift_data cs)"
  by (auto simp: key_sent_def shift_data_def)

lemma entry_calls_key:
  "aes_key s = k \<Longrightarrow> length k = 16 \<Longrightarrow> key_sent k (l @ map Sent (entry_calls now AES_PROG_CIPHER s))"
  by (auto simp: key_sent_map entry_calls_data)

lemma seen_append [intro, simp]:
  "id_ok l \<Longrightarrow> id_ok (l @ l')" "status_ok l \<Longrightarrow> status_ok (l @ l')" "key_blank l \<Longrightarrow> key_blank (l @ l')"
  "eo_ok l \<Longrightarrow> eo_ok (l @ l')" "kl_ok l \<Longrightarrow> kl_ok (l @ l')" "may_burn l \<Longrightarrow> may_burn (l @ l')"
  "key_sent k l \<Longrightarrow> key_sent k (l @ l')"
  by (auto simp: id_ok_def status_ok_def key_blank_def eo_ok_def kl_ok_def may_burn_def key_sent_def)

lemma stage_append: "stage st s l \<Longrightarrow> stage st s (l @ l')"
  by (cases st) auto

lemma stage_cong:
  "aes_key s' = aes_key s \<Longrightarrow> aes_flags s' = aes_flags s \<Longrightarrow> aes_error_code s' = aes_error_code s \<Longrightarrow>
   stage st s' l = stage st s l"
  by (cases st) simp_all

declare aes_on_enter.simps [simp del]

section \<open>Every step keeps the invariant\<close>

text \<open>In a state that keeps a response, the machine decides on the bytes the device sent for it.\<close>

definition judged :: "jtag_s \<Rightarrow> jt_log list \<Rightarrow> bool" where
  "judged s l \<longleftrightarrow> (\<forall>n t z. batch (aes_state s) = Some (n, t, z) \<longrightarrow> t \<noteq> 0xFF \<longrightarrow>
     (\<exists>d. Got (aes_state s) t d \<in> set l \<and> aes_response_buf s = answer (unat z) d))"

lemma length_answer: "n \<le> 16 \<Longrightarrow> length (answer n d) = 16"
  by (simp add: answer_def min_def)

lemma judged_answers:
  assumes "judged s l"
  shows "aes_state s = AES_READ_IDCODE \<Longrightarrow> get_u32 (aes_response_buf s) 0 = ECP5_LFE5U25_IDCODE \<Longrightarrow> id_ok l"
    and "aes_state s = AES_READ_STATUS \<Longrightarrow> get_u32 (aes_response_buf s) 0 AND 0x00024040 = 0 \<Longrightarrow>
         get_u32 (aes_response_buf s) 0 AND 0x00003C00 = 0x00000C00 \<Longrightarrow> status_ok l"
    and "aes_state s = AES_READ_CIPHER \<Longrightarrow> take 16 (aes_response_buf s) = ECP5_BLANK_CIPHER_KEY \<Longrightarrow> key_blank l"
    and "aes_state s = AES_VERIFY_EO \<Longrightarrow> aes_response_buf s ! 0 AND 2 = 2 \<Longrightarrow> eo_ok l"
    and "aes_state s = AES_VERIFY_KL \<Longrightarrow> aes_response_buf s ! 0 AND 1 = 1 \<Longrightarrow> kl_ok l"
  using assms length_answer [of 16]
  by (auto simp: judged_def id_ok_def status_ok_def key_blank_def eo_ok_def kl_ok_def)

lemma ec_IO_nz [simp]: "ec IO \<noteq> 0"
  by simp

definition process_calls :: "int \<Rightarrow> aes_event_e \<Rightarrow> jtag_s \<Rightarrow> call list" where
  "process_calls now ev s = drop (length (jt_calls s)) (jt_calls (aes_process now ev s))"

lemma process_stage:
  assumes "stage (aes_state s) s l" "length (aes_key s) = 16"
    and "ev = AES_EV_JTAG_RSP \<Longrightarrow> judged s l" "ev = AES_EV_CMD \<Longrightarrow> aes_state s = AES_IDLE \<and> aes_error_code s = 0"
  shows "stage (aes_state (aes_process now ev s)) (aes_process now ev s) (l @ map Sent (process_calls now ev s))"
  using assms
  apply (cases "aes_state s"; cases ev)
  apply (simp_all add: aes_process_def process_calls_def jt_guard_defs aes_state_transition_def aes_on_enter_calls bool.case_eq_if
      Let_def)
  apply (auto simp: judged_answers entry_calls_key may_burn_def)
  done

lemmas process_simps = aes_process_def jt_guard_defs aes_state_transition_def aes_on_enter_calls bool.case_eq_if Let_def

lemma process_keeps [simp]:
  "aes_key (aes_process now ev s) = aes_key s"
  "aes_flags (aes_process now ev s) = aes_flags s"
  "aes_transaction_id (aes_process now ev s) = aes_transaction_id s"
  by (cases "aes_state s"; cases ev; simp add: process_simps)+

lemma process_error: "aes_error_code (aes_process now ev s) = aes_error_code s \<or> aes_error_code (aes_process now ev s) = ec IO"
  by (cases "aes_state s"; cases ev; simp add: process_simps)

lemma process_batch:
  "batch_ok s \<or> ev = AES_EV_JTAG_RSP \<and> batch (aes_state s) \<noteq> None \<Longrightarrow> batch_ok (aes_process now ev s)"
  by (cases "aes_state s"; cases ev; simp add: process_simps aes_on_enter_batch)

lemma process_calls: "jt_calls (aes_process now ev s) = jt_calls s @ process_calls now ev s"
  by (cases "aes_state s"; cases ev; simp add: process_calls_def process_simps)

lemma batch_last: "batch st = Some (n, t, z) \<Longrightarrow> t \<noteq> 0xFF \<Longrightarrow> Suc (unat t) = n \<and> unat z \<le> 16"
  by (cases st) auto

lemma answer_zeros:
  "(let c = (if length d < z then length d else z) in take c d @ drop c (zeros 16)) = answer z d"
  by (auto simp: answer_def zeros_def Let_def min_def)

text \<open>A response in a state that waits for a batch: it is counted, and the one the state keeps is stored.\<close>

definition rsp_counted :: "bin_value \<Rightarrow> jtag_s \<Rightarrow> jtag_s" where
  "rsp_counted v s = (let s = jtag_store_rsp v s
     in s\<lparr>aes_current_response_idx := aes_current_response_idx s + 1, aes_expected_responses := aes_expected_responses s - 1\<rparr>)"

lemma rsp_counted_sel [simp]:
  "aes_state (rsp_counted v s) = aes_state s" "aes_key (rsp_counted v s) = aes_key s"
  "aes_flags (rsp_counted v s) = aes_flags s" "aes_error_code (rsp_counted v s) = aes_error_code s"
  "aes_transaction_id (rsp_counted v s) = aes_transaction_id s" "jt_calls (rsp_counted v s) = jt_calls s"
  "aes_expected_responses (rsp_counted v s) = aes_expected_responses s - 1"
  "aes_current_response_idx (rsp_counted v s) = aes_current_response_idx s + 1"
  "aes_target_response_idx (rsp_counted v s) = aes_target_response_idx s"
  "aes_response_size (rsp_counted v s) = aes_response_size s"
  by (simp_all add: rsp_counted_def jtag_store_rsp_def Let_def)

lemma rsp_counted_batch:
  assumes "batch_ok s" "aes_expected_responses s \<noteq> 1"
  shows "batch_ok (rsp_counted v s)"
proof (cases "batch (aes_state s)")
  case (Some b)
  obtain n t z where b: "batch (aes_state s) = Some (n, t, z)" using Some by (cases b) auto
  have i: "unat (aes_current_response_idx s) < n" "unat (aes_expected_responses s) + unat (aes_current_response_idx s) = n"
    and t: "aes_target_response_idx s = t" "aes_response_size s = z" "aes_response_buf s = zeros 16"
    using assms(1) b by (auto simp: batch_ok_def)
  have "n < 5" using b by (cases "aes_state s") auto
  have "unat (aes_expected_responses s) \<noteq> 1" using assms(2) by (simp add: word_unat_eq_iff)
  then have e: "1 < unat (aes_expected_responses s)" using i by linarith
  have k: "unat (aes_current_response_idx s + 1) = Suc (unat (aes_current_response_idx s))"
    using i \<open>n < 5\<close> by (simp add: unat_word_ariths)
  have m: "unat (aes_expected_responses s - 1) = unat (aes_expected_responses s) - 1"
    using e by (metis One_nat_def gr_implies_not0 not_one_less_zero unat_0 unat_1 unat_minus_one unsigned_0)
  have "aes_current_response_idx s \<noteq> t"
    using batch_last [OF b] i e \<open>n < 5\<close> by (cases "t = 0xFF") auto
  then show ?thesis using b i t k m e by (auto simp: batch_ok_def rsp_counted_def jtag_store_rsp_def)
qed (simp add: batch_ok_def)

lemma rsp_counted_judged:
  assumes "batch_ok s" "aes_expected_responses s = 1"
  shows "judged (rsp_counted v s)
    (l @ [Got (aes_state s) (aes_current_response_idx s) (drop (hdr_offset v + MEM_SIZE) (bv_bin v))])"
  unfolding judged_def
proof (intro allI impI)
  fix n t z
  assume b: "batch (aes_state (rsp_counted v s)) = Some (n, t, z)" and t: "t \<noteq> 0xFF"
  then have i: "1 + unat (aes_current_response_idx s) = n" "aes_target_response_idx s = t" "aes_response_size s = z"
    "aes_response_buf s = zeros 16" using assms by (auto simp: batch_ok_def)
  have "aes_current_response_idx s = t"
    using batch_last [of "aes_state s" n t z] b t i by (simp add: word_unat_eq_iff)
  then show "\<exists>d. Got (aes_state (rsp_counted v s)) t d
      \<in> set (l @ [Got (aes_state s) (aes_current_response_idx s) (drop (hdr_offset v + MEM_SIZE) (bv_bin v))]) \<and>
      aes_response_buf (rsp_counted v s) = answer (unat z) d"
    using i answer_zeros [of "drop (hdr_offset v + MEM_SIZE) (bv_bin v)" "unat z"]
    by (intro exI [of _ "drop (hdr_offset v + MEM_SIZE) (bv_bin v)"]) (auto simp: rsp_counted_def jtag_store_rsp_def Let_def split: if_splits)
qed

lemma handle_publish_counted:
  "js320_jtag_handle_publish now t v s =
     (if aes_state s = AES_IDLE \<or> t \<noteq> ''h/!rsp'' then (False, s)
      else if length (bv_bin v) < hdr_offset v + MEM_SIZE then (True, s)
      else (True, if aes_expected_responses s = 1 then aes_process now AES_EV_JTAG_RSP (rsp_counted v s) else rsp_counted v s))"
  by (auto simp: js320_jtag_handle_publish_def rsp_counted_def jtag_store_rsp_def Let_def)

lemma jt_inv_init: "jt_inv js320_jtag_alloc []"
  by (simp add: jt_inv_def js320_jtag_alloc_def batch_ok_def zeros_def)

lemma publish_inv:
  assumes inv: "jt_inv s l"
  shows "jt_inv (jt_step (Ev_publish now t v) s) (jt_log (Ev_publish now t v) s l)"
proof (cases "aes_state s = AES_IDLE \<or> t \<noteq> ''h/!rsp'' \<or> length (bv_bin v) < hdr_offset v + MEM_SIZE")
  case True
  then have "jt_step (Ev_publish now t v) s = s" by (auto simp: handle_publish_counted)
  then show ?thesis using inv by (auto simp: jt_inv_def jt_log_def intro: stage_append)
next
  case False
  let ?l = "l @ [Got (aes_state s) (aes_current_response_idx s) (drop (hdr_offset v + MEM_SIZE) (bv_bin v))]"
  have k: "length (aes_key s) = 16" "aes_error_code s = 0 \<or> aes_error_code s = ec IO" and b: "batch_ok s" and st: "stage (aes_state s) (rsp_counted v s) ?l"
    using inv by (auto simp: jt_inv_def intro!: stage_append simp: stage_cong [of "rsp_counted v s" s])
  show ?thesis
  proof (cases "aes_expected_responses s = 1")
    case e: True
    have step: "jt_step (Ev_publish now t v) s = aes_process now AES_EV_JTAG_RSP (rsp_counted v s)"
      using False e by (simp add: handle_publish_counted)
    have new: "jt_new (Ev_publish now t v) s = process_calls now AES_EV_JTAG_RSP (rsp_counted v s)"
      by (simp only: jt_new_def step) (simp add: process_calls)
    have "batch_ok (rsp_counted v s) \<or> batch (aes_state (rsp_counted v s)) \<noteq> None"
      by (auto simp: batch_ok_def split: option.splits)
    then show ?thesis
      using process_stage [of "rsp_counted v s" ?l AES_EV_JTAG_RSP now] process_error [of now AES_EV_JTAG_RSP "rsp_counted v s"] rsp_counted_judged [OF b e, of v l] k st False
        process_batch [of "rsp_counted v s" AES_EV_JTAG_RSP now]
      by (simp only: jt_inv_def step jt_log_def new) auto
  next
    case e: False
    have step: "jt_step (Ev_publish now t v) s = rsp_counted v s"
      using False e by (simp add: handle_publish_counted)
    have "jt_new (Ev_publish now t v) s = []" by (simp only: jt_new_def step) simp
    then show ?thesis using k st rsp_counted_batch [OF b e] False
      by (simp only: jt_inv_def step jt_log_def) auto
  qed
qed

lemma process_inv:
  assumes "jt_inv s l" "ev \<noteq> AES_EV_JTAG_RSP" "ev = AES_EV_CMD \<Longrightarrow> aes_state s = AES_IDLE \<and> aes_error_code s = 0"
  shows "jt_inv (aes_process now ev s) (l @ map Sent (process_calls now ev s))"
  using assms process_stage [of s l ev now] process_batch [of s ev now] process_error [of now ev s] by (auto simp: jt_inv_def)

lemma jt_inv_idle:
  "aes_state s = AES_IDLE \<Longrightarrow> length (aes_key s) = 16 \<Longrightarrow> aes_error_code s = 0 \<or> aes_error_code s = ec IO \<Longrightarrow> jt_inv s l"
  by (simp add: jt_inv_def batch_ok_def)

lemma jt_inv_other:
  assumes "jt_inv s l" "aes_key s' = aes_key s" "aes_flags s' = aes_flags s" "aes_error_code s' = aes_error_code s"
    "aes_state s' = aes_state s" "aes_expected_responses s' = aes_expected_responses s"
    "aes_current_response_idx s' = aes_current_response_idx s" "aes_target_response_idx s' = aes_target_response_idx s"
    "aes_response_buf s' = aes_response_buf s" "aes_response_size s' = aes_response_size s"
  shows "jt_inv s' (l @ l')"
  using assms stage_append [of "aes_state s" s l l'] by (auto simp: jt_inv_def batch_ok_def stage_cong [of s' s] split: option.splits)

lemma cmd_inv:
  assumes inv: "jt_inv s l"
  shows "jt_inv (jt_step (Ev_cmd now t v) s) (jt_log (Ev_cmd now t v) s l)"
proof -
  consider "t \<noteq> ''h/jtag/aes/!cmd'' \<or> aes_state s \<noteq> AES_IDLE"
    | "t = ''h/jtag/aes/!cmd''" "aes_state s = AES_IDLE" "bv_type v \<noteq> U_BIN \<or> length (bv_bin v) < 24"
    | "t = ''h/jtag/aes/!cmd''" "aes_state s = AES_IDLE" "bv_type v = U_BIN" "24 \<le> length (bv_bin v)"
    by linarith
  then show ?thesis
  proof cases
    case 1
    show ?thesis
    proof (cases "aes_state s = AES_IDLE")
      case True
      then show ?thesis using 1 inv by (auto simp: js320_jtag_handle_cmd_def jt_inv_def batch_ok_def)
    next
      case False
      then show ?thesis unfolding jt_log_def
        by (simp, intro jt_inv_other [OF inv]) (auto simp: js320_jtag_handle_cmd_def aes_send_rsp_def)
    qed
  next
    case 2
    then show ?thesis using inv
      by (intro jt_inv_idle) (auto simp: js320_jtag_handle_cmd_def aes_send_rsp_def jt_inv_def)
  next
    case 3
    let ?s = "s\<lparr>aes_transaction_id := get_u32 (bv_bin v) 0, aes_flags := get_u32 (bv_bin v) 4,
              aes_key := take 16 (drop 8 (bv_bin v)), aes_error_code := 0, aes_jtag_cmd_id := 0\<rparr>"
    have step: "jt_step (Ev_cmd now t v) s = aes_process now AES_EV_CMD ?s"
      using 3 by (simp add: js320_jtag_handle_cmd_def)
    have new: "jt_new (Ev_cmd now t v) s = process_calls now AES_EV_CMD ?s"
      by (simp only: jt_new_def step) (simp add: process_calls)
    have "jt_inv ?s []" using 3 by (intro jt_inv_idle) auto
    from process_inv [OF this, of AES_EV_CMD now] show ?thesis unfolding step jt_log_def new using 3 by simp
  qed
qed

lemma jt_step_inv: "jt_inv s l \<Longrightarrow> jt_inv (jt_step e s) (jt_log e s l)"
proof (cases e)
  case Ev_open
  assume "jt_inv s l"
  then show ?thesis unfolding jt_log_def Ev_open
    by (simp, intro jt_inv_other) (auto simp: js320_jtag_on_open_def)
next
  case Ev_close
  assume "jt_inv s l"
  then show ?thesis unfolding Ev_close
    by (intro jt_inv_idle) (auto simp: js320_jtag_on_close_def jt_inv_def)
next
  case (Ev_timeout now)
  assume inv: "jt_inv s l"
  then show ?thesis using process_inv [OF inv, of AES_EV_TIMER now]
    by (simp add: Ev_timeout js320_jtag_on_timeout_def jt_log_def jt_new_def process_calls)
qed (auto intro: publish_inv cmd_inv simp del: jt_step.simps)

lemma jt_reach_inv: "jt_reach s l \<Longrightarrow> jt_inv s l"
  by (induction rule: jt_reach.induct) (auto intro: jt_inv_init jt_step_inv)

section \<open>What a step sends\<close>

lemma process_data:
  "length (aes_key s) = 16 \<Longrightarrow> shift_data (process_calls now ev s) = [] \<or>
     shift_data (process_calls now ev s) = entry_data (aes_state (aes_process now ev s)) (aes_key s)"
  by (cases "aes_state s"; cases ev; simp add: process_calls_def process_simps entry_calls_data)

lemma entry_calls_frontend [simp]:
  "st \<noteq> AES_DONE \<Longrightarrow> To_frontend t b \<notin> set (entry_calls now st s)"
  by (cases st; simp add: entry_calls_def aes_on_enter.simps jt_run sent_msg_def)

lemma entry_calls_done [simp]:
  "entry_calls now AES_DONE s =
     [To_frontend ''h/jtag/aes/!rsp'' (put_u32 (aes_transaction_id s) @ put_u32 (of_int (aes_error_code s)))]"
  by (simp add: entry_calls_def aes_on_enter.simps jt_run)

lemma process_frontend_none:
  "aes_state s \<noteq> AES_READ_IDCODE \<Longrightarrow> aes_state s \<noteq> AES_ISC_DISABLE \<Longrightarrow> To_frontend t b \<notin> set (process_calls now ev s)"
  by (cases "aes_state s"; cases ev; simp add: process_calls_def process_simps)

lemma process_calls_idcode:
  "aes_state s = AES_READ_IDCODE \<Longrightarrow> process_calls now ev s =
     (if ev \<noteq> AES_EV_JTAG_RSP then []
      else if get_u32 (aes_response_buf s) 0 = ECP5_LFE5U25_IDCODE then entry_calls now AES_ISC_ENABLE (s\<lparr>aes_state := AES_ISC_ENABLE\<rparr>)
      else [To_frontend ''h/jtag/aes/!rsp'' (put_u32 (aes_transaction_id s) @ put_u32 (of_int (ec IO)))])"
  by (cases ev; simp add: process_calls_def process_simps)

lemma process_calls_disable:
  "aes_state s = AES_ISC_DISABLE \<Longrightarrow> process_calls now ev s =
     (if ev \<noteq> AES_EV_JTAG_RSP then []
      else [To_frontend ''h/jtag/aes/!rsp'' (put_u32 (aes_transaction_id s) @ put_u32 (of_int (aes_error_code s)))])"
  by (cases ev; simp add: process_calls_def process_simps)

lemma put_u32_inj: "put_u32 a = put_u32 b \<longleftrightarrow> a = b"
  using get_put_u32 [of "[]", OF list.size(3), of a "[]"] get_put_u32 [of "[]", OF list.size(3), of b "[]"] by metis

lemma length_put_u32 [simp]: "length (put_u32 w) = 4"
  by (simp add: put_u32_def)

text \<open>Every step is silent on the shift data, or shifts what entering its new state shifts.\<close>

lemma jt_step_cases:
  obtains (quiet) "shift_data (jt_new e s) = []"
    "\<And>t i. To_frontend t (put_u32 i @ put_u32 0) \<notin> set (jt_new e s)"
  | (process) now ev s' where "jt_step e s = aes_process now ev s'" "jt_new e s = process_calls now ev s'"
    "e = Ev_timeout now \<and> ev = AES_EV_TIMER \<and> s' = s
     \<or> ev = AES_EV_CMD \<and> aes_state s' = AES_IDLE \<and> aes_error_code s' = 0 \<and> length (aes_key s') = 16
     \<or> ev = AES_EV_JTAG_RSP \<and> aes_key s' = aes_key s \<and> aes_state s' = aes_state s \<and> aes_error_code s' = aes_error_code s
       \<and> aes_transaction_id s' = aes_transaction_id s"
proof (cases e)
  case Ev_open
  then show ?thesis by (intro quiet) (auto simp: jt_new_def js320_jtag_on_open_def)
next
  case Ev_close
  then show ?thesis by (intro quiet) (auto simp: jt_new_def js320_jtag_on_close_def)
next
  case (Ev_timeout now)
  then show ?thesis
    by (intro process [of now AES_EV_TIMER s]) (simp_all add: jt_new_def js320_jtag_on_timeout_def process_calls)
next
  case (Ev_publish now t v)
  show ?thesis
  proof (cases "jt_step e s = aes_process now AES_EV_JTAG_RSP (rsp_counted v s)")
    case True
    moreover have "jt_new e s = process_calls now AES_EV_JTAG_RSP (rsp_counted v s)"
      unfolding jt_new_def True by (simp add: process_calls)
    ultimately show ?thesis by (intro process [of now AES_EV_JTAG_RSP "rsp_counted v s"]) auto
  next
    case False
    then have "jt_new e s = []" by (auto simp: jt_new_def Ev_publish handle_publish_counted)
    then show ?thesis by (intro quiet) auto
  qed
next
  case (Ev_cmd now t v)
  let ?s = "s\<lparr>aes_transaction_id := get_u32 (bv_bin v) 0, aes_flags := get_u32 (bv_bin v) 4,
              aes_key := take 16 (drop 8 (bv_bin v)), aes_error_code := 0, aes_jtag_cmd_id := 0\<rparr>"
  show ?thesis
  proof (cases "t = ''h/jtag/aes/!cmd'' \<and> aes_state s = AES_IDLE \<and> bv_type v = U_BIN \<and> 24 \<le> length (bv_bin v)")
    case True
    then have step: "jt_step e s = aes_process now AES_EV_CMD ?s" by (simp add: Ev_cmd js320_jtag_handle_cmd_def)
    moreover have "jt_new e s = process_calls now AES_EV_CMD ?s" unfolding jt_new_def step by (simp add: process_calls)
    ultimately show ?thesis using True by (intro process [of now AES_EV_CMD ?s]) auto
  next
    case False
    have "put_u32 (of_int (ec BUSY)) \<noteq> put_u32 0" "put_u32 (of_int (ec PARAMETER_INVALID)) \<noteq> put_u32 0"
      by (simp_all add: put_u32_inj)
    then show ?thesis using False
      by (intro quiet) (auto simp: Ev_cmd jt_new_def js320_jtag_handle_cmd_def aes_send_rsp_def)
  qed
qed

lemma jt_step_data:
  assumes "jt_inv s l"
  shows "shift_data (jt_new e s) = [] \<or>
    shift_data (jt_new e s) = entry_data (aes_state (jt_step e s)) (aes_key (jt_step e s))"
proof (cases rule: jt_step_cases [of e s])
  case (process now ev s')
  then have "length (aes_key s') = 16" using assms by (auto simp: jt_inv_def)
  from process_data [OF this, of now ev] show ?thesis by (simp add: process)
qed simp

lemmas ecp5_codes = ECP5_LSC_PROG_CIPHER_KEY_def ECP5_LSC_PROG_FEABITS_def ECP5_READ_ID_def ECP5_ISC_ENABLE_def
  ECP5_ISC_DISABLE_def ECP5_LSC_READ_STATUS_def ECP5_LSC_INIT_ADDRESS_def ECP5_LSC_READ_CIPHER_KEY_def
  ECP5_LSC_READ_FEABITS_def

lemma zeros_single: "[c] = zeros n \<longleftrightarrow> n = 1 \<and> c = 0"
proof
  assume a: "[c] = zeros n"
  from arg_cong [OF a, of length] have "n = 1" by (simp add: zeros_def)
  with a show "n = 1 \<and> c = 0" by (simp add: zeros_def)
qed (simp add: zeros_def)

lemma single_in_entry_data:
  assumes "[c] \<in> set (entry_data st k)" "length k = 16"
  shows "c = ECP5_LSC_PROG_CIPHER_KEY \<Longrightarrow> st = AES_PROG_CIPHER"
    and "c = ECP5_LSC_PROG_FEABITS \<Longrightarrow> st = AES_PROG_EO \<or> st = AES_PROG_KL"
proof -
  have "[c] \<noteq> rev k" using assms(2) by auto
  then show "c = ECP5_LSC_PROG_CIPHER_KEY \<Longrightarrow> st = AES_PROG_CIPHER"
    and "c = ECP5_LSC_PROG_FEABITS \<Longrightarrow> st = AES_PROG_EO \<or> st = AES_PROG_KL"
    using assms(1) by (cases st; simp add: ecp5_codes zeros_single)+
qed

section \<open>Properties\<close>



section \<open>Progress\<close>

definition waits_timer :: "jtag_s \<Rightarrow> bool" where
  "waits_timer s \<longleftrightarrow> aes_state s \<in> {AES_KEY_BURN_WAIT, AES_EO_BURN_WAIT, AES_KL_BURN_WAIT}"

text \<open>
  A device that answers and a timer that expires, until the machine is idle: each pair is a time and
  the response that arrives at that time when the machine does not wait for the timer.
\<close>

fun jt_drive :: "(int \<times> bin_value) list \<Rightarrow> jtag_s \<Rightarrow> jtag_s" where
  "jt_drive [] s = s"
| "jt_drive ((now, v) # es) s =
     (if aes_state s = AES_IDLE then s
      else jt_drive es (jt_step (if waits_timer s then Ev_timeout now else Ev_publish now ''h/!rsp'' v) s))"

text \<open>The most events that a state is from idle.\<close>

fun todo :: "aes_state_e \<Rightarrow> nat" where
  "todo AES_IDLE = 0"
| "todo AES_READ_IDCODE = 36"
| "todo AES_ISC_ENABLE = 34"
| "todo AES_READ_STATUS = 31"
| "todo AES_INIT_ADDRESS = 28"
| "todo AES_READ_CIPHER = 25"
| "todo AES_PROG_CIPHER = 22"
| "todo AES_KEY_BURN_WAIT = 19"
| "todo AES_PROG_EO = 18"
| "todo AES_EO_BURN_WAIT = 15"
| "todo AES_VERIFY_EO = 14"
| "todo AES_PROG_KL = 11"
| "todo AES_KL_BURN_WAIT = 8"
| "todo AES_VERIFY_KL = 7"
| "todo AES_ISC_DISABLE = 4"
| "todo AES_DONE = 0"

definition rank :: "jtag_s \<Rightarrow> nat" where
  "rank s = todo (aes_state s) - (if batch (aes_state s) = None then 0 else unat (aes_current_response_idx s))"

lemma aes_on_enter_idx [simp]: "batch st \<noteq> None \<Longrightarrow> aes_current_response_idx (aes_on_enter now st s) = 0"
  by (cases st; simp add: aes_on_enter.simps jt_run)

lemma process_rsp_rank:
  "batch (aes_state s) = Some (n, t, z) \<Longrightarrow> rank (aes_process now AES_EV_JTAG_RSP s) + n \<le> todo (aes_state s)"
  by (cases "aes_state s"; simp add: process_simps rank_def)

lemma process_timer_rank: "waits_timer s \<Longrightarrow> rank (aes_process now AES_EV_TIMER s) < rank s"
  by (auto simp: waits_timer_def process_simps rank_def)

lemma process_idle:
  "aes_state s \<noteq> AES_IDLE \<Longrightarrow> aes_state s \<noteq> AES_DONE \<Longrightarrow> aes_state (aes_process now ev s) = AES_IDLE \<Longrightarrow>
   \<exists>x. jt_calls (aes_process now ev s) =
     jt_calls s @ [To_frontend ''h/jtag/aes/!rsp'' (put_u32 (aes_transaction_id s) @ put_u32 x)]"
  by (cases "aes_state s"; cases ev; simp add: process_simps split: if_splits; blast)

lemma batch_or_timer: "stage (aes_state s) s l \<Longrightarrow> aes_state s \<noteq> AES_IDLE \<Longrightarrow> waits_timer s \<longleftrightarrow> batch (aes_state s) = None"
  by (cases "aes_state s"; simp add: waits_timer_def)

lemma todo_batch: "batch st = Some (n, t, z) \<Longrightarrow> n \<le> todo st \<and> n < 5"
  by (cases st) auto

lemma drive_step:
  assumes inv: "jt_inv s l" and busy: "aes_state s \<noteq> AES_IDLE" and v: "hdr_offset v + MEM_SIZE \<le> length (bv_bin v)"
    and s': "s' = jt_step (if waits_timer s then Ev_timeout now else Ev_publish now ''h/!rsp'' v) s"
  shows "rank s' < rank s" "aes_transaction_id s' = aes_transaction_id s"
    "aes_state s' = AES_IDLE \<Longrightarrow>
       \<exists>x. jt_calls s' = jt_calls s @ [To_frontend ''h/jtag/aes/!rsp'' (put_u32 (aes_transaction_id s) @ put_u32 x)]"
proof -
  have st: "stage (aes_state s) s l" and b: "batch_ok s" using inv by (auto simp: jt_inv_def)
  have nd: "aes_state s \<noteq> AES_DONE" using st by auto
  consider (timer) "waits_timer s" "s' = aes_process now AES_EV_TIMER s"
    | (fire) n t z where "batch (aes_state s) = Some (n, t, z)" "aes_expected_responses s = 1"
        "s' = aes_process now AES_EV_JTAG_RSP (rsp_counted v s)"
    | (count) n t z where "batch (aes_state s) = Some (n, t, z)" "aes_expected_responses s \<noteq> 1" "s' = rsp_counted v s"
    using batch_or_timer [OF st busy] busy v s'
    by (cases "waits_timer s"; cases "aes_expected_responses s = 1")
       (auto simp: handle_publish_counted js320_jtag_on_timeout_def)
  then have "rank s' < rank s \<and> aes_transaction_id s' = aes_transaction_id s \<and> (aes_state s' = AES_IDLE \<longrightarrow>
       (\<exists>x. jt_calls s' = jt_calls s @ [To_frontend ''h/jtag/aes/!rsp'' (put_u32 (aes_transaction_id s) @ put_u32 x)]))"
  proof cases
    case timer
    then show ?thesis using process_timer_rank process_idle [OF busy nd] by auto
  next
    case fire
    have "unat (aes_current_response_idx s) + 1 = n" using b fire by (auto simp: batch_ok_def)
    then have "rank s' < rank s"
      using process_rsp_rank [of "rsp_counted v s" n t z now] fire todo_batch [OF fire(1)] by (auto simp: rank_def)
    then show ?thesis using process_idle [of "rsp_counted v s" now AES_EV_JTAG_RSP] fire busy nd by auto
  next
    case count
    have "unat (aes_current_response_idx s) < n" using b count by (auto simp: batch_ok_def)
    moreover from this have "unat (aes_current_response_idx s + 1) = Suc (unat (aes_current_response_idx s))"
      using todo_batch [OF count(1)] by (simp add: unat_word_ariths)
    ultimately have "rank s' < rank s" using count todo_batch [OF count(1)] by (auto simp: rank_def)
    then show ?thesis using count busy by auto
  qed
  then show "rank s' < rank s" "aes_transaction_id s' = aes_transaction_id s"
    "aes_state s' = AES_IDLE \<Longrightarrow>
       \<exists>x. jt_calls s' = jt_calls s @ [To_frontend ''h/jtag/aes/!rsp'' (put_u32 (aes_transaction_id s) @ put_u32 x)]"
    by blast+
qed

abbreviation answers :: "bin_value \<Rightarrow> bool" where
  "answers v \<equiv> hdr_offset v + MEM_SIZE \<le> length (bv_bin v)"

lemma rank_pos: "jt_inv s l \<Longrightarrow> aes_state s \<noteq> AES_IDLE \<Longrightarrow> 0 < rank s"
  by (cases "aes_state s") (auto simp: jt_inv_def batch_ok_def rank_def)

lemma drive_ends:
  assumes "list_all (\<lambda>(now, v). answers v) es" "rank s \<le> length es" "jt_inv s l" "aes_state s \<noteq> AES_IDLE"
  shows "aes_state (jt_drive es s) = AES_IDLE \<and>
    (\<exists>cs x. jt_calls (jt_drive es s) =
       cs @ [To_frontend ''h/jtag/aes/!rsp'' (put_u32 (aes_transaction_id s) @ put_u32 x)])"
  using assms
proof (induction es arbitrary: s l)
  case Nil
  then show ?case using rank_pos [of s l] by simp
next
  case (Cons ev es)
  obtain now v where ev: "ev = (now, v)" by (cases ev)
  let ?e = "if waits_timer s then Ev_timeout now else Ev_publish now ''h/!rsp'' v"
  note step = drive_step [OF Cons.prems(3,4), of v "jt_step ?e s" now]
  have v: "answers v" using Cons.prems(1) ev by simp
  show ?case
  proof (cases "aes_state (jt_step ?e s) = AES_IDLE")
    case True
    then have "jt_drive (ev # es) s = jt_step ?e s" using Cons.prems(4) by (cases es) (auto simp: ev)
    then show ?thesis using step(3) [OF v refl True] True by auto
  next
    case False
    have "rank (jt_step ?e s) \<le> length es" using step(1) [OF v refl] Cons.prems(2) by simp
    from Cons.IH [OF _ this jt_step_inv [OF Cons.prems(3)] False] show ?thesis
      using Cons.prems step(2) [OF v refl] by (simp add: ev)
  qed
qed

lemma rank_le: "rank s \<le> 36"
  by (cases "aes_state s") (auto simp: rank_def)


text \<open>
  A command that arrives while another runs is refused with the busy code, and the running command goes on;
  but the refused command's transaction identifier replaces that of the running one, so that
  the final response to the running command carries the identifier of the refused one.
\<close>

theorem aes_busy_takes_identifier:
  assumes "jt_reach s l" "aes_state s \<noteq> AES_IDLE" "bv_type v = U_BIN" "4 \<le> length (bv_bin v)"
    and "list_all (\<lambda>(now, v). answers v) es" "36 \<le> length es"
    and s': "s' = jt_step (Ev_cmd now ''h/jtag/aes/!cmd'' v) s" and i: "i = get_u32 (bv_bin v) 0"
  shows "s' = s\<lparr>aes_transaction_id := i,
        jt_calls := jt_calls s @ [To_frontend ''h/jtag/aes/!rsp'' (put_u32 i @ put_u32 (of_int (ec BUSY)))]\<rparr> \<and>
    (\<exists>cs x. jt_calls (jt_drive es s') = cs @ [To_frontend ''h/jtag/aes/!rsp'' (put_u32 i @ put_u32 x)])"
proof -
  have eq: "s' = s\<lparr>aes_transaction_id := i,
        jt_calls := jt_calls s @ [To_frontend ''h/jtag/aes/!rsp'' (put_u32 i @ put_u32 (of_int (ec BUSY)))]\<rparr>"
    using assms by (simp add: js320_jtag_handle_cmd_def aes_send_rsp_def jt_call_def)
  have "jt_inv s' (jt_log (Ev_cmd now ''h/jtag/aes/!cmd'' v) s l)"
    unfolding s' by (rule jt_step_inv [OF jt_reach_inv [OF assms(1)]])
  moreover have "aes_state s' \<noteq> AES_IDLE" using assms(2) by (simp add: eq)
  ultimately show ?thesis
    using drive_ends [OF assms(5), of s'] rank_le [of s'] assms(6) eq by auto
qed

section \<open>Example run\<close>

fun jt_runs :: "jt_event list \<Rightarrow> jtag_s \<Rightarrow> jt_log list \<Rightarrow> jtag_s \<times> jt_log list" where
  "jt_runs [] s l = (s, l)"
| "jt_runs (e # es) s l = jt_runs es (jt_step e s) (jt_log e s l)"

lemma jt_reach_runs: "jt_reach s l \<Longrightarrow> jt_runs es s l = (s', l') \<Longrightarrow> jt_reach s' l'"
  by (induction es arbitrary: s l) (auto intro: jt_next)

definition ex_rsp :: "u8 list \<Rightarrow> jt_event" where
  "ex_rsp d = Ev_publish 0 ''h/!rsp'' \<lparr>bv_type = U_BIN, bv_bin = replicate 24 0 @ d\<rparr>"

definition ex_cmd :: jt_event where
  "ex_cmd = Ev_cmd 0 ''h/jtag/aes/!cmd'' \<lparr>bv_type = U_BIN, bv_bin = [7, 0, 0, 0, 3, 0, 0, 0] @ replicate 15 0 @ [1]\<rparr>"

text \<open>A state that waits for a batch, fed with all its responses, decides on the last one.\<close>

lemma run_batch:
  assumes "batch_ok s" "batch (aes_state s) = Some (n, t, z)"
    "unat (aes_current_response_idx s) + length ds = n" "ds \<noteq> []"
  shows "\<exists>s'. fst (jt_runs (map ex_rsp ds) s l) = aes_process 0 AES_EV_JTAG_RSP s' \<and> aes_state s' = aes_state s
    \<and> aes_key s' = aes_key s \<and> aes_flags s' = aes_flags s \<and> aes_error_code s' = aes_error_code s
    \<and> jt_calls s' = jt_calls s
    \<and> (t \<noteq> 0xFF \<longrightarrow> aes_response_buf s' = answer (unat z) (last ds))"
  using assms
proof (induction ds arbitrary: s l)
  case (Cons d ds)
  let ?v = "\<lparr>bv_type = U_BIN, bv_bin = replicate 24 0 @ d\<rparr>"
  have v: "hdr_offset ?v + MEM_SIZE = 24" by (simp add: hdr_offset_def MEM_SIZE_def)
  have busy: "aes_state s \<noteq> AES_IDLE" using Cons.prems(2) by auto
  have e: "unat (aes_expected_responses s) = Suc (length ds)" using Cons.prems by (auto simp: batch_ok_def)
  show ?case
  proof (cases ds)
    case Nil
    then have e1: "aes_expected_responses s = 1" using e by (simp add: word_unat_eq_iff)
    have "jt_step (ex_rsp d) s = aes_process 0 AES_EV_JTAG_RSP (rsp_counted ?v s)"
      using busy e1 v by (simp add: ex_rsp_def handle_publish_counted)
    moreover have "t \<noteq> 0xFF \<Longrightarrow> aes_current_response_idx s = t \<and> aes_target_response_idx s = t"
      using batch_last [OF Cons.prems(2)] Cons.prems Nil by (auto simp: batch_ok_def word_unat_eq_iff)
    then have "t \<noteq> 0xFF \<longrightarrow> aes_response_buf (rsp_counted ?v s) = answer (unat z) d"
      using Cons.prems v answer_zeros [of d "unat z"] by (auto simp: rsp_counted_def jtag_store_rsp_def batch_ok_def Let_def)
    ultimately show ?thesis using Nil by (auto intro!: exI [of _ "rsp_counted ?v s"])
  next
    case (Cons d' ds')
    then have ne: "aes_expected_responses s \<noteq> 1" using e by auto
    have step: "jt_step (ex_rsp d) s = rsp_counted ?v s" using busy ne v by (simp add: ex_rsp_def handle_publish_counted)
    have "unat (aes_current_response_idx s + 1) = Suc (unat (aes_current_response_idx s))"
      using Cons.prems(3) todo_batch [OF Cons.prems(2)] by (simp add: unat_word_ariths)
    then show ?thesis
      using Cons.IH [of "rsp_counted ?v s" "jt_log (ex_rsp d) s l"] rsp_counted_batch [OF Cons.prems(1) ne] Cons.prems Cons
      by (simp add: step)
  qed
qed simp

lemma jt_runs_append: "jt_runs (xs @ ys) s l = (case jt_runs xs s l of (s', l') \<Rightarrow> jt_runs ys s' l')"
  by (induction xs arbitrary: s l) auto

text \<open>A run in which everything succeeds: the events that take each state to the next.\<close>

fun happy_data :: "aes_state_e \<Rightarrow> u8 list list" where
  "happy_data AES_READ_IDCODE = [[], [0x43, 0x10, 0x11, 0x41]]"
| "happy_data AES_READ_STATUS = [[], [], [0, 0x0C, 0, 0]]"
| "happy_data AES_READ_CIPHER = [[], [], ECP5_BLANK_CIPHER_KEY]"
| "happy_data AES_VERIFY_EO = [[], [], [2, 0]]"
| "happy_data AES_VERIFY_KL = [[], [], [1, 0]]"
| "happy_data AES_ISC_DISABLE = [[], [], [], []]"
| "happy_data st = [[], [], []]"

definition happy :: "aes_state_e \<Rightarrow> jt_event list" where
  "happy st = (if batch st = None then [Ev_timeout 0] else map ex_rsp (happy_data st))"

fun happy_next :: "aes_state_e \<Rightarrow> aes_state_e" where
  "happy_next AES_READ_IDCODE = AES_ISC_ENABLE"
| "happy_next AES_ISC_ENABLE = AES_READ_STATUS"
| "happy_next AES_READ_STATUS = AES_INIT_ADDRESS"
| "happy_next AES_INIT_ADDRESS = AES_READ_CIPHER"
| "happy_next AES_READ_CIPHER = AES_PROG_CIPHER"
| "happy_next AES_PROG_CIPHER = AES_KEY_BURN_WAIT"
| "happy_next AES_KEY_BURN_WAIT = AES_PROG_EO"
| "happy_next AES_PROG_EO = AES_EO_BURN_WAIT"
| "happy_next AES_EO_BURN_WAIT = AES_VERIFY_EO"
| "happy_next AES_VERIFY_EO = AES_PROG_KL"
| "happy_next AES_PROG_KL = AES_KL_BURN_WAIT"
| "happy_next AES_KL_BURN_WAIT = AES_VERIFY_KL"
| "happy_next AES_VERIFY_KL = AES_ISC_DISABLE"
| "happy_next st = AES_IDLE"

definition at_state :: "aes_state_e \<Rightarrow> jtag_s \<Rightarrow> bool" where
  "at_state st s \<longleftrightarrow> aes_state s = st \<and> aes_flags s = 3 \<and> aes_error_code s = 0 \<and> length (aes_key s) = 16 \<and> batch_ok s
     \<and> (batch st \<noteq> None \<longrightarrow> aes_current_response_idx s = 0)"

lemma run_at:
  assumes "at_state st s" "batch st = Some (n, t, z)" "length ds = n"
  shows "\<exists>s'. fst (jt_runs (map ex_rsp ds) s l) = aes_process 0 AES_EV_JTAG_RSP s' \<and> aes_state s' = st \<and> aes_flags s' = 3
    \<and> aes_error_code s' = 0 \<and> length (aes_key s') = 16 \<and> (t \<noteq> 0xFF \<longrightarrow> aes_response_buf s' = answer (unat z) (last ds))"
proof -
  have "ds \<noteq> []" using assms(2,3) by (cases st) auto
  then show ?thesis using assms run_batch [of s n t z ds l] by (auto simp: at_state_def)
qed

lemma happy_answers:
  "get_u32 (answer 4 [0x43, 0x10, 0x11, 0x41]) 0 = ECP5_LFE5U25_IDCODE" "get_u32 (answer 4 [0, 0x0C, 0, 0]) 0 = 0xC00"
  "answer 16 ECP5_BLANK_CIPHER_KEY = ECP5_BLANK_CIPHER_KEY" "take 16 ECP5_BLANK_CIPHER_KEY = ECP5_BLANK_CIPHER_KEY"
  "answer 2 [2, 0] ! 0 = 2" "answer 2 [1, 0] ! 0 = 1"
  by (simp_all add: answer_def get_u32_def ECP5_LFE5U25_IDCODE_def ECP5_BLANK_CIPHER_KEY_def)

lemma happy_step:
  assumes at: "at_state st s" and st: "st \<noteq> AES_ISC_DISABLE" "st \<noteq> AES_IDLE" "st \<noteq> AES_DONE"
  shows "at_state (happy_next st) (fst (jt_runs (happy st) s l))"
proof (cases "batch st")
  case None
  then have "fst (jt_runs (happy st) s l) = aes_process 0 AES_EV_TIMER s"
    by (simp add: happy_def js320_jtag_on_timeout_def)
  then show ?thesis using None at st process_batch [of s AES_EV_TIMER 0]
    by (cases st) (simp_all add: at_state_def process_simps ECP5_AES_FLAG_ENCRYPT_ONLY_def)
next
  case (Some b)
  obtain n t z where b: "batch st = Some (n, t, z)" using Some by (cases b) auto
  then have "length (happy_data st) = n" by (cases st) auto
  from run_at [OF at b this] obtain s' where s': "fst (jt_runs (happy st) s l) = aes_process 0 AES_EV_JTAG_RSP s'"
    "aes_state s' = st" "aes_flags s' = 3" "aes_error_code s' = 0" "length (aes_key s') = 16"
    "t \<noteq> 0xFF \<longrightarrow> aes_response_buf s' = answer (unat z) (last (happy_data st))" by (auto simp: happy_def b)
  then show ?thesis using b st process_batch [of s' AES_EV_JTAG_RSP 0]
    by (cases st) (auto simp: at_state_def process_simps happy_answers ECP5_AES_FLAG_KEY_LOCK_def)
qed

fun happy_run :: "nat \<Rightarrow> aes_state_e \<Rightarrow> jt_event list" where
  "happy_run 0 st = []"
| "happy_run (Suc n) st = happy st @ happy_run n (happy_next st)"

lemma happy_run_at:
  assumes "at_state st s" "\<forall>i < n. (happy_next ^^ i) st \<notin> {AES_ISC_DISABLE, AES_IDLE, AES_DONE}"
  shows "at_state ((happy_next ^^ n) st) (fst (jt_runs (happy_run n st) s l))"
  using assms
proof (induction n arbitrary: st s l)
  case (Suc n)
  have st: "st \<notin> {AES_ISC_DISABLE, AES_IDLE, AES_DONE}" using Suc.prems(2) by (metis funpow_0 zero_less_Suc)
  have "(happy_next ^^ i) (happy_next st) \<notin> {AES_ISC_DISABLE, AES_IDLE, AES_DONE}" if "i < n" for i
    using Suc.prems(2) that by (metis Suc_less_eq funpow_swap1 funpow.simps(2) comp_apply)
  then show ?case using Suc.IH [of "happy_next st" "fst (jt_runs (happy st) s l)"] happy_step [OF Suc.prems(1)] st
    by (auto simp: jt_runs_append funpow_swap1 split: prod.split)
qed simp

text \<open>Responses before the last of a batch are only counted.\<close>

lemma count_run:
  assumes "batch_ok s" "batch (aes_state s) \<noteq> None" "length ds < unat (aes_expected_responses s)"
    "s' = fst (jt_runs (map ex_rsp ds) s l)"
  shows "batch_ok s' \<and> aes_state s' = aes_state s \<and> aes_error_code s' = aes_error_code s \<and> jt_calls s' = jt_calls s
    \<and> aes_transaction_id s' = aes_transaction_id s
    \<and> unat (aes_expected_responses s') = unat (aes_expected_responses s) - length ds"
  using assms
proof (induction ds arbitrary: s l)
  case (Cons d ds)
  let ?v = "\<lparr>bv_type = U_BIN, bv_bin = replicate 24 0 @ d\<rparr>"
  have ne: "aes_expected_responses s \<noteq> 1" using Cons.prems(3) by auto
  have step: "jt_step (ex_rsp d) s = rsp_counted ?v s"
    using Cons.prems(2) ne by (auto simp: ex_rsp_def handle_publish_counted hdr_offset_def MEM_SIZE_def)
  have "unat (aes_expected_responses s - 1) = unat (aes_expected_responses s) - 1"
    using Cons.prems(3) by (metis less_nat_zero_code unat_0 unat_minus_one unsigned_0)
  then show ?case using Cons.IH [of "rsp_counted ?v s" "jt_log (ex_rsp d) s l"] rsp_counted_batch [OF Cons.prems(1) ne] Cons.prems
    by (simp add: step)
qed simp

definition ex_start :: jtag_s where
  "ex_start = jt_step ex_cmd js320_jtag_alloc"

definition ex_at :: "nat \<Rightarrow> jtag_s \<times> jt_log list" where
  "ex_at n = jt_runs (happy_run n AES_READ_IDCODE) ex_start (jt_log ex_cmd js320_jtag_alloc [])"

lemma ex_start_at: "at_state AES_READ_IDCODE ex_start"
  using process_batch [of "js320_jtag_alloc\<lparr>aes_transaction_id := get_u32 x 0, aes_flags := 3, aes_key := k\<rparr>" AES_EV_CMD 0 for x k]
  by (auto simp: ex_start_def ex_cmd_def js320_jtag_handle_cmd_def js320_jtag_alloc_def at_state_def process_simps get_u32_def
      aes_on_enter_batch)

lemma ex_start_reach: "jt_reach ex_start (jt_log ex_cmd js320_jtag_alloc [])"
  unfolding ex_start_def by (rule jt_next [OF jt_init])

lemma ex_at_reach: "jt_reach (fst (ex_at n)) (snd (ex_at n))"
  using jt_reach_runs [OF ex_start_reach] by (simp add: ex_at_def)

lemma ex_at_state: "n \<le> 13 \<Longrightarrow> at_state ((happy_next ^^ n) AES_READ_IDCODE) (fst (ex_at n))"
  unfolding ex_at_def
proof (rule happy_run_at [OF ex_start_at], intro allI impI)
  fix i
  assume "n \<le> 13" "i < n"
  then have "i = 0 \<or> i = 1 \<or> i = 2 \<or> i = 3 \<or> i = 4 \<or> i = 5 \<or> i = 6 \<or> i = 7 \<or> i = 8 \<or> i = 9 \<or> i = 10 \<or> i = 11 \<or> i = 12"
    by presburger
  then show "(happy_next ^^ i) AES_READ_IDCODE \<notin> {AES_ISC_DISABLE, AES_IDLE, AES_DONE}"
    by (auto simp: eval_nat_numeral)
qed

lemma ex_burn: "shift_data (jt_new (Ev_timeout 0) (fst (ex_at 6))) = [[ECP5_LSC_PROG_FEABITS], [2, 0], zeros 1]"
proof -
  let ?s = "fst (ex_at 6)"
  have at: "aes_state ?s = AES_KEY_BURN_WAIT" "aes_flags ?s = 3" "length (aes_key ?s) = 16"
    using ex_at_state [of 6] by (auto simp: at_state_def eval_nat_numeral)
  have "jt_new (Ev_timeout 0) ?s = process_calls 0 AES_EV_TIMER ?s"
    by (simp add: jt_new_def js320_jtag_on_timeout_def process_calls)
  moreover have "process_calls 0 AES_EV_TIMER ?s = entry_calls 0 AES_PROG_EO (?s\<lparr>aes_state := AES_PROG_EO\<rparr>)"
    using at by (simp add: process_calls_def process_simps ECP5_AES_FLAG_ENCRYPT_ONLY_def)
  ultimately show ?thesis using at by (simp add: entry_calls_data)
qed


definition ex_last :: "jtag_s \<times> jt_log list" where
  "ex_last = jt_runs (map ex_rsp [[], [], []]) (fst (ex_at 13)) (snd (ex_at 13))"

lemma ex_last_reach: "jt_reach (fst ex_last) (snd ex_last)"
  by (rule jt_reach_runs [OF ex_at_reach [of 13], of "map ex_rsp [[], [], []]"]) (simp only: ex_last_def prod.collapse)

lemma ex_last_rsp:
  "jt_new (ex_rsp []) (fst ex_last) = [To_frontend ''h/jtag/aes/!rsp'' (put_u32 (aes_transaction_id (fst ex_last)) @ put_u32 0)]"
proof -
  let ?s = "fst (ex_at 13)" and ?e = "fst ex_last" and ?v = "\<lparr>bv_type = U_BIN, bv_bin = replicate 24 (0 :: u8)\<rparr>"
  have at: "aes_state ?s = AES_ISC_DISABLE" "aes_error_code ?s = 0" "batch_ok ?s" "unat (aes_expected_responses ?s) = 4"
    using ex_at_state [of 13] by (auto simp: at_state_def eval_nat_numeral batch_ok_def)
  then have e: "aes_state ?e = AES_ISC_DISABLE" "aes_error_code ?e = 0" "aes_expected_responses ?e = 1"
    using count_run [of ?s "[[], [], []]" ?e "snd (ex_at 13)"] by (auto simp: ex_last_def word_unat_eq_iff)
  then have step: "jt_step (ex_rsp []) ?e = aes_process 0 AES_EV_JTAG_RSP (rsp_counted ?v ?e)"
    by (simp add: ex_rsp_def handle_publish_counted hdr_offset_def MEM_SIZE_def)
  show ?thesis unfolding jt_new_def step using e by (simp add: process_calls process_calls_disable)
qed


lemma ex_start_busy: "aes_state ex_start \<noteq> AES_IDLE"
  using ex_start_at by (simp add: at_state_def)

definition ex_answers :: "(int \<times> bin_value) list" where
  "ex_answers = replicate 36 (0, \<lparr>bv_type = U_BIN, bv_bin = replicate 24 0\<rparr>)"

lemma ex_answers: "list_all (\<lambda>(now, v). answers v) ex_answers" "36 \<le> length ex_answers"
  by (simp_all add: ex_answers_def list_all_iff hdr_offset_def MEM_SIZE_def)


theorem aes_busy_takes_identifier_witness:
  "\<exists>cs x. jt_calls (jt_drive ex_answers
      (jt_step (Ev_cmd 0 ''h/jtag/aes/!cmd'' \<lparr>bv_type = U_BIN, bv_bin = [9, 0, 0, 0]\<rparr>) ex_start)) =
    cs @ [To_frontend ''h/jtag/aes/!rsp'' (put_u32 9 @ put_u32 x)] \<and> aes_transaction_id ex_start = 7"
proof -
  have "aes_transaction_id ex_start = 7"
    by (simp add: ex_start_def ex_cmd_def js320_jtag_handle_cmd_def js320_jtag_alloc_def get_u32_def)
  then show ?thesis
    using aes_busy_takes_identifier [OF ex_start_reach ex_start_busy _ _ ex_answers refl refl,
        of "\<lparr>bv_type = U_BIN, bv_bin = [9, 0, 0, 0]\<rparr>" 0]
    by (simp add: get_u32_def del: jt_step.simps) metis
qed

end
