(* ===== verification/Fwup.thy ===== *)
theory Fwup
  imports Stdmsg
begin

text \<open>
  Firmware update and FPGA programming of the JS320 (\<^verbatim>\<open>src/devices/js320/js320_fwup.c\<close>): the two
  state machines that drive the page protocol of the device with a bounded number of
  commands in flight, and the handlers that the upper driver calls. The time of day is the
  argument \<open>now\<close>; calls into the device layer are appended to \<open>fw_calls\<close>. A read past the
  image is a fault.
\<close>

section \<open>Data\<close>

definition FW_PAGE_SIZE :: nat where "FW_PAGE_SIZE = 256"
definition PIPELINE_DEFAULT :: u32 where "PIPELINE_DEFAULT = 4"
definition PIPELINE_MAX :: u32 where "PIPELINE_MAX = 16"
definition FLASH_BLOCK_64K :: u32 where "FLASH_BLOCK_64K = 65536"
definition FPGA_PROGRESS_PAGE_INTERVAL :: u32 where "FPGA_PROGRESS_PAGE_INTERVAL = 256"
definition UPDATE_TARGET_SLOT :: u8 where "UPDATE_TARGET_SLOT = 0"
definition JTAG_MEM_DELAY_US :: u32 where "JTAG_MEM_DELAY_US = 100"
definition JSDRV_TIME_MILLISECOND :: int where "JSDRV_TIME_MILLISECOND = (2 ^ 30 + 500) div 1000"

abbreviation FWUP_DEV_OP_ALLOCATE :: mem_op where "FWUP_DEV_OP_ALLOCATE \<equiv> OP_CUSTOM 0"
abbreviation FWUP_DEV_OP_UPDATE :: mem_op where "FWUP_DEV_OP_UPDATE \<equiv> OP_CUSTOM 1"
abbreviation FWUP_DEV_OP_LAUNCH :: mem_op where "FWUP_DEV_OP_LAUNCH \<equiv> OP_CUSTOM 2"
abbreviation JS320_JTAG_OP_MEM_OPEN :: mem_op where "JS320_JTAG_OP_MEM_OPEN \<equiv> OP_CUSTOM 2"
abbreviation JS320_JTAG_OP_MEM_CLOSE :: mem_op where "JS320_JTAG_OP_MEM_CLOSE \<equiv> OP_CUSTOM 3"

datatype ctrl_state_e =
  CTRL_IDLE | CTRL_ALLOCATE | CTRL_WRITE | CTRL_VERIFY | CTRL_UPDATE | CTRL_LAUNCH | CTRL_ERASE | CTRL_DONE

datatype fpga_state_e =
    FPGA_IDLE | FPGA_MODE_SWITCH | FPGA_OPEN | FPGA_ERASE | FPGA_WRITE | FPGA_VERIFY | FPGA_CLOSE
  | FPGA_MODE_RESTORE | FPGA_DONE

record fwup_s =
  ctrl_state :: ctrl_state_e
  ctrl_transaction_id :: u32
  ctrl_image_slot :: u8
  fpga_state :: fpga_state_e
  fpga_transaction_id :: u32
  image :: "u8 list option"
  image_size :: u32
  device_cmd_id :: u32
  pipeline_depth :: u32
  page_count :: u32
  send_idx :: u32
  recv_idx :: u32
  error_count :: u32
  error_code :: int
  erase_block_count :: u32
  erase_block_idx :: u32
  fw_dev :: bool
  fw_calls :: "call list"

definition fw_call :: "call \<Rightarrow> fwup_s \<Rightarrow> fwup_s" where
  "fw_call c s = s\<lparr>fw_calls := fw_calls s @ [c]\<rparr>"

section \<open>Helpers\<close>

definition fwup_cleanup :: "fwup_s \<Rightarrow> fwup_s" where
  "fwup_cleanup s = s\<lparr>image := None, image_size := 0, page_count := 0, send_idx := 0, recv_idx := 0,
     error_count := 0, error_code := 0\<rparr>"

definition ctrl_send_rsp :: "int \<Rightarrow> fwup_s \<Rightarrow> fwup_s" where
  "ctrl_send_rsp st s =
     fw_call (To_frontend ''h/fwup/ctrl/!rsp'' (put_u32 (ctrl_transaction_id s) @ put_u32 (of_int st))) s"

definition fpga_send_rsp :: "int \<Rightarrow> fwup_s \<Rightarrow> fwup_s" where
  "fpga_send_rsp st s =
     fw_call (To_frontend ''h/fwup/fpga/!rsp'' (put_u32 (fpga_transaction_id s) @ put_u32 (of_int st))) s"

definition fpga_send_progress :: "u8 \<Rightarrow> u32 \<Rightarrow> u32 \<Rightarrow> fwup_s \<Rightarrow> fwup_s" where
  "fpga_send_progress phase cur tot s =
     fw_call (To_frontend ''h/fwup/fpga/!prog'' ([phase, 0, 0, 0] @ put_u32 cur @ put_u32 tot)) s"

definition pipeline_depth_validate :: "u8 \<Rightarrow> u32" where
  "pipeline_depth_validate depth =
     (if depth = 0 then PIPELINE_DEFAULT
      else if ucast depth > PIPELINE_MAX then PIPELINE_MAX
      else ucast depth)"

section \<open>Controller firmware\<close>

definition ctrl_send_fw_cmd :: "mem_op \<Rightarrow> u8 \<Rightarrow> u32 \<Rightarrow> u32 \<Rightarrow> u8 list \<Rightarrow> fwup_s \<Rightarrow> fwup_s" where
  "ctrl_send_fw_cmd p img off len d s =
     (let n = device_cmd_id s + 1
      in fw_call (To_device ''c/fwup/!cmd'' (mem_clr\<lparr>transaction_id := n, target := img, operation := mem_op_code p,
           offset := off, mlength := len, mdata := d\<rparr>)) (s\<lparr>device_cmd_id := n\<rparr>))"

text \<open>The bytes of the image from an offset; a chunk of no bytes touches no memory.\<close>

definition image_read :: "fwup_s \<Rightarrow> u32 \<Rightarrow> u32 \<Rightarrow> u8 list c" where
  "image_read s off chunk =
     (let b = (case image s of None \<Rightarrow> [] | Some b \<Rightarrow> b)
      in if chunk = 0 then Inr []
         else if unat off + unat chunk \<le> length b then Inr (take (unat chunk) (drop (unat off) b))
         else Inl OutOfBounds)"

definition ctrl_get_page_data :: "u32 \<Rightarrow> fwup_s \<Rightarrow> u8 list c" where
  "ctrl_get_page_data page_idx s =
     (let off = page_idx * of_nat FW_PAGE_SIZE;
          remaining = image_size s - off;
          chunk = (if remaining > of_nat FW_PAGE_SIZE then of_nat FW_PAGE_SIZE else remaining)
      in cbind (image_read s off chunk) (\<lambda>d. Inr (d @ replicate (FW_PAGE_SIZE - unat chunk) 0xFF)))"

text \<open>Whether the loops that fill the pipeline go on.\<close>

abbreviation pipeline_open :: "fwup_s \<Rightarrow> bool" where
  "pipeline_open s \<equiv> send_idx s < page_count s \<and> send_idx s - recv_idx s < pipeline_depth s"

lemma unat_Suc_less: "(i :: u32) < n \<Longrightarrow> unat (i + 1) = Suc (unat i)"
  using unat_add_no_wrap [of i 1] unat_bound_u32 [of n] by (simp add: word_less_nat_alt)

function ctrl_send_writes :: "fwup_s \<Rightarrow> fwup_s c" where
  "ctrl_send_writes s =
     (if pipeline_open s then
        cbind (ctrl_get_page_data (send_idx s) s) (\<lambda>page_buf.
          let s' = ctrl_send_fw_cmd OP_WRITE 0 (send_idx s * of_nat FW_PAGE_SIZE) (of_nat FW_PAGE_SIZE) page_buf s
          in ctrl_send_writes (s'\<lparr>send_idx := send_idx s' + 1\<rparr>))
      else Inr s)"
  by pat_completeness auto
termination
  by (relation "measure (\<lambda>s. unat (page_count s) - unat (send_idx s))")
     (auto simp: ctrl_send_fw_cmd_def fw_call_def Let_def unat_Suc_less word_less_nat_alt)

function ctrl_send_reads :: "fwup_s \<Rightarrow> fwup_s" where
  "ctrl_send_reads s =
     (if pipeline_open s then
        let s' = ctrl_send_fw_cmd OP_READ 0 (send_idx s * of_nat FW_PAGE_SIZE) (of_nat FW_PAGE_SIZE) [] s
        in ctrl_send_reads (s'\<lparr>send_idx := send_idx s' + 1\<rparr>)
      else s)"
  by pat_completeness auto
termination
  by (relation "measure (\<lambda>s. unat (page_count s) - unat (send_idx s))")
     (auto simp: ctrl_send_fw_cmd_def fw_call_def Let_def unat_Suc_less word_less_nat_alt)

declare ctrl_send_writes.simps [simp del] ctrl_send_reads.simps [simp del]

definition ctrl_enter_write :: "fwup_s \<Rightarrow> fwup_s c" where
  "ctrl_enter_write s =
     ctrl_send_writes (s\<lparr>ctrl_state := CTRL_WRITE, send_idx := 0, recv_idx := 0, error_count := 0\<rparr>)"

definition ctrl_enter_verify :: "fwup_s \<Rightarrow> fwup_s" where
  "ctrl_enter_verify s =
     ctrl_send_reads (s\<lparr>ctrl_state := CTRL_VERIFY, send_idx := 0, recv_idx := 0, error_count := 0\<rparr>)"

definition ctrl_finish :: "int \<Rightarrow> fwup_s \<Rightarrow> fwup_s" where
  "ctrl_finish st s = (fwup_cleanup (ctrl_send_rsp st s))\<lparr>ctrl_state := CTRL_IDLE\<rparr>"

text \<open>The state after the image of a command is copied.\<close>

definition image_take :: "u8 list \<Rightarrow> fwup_s \<Rightarrow> fwup_s" where
  "image_take d s = s\<lparr>image := Some d, image_size := of_nat (length d),
     page_count := (of_nat (length d) + of_nat FW_PAGE_SIZE - 1) div of_nat FW_PAGE_SIZE\<rparr>"

definition ctrl_on_cmd :: "bin_value \<Rightarrow> fwup_s \<Rightarrow> fwup_s" where
  "ctrl_on_cmd v s =
     (if ctrl_state s \<noteq> CTRL_IDLE then
        ctrl_send_rsp (ec BUSY)
          (if bv_type v = U_BIN \<and> length (bv_bin v) \<ge> 4 then s\<lparr>ctrl_transaction_id := get_u32 (bv_bin v) 0\<rparr> else s)
      else if bv_type v \<noteq> U_BIN \<or> length (bv_bin v) < 8 then ctrl_send_rsp (ec PARAMETER_INVALID) s
      else
        let p = bv_bin v ! 4;
            slot = bv_bin v ! 5;
            s = s\<lparr>ctrl_transaction_id := get_u32 (bv_bin v) 0, ctrl_image_slot := slot,
                  pipeline_depth := pipeline_depth_validate (bv_bin v ! 6), error_code := 0\<rparr>;
            d = drop 8 (bv_bin v)
        in if p = 1 then
             (if d = [] then ctrl_send_rsp (ec PARAMETER_INVALID) s
              else let s = (image_take d s)\<lparr>ctrl_state := CTRL_ALLOCATE\<rparr>
                   in ctrl_send_fw_cmd FWUP_DEV_OP_ALLOCATE 0 0 (image_size s) [] s)
           else if p = 2 then ctrl_send_fw_cmd FWUP_DEV_OP_LAUNCH slot 0 0 [] (s\<lparr>ctrl_state := CTRL_LAUNCH\<rparr>)
           else if p = 3 then ctrl_send_fw_cmd OP_ERASE slot 0 0 [] (s\<lparr>ctrl_state := CTRL_ERASE\<rparr>)
           else ctrl_send_rsp (ec PARAMETER_INVALID) s)"

text \<open>The error accounting at the start of both response handlers.\<close>

definition count_status :: "u8 \<Rightarrow> fwup_s \<Rightarrow> fwup_s" where
  "count_status st s =
     (if st \<noteq> 0 then s\<lparr>error_count := error_count s + 1, error_code := (if error_code s = 0 then ec IO else error_code s)\<rparr>
      else s)"

text \<open>The comparison of a page that was read with the image.\<close>

definition ctrl_verify_page :: "mem_s \<Rightarrow> fwup_s \<Rightarrow> fwup_s c" where
  "ctrl_verify_page rsp s =
     (if status rsp = 0 \<and> error_code s = 0 then
        cbind (ctrl_get_page_data (offset rsp div of_nat FW_PAGE_SIZE) s) (\<lambda>expected.
          Inr (if length (mdata rsp) \<ge> FW_PAGE_SIZE \<and> take FW_PAGE_SIZE (mdata rsp) \<noteq> expected
               then s\<lparr>error_count := error_count s + 1, error_code := ec IO\<rparr> else s))
      else Inr s)"

definition ctrl_on_write :: "fwup_s \<Rightarrow> fwup_s c" where
  "ctrl_on_write s =
     (let s = s\<lparr>recv_idx := recv_idx s + 1\<rparr>
      in if error_count s > 0 then Inr (if recv_idx s \<ge> send_idx s then ctrl_finish (error_code s) s else s)
         else if recv_idx s \<ge> page_count s then Inr (ctrl_enter_verify s)
         else ctrl_send_writes s)"

definition ctrl_on_verify :: "mem_s \<Rightarrow> fwup_s \<Rightarrow> fwup_s c" where
  "ctrl_on_verify rsp s =
     cbind (ctrl_verify_page rsp (s\<lparr>recv_idx := recv_idx s + 1\<rparr>)) (\<lambda>s.
       if error_count s > 0 then Inr (if recv_idx s \<ge> send_idx s then ctrl_finish (error_code s) s else s)
       else if recv_idx s \<ge> page_count s then
         Inr (ctrl_send_fw_cmd FWUP_DEV_OP_UPDATE UPDATE_TARGET_SLOT 0 0 [] (s\<lparr>ctrl_state := CTRL_UPDATE\<rparr>))
       else Inr (ctrl_send_reads s))"

definition ctrl_on_dev_rsp :: "bin_value \<Rightarrow> fwup_s \<Rightarrow> fwup_s c" where
  "ctrl_on_dev_rsp v s =
     (if length (bv_bin v) < hdr_offset v + MEM_SIZE then Inr s
      else
        let rsp = mem_of (bv_bin v) (hdr_offset v);
            s = count_status (status rsp) s
        in case ctrl_state s of
             CTRL_ALLOCATE \<Rightarrow> (if error_count s > 0 then Inr (ctrl_finish (error_code s) s) else ctrl_enter_write s)
           | CTRL_WRITE \<Rightarrow> ctrl_on_write s
           | CTRL_VERIFY \<Rightarrow> ctrl_on_verify rsp s
           | CTRL_UPDATE \<Rightarrow> Inr (ctrl_finish (error_code s) s)
           | CTRL_LAUNCH \<Rightarrow> Inr (ctrl_finish (error_code s) s)
           | CTRL_ERASE \<Rightarrow> Inr (ctrl_finish (error_code s) s)
           | _ \<Rightarrow> Inr s)"

section \<open>FPGA programming\<close>

definition fpga_send_jtag_mem_cmd :: "mem_op \<Rightarrow> u32 \<Rightarrow> u32 \<Rightarrow> u8 list \<Rightarrow> u16 \<Rightarrow> fwup_s \<Rightarrow> fwup_s" where
  "fpga_send_jtag_mem_cmd p off len d tmo s =
     (let n = device_cmd_id s + 1
      in fw_call (To_device ''c/jtag/!cmd'' (mem_clr\<lparr>transaction_id := n, operation := mem_op_code p, timeout_ms := tmo,
           offset := off, mlength := len, delay_us := JTAG_MEM_DELAY_US, mdata := d\<rparr>)) (s\<lparr>device_cmd_id := n\<rparr>))"

definition fpga_get_page_data :: "u32 \<Rightarrow> fwup_s \<Rightarrow> u8 list c" where
  "fpga_get_page_data page_idx s =
     (let off = page_idx * of_nat FW_PAGE_SIZE;
          remaining = image_size s - off;
          chunk = (if remaining > of_nat FW_PAGE_SIZE then of_nat FW_PAGE_SIZE else remaining)
      in cbind (image_read s off chunk) (\<lambda>d. Inr (d @ replicate (FW_PAGE_SIZE - unat chunk) 0xFF)))"

function fpga_send_writes :: "fwup_s \<Rightarrow> fwup_s c" where
  "fpga_send_writes s =
     (if pipeline_open s then
        cbind (fpga_get_page_data (send_idx s) s) (\<lambda>page_buf.
          let s' = fpga_send_jtag_mem_cmd OP_WRITE (send_idx s * of_nat FW_PAGE_SIZE) (of_nat FW_PAGE_SIZE) page_buf 1000 s
          in fpga_send_writes (s'\<lparr>send_idx := send_idx s' + 1\<rparr>))
      else Inr s)"
  by pat_completeness auto
termination
  by (relation "measure (\<lambda>s. unat (page_count s) - unat (send_idx s))")
     (auto simp: fpga_send_jtag_mem_cmd_def fw_call_def Let_def unat_Suc_less word_less_nat_alt)

function fpga_send_reads :: "fwup_s \<Rightarrow> fwup_s" where
  "fpga_send_reads s =
     (if pipeline_open s then
        let s' = fpga_send_jtag_mem_cmd OP_READ (send_idx s * of_nat FW_PAGE_SIZE) (of_nat FW_PAGE_SIZE) [] 1000 s
        in fpga_send_reads (s'\<lparr>send_idx := send_idx s' + 1\<rparr>)
      else s)"
  by pat_completeness auto
termination
  by (relation "measure (\<lambda>s. unat (page_count s) - unat (send_idx s))")
     (auto simp: fpga_send_jtag_mem_cmd_def fw_call_def Let_def unat_Suc_less word_less_nat_alt)

declare fpga_send_writes.simps [simp del] fpga_send_reads.simps [simp del]

definition fpga_finish :: "int \<Rightarrow> fwup_s \<Rightarrow> fwup_s" where
  "fpga_finish st s = (fwup_cleanup (fpga_send_rsp st s))\<lparr>fpga_state := FPGA_IDLE\<rparr>"

definition fpga_enter_close :: "fwup_s \<Rightarrow> fwup_s" where
  "fpga_enter_close s = fpga_send_jtag_mem_cmd JS320_JTAG_OP_MEM_CLOSE 0 0 [] 5000 (s\<lparr>fpga_state := FPGA_CLOSE\<rparr>)"

definition fpga_enter_error_cleanup :: "fwup_s \<Rightarrow> fwup_s" where
  "fpga_enter_error_cleanup s =
     (case fpga_state s of
        FPGA_OPEN \<Rightarrow> fpga_enter_close s
      | FPGA_ERASE \<Rightarrow> fpga_enter_close s
      | FPGA_WRITE \<Rightarrow> fpga_enter_close s
      | FPGA_VERIFY \<Rightarrow> fpga_enter_close s
      | FPGA_CLOSE \<Rightarrow> s
      | _ \<Rightarrow> fpga_finish (error_code s) s)"

definition fpga_enter_erase :: "fwup_s \<Rightarrow> fwup_s" where
  "fpga_enter_erase s =
     fpga_send_jtag_mem_cmd OP_ERASE 0 FLASH_BLOCK_64K [] 5000
       (s\<lparr>erase_block_count := (image_size s + FLASH_BLOCK_64K - 1) div FLASH_BLOCK_64K, erase_block_idx := 0,
          send_idx := 0, recv_idx := 0, error_count := 0, fpga_state := FPGA_ERASE\<rparr>)"

definition fpga_enter_write :: "fwup_s \<Rightarrow> fwup_s c" where
  "fpga_enter_write s =
     fpga_send_writes (s\<lparr>fpga_state := FPGA_WRITE, send_idx := 0, recv_idx := 0, error_count := 0\<rparr>)"

definition fpga_enter_verify :: "fwup_s \<Rightarrow> fwup_s" where
  "fpga_enter_verify s =
     fpga_send_reads (s\<lparr>fpga_state := FPGA_VERIFY, send_idx := 0, recv_idx := 0, error_count := 0\<rparr>)"

definition fpga_on_cmd :: "int \<Rightarrow> bin_value \<Rightarrow> fwup_s \<Rightarrow> fwup_s" where
  "fpga_on_cmd now v s =
     (if fpga_state s \<noteq> FPGA_IDLE then
        fpga_send_rsp (ec BUSY)
          (if bv_type v = U_BIN \<and> length (bv_bin v) \<ge> 4 then s\<lparr>fpga_transaction_id := get_u32 (bv_bin v) 0\<rparr> else s)
      else if bv_type v \<noteq> U_BIN \<or> length (bv_bin v) < 8 then fpga_send_rsp (ec PARAMETER_INVALID) s
      else
        let p = bv_bin v ! 4;
            s = s\<lparr>fpga_transaction_id := get_u32 (bv_bin v) 0,
                  pipeline_depth := pipeline_depth_validate (bv_bin v ! 5), error_code := 0\<rparr>;
            d = drop 8 (bv_bin v)
        in if p = 1 then
             (if d = [] then fpga_send_rsp (ec PARAMETER_INVALID) s
              else
                let s = image_take d s;
                    s = fw_call (To_device_u8 ''c/comm/sensor/!req'' 0) s;
                    s = fw_call (To_device_u32 ''c/mode'' 2) (s\<lparr>fpga_state := FPGA_MODE_SWITCH\<rparr>)
                in fw_call (Set_timeout (now + JSDRV_TIME_MILLISECOND * 100)) s)
           else fpga_send_rsp (ec PARAMETER_INVALID) s)"

definition fpga_on_erase :: "fwup_s \<Rightarrow> fwup_s c" where
  "fpga_on_erase s =
     (if error_count s > 0 then Inr (fpga_enter_error_cleanup s)
      else
        let s = s\<lparr>erase_block_idx := erase_block_idx s + 1\<rparr>;
            s = fpga_send_progress 0 (erase_block_idx s) (erase_block_count s) s
        in if erase_block_idx s \<ge> erase_block_count s then fpga_enter_write s
           else Inr (fpga_send_jtag_mem_cmd OP_ERASE (erase_block_idx s * FLASH_BLOCK_64K) FLASH_BLOCK_64K [] 5000 s))"

text \<open>The progress event that a page response makes before the next commands are sent.\<close>

definition fpga_page_progress :: "u8 \<Rightarrow> fwup_s \<Rightarrow> fwup_s" where
  "fpga_page_progress phase s =
     (if recv_idx s mod FPGA_PROGRESS_PAGE_INTERVAL = 0 then fpga_send_progress phase (recv_idx s) (page_count s) s else s)"

definition fpga_on_write :: "fwup_s \<Rightarrow> fwup_s c" where
  "fpga_on_write s =
     (let s = s\<lparr>recv_idx := recv_idx s + 1\<rparr>
      in if error_count s > 0 then Inr (if recv_idx s \<ge> send_idx s then fpga_enter_error_cleanup s else s)
         else if recv_idx s \<ge> page_count s then
           Inr (fpga_enter_verify (fpga_send_progress 1 (recv_idx s) (page_count s) s))
         else fpga_send_writes (fpga_page_progress 1 s))"

definition fpga_verify_page :: "mem_s \<Rightarrow> fwup_s \<Rightarrow> fwup_s c" where
  "fpga_verify_page rsp s =
     (if status rsp = 0 \<and> error_code s = 0 then
        cbind (fpga_get_page_data (offset rsp div of_nat FW_PAGE_SIZE) s) (\<lambda>expected.
          Inr (if length (mdata rsp) \<ge> FW_PAGE_SIZE \<and> take FW_PAGE_SIZE (mdata rsp) \<noteq> expected
               then s\<lparr>error_count := error_count s + 1, error_code := ec IO\<rparr> else s))
      else Inr s)"

definition fpga_on_verify :: "mem_s \<Rightarrow> fwup_s \<Rightarrow> fwup_s c" where
  "fpga_on_verify rsp s =
     cbind (fpga_verify_page rsp (s\<lparr>recv_idx := recv_idx s + 1\<rparr>)) (\<lambda>s.
       if error_count s > 0 then Inr (if recv_idx s \<ge> send_idx s then fpga_enter_error_cleanup s else s)
       else if recv_idx s \<ge> page_count s then
         Inr (fpga_enter_close (fpga_send_progress 2 (recv_idx s) (page_count s) s))
       else Inr (fpga_send_reads (fpga_page_progress 2 s)))"

definition fpga_on_close :: "int \<Rightarrow> fwup_s \<Rightarrow> fwup_s" where
  "fpga_on_close now s =
     fw_call (Set_timeout (now + JSDRV_TIME_MILLISECOND * 100))
       (fw_call (To_device_u32 ''c/mode'' 0) (s\<lparr>fpga_state := FPGA_MODE_RESTORE\<rparr>))"

definition fpga_on_dev_rsp :: "int \<Rightarrow> bin_value \<Rightarrow> fwup_s \<Rightarrow> fwup_s c" where
  "fpga_on_dev_rsp now v s =
     (if length (bv_bin v) < hdr_offset v + MEM_SIZE then Inr s
      else
        let rsp = mem_of (bv_bin v) (hdr_offset v);
            s = count_status (status rsp) s
        in case fpga_state s of
             FPGA_OPEN \<Rightarrow> Inr (if error_count s > 0 then fpga_enter_error_cleanup s else fpga_enter_erase s)
           | FPGA_ERASE \<Rightarrow> fpga_on_erase s
           | FPGA_WRITE \<Rightarrow> fpga_on_write s
           | FPGA_VERIFY \<Rightarrow> fpga_on_verify rsp s
           | FPGA_CLOSE \<Rightarrow> Inr (fpga_on_close now s)
           | _ \<Rightarrow> Inr s)"

definition fpga_on_timeout :: "fwup_s \<Rightarrow> fwup_s" where
  "fpga_on_timeout s =
     (case fpga_state s of
        FPGA_MODE_SWITCH \<Rightarrow> fpga_send_jtag_mem_cmd JS320_JTAG_OP_MEM_OPEN 0 0 [] 5000 (s\<lparr>fpga_state := FPGA_OPEN\<rparr>)
      | FPGA_MODE_RESTORE \<Rightarrow> (let s = fw_call (To_device_u8 ''c/comm/sensor/!req'' 1) s in fpga_finish (error_code s) s)
      | _ \<Rightarrow> s)"

section \<open>Handlers\<close>

definition js320_fwup_alloc :: fwup_s where
  "js320_fwup_alloc =
     \<lparr>ctrl_state = CTRL_IDLE, ctrl_transaction_id = 0, ctrl_image_slot = 0, fpga_state = FPGA_IDLE,
      fpga_transaction_id = 0, image = None, image_size = 0, device_cmd_id = 0, pipeline_depth = 0, page_count = 0,
      send_idx = 0, recv_idx = 0, error_count = 0, error_code = 0, erase_block_count = 0, erase_block_idx = 0,
      fw_dev = False, fw_calls = []\<rparr>"

definition js320_fwup_on_open :: "fwup_s \<Rightarrow> fwup_s" where
  "js320_fwup_on_open s = s\<lparr>fw_dev := True\<rparr>"

definition js320_fwup_on_close :: "fwup_s \<Rightarrow> fwup_s" where
  "js320_fwup_on_close s =
     (let s = s\<lparr>ctrl_state := CTRL_IDLE\<rparr>;
          s = (if fpga_state s \<noteq> FPGA_IDLE then (fw_call (Set_timeout 0) s)\<lparr>fpga_state := FPGA_IDLE\<rparr> else s)
      in (fwup_cleanup s)\<lparr>fw_dev := False\<rparr>)"

definition js320_fwup_handle_cmd :: "int \<Rightarrow> string \<Rightarrow> bin_value \<Rightarrow> fwup_s \<Rightarrow> bool \<times> fwup_s" where
  "js320_fwup_handle_cmd now subtopic v s =
     (if subtopic = ''h/fwup/ctrl/!cmd'' then (True, ctrl_on_cmd v s)
      else if subtopic = ''h/fwup/fpga/!cmd'' then (True, fpga_on_cmd now v s)
      else (False, s))"

definition js320_fwup_handle_publish :: "int \<Rightarrow> string \<Rightarrow> bin_value \<Rightarrow> fwup_s \<Rightarrow> (bool \<times> fwup_s) c" where
  "js320_fwup_handle_publish now subtopic v s =
     (if ctrl_state s \<noteq> CTRL_IDLE \<and> subtopic = ''h/!rsp'' then cbind (ctrl_on_dev_rsp v s) (\<lambda>s. Inr (True, s))
      else if fpga_state s \<noteq> FPGA_IDLE \<and> subtopic = ''h/!rsp'' then cbind (fpga_on_dev_rsp now v s) (\<lambda>s. Inr (True, s))
      else Inr (False, s))"

definition js320_fwup_on_timeout :: "fwup_s \<Rightarrow> fwup_s" where
  "js320_fwup_on_timeout s = (if fpga_state s \<noteq> FPGA_IDLE then fpga_on_timeout s else s)"

section \<open>The page pipeline\<close>

text \<open>A command to the device, with the next transaction identifier, as both senders make it.\<close>

definition send_tagged :: "string \<Rightarrow> mem_s \<Rightarrow> fwup_s \<Rightarrow> fwup_s" where
  "send_tagged t m s =
     (let n = device_cmd_id s + 1 in fw_call (To_device t (m\<lparr>transaction_id := n\<rparr>)) (s\<lparr>device_cmd_id := n\<rparr>))"

lemma ctrl_send_tagged:
  "ctrl_send_fw_cmd p img off len d = send_tagged ''c/fwup/!cmd''
     (mem_clr\<lparr>target := img, operation := mem_op_code p, offset := off, mlength := len, mdata := d\<rparr>)"
  by (simp add: ctrl_send_fw_cmd_def send_tagged_def Let_def mem_clr_def fun_eq_iff)

lemma fpga_send_tagged:
  "fpga_send_jtag_mem_cmd p off len d tmo = send_tagged ''c/jtag/!cmd''
     (mem_clr\<lparr>operation := mem_op_code p, timeout_ms := tmo, offset := off, mlength := len, delay_us := JTAG_MEM_DELAY_US, mdata := d\<rparr>)"
  by (simp add: fpga_send_jtag_mem_cmd_def send_tagged_def Let_def mem_clr_def fun_eq_iff)

text \<open>What the device is told, without the transaction identifiers.\<close>

fun untag :: "call \<Rightarrow> call list" where
  "untag (To_device t m) = [To_device t (m\<lparr>transaction_id := 0\<rparr>)]"
| "untag (To_frontend t b) = []"
| "untag (Set_timeout x) = []"
| "untag c = [c]"

definition to_dev :: "call list \<Rightarrow> call list" where
  "to_dev cs = concat (map untag cs)"

lemma to_dev_simps [simp]:
  "to_dev [] = []" "to_dev (c # cs) = untag c @ to_dev cs" "to_dev (cs @ ds) = to_dev cs @ to_dev ds"
  by (simp_all add: to_dev_def)

text \<open>Two states that differ at most in the pipeline indices, the last identifier and the calls.\<close>

definition same_job :: "fwup_s \<Rightarrow> fwup_s \<Rightarrow> bool" where
  "same_job s s' \<longleftrightarrow> s' = s\<lparr>recv_idx := recv_idx s', send_idx := send_idx s', device_cmd_id := device_cmd_id s',
     fw_calls := fw_calls s'\<rparr>"

lemma same_jobD:
  assumes "same_job s s'"
  shows "ctrl_state s' = ctrl_state s" "ctrl_transaction_id s' = ctrl_transaction_id s" "fpga_state s' = fpga_state s"
    "fpga_transaction_id s' = fpga_transaction_id s" "image s' = image s" "image_size s' = image_size s"
    "pipeline_depth s' = pipeline_depth s" "page_count s' = page_count s" "error_count s' = error_count s"
    "error_code s' = error_code s" "ctrl_image_slot s' = ctrl_image_slot s" "erase_block_count s' = erase_block_count s"
    "erase_block_idx s' = erase_block_idx s" "fw_dev s' = fw_dev s"
  by (subst assms [unfolded same_job_def], simp)+

lemma same_jobI:
  assumes "ctrl_state s' = ctrl_state s" "ctrl_transaction_id s' = ctrl_transaction_id s" "fpga_state s' = fpga_state s"
    "fpga_transaction_id s' = fpga_transaction_id s" "image s' = image s" "image_size s' = image_size s"
    "pipeline_depth s' = pipeline_depth s" "page_count s' = page_count s" "error_count s' = error_count s"
    "error_code s' = error_code s" "ctrl_image_slot s' = ctrl_image_slot s" "erase_block_count s' = erase_block_count s"
    "erase_block_idx s' = erase_block_idx s" "fw_dev s' = fw_dev s"
  shows "same_job s s'"
  unfolding same_job_def by (rule fwup_s.equality) (use assms in simp_all)

lemma same_job_refl [simp]: "same_job s s"
  by (rule same_jobI) simp_all

lemma same_job_trans: "same_job s s' \<Longrightarrow> same_job s' s'' \<Longrightarrow> same_job s s''"
  by (rule same_jobI) (simp_all add: same_jobD)

text \<open>
  The contract of the four loops that fill the pipeline: one command per page, made from the image
  and the page number only.
\<close>

locale page_sender =
  fixes loop :: "fwup_s \<Rightarrow> fwup_s c"
    and tpc :: string
    and msg :: "fwup_s \<Rightarrow> u32 \<Rightarrow> mem_s c"
  assumes loop: "loop s = (if pipeline_open s then
      cbind (msg s (send_idx s)) (\<lambda>m. loop ((send_tagged tpc m s)\<lparr>send_idx := send_idx s + 1\<rparr>)) else Inr s)"
    and msg_image: "image s' = image s \<Longrightarrow> image_size s' = image_size s \<Longrightarrow> msg s' i = msg s i"
begin

definition page_call :: "fwup_s \<Rightarrow> nat \<Rightarrow> call" where
  "page_call s i = To_device tpc ((case msg s (of_nat i) of Inr m \<Rightarrow> m)\<lparr>transaction_id := 0\<rparr>)"

lemma fill:
  assumes "recv_idx s \<le> send_idx s" "send_idx s \<le> page_count s" "0 < pipeline_depth s"
    "unat (recv_idx s) + unat (pipeline_depth s) < 2 ^ 32"
    and "\<And>i. i < unat (page_count s) \<Longrightarrow> \<exists>m. msg s (of_nat i) = Inr m"
  shows "\<exists>s'. loop s = Inr s' \<and> same_job s s' \<and> recv_idx s' = recv_idx s \<and>
    unat (send_idx s') = max (unat (send_idx s)) (min (unat (page_count s)) (unat (recv_idx s) + unat (pipeline_depth s))) \<and>
    to_dev (fw_calls s') = to_dev (fw_calls s) @ map (page_call s) [unat (send_idx s)..<unat (send_idx s')]"
  using assms
proof (induction "unat (page_count s) - unat (send_idx s)" arbitrary: s rule: less_induct)
  case less
  have le: "unat (recv_idx s) \<le> unat (send_idx s)" "unat (send_idx s) \<le> unat (page_count s)"
    using less.prems by (simp_all add: word_le_nat_alt)
  have inflight: "unat (send_idx s - recv_idx s) = unat (send_idx s) - unat (recv_idx s)"
    using less.prems(1) by (rule unat_sub)
  show ?case
  proof (cases "pipeline_open s")
    case False
    then have "unat (page_count s) \<le> unat (send_idx s) \<or> unat (recv_idx s) + unat (pipeline_depth s) \<le> unat (send_idx s)"
      using inflight le by (auto simp: word_less_nat_alt)
    then show ?thesis using False le by (subst loop) auto
  next
    case True
    then have lt: "unat (send_idx s) < unat (page_count s)" "unat (send_idx s) < unat (recv_idx s) + unat (pipeline_depth s)"
      using inflight le by (auto simp: word_less_nat_alt)
    have inc: "unat (send_idx s + 1) = Suc (unat (send_idx s))" using True unat_Suc_less by blast
    obtain m where m: "msg s (send_idx s) = Inr m" using less.prems(5) [OF lt(1)] by auto
    let ?s = "(send_tagged tpc m s)\<lparr>send_idx := send_idx s + 1\<rparr>"
    have job: "same_job s ?s" by (rule same_jobI) (simp_all add: send_tagged_def fw_call_def Let_def)
    have f: "recv_idx ?s = recv_idx s" "send_idx ?s = send_idx s + 1"
      "to_dev (fw_calls (send_tagged tpc m s)) = to_dev (fw_calls s) @ [page_call s (unat (send_idx s))]"
      by (simp_all add: send_tagged_def fw_call_def Let_def page_call_def m)
    have msg: "msg ?s i = msg s i" for i by (rule msg_image) (simp_all add: same_jobD [OF job])
    have "\<exists>s'. loop ?s = Inr s' \<and> same_job ?s s' \<and> recv_idx s' = recv_idx ?s \<and>
      unat (send_idx s') = max (unat (send_idx ?s)) (min (unat (page_count ?s)) (unat (recv_idx ?s) + unat (pipeline_depth ?s))) \<and>
      to_dev (fw_calls s') = to_dev (fw_calls ?s) @ map (page_call ?s) [unat (send_idx ?s)..<unat (send_idx s')]"
      by (rule less.hyps)
         (use less.prems lt inc le msg in \<open>simp_all add: f same_jobD [OF job] word_le_nat_alt del: of_nat_unat\<close>)
    then obtain s' where s': "loop ?s = Inr s'" "same_job ?s s'" "recv_idx s' = recv_idx s"
      "unat (send_idx s') = max (Suc (unat (send_idx s))) (min (unat (page_count s)) (unat (recv_idx s) + unat (pipeline_depth s)))"
      "to_dev (fw_calls s') = to_dev (fw_calls s) @ page_call s (unat (send_idx s)) # map (page_call ?s) [Suc (unat (send_idx s))..<unat (send_idx s')]"
      by (auto simp: f inc same_jobD [OF job])
    have pc: "page_call ?s = page_call s" using msg by (simp add: page_call_def fun_eq_iff)
    have "[unat (send_idx s)..<unat (send_idx s')] = unat (send_idx s) # [Suc (unat (send_idx s))..<unat (send_idx s')]"
      using s'(4) by (simp add: upt_conv_Cons)
    then show ?thesis using s' True m lt same_job_trans [OF job s'(2)] by (subst loop) (auto simp: pc)
  qed
qed

end

text \<open>The pages of an image: 256 bytes each, the last one filled with ones.\<close>

definition pages :: "u8 list \<Rightarrow> nat" where
  "pages b = (length b + 255) div 256"

definition page :: "u8 list \<Rightarrow> nat \<Rightarrow> u8 list" where
  "page b i = (let d = take 256 (drop (i * 256) b) in d @ replicate (256 - length d) 0xFF)"

definition has_image :: "fwup_s \<Rightarrow> u8 list \<Rightarrow> bool" where
  "has_image s b \<longleftrightarrow> image s = Some b \<and> b \<noteq> [] \<and> length b + 255 < 2 ^ 32 \<and> unat (image_size s) = length b
     \<and> unat (page_count s) = pages b"

lemma pages_bound: "i < pages b \<Longrightarrow> i * 256 < length b"
  by (simp add: pages_def)

lemma get_page_data:
  assumes "has_image s b" "i < pages b"
  shows "ctrl_get_page_data (of_nat i) s = Inr (page b i)"
proof -
  have b: "image s = Some b" "length b + 255 < 2 ^ 32" "unat (image_size s) = length b" using assms(1) by (auto simp: has_image_def)
  have i: "i * 256 < length b" using assms(2) by (rule pages_bound)
  have o: "unat (of_nat i * (256 :: u32)) = i * 256"
    using i b(2) by (simp add: unat_word_ariths unat_of_nat)
  have le: "of_nat i * (256 :: u32) \<le> image_size s" using o i b(3) by (simp add: word_le_nat_alt)
  have r: "unat (image_size s - of_nat i * 256) = length b - i * 256"
    using unat_sub [OF le] o b(3) by simp
  define chunk where "chunk = (if image_size s - of_nat i * 256 > 256 then 256 else image_size s - of_nat i * (256 :: u32))"
  have c: "unat chunk = min 256 (length b - i * 256)" using r by (auto simp: chunk_def word_less_nat_alt)
  have "chunk \<noteq> 0" using c i by (auto simp: word_unat_eq_iff)
  then have "image_read s (of_nat i * 256) chunk = Inr (take 256 (drop (i * 256) b))"
    using c o i b(1) by (auto simp: image_read_def Let_def min_def)
  moreover have "ctrl_get_page_data (of_nat i) s =
      cbind (image_read s (of_nat i * 256) chunk) (\<lambda>d. Inr (d @ replicate (256 - unat chunk) 0xFF))"
    by (simp add: ctrl_get_page_data_def FW_PAGE_SIZE_def Let_def chunk_def)
  ultimately show ?thesis using c by (simp add: page_def Let_def min.commute)
qed

lemma fpga_page_data: "fpga_get_page_data = ctrl_get_page_data"
  by (simp add: fun_eq_iff fpga_get_page_data_def ctrl_get_page_data_def)

definition ctrl_write_msg :: "u32 \<Rightarrow> u8 list \<Rightarrow> mem_s" where
  "ctrl_write_msg i d = mem_clr\<lparr>operation := mem_op_code OP_WRITE, offset := i * 256, mlength := 256, mdata := d\<rparr>"

definition ctrl_read_msg :: "u32 \<Rightarrow> mem_s" where
  "ctrl_read_msg i = mem_clr\<lparr>operation := mem_op_code OP_READ, offset := i * 256, mlength := 256\<rparr>"

definition fpga_write_msg :: "u32 \<Rightarrow> u8 list \<Rightarrow> mem_s" where
  "fpga_write_msg i d = mem_clr\<lparr>operation := mem_op_code OP_WRITE, timeout_ms := 1000, offset := i * 256, mlength := 256,
     delay_us := 100, mdata := d\<rparr>"

definition fpga_read_msg :: "u32 \<Rightarrow> mem_s" where
  "fpga_read_msg i = mem_clr\<lparr>operation := mem_op_code OP_READ, timeout_ms := 1000, offset := i * 256, mlength := 256,
     delay_us := 100\<rparr>"

lemma get_page_image:
  "image s' = image s \<Longrightarrow> image_size s' = image_size s \<Longrightarrow> ctrl_get_page_data i s' = ctrl_get_page_data i s"
  by (simp add: ctrl_get_page_data_def image_read_def Let_def)

interpretation cw: page_sender ctrl_send_writes "''c/fwup/!cmd''"
    "\<lambda>s i. cbind (ctrl_get_page_data i s) (\<lambda>d. Inr (ctrl_write_msg i d))"
proof
  show "ctrl_send_writes s = (if pipeline_open s then
      cbind (cbind (ctrl_get_page_data (send_idx s) s) (\<lambda>d. Inr (ctrl_write_msg (send_idx s) d)))
        (\<lambda>m. ctrl_send_writes ((send_tagged ''c/fwup/!cmd'' m s)\<lparr>send_idx := send_idx s + 1\<rparr>)) else Inr s)" for s
    by (subst ctrl_send_writes.simps, cases "ctrl_get_page_data (send_idx s) s")
       (simp_all add: ctrl_send_tagged ctrl_write_msg_def FW_PAGE_SIZE_def mem_clr_def send_tagged_def fw_call_def Let_def)
qed (metis get_page_image)

interpretation cr: page_sender "\<lambda>s. Inr (ctrl_send_reads s)" "''c/fwup/!cmd''" "\<lambda>s i. Inr (ctrl_read_msg i)"
proof
  show "Inr (ctrl_send_reads s) = (if pipeline_open s then cbind (Inr (ctrl_read_msg (send_idx s)))
      (\<lambda>m. Inr (ctrl_send_reads ((send_tagged ''c/fwup/!cmd'' m s)\<lparr>send_idx := send_idx s + 1\<rparr>))) else Inr s)" for s
    by (subst ctrl_send_reads.simps)
       (simp add: ctrl_send_tagged ctrl_read_msg_def FW_PAGE_SIZE_def mem_clr_def send_tagged_def fw_call_def Let_def)
qed simp

interpretation fw: page_sender fpga_send_writes "''c/jtag/!cmd''"
    "\<lambda>s i. cbind (ctrl_get_page_data i s) (\<lambda>d. Inr (fpga_write_msg i d))"
proof
  show "fpga_send_writes s = (if pipeline_open s then
      cbind (cbind (ctrl_get_page_data (send_idx s) s) (\<lambda>d. Inr (fpga_write_msg (send_idx s) d)))
        (\<lambda>m. fpga_send_writes ((send_tagged ''c/jtag/!cmd'' m s)\<lparr>send_idx := send_idx s + 1\<rparr>)) else Inr s)" for s
    by (subst fpga_send_writes.simps, cases "ctrl_get_page_data (send_idx s) s")
       (simp_all add: fpga_page_data fpga_send_tagged fpga_write_msg_def FW_PAGE_SIZE_def JTAG_MEM_DELAY_US_def mem_clr_def
         send_tagged_def fw_call_def Let_def)
qed (metis get_page_image)

interpretation fr: page_sender "\<lambda>s. Inr (fpga_send_reads s)" "''c/jtag/!cmd''" "\<lambda>s i. Inr (fpga_read_msg i)"
proof
  show "Inr (fpga_send_reads s) = (if pipeline_open s then cbind (Inr (fpga_read_msg (send_idx s)))
      (\<lambda>m. Inr (fpga_send_reads ((send_tagged ''c/jtag/!cmd'' m s)\<lparr>send_idx := send_idx s + 1\<rparr>))) else Inr s)" for s
    by (subst fpga_send_reads.simps)
       (simp add: fpga_send_tagged fpga_read_msg_def FW_PAGE_SIZE_def JTAG_MEM_DELAY_US_def mem_clr_def send_tagged_def
         fw_call_def Let_def)
qed simp

section \<open>Runs of responses\<close>

definition fw_rsp :: "int \<Rightarrow> bin_value \<Rightarrow> fwup_s \<Rightarrow> fwup_s c" where
  "fw_rsp now v s = cbind (js320_fwup_handle_publish now ''h/!rsp'' v s) (\<lambda>r. Inr (snd r))"

fun feed :: "int \<Rightarrow> bin_value list \<Rightarrow> fwup_s \<Rightarrow> fwup_s c" where
  "feed now [] s = Inr s"
| "feed now (v # vs) s = cbind (fw_rsp now v s) (feed now vs)"

lemma feed_append: "feed now (vs @ ws) s = cbind (feed now vs s) (feed now ws)"
proof (induction vs arbitrary: s)
  case (Cons v vs)
  then show ?case by (cases "fw_rsp now v s") auto
qed simp

lemma has_image_job: "same_job s s' \<Longrightarrow> has_image s' b = has_image s b"
  by (simp add: has_image_def same_jobD)

definition depth_ok :: "fwup_s \<Rightarrow> bool" where
  "depth_ok s \<longleftrightarrow> 0 < unat (pipeline_depth s) \<and> unat (pipeline_depth s) \<le> 16"

text \<open>
  A phase of the protocol in which every page is sent once and every response without an error either lets the loop
  send more, after some \<open>tell\<close> to the host, or ends the phase.
\<close>

locale page_phase = page_sender loop tpc msg
  for loop :: "fwup_s \<Rightarrow> fwup_s c" and tpc :: string and msg :: "fwup_s \<Rightarrow> u32 \<Rightarrow> mem_s c" +
  fixes phase :: "fwup_s \<Rightarrow> bool"
    and good :: "u8 list \<Rightarrow> bin_value \<Rightarrow> bool"
    and tell :: "fwup_s \<Rightarrow> fwup_s"
    and finish :: "fwup_s \<Rightarrow> fwup_s c"
  assumes phase_job: "same_job s s' \<Longrightarrow> phase s' = phase s"
    and tell_job: "same_job s (tell s)"
    and tell_idx: "recv_idx (tell s) = recv_idx s \<and> send_idx (tell s) = send_idx s \<and> to_dev (fw_calls (tell s)) = to_dev (fw_calls s)"
    and msg_ok: "has_image s b \<Longrightarrow> i < pages b \<Longrightarrow> \<exists>m. msg s (of_nat i) = Inr m"
    and rsp: "phase s \<Longrightarrow> has_image s b \<Longrightarrow> good b v \<Longrightarrow>
      fw_rsp now v s = (let s1 = s\<lparr>recv_idx := recv_idx s + 1\<rparr> in if page_count s \<le> recv_idx s1 then finish s1 else loop (tell s1))"
begin

text \<open>After \<open>r\<close> responses, the commands sent are those of the first pages, as far as the pipeline is deep.\<close>

definition progress :: "fwup_s \<Rightarrow> nat \<Rightarrow> fwup_s \<Rightarrow> bool" where
  "progress s0 r s \<longleftrightarrow> same_job s0 s \<and> unat (recv_idx s) = r \<and>
     unat (send_idx s) = min (unat (page_count s0)) (r + unat (pipeline_depth s0)) \<and>
     to_dev (fw_calls s) = to_dev (fw_calls s0) @ map (page_call s0) [0..<unat (send_idx s)]"

lemma page_call_job:
  assumes "same_job s s'"
  shows "page_call s' = page_call s"
proof -
  have "msg s' i = msg s i" for i by (rule msg_image) (simp_all add: same_jobD [OF assms])
  then show ?thesis by (simp add: page_call_def fun_eq_iff)
qed

lemma enter:
  assumes "has_image s0 b" "depth_ok s0" "recv_idx s0 = 0" "send_idx s0 = 0"
  shows "\<exists>s. loop s0 = Inr s \<and> progress s0 0 s"
proof -
  have "\<exists>s'. loop s0 = Inr s' \<and> same_job s0 s' \<and> recv_idx s' = recv_idx s0 \<and>
    unat (send_idx s') = max (unat (send_idx s0)) (min (unat (page_count s0)) (unat (recv_idx s0) + unat (pipeline_depth s0))) \<and>
    to_dev (fw_calls s') = to_dev (fw_calls s0) @ map (page_call s0) [unat (send_idx s0)..<unat (send_idx s')]"
    by (rule fill) (use assms msg_ok in \<open>auto simp: depth_ok_def has_image_def word_less_nat_alt\<close>)
  then show ?thesis using assms by (auto simp: progress_def)
qed

lemma step:
  assumes p: "progress s0 r s" and s0: "phase s0" "has_image s0 b" "depth_ok s0" and v: "good b v" and r: "Suc r < pages b"
  shows "\<exists>s'. fw_rsp now v s = Inr s' \<and> progress s0 (Suc r) s'"
proof -
  let ?n = "unat (page_count s0)" and ?d = "unat (pipeline_depth s0)"
  have job: "same_job s0 s" and i: "unat (recv_idx s) = r" "unat (send_idx s) = min ?n (r + ?d)"
    and c: "to_dev (fw_calls s) = to_dev (fw_calls s0) @ map (page_call s0) [0..<unat (send_idx s)]"
    using p by (auto simp: progress_def)
  have n: "?n = pages b" "pages b < 2 ^ 24 + 1" using s0(2) by (auto simp: has_image_def pages_def)
  have d: "0 < ?d" "?d \<le> 16" using s0(3) by (auto simp: depth_ok_def)
  have inc: "unat (recv_idx s + 1) = Suc r" using i r n by (simp add: unat_word_ariths)
  define s1 where "s1 = tell (s\<lparr>recv_idx := recv_idx s + 1\<rparr>)"
  have job1: "same_job s0 s1"
    unfolding s1_def using same_job_trans [OF job] same_job_trans [OF _ tell_job] by (simp add: same_jobI)
  have f: "recv_idx s1 = recv_idx s + 1" "send_idx s1 = send_idx s" "to_dev (fw_calls s1) = to_dev (fw_calls s)"
    using tell_idx [of "s\<lparr>recv_idx := recv_idx s + 1\<rparr>"] by (simp_all add: s1_def)
  have img: "has_image s b" "has_image s1 b" using s0(2) has_image_job job job1 by blast+
  have "fw_rsp now v s = loop s1"
    using rsp [OF _ img(1) v] phase_job [OF job] s0(1) inc r n job by (simp add: s1_def Let_def same_jobD word_le_nat_alt)
  moreover have "\<exists>s'. loop s1 = Inr s' \<and> same_job s1 s' \<and> recv_idx s' = recv_idx s1 \<and>
    unat (send_idx s') = max (unat (send_idx s1)) (min (unat (page_count s1)) (unat (recv_idx s1) + unat (pipeline_depth s1))) \<and>
    to_dev (fw_calls s') = to_dev (fw_calls s1) @ map (page_call s1) [unat (send_idx s1)..<unat (send_idx s')]"
    by (rule fill)
       (use msg_ok [OF img(2)] i n d r inc in \<open>auto simp: f same_jobD [OF job1] word_le_nat_alt word_less_nat_alt\<close>)
  ultimately obtain s' where s': "fw_rsp now v s = Inr s'" "same_job s1 s'" "recv_idx s' = recv_idx s + 1"
    "unat (send_idx s') = max (unat (send_idx s)) (min ?n (Suc r + ?d))"
    "to_dev (fw_calls s') = to_dev (fw_calls s) @ map (page_call s0) [unat (send_idx s)..<unat (send_idx s')]"
    by (auto simp: f same_jobD [OF job1] inc page_call_job [OF job1])
  have send: "unat (send_idx s') = min ?n (Suc r + ?d)" using s'(4) i by auto
  have "[0..<unat (send_idx s')] = [0..<unat (send_idx s)] @ [unat (send_idx s)..<unat (send_idx s')]"
    using s'(4) upt_add_eq_append [of 0 "unat (send_idx s)" "unat (send_idx s') - unat (send_idx s)"] by simp
  then show ?thesis using s' send inc c same_job_trans [OF job1 s'(2)] by (auto simp: progress_def)
qed

lemma run:
  assumes "progress s0 r s" "phase s0" "has_image s0 b" "depth_ok s0" "\<forall>v \<in> set vs. good b v" "r + length vs = pages b" "vs \<noteq> []"
  shows "\<exists>s1. feed now vs s = finish s1 \<and> same_job s0 s1 \<and> unat (recv_idx s1) = pages b \<and> unat (send_idx s1) = pages b \<and>
    to_dev (fw_calls s1) = to_dev (fw_calls s0) @ map (page_call s0) [0..<pages b]"
  using assms
proof (induction vs arbitrary: r s)
  case (Cons v vs)
  have v: "good b v" using Cons.prems(5) by simp
  show ?case
  proof (cases "vs = []")
    case False
    then have "Suc r < pages b" using Cons.prems(6) by (cases vs) auto
    from step [OF Cons.prems(1-4) v this, of now] obtain s' where s': "fw_rsp now v s = Inr s'" "progress s0 (Suc r) s'"
      by auto
    show ?thesis using Cons.IH [OF s'(2) Cons.prems(2-4)] Cons.prems False by (simp add: s')
  next
    case True
    have n: "unat (page_count s0) = pages b" "pages b < 2 ^ 24 + 1" using Cons.prems(3) by (auto simp: has_image_def pages_def)
    have p: "same_job s0 s" "unat (recv_idx s) = r" "unat (send_idx s) = min (pages b) (r + unat (pipeline_depth s0))"
      "to_dev (fw_calls s) = to_dev (fw_calls s0) @ map (page_call s0) [0..<unat (send_idx s)]"
      using Cons.prems(1) n by (auto simp: progress_def)
    have r: "Suc r = pages b" using Cons.prems(6) True by simp
    have inc: "unat (recv_idx s + 1) = Suc r" using p r n by (simp add: unat_word_ariths)
    have send: "unat (send_idx s) = pages b" using p(3) r Cons.prems(4) by (auto simp: depth_ok_def)
    have "fw_rsp now v s = finish (s\<lparr>recv_idx := recv_idx s + 1\<rparr>)"
      using rsp [of s b v now] v phase_job [OF p(1)] Cons.prems(2,3) has_image_job [OF p(1)] inc r n
      by (simp add: Let_def same_jobD [OF p(1)] word_le_nat_alt)
    then have "feed now (v # vs) s = finish (s\<lparr>recv_idx := recv_idx s + 1\<rparr>)"
      using True by (cases "finish (s\<lparr>recv_idx := recv_idx s + 1\<rparr>)") auto
    moreover have "same_job s0 (s\<lparr>recv_idx := recv_idx s + 1\<rparr>)"
      using same_job_trans [OF p(1)] by (simp add: same_jobI)
    ultimately show ?thesis using p send inc r by (intro exI [of _ "s\<lparr>recv_idx := recv_idx s + 1\<rparr>"]) simp
  qed
qed simp

end

text \<open>A response without an error, and one that reads back a page of the image.\<close>

abbreviation rsp_mem :: "bin_value \<Rightarrow> mem_s" where
  "rsp_mem v \<equiv> mem_of (bv_bin v) (hdr_offset v)"

definition rsp_ok :: "bin_value \<Rightarrow> bool" where
  "rsp_ok v \<longleftrightarrow> hdr_offset v + MEM_SIZE \<le> length (bv_bin v) \<and> status (rsp_mem v) = 0"

definition read_ok :: "u8 list \<Rightarrow> bin_value \<Rightarrow> bool" where
  "read_ok b v \<longleftrightarrow> rsp_ok v \<and> unat (offset (rsp_mem v)) div 256 < pages b \<and>
     (256 \<le> length (mdata (rsp_mem v)) \<longrightarrow> take 256 (mdata (rsp_mem v)) = page b (unat (offset (rsp_mem v)) div 256))"

lemma get_page_offset:
  assumes "has_image s b" "unat off div 256 < pages b"
  shows "ctrl_get_page_data (off div 256) s = Inr (page b (unat off div 256))"
proof -
  have "unat off div 256 < 2 ^ 32" using unat_bound_u32 [of off] by simp
  then have "off div 256 = of_nat (unat off div 256)" by (intro word_unat_eq_iff [THEN iffD2]) (simp add: unat_div unat_of_nat)
  then show ?thesis using get_page_data [OF assms] by simp
qed

lemma verify_page_ok:
  assumes "has_image s b" "read_ok b v"
  shows "ctrl_verify_page (rsp_mem v) s = Inr s"
  using assms get_page_offset [OF assms(1)]
  by (auto simp: ctrl_verify_page_def read_ok_def FW_PAGE_SIZE_def)

lemma fpga_verify: "fpga_verify_page = ctrl_verify_page"
  by (simp add: fun_eq_iff fpga_verify_page_def ctrl_verify_page_def fpga_page_data)

lemma has_image_recv [simp]: "has_image (s\<lparr>recv_idx := i\<rparr>) b = has_image s b"
  by (simp add: has_image_def)

lemma same_job_call: "same_job s (fw_call c s)"
  by (rule same_jobI) (simp_all add: fw_call_def)

lemma page_progress:
  "same_job s (fpga_page_progress p s)"
  "recv_idx (fpga_page_progress p s) = recv_idx s \<and> send_idx (fpga_page_progress p s) = send_idx s \<and>
   to_dev (fw_calls (fpga_page_progress p s)) = to_dev (fw_calls s)"
  by (auto simp: fpga_page_progress_def fpga_send_progress_def same_job_call) (auto simp: fw_call_def)

lemmas rsp_simps = fw_rsp_def js320_fwup_handle_publish_def ctrl_on_dev_rsp_def fpga_on_dev_rsp_def count_status_def rsp_ok_def
  Let_def not_less [symmetric]

interpretation cwp: page_phase ctrl_send_writes "''c/fwup/!cmd''"
    "\<lambda>s i. cbind (ctrl_get_page_data i s) (\<lambda>d. Inr (ctrl_write_msg i d))"
    "\<lambda>s. ctrl_state s = CTRL_WRITE \<and> error_count s = 0" "\<lambda>b. rsp_ok" "\<lambda>s. s" "\<lambda>s. Inr (ctrl_enter_verify s)"
proof
  fix s :: fwup_s and b v now
  assume "ctrl_state s = CTRL_WRITE \<and> error_count s = 0" "rsp_ok v"
  then show "fw_rsp now v s = (let s1 = s\<lparr>recv_idx := recv_idx s + 1\<rparr> in
      if page_count s \<le> recv_idx s1 then Inr (ctrl_enter_verify s1) else ctrl_send_writes s1)"
    by (cases "ctrl_send_writes (s\<lparr>recv_idx := recv_idx s + 1\<rparr>)") (auto simp: rsp_simps ctrl_on_write_def)
qed (auto simp: same_jobD get_page_data)

interpretation crp: page_phase "\<lambda>s. Inr (ctrl_send_reads s)" "''c/fwup/!cmd''" "\<lambda>s i. Inr (ctrl_read_msg i)"
    "\<lambda>s. ctrl_state s = CTRL_VERIFY \<and> error_count s = 0 \<and> error_code s = 0" read_ok "\<lambda>s. s"
    "\<lambda>s. Inr (ctrl_send_fw_cmd FWUP_DEV_OP_UPDATE UPDATE_TARGET_SLOT 0 0 [] (s\<lparr>ctrl_state := CTRL_UPDATE\<rparr>))"
proof
  fix s :: fwup_s and b v now
  assume a: "ctrl_state s = CTRL_VERIFY \<and> error_count s = 0 \<and> error_code s = 0" "has_image s b" "read_ok b v"
  then have "ctrl_verify_page (rsp_mem v) (s\<lparr>recv_idx := recv_idx s + 1\<rparr>) = Inr (s\<lparr>recv_idx := recv_idx s + 1\<rparr>)"
    by (intro verify_page_ok) auto
  then show "fw_rsp now v s = (let s1 = s\<lparr>recv_idx := recv_idx s + 1\<rparr> in
      if page_count s \<le> recv_idx s1 then Inr (ctrl_send_fw_cmd FWUP_DEV_OP_UPDATE UPDATE_TARGET_SLOT 0 0 [] (s1\<lparr>ctrl_state := CTRL_UPDATE\<rparr>))
      else Inr (ctrl_send_reads s1))"
    using a by (auto simp: rsp_simps ctrl_on_verify_def read_ok_def)
qed (auto simp: same_jobD)

interpretation fwp: page_phase fpga_send_writes "''c/jtag/!cmd''"
    "\<lambda>s i. cbind (ctrl_get_page_data i s) (\<lambda>d. Inr (fpga_write_msg i d))"
    "\<lambda>s. ctrl_state s = CTRL_IDLE \<and> fpga_state s = FPGA_WRITE \<and> error_count s = 0" "\<lambda>b. rsp_ok" "fpga_page_progress 1"
    "\<lambda>s. Inr (fpga_enter_verify (fpga_send_progress 1 (recv_idx s) (page_count s) s))"
proof
  fix s :: fwup_s and b v now
  assume "ctrl_state s = CTRL_IDLE \<and> fpga_state s = FPGA_WRITE \<and> error_count s = 0" "rsp_ok v"
  then show "fw_rsp now v s = (let s1 = s\<lparr>recv_idx := recv_idx s + 1\<rparr> in
      if page_count s \<le> recv_idx s1 then Inr (fpga_enter_verify (fpga_send_progress 1 (recv_idx s1) (page_count s1) s1))
      else fpga_send_writes (fpga_page_progress 1 s1))"
    by (cases "fpga_send_writes (fpga_page_progress 1 (s\<lparr>recv_idx := recv_idx s + 1\<rparr>))") (auto simp: rsp_simps fpga_on_write_def)
qed (auto simp: same_jobD get_page_data page_progress)

interpretation frp: page_phase "\<lambda>s. Inr (fpga_send_reads s)" "''c/jtag/!cmd''" "\<lambda>s i. Inr (fpga_read_msg i)"
    "\<lambda>s. ctrl_state s = CTRL_IDLE \<and> fpga_state s = FPGA_VERIFY \<and> error_count s = 0 \<and> error_code s = 0" read_ok
    "fpga_page_progress 2" "\<lambda>s. Inr (fpga_enter_close (fpga_send_progress 2 (recv_idx s) (page_count s) s))"
proof
  fix s :: fwup_s and b v now
  assume a: "ctrl_state s = CTRL_IDLE \<and> fpga_state s = FPGA_VERIFY \<and> error_count s = 0 \<and> error_code s = 0" "has_image s b" "read_ok b v"
  then have "ctrl_verify_page (rsp_mem v) (s\<lparr>recv_idx := recv_idx s + 1\<rparr>) = Inr (s\<lparr>recv_idx := recv_idx s + 1\<rparr>)"
    by (intro verify_page_ok) auto
  then show "fw_rsp now v s = (let s1 = s\<lparr>recv_idx := recv_idx s + 1\<rparr> in
      if page_count s \<le> recv_idx s1 then Inr (fpga_enter_close (fpga_send_progress 2 (recv_idx s1) (page_count s1) s1))
      else Inr (fpga_send_reads (fpga_page_progress 2 s1)))"
    using a by (auto simp: rsp_simps fpga_on_verify_def fpga_verify read_ok_def)
qed (auto simp: same_jobD page_progress)

section \<open>A firmware update that meets no error\<close>

text \<open>The commands of an update, one after the other.\<close>

definition ctrl_dev_cmd :: "mem_s \<Rightarrow> call" where
  "ctrl_dev_cmd m = To_device ''c/fwup/!cmd'' m"

definition update_cmds :: "u8 list \<Rightarrow> call list" where
  "update_cmds b =
     [ctrl_dev_cmd (mem_clr\<lparr>operation := mem_op_code FWUP_DEV_OP_ALLOCATE, mlength := of_nat (length b)\<rparr>)]
     @ map (\<lambda>i. ctrl_dev_cmd (ctrl_write_msg (of_nat i) (page b i))) [0..<pages b]
     @ map (\<lambda>i. ctrl_dev_cmd (ctrl_read_msg (of_nat i))) [0..<pages b]
     @ [ctrl_dev_cmd (mem_clr\<lparr>operation := mem_op_code FWUP_DEV_OP_UPDATE, target := UPDATE_TARGET_SLOT\<rparr>)]"

lemma image_take_has_image:
  assumes "d \<noteq> []" "length d + 255 < 2 ^ 32"
  shows "has_image (image_take d s) d"
proof -
  have u: "unat (of_nat (length d) :: u32) = length d" using assms(2) by (simp add: unat_of_nat)
  have "unat (of_nat (length d) + 255 :: u32) = length d + 255"
    using unat_add_no_wrap [of "of_nat (length d) :: u32" 255] u assms(2) by simp
  then have "unat ((of_nat (length d) + 255 :: u32) div 256) = (length d + 255) div 256" by (simp add: unat_div)
  then show ?thesis using assms u by (simp add: has_image_def image_take_def pages_def FW_PAGE_SIZE_def add_diff_eq [symmetric])
qed

lemma depth_validate: "0 < unat (pipeline_depth_validate d) \<and> unat (pipeline_depth_validate d) \<le> 16"
  using unat_bound_u8 [of d]
  by (auto simp: pipeline_depth_validate_def PIPELINE_DEFAULT_def PIPELINE_MAX_def word_less_nat_alt unsigned_ucast_eq
      take_bit_nat_eq_self word_unat_eq_iff)

lemma ctrl_calls:
  assumes "has_image s b" "i < pages b"
  shows "cw.page_call s i = ctrl_dev_cmd (ctrl_write_msg (of_nat i) (page b i))"
    and "cr.page_call s i = ctrl_dev_cmd (ctrl_read_msg (of_nat i))"
    and "fw.page_call s i = To_device ''c/jtag/!cmd'' (fpga_write_msg (of_nat i) (page b i))"
    and "fr.page_call s i = To_device ''c/jtag/!cmd'' (fpga_read_msg (of_nat i))"
  unfolding cw.page_call_def cr.page_call_def fw.page_call_def fr.page_call_def
  using get_page_data [OF assms]
  by (simp_all add: ctrl_dev_cmd_def ctrl_write_msg_def ctrl_read_msg_def fpga_write_msg_def fpga_read_msg_def mem_clr_def)

lemma put_get_u32: "get_u32 (put_u32 i @ r) 0 = i"
  using get_put_u32 [of "[]", OF list.size(3), of i r] by simp

definition job_ok :: "fwup_s \<Rightarrow> u8 list \<Rightarrow> bool" where
  "job_ok s b \<longleftrightarrow> has_image s b \<and> depth_ok s \<and> error_count s = 0 \<and> error_code s = 0"

lemma job_ok_job: "same_job s s' \<Longrightarrow> job_ok s' b = job_ok s b"
  by (simp add: job_ok_def has_image_job same_jobD depth_ok_def)

lemma update_start:
  assumes "ctrl_state s = CTRL_IDLE" "error_count s = 0" "bv_type v = U_BIN"
    "bv_bin v = put_u32 i @ [1, slot, depth, rsv] @ b" "b \<noteq> []" "length b + 255 < 2 ^ 32" "s0 = ctrl_on_cmd v s"
  shows "job_ok s0 b" "ctrl_state s0 = CTRL_ALLOCATE" "ctrl_transaction_id s0 = i" "fpga_state s0 = fpga_state s"
    "to_dev (fw_calls s0) = to_dev (fw_calls s)
       @ [ctrl_dev_cmd (mem_clr\<lparr>operation := mem_op_code FWUP_DEV_OP_ALLOCATE, mlength := of_nat (length b)\<rparr>)]"
proof -
  have len: "length (put_u32 i) = 4" by (simp add: put_u32_def)
  let ?s = "(image_take b (s\<lparr>ctrl_transaction_id := i, ctrl_image_slot := slot,
                  pipeline_depth := pipeline_depth_validate depth, error_code := 0\<rparr>))\<lparr>ctrl_state := CTRL_ALLOCATE\<rparr>"
  have eq: "s0 = ctrl_send_fw_cmd FWUP_DEV_OP_ALLOCATE 0 0 (image_size ?s) [] ?s"
    using assms by (simp add: ctrl_on_cmd_def Let_def len nth_append put_get_u32)
  have "has_image ?s b" using image_take_has_image [OF assms(5,6)] by (simp add: has_image_def)
  then show "job_ok s0 b"
    using assms(2) depth_validate [of depth] by (simp add: eq job_ok_def has_image_def depth_ok_def ctrl_send_fw_cmd_def fw_call_def Let_def image_take_def)
  show "ctrl_state s0 = CTRL_ALLOCATE" "ctrl_transaction_id s0 = i" "fpga_state s0 = fpga_state s"
    by (simp_all add: eq ctrl_send_fw_cmd_def fw_call_def Let_def image_take_def)
  show "to_dev (fw_calls s0) = to_dev (fw_calls s)
       @ [ctrl_dev_cmd (mem_clr\<lparr>operation := mem_op_code FWUP_DEV_OP_ALLOCATE, mlength := of_nat (length b)\<rparr>)]"
    by (simp add: eq ctrl_send_fw_cmd_def fw_call_def Let_def image_take_def ctrl_dev_cmd_def mem_clr_def)
qed

lemma map_calls:
  assumes "has_image s b"
  shows "map (cw.page_call s) [0..<pages b] = map (\<lambda>i. ctrl_dev_cmd (ctrl_write_msg (of_nat i) (page b i))) [0..<pages b]"
    and "map (cr.page_call s) [0..<pages b] = map (\<lambda>i. ctrl_dev_cmd (ctrl_read_msg (of_nat i))) [0..<pages b]"
    and "map (fw.page_call s) [0..<pages b] = map (\<lambda>i. To_device ''c/jtag/!cmd'' (fpga_write_msg (of_nat i) (page b i))) [0..<pages b]"
    and "map (fr.page_call s) [0..<pages b] = map (\<lambda>i. To_device ''c/jtag/!cmd'' (fpga_read_msg (of_nat i))) [0..<pages b]"
  using ctrl_calls [OF assms] by auto

lemma pages_pos: "b \<noteq> [] \<Longrightarrow> 0 < pages b"
  by (cases b) (auto simp: pages_def)

text \<open>A phase from its entry to its end.\<close>

lemma ctrl_write_phase:
  assumes s: "job_ok s b" and ws: "\<forall>v \<in> set ws. rsp_ok v" "length ws = pages b" and st: "ctrl_state s = CTRL_ALLOCATE" and r: "rsp_ok r"
  shows "\<exists>s1. feed now (r # ws) s = Inr (ctrl_enter_verify s1) \<and> job_ok s1 b \<and> ctrl_transaction_id s1 = ctrl_transaction_id s
    \<and> to_dev (fw_calls s1) = to_dev (fw_calls s) @ map (\<lambda>i. ctrl_dev_cmd (ctrl_write_msg (of_nat i) (page b i))) [0..<pages b]"
proof -
  let ?w = "s\<lparr>ctrl_state := CTRL_WRITE, send_idx := 0, recv_idx := 0, error_count := 0\<rparr>"
  have img: "has_image ?w b" "depth_ok ?w" using s by (auto simp: job_ok_def has_image_def depth_ok_def)
  have "fw_rsp now r s = ctrl_enter_write s"
    using s st r by (cases "ctrl_enter_write s") (auto simp: rsp_simps job_ok_def)
  moreover obtain s' where s': "ctrl_enter_write s = Inr s'" "cwp.progress ?w 0 s'"
    using cwp.enter [OF img] by (auto simp: ctrl_enter_write_def)
  moreover have "ws \<noteq> []" using ws img(1) pages_pos [of b] by (auto simp: has_image_def)
  moreover obtain s1 where s1: "feed now ws s' = Inr (ctrl_enter_verify s1)" "same_job ?w s1"
    "to_dev (fw_calls s1) = to_dev (fw_calls ?w) @ map (cw.page_call ?w) [0..<pages b]"
    using cwp.run [OF s'(2) _ img, of ws now] ws \<open>ws \<noteq> []\<close> by auto
  ultimately show ?thesis
    using s map_calls(1) [OF img(1)] by (auto simp: same_jobD job_ok_def has_image_job [OF s1(2)] has_image_def depth_ok_def)
qed

lemma ctrl_verify_phase:
  assumes s: "job_ok s b" and vs: "\<forall>v \<in> set vs. read_ok b v" "length vs = pages b"
  shows "\<exists>s1. feed now vs (ctrl_enter_verify s) = Inr s1 \<and> job_ok s1 b \<and> ctrl_state s1 = CTRL_UPDATE
    \<and> ctrl_transaction_id s1 = ctrl_transaction_id s
    \<and> to_dev (fw_calls s1) = to_dev (fw_calls s) @ map (\<lambda>i. ctrl_dev_cmd (ctrl_read_msg (of_nat i))) [0..<pages b]
      @ [ctrl_dev_cmd (mem_clr\<lparr>operation := mem_op_code FWUP_DEV_OP_UPDATE, target := UPDATE_TARGET_SLOT\<rparr>)]"
proof -
  let ?r = "s\<lparr>ctrl_state := CTRL_VERIFY, send_idx := 0, recv_idx := 0, error_count := 0\<rparr>"
  have img: "has_image ?r b" "depth_ok ?r" using s by (auto simp: job_ok_def has_image_def depth_ok_def)
  obtain s' where s': "ctrl_enter_verify s = s'" "crp.progress ?r 0 s'"
    using crp.enter [OF img] by (auto simp: ctrl_enter_verify_def)
  have "vs \<noteq> []" using vs img(1) pages_pos [of b] by (auto simp: has_image_def)
  then obtain s1 where s1: "feed now vs s' =
      Inr (ctrl_send_fw_cmd FWUP_DEV_OP_UPDATE UPDATE_TARGET_SLOT 0 0 [] (s1\<lparr>ctrl_state := CTRL_UPDATE\<rparr>))" "same_job ?r s1"
    "to_dev (fw_calls s1) = to_dev (fw_calls ?r) @ map (cr.page_call ?r) [0..<pages b]"
    using crp.run [OF s'(2) _ img, of vs now] vs s by (auto simp: job_ok_def)
  then show ?thesis
    using s s' map_calls(2) [OF img(1)]
    by (auto simp: same_jobD job_ok_def has_image_def depth_ok_def ctrl_send_fw_cmd_def fw_call_def Let_def ctrl_dev_cmd_def mem_clr_def)
qed


section \<open>FPGA programming that meets no error\<close>

definition jtag_dev_cmd :: "mem_op \<Rightarrow> u32 \<Rightarrow> u32 \<Rightarrow> call" where
  "jtag_dev_cmd p off len = To_device ''c/jtag/!cmd'' (mem_clr\<lparr>operation := mem_op_code p, timeout_ms := 5000, offset := off,
     mlength := len, delay_us := 100\<rparr>)"

definition blocks :: "u8 list \<Rightarrow> nat" where
  "blocks b = (length b + 65535) div 65536"

definition program_cmds :: "u8 list \<Rightarrow> call list" where
  "program_cmds b =
     [To_device_u8 ''c/comm/sensor/!req'' 0, To_device_u32 ''c/mode'' 2, jtag_dev_cmd JS320_JTAG_OP_MEM_OPEN 0 0]
     @ map (\<lambda>i. jtag_dev_cmd OP_ERASE (of_nat i * 65536) 65536) [0..<blocks b]
     @ map (\<lambda>i. To_device ''c/jtag/!cmd'' (fpga_write_msg (of_nat i) (page b i))) [0..<pages b]
     @ map (\<lambda>i. To_device ''c/jtag/!cmd'' (fpga_read_msg (of_nat i))) [0..<pages b]
     @ [jtag_dev_cmd JS320_JTAG_OP_MEM_CLOSE 0 0, To_device_u32 ''c/mode'' 0, To_device_u8 ''c/comm/sensor/!req'' 1]"

lemma to_dev_send_jtag:
  "to_dev (fw_calls (fpga_send_jtag_mem_cmd p off len [] 5000 s)) = to_dev (fw_calls s) @ [jtag_dev_cmd p off len]"
  by (simp add: fpga_send_jtag_mem_cmd_def fw_call_def Let_def jtag_dev_cmd_def JTAG_MEM_DELAY_US_def mem_clr_def)

lemma send_jtag_job: "same_job s (fpga_send_jtag_mem_cmd p off len d tmo s)"
  by (rule same_jobI) (simp_all add: fpga_send_jtag_mem_cmd_def fw_call_def Let_def)

definition fjob_ok :: "fwup_s \<Rightarrow> u8 list \<Rightarrow> bool" where
  "fjob_ok s b \<longleftrightarrow> job_ok s b \<and> ctrl_state s = CTRL_IDLE"

lemma fjob_ok_job: "same_job s s' \<Longrightarrow> fjob_ok s' b = fjob_ok s b"
  by (simp add: fjob_ok_def job_ok_job same_jobD)

text \<open>The erase phase: one command per block, each after the response to the one before.\<close>

lemma erase_phase:
  assumes "fjob_ok s b" "fpga_state s = FPGA_ERASE" "unat (erase_block_count s) = n" "unat (erase_block_idx s) = k" "k < n"
    "\<forall>v \<in> set es. rsp_ok v" "length es = n - k"
  shows "\<exists>s1. feed now es s = fpga_enter_write s1 \<and> fjob_ok s1 b \<and> fpga_transaction_id s1 = fpga_transaction_id s
    \<and> to_dev (fw_calls s1) = to_dev (fw_calls s) @ map (\<lambda>i. jtag_dev_cmd OP_ERASE (of_nat i * 65536) 65536) [Suc k..<n]"
  using assms
proof (induction es arbitrary: s k)
  case (Cons v es)
  let ?i = "erase_block_idx s + 1"
  have inc: "unat ?i = Suc k"
    using unat_Suc_less [of "erase_block_idx s" "erase_block_count s"] Cons.prems(3-5) by (simp add: word_less_nat_alt)
  let ?s = "fpga_send_progress 0 ?i (erase_block_count s) (s\<lparr>erase_block_idx := ?i\<rparr>)"
  have ok: "fjob_ok ?s b" using Cons.prems(1)
    by (simp add: fjob_ok_def job_ok_def has_image_def depth_ok_def fpga_send_progress_def fw_call_def)
  have sel: "fpga_state ?s = FPGA_ERASE" "erase_block_count ?s = erase_block_count s" "erase_block_idx ?s = ?i"
    "to_dev (fw_calls ?s) = to_dev (fw_calls s)" "fpga_transaction_id ?s = fpga_transaction_id s"
    using Cons.prems(2) by (simp_all add: fpga_send_progress_def fw_call_def)
  have rsp: "fw_rsp now v s = (if n \<le> Suc k then fpga_enter_write ?s
      else Inr (fpga_send_jtag_mem_cmd OP_ERASE (?i * FLASH_BLOCK_64K) FLASH_BLOCK_64K [] 5000 ?s))"
    using Cons.prems(1-6) inc sel
    by (cases "fpga_enter_write ?s")
       (auto simp: rsp_simps fjob_ok_def job_ok_def fpga_on_erase_def word_le_nat_alt word_less_nat_alt)
  show ?case
  proof (cases "n \<le> Suc k")
    case True
    then have "n - k \<le> 1" by simp
    then have "es = []" using Cons.prems(7) by (cases es) auto
    then have "feed now (v # es) s = fpga_enter_write ?s" using True by (cases "fpga_enter_write ?s") (auto simp: rsp)
    then show ?thesis using True ok sel(4,5) by (intro exI [of _ ?s]) auto
  next
    case False
    let ?t = "fpga_send_jtag_mem_cmd OP_ERASE (?i * FLASH_BLOCK_64K) FLASH_BLOCK_64K [] 5000 ?s"
    have job: "same_job ?s ?t" by (rule send_jtag_job)
    have i: "?i * FLASH_BLOCK_64K = of_nat (Suc k) * 65536"
      using inc by (metis FLASH_BLOCK_64K_def of_nat_unat ucast_id)
    have "\<exists>s1. feed now es ?t = fpga_enter_write s1 \<and> fjob_ok s1 b \<and> fpga_transaction_id s1 = fpga_transaction_id ?t
      \<and> to_dev (fw_calls s1) = to_dev (fw_calls ?t) @ map (\<lambda>i. jtag_dev_cmd OP_ERASE (of_nat i * 65536) 65536) [Suc (Suc k)..<n]"
      using False Cons.prems ok inc sel fjob_ok_job [OF job]
      by (intro Cons.IH) (auto simp: same_jobD [OF job])
    moreover have "to_dev (fw_calls ?t) = to_dev (fw_calls s) @ [jtag_dev_cmd OP_ERASE (of_nat (Suc k) * 65536) 65536]"
      unfolding to_dev_send_jtag sel(4) i by (simp add: FLASH_BLOCK_64K_def)
    moreover have "[Suc k..<n] = Suc k # [Suc (Suc k)..<n]" using False by (simp add: upt_conv_Cons)
    ultimately show ?thesis using False sel(5) by (auto simp: rsp same_jobD [OF job])
  qed
qed simp

lemma fpga_write_phase:
  assumes s: "fjob_ok s b" and ws: "\<forall>v \<in> set ws. rsp_ok v" "length ws = pages b"
  shows "\<exists>s0 s1. fpga_enter_write s = Inr s0 \<and> feed now ws s0 = Inr (fpga_enter_verify s1) \<and> fjob_ok s1 b
    \<and> fpga_transaction_id s1 = fpga_transaction_id s
    \<and> to_dev (fw_calls s1) = to_dev (fw_calls s)
      @ map (\<lambda>i. To_device ''c/jtag/!cmd'' (fpga_write_msg (of_nat i) (page b i))) [0..<pages b]"
proof -
  let ?w = "s\<lparr>fpga_state := FPGA_WRITE, send_idx := 0, recv_idx := 0, error_count := 0\<rparr>"
  have img: "has_image ?w b" "depth_ok ?w" using s by (auto simp: fjob_ok_def job_ok_def has_image_def depth_ok_def)
  obtain s' where s': "fpga_enter_write s = Inr s'" "fwp.progress ?w 0 s'"
    using fwp.enter [OF img] by (auto simp: fpga_enter_write_def)
  have "ws \<noteq> []" using ws img(1) pages_pos [of b] by (auto simp: has_image_def)
  then obtain s1 where s1: "feed now ws s' = Inr (fpga_enter_verify (fpga_send_progress 1 (recv_idx s1) (page_count s1) s1))"
    "same_job ?w s1" "to_dev (fw_calls s1) = to_dev (fw_calls ?w) @ map (fw.page_call ?w) [0..<pages b]"
    using fwp.run [OF s'(2) _ img, of ws now] ws s by (auto simp: fjob_ok_def)
  let ?s = "fpga_send_progress 1 (recv_idx s1) (page_count s1) s1"
  have "fjob_ok ?w b" using s by (simp add: fjob_ok_def job_ok_def has_image_def depth_ok_def)
  then have "fjob_ok ?s b" using fjob_ok_job [OF s1(2)] fjob_ok_job [OF same_job_call] by (simp add: fpga_send_progress_def)
  then show ?thesis using s'(1) s1 map_calls(3) [OF img(1)]
    by (intro exI [of _ s'] exI [of _ ?s]) (simp add: same_jobD [OF s1(2)] fpga_send_progress_def fw_call_def)
qed

lemma fpga_verify_phase:
  assumes s: "fjob_ok s b" and vs: "\<forall>v \<in> set vs. read_ok b v" "length vs = pages b"
  shows "\<exists>s1. feed now vs (fpga_enter_verify s) = Inr s1 \<and> fjob_ok s1 b \<and> fpga_state s1 = FPGA_CLOSE
    \<and> fpga_transaction_id s1 = fpga_transaction_id s
    \<and> to_dev (fw_calls s1) = to_dev (fw_calls s) @ map (\<lambda>i. To_device ''c/jtag/!cmd'' (fpga_read_msg (of_nat i))) [0..<pages b]
      @ [jtag_dev_cmd JS320_JTAG_OP_MEM_CLOSE 0 0]"
proof -
  let ?r = "s\<lparr>fpga_state := FPGA_VERIFY, send_idx := 0, recv_idx := 0, error_count := 0\<rparr>"
  have img: "has_image ?r b" "depth_ok ?r" using s by (auto simp: fjob_ok_def job_ok_def has_image_def depth_ok_def)
  obtain s' where s': "fpga_enter_verify s = s'" "frp.progress ?r 0 s'"
    using frp.enter [OF img] by (auto simp: fpga_enter_verify_def)
  have "vs \<noteq> []" using vs img(1) pages_pos [of b] by (auto simp: has_image_def)
  then obtain s1 where s1: "feed now vs s' = Inr (fpga_enter_close (fpga_send_progress 2 (recv_idx s1) (page_count s1) s1))"
    "same_job ?r s1" "to_dev (fw_calls s1) = to_dev (fw_calls ?r) @ map (fr.page_call ?r) [0..<pages b]"
    using frp.run [OF s'(2) _ img, of vs now] vs s by (auto simp: fjob_ok_def job_ok_def)
  let ?s = "(fpga_send_progress 2 (recv_idx s1) (page_count s1) s1)\<lparr>fpga_state := FPGA_CLOSE\<rparr>"
  have "fjob_ok ?r b" using s by (simp add: fjob_ok_def job_ok_def has_image_def depth_ok_def)
  then have "fjob_ok (fpga_send_progress 2 (recv_idx s1) (page_count s1) s1) b"
    using fjob_ok_job [OF s1(2)] fjob_ok_job [OF same_job_call] by (simp add: fpga_send_progress_def)
  then have "fjob_ok ?s b" by (simp add: fjob_ok_def job_ok_def has_image_def depth_ok_def)
  then have "fjob_ok (fpga_enter_close (fpga_send_progress 2 (recv_idx s1) (page_count s1) s1)) b"
    unfolding fpga_enter_close_def using fjob_ok_job [OF send_jtag_job] by blast
  then show ?thesis using s'(1) s1 map_calls(4) [OF img(1)]
    by (intro exI [of _ "fpga_enter_close (fpga_send_progress 2 (recv_idx s1) (page_count s1) s1)"])
       (simp add: fpga_enter_close_def to_dev_send_jtag same_jobD [OF send_jtag_job] same_jobD [OF s1(2)] fpga_send_progress_def fw_call_def)
qed

lemma program_start:
  assumes "ctrl_state s = CTRL_IDLE" "fpga_state s = FPGA_IDLE" "error_count s = 0" "bv_type v = U_BIN"
    "bv_bin v = put_u32 i @ [1, depth, rsv0, rsv1] @ b" "b \<noteq> []" "length b + 65535 < 2 ^ 32"
    "s0 = js320_fwup_on_timeout (fpga_on_cmd now v s)"
  shows "fjob_ok s0 b" "fpga_state s0 = FPGA_OPEN" "fpga_transaction_id s0 = i"
    "to_dev (fw_calls s0) = to_dev (fw_calls s) @
       [To_device_u8 ''c/comm/sensor/!req'' 0, To_device_u32 ''c/mode'' 2, jtag_dev_cmd JS320_JTAG_OP_MEM_OPEN 0 0]"
proof -
  have len: "length (put_u32 i) = 4" by (simp add: put_u32_def)
  let ?s = "image_take b (s\<lparr>fpga_transaction_id := i, pipeline_depth := pipeline_depth_validate depth, error_code := 0\<rparr>)"
  let ?c = "fw_call (Set_timeout (now + JSDRV_TIME_MILLISECOND * 100)) (fw_call (To_device_u32 ''c/mode'' 2)
      ((fw_call (To_device_u8 ''c/comm/sensor/!req'' 0) ?s)\<lparr>fpga_state := FPGA_MODE_SWITCH\<rparr>))"
  have cmd: "fpga_on_cmd now v s = ?c"
    using assms(1-6) by (simp add: fpga_on_cmd_def Let_def len nth_append put_get_u32)
  have eq: "s0 = fpga_send_jtag_mem_cmd JS320_JTAG_OP_MEM_OPEN 0 0 [] 5000 (?c\<lparr>fpga_state := FPGA_OPEN\<rparr>)"
    unfolding assms(8) cmd by (simp add: js320_fwup_on_timeout_def fpga_on_timeout_def fw_call_def)
  have "has_image ?s b" using assms(7) by (intro image_take_has_image [OF assms(6)]) simp
  then have "fjob_ok (?c\<lparr>fpga_state := FPGA_OPEN\<rparr>) b" using assms(1,3) depth_validate [of depth]
    by (simp add: fjob_ok_def job_ok_def has_image_def depth_ok_def fw_call_def image_take_def)
  then show "fjob_ok s0 b" unfolding eq using fjob_ok_job [OF send_jtag_job] by blast
  show "fpga_state s0 = FPGA_OPEN" "fpga_transaction_id s0 = i" unfolding eq
    by (simp_all add: same_jobD [OF send_jtag_job] fw_call_def image_take_def)
  show "to_dev (fw_calls s0) = to_dev (fw_calls s) @
       [To_device_u8 ''c/comm/sensor/!req'' 0, To_device_u32 ''c/mode'' 2, jtag_dev_cmd JS320_JTAG_OP_MEM_OPEN 0 0]"
    unfolding eq by (simp add: to_dev_send_jtag fw_call_def image_take_def)
qed

lemma open_erase:
  assumes s: "fjob_ok s b" "fpga_state s = FPGA_OPEN" and b: "length b + 65535 < 2 ^ 32" and r: "rsp_ok r"
  shows "\<exists>s1. fw_rsp now r s = Inr s1 \<and> fjob_ok s1 b \<and> fpga_state s1 = FPGA_ERASE \<and> unat (erase_block_count s1) = blocks b
    \<and> unat (erase_block_idx s1) = 0 \<and> fpga_transaction_id s1 = fpga_transaction_id s
    \<and> to_dev (fw_calls s1) = to_dev (fw_calls s) @ [jtag_dev_cmd OP_ERASE 0 65536]"
proof -
  have rsp: "fw_rsp now r s = Inr (fpga_enter_erase s)" using s r by (auto simp: rsp_simps fjob_ok_def job_ok_def)
  have sz: "unat (image_size s) = length b" using s(1) by (simp add: fjob_ok_def job_ok_def has_image_def)
  then have "unat (image_size s + 65535) = length b + 65535" using unat_add_no_wrap [of "image_size s" 65535] b by simp
  then have n: "unat ((image_size s + 65535) div 65536) = blocks b" by (simp add: unat_div blocks_def)
  let ?s = "s\<lparr>erase_block_count := (image_size s + FLASH_BLOCK_64K - 1) div FLASH_BLOCK_64K, erase_block_idx := 0,
          send_idx := 0, recv_idx := 0, error_count := 0, fpga_state := FPGA_ERASE\<rparr>"
  have "fjob_ok ?s b" using s(1) by (simp add: fjob_ok_def job_ok_def has_image_def depth_ok_def)
  then have "fjob_ok (fpga_enter_erase s) b" unfolding fpga_enter_erase_def using fjob_ok_job [OF send_jtag_job] by blast
  moreover have "unat (erase_block_count (fpga_enter_erase s)) = blocks b"
    using n by (simp add: fpga_enter_erase_def same_jobD [OF send_jtag_job] FLASH_BLOCK_64K_def add_diff_eq [symmetric])
  ultimately show ?thesis
    by (simp add: rsp fpga_enter_erase_def same_jobD [OF send_jtag_job] to_dev_send_jtag FLASH_BLOCK_64K_def)
qed

lemma close_restore:
  assumes s: "fjob_ok s b" "fpga_state s = FPGA_CLOSE" and c: "rsp_ok c"
  shows "\<exists>s1. fw_rsp now c s = Inr s1 \<and> js320_fwup_on_timeout s1 = fpga_finish 0 (fw_call (To_device_u8 ''c/comm/sensor/!req'' 1) s1)
    \<and> fpga_transaction_id s1 = fpga_transaction_id s
    \<and> to_dev (fw_calls s1) = to_dev (fw_calls s) @ [To_device_u32 ''c/mode'' 0]"
proof -
  have "fw_rsp now c s = Inr (fpga_on_close now s)" using s c by (auto simp: rsp_simps fjob_ok_def job_ok_def)
  then show ?thesis using s(1)
    by (auto simp: fpga_on_close_def fw_call_def js320_fwup_on_timeout_def fpga_on_timeout_def fjob_ok_def job_ok_def Let_def)
qed


section \<open>Any responses\<close>

text \<open>
  The handlers as events, for a host that does not start one of the two jobs while the other runs. The log
  holds the memory responses that arrived while the controller image was verified.
\<close>

datatype fw_event =
    FOpen
  | FClose
  | FCmd int string bin_value
  | FPub int string bin_value
  | FTimer

fun fw_step :: "fw_event \<Rightarrow> fwup_s \<Rightarrow> fwup_s c" where
  "fw_step FOpen s = Inr (js320_fwup_on_open s)"
| "fw_step FClose s = Inr (js320_fwup_on_close s)"
| "fw_step (FCmd now t v) s = Inr (snd (js320_fwup_handle_cmd now t v s))"
| "fw_step (FPub now t v) s = cbind (js320_fwup_handle_publish now t v s) (\<lambda>r. Inr (snd r))"
| "fw_step FTimer s = Inr (js320_fwup_on_timeout s)"

fun fw_log :: "fw_event \<Rightarrow> fwup_s \<Rightarrow> mem_s list \<Rightarrow> mem_s list" where
  "fw_log (FCmd now t v) s l = (if ctrl_state s = CTRL_IDLE then [] else l)"
| "fw_log (FPub now t v) s l =
     (if ctrl_state s = CTRL_VERIFY \<and> t = ''h/!rsp'' \<and> hdr_offset v + MEM_SIZE \<le> length (bv_bin v) then l @ [rsp_mem v] else l)"
| "fw_log _ s l = l"

fun fw_allowed :: "fw_event \<Rightarrow> fwup_s \<Rightarrow> bool" where
  "fw_allowed (FCmd now t v) s \<longleftrightarrow> length (bv_bin v) + 247 < 2 ^ 32
     \<and> (t = ''h/fwup/ctrl/!cmd'' \<longrightarrow> fpga_state s = FPGA_IDLE) \<and> (t = ''h/fwup/fpga/!cmd'' \<longrightarrow> ctrl_state s = CTRL_IDLE)"
| "fw_allowed _ s \<longleftrightarrow> True"

inductive fw_reach :: "fwup_s \<Rightarrow> mem_s list \<Rightarrow> bool" where
  fw_init: "fw_reach js320_fwup_alloc []"
| fw_next: "fw_reach s l \<Longrightarrow> fw_allowed e s \<Longrightarrow> fw_step e s = Inr s' \<Longrightarrow> fw_reach s' (fw_log e s l)"

definition pipe_ok :: "fwup_s \<Rightarrow> bool" where
  "pipe_ok s \<longleftrightarrow> unat (recv_idx s) < unat (send_idx s) \<and> unat (send_idx s) \<le> unat (page_count s)
     \<and> unat (send_idx s) \<le> unat (recv_idx s) + unat (pipeline_depth s)"

definition errs_ok :: "fwup_s \<Rightarrow> bool" where
  "errs_ok s \<longleftrightarrow> unat (error_count s) \<le> unat (recv_idx s) \<and> (error_count s = 0 \<longleftrightarrow> error_code s = 0)"

text \<open>What the verification has found of a response: no error, and a full page that it holds is the page of the image.\<close>

definition checked :: "u8 list \<Rightarrow> mem_s \<Rightarrow> bool" where
  "checked b m \<longleftrightarrow> status m = 0 \<and> (256 \<le> length (mdata m) \<longrightarrow> take 256 (mdata m) = page b (unat (offset m) div 256))"

definition paging :: "fwup_s \<Rightarrow> bool" where
  "paging s \<longleftrightarrow> (\<exists>b. has_image s b) \<and> depth_ok s \<and> pipe_ok s"

fun ctrl_stage :: "ctrl_state_e \<Rightarrow> fwup_s \<Rightarrow> mem_s list \<Rightarrow> bool" where
  "ctrl_stage CTRL_ALLOCATE s l = ((\<exists>b. job_ok s b) \<and> l = [])"
| "ctrl_stage CTRL_WRITE s l = (paging s \<and> errs_ok s \<and> l = [])"
| "ctrl_stage CTRL_VERIFY s l = (paging s \<and> errs_ok s \<and> length l = unat (recv_idx s) \<and>
     (error_count s = 0 \<longrightarrow> (\<forall>m \<in> set l. checked (the (image s)) m)))"
| "ctrl_stage CTRL_DONE s l = False"
| "ctrl_stage _ s l = True"

fun fpga_stage :: "fpga_state_e \<Rightarrow> fwup_s \<Rightarrow> bool" where
  "fpga_stage FPGA_MODE_SWITCH s = ((\<exists>b. has_image s b) \<and> depth_ok s)"
| "fpga_stage FPGA_OPEN s = ((\<exists>b. has_image s b) \<and> depth_ok s)"
| "fpga_stage FPGA_ERASE s = ((\<exists>b. has_image s b) \<and> depth_ok s)"
| "fpga_stage FPGA_WRITE s = paging s"
| "fpga_stage FPGA_VERIFY s = paging s"
| "fpga_stage FPGA_DONE s = False"
| "fpga_stage _ s = True"

definition fw_inv :: "fwup_s \<Rightarrow> mem_s list \<Rightarrow> bool" where
  "fw_inv s l \<longleftrightarrow> (ctrl_state s = CTRL_IDLE \<or> fpga_state s = FPGA_IDLE)
     \<and> (ctrl_state s = CTRL_IDLE \<and> fpga_state s = FPGA_IDLE \<longrightarrow> error_count s = 0)
     \<and> ctrl_stage (ctrl_state s) s l \<and> fpga_stage (fpga_state s) s"

context page_phase
begin

lemma pipe_fill:
  assumes img: "has_image s b" and d: "depth_ok s" and i: "unat (recv_idx s) \<le> unat (send_idx s)" "unat (send_idx s) \<le> unat (page_count s)"
    "unat (send_idx s) \<le> unat (recv_idx s) + unat (pipeline_depth s)" "unat (recv_idx s) < unat (page_count s)"
  shows "\<exists>s'. loop s = Inr s' \<and> same_job s s' \<and> recv_idx s' = recv_idx s \<and> pipe_ok s'"
proof -
  have n: "unat (page_count s) = pages b" "pages b < 2 ^ 24 + 1" using img by (auto simp: has_image_def pages_def)
  have "\<exists>s'. loop s = Inr s' \<and> same_job s s' \<and> recv_idx s' = recv_idx s \<and>
    unat (send_idx s') = max (unat (send_idx s)) (min (unat (page_count s)) (unat (recv_idx s) + unat (pipeline_depth s))) \<and>
    to_dev (fw_calls s') = to_dev (fw_calls s) @ map (page_call s) [unat (send_idx s)..<unat (send_idx s')]"
    by (rule fill) (use msg_ok [OF img] i n d in \<open>auto simp: word_le_nat_alt word_less_nat_alt depth_ok_def\<close>)
  then obtain s' where s': "loop s = Inr s'" "same_job s s'" "recv_idx s' = recv_idx s"
    "unat (send_idx s') = max (unat (send_idx s)) (min (unat (page_count s)) (unat (recv_idx s) + unat (pipeline_depth s)))" by auto
  then show ?thesis using i d by (auto simp: pipe_ok_def depth_ok_def same_jobD [OF s'(2)])
qed

lemma start_fill:
  assumes "has_image s b" "depth_ok s" "recv_idx s = 0" "send_idx s = 0"
  shows "\<exists>s'. loop s = Inr s' \<and> same_job s s' \<and> recv_idx s' = 0 \<and> pipe_ok s'"
  using pipe_fill [OF assms(1,2)] assms pages_pos [of b] by (auto simp: has_image_def)

end

lemma paging_bound: "paging s \<Longrightarrow> unat (page_count s) < 2 ^ 24 + 1"
  by (auto simp: paging_def has_image_def pages_def)

lemma count_status_sel [simp]:
  "ctrl_state (count_status st s) = ctrl_state s" "fpga_state (count_status st s) = fpga_state s"
  "image (count_status st s) = image s" "image_size (count_status st s) = image_size s"
  "page_count (count_status st s) = page_count s" "pipeline_depth (count_status st s) = pipeline_depth s"
  "recv_idx (count_status st s) = recv_idx s" "send_idx (count_status st s) = send_idx s"
  by (simp_all add: count_status_def)

lemma count_status_inv [simp]:
  "has_image (count_status st s) b = has_image s b" "depth_ok (count_status st s) = depth_ok s"
  "pipe_ok (count_status st s) = pipe_ok s" "paging (count_status st s) = paging s"
  by (simp_all add: has_image_def depth_ok_def pipe_ok_def paging_def)

text \<open>The errors counted when a response arrives, before it is counted itself.\<close>

definition errs_rsp :: "fwup_s \<Rightarrow> bool" where
  "errs_rsp s \<longleftrightarrow> unat (error_count s) \<le> Suc (unat (recv_idx s)) \<and> (error_count s = 0 \<longleftrightarrow> error_code s = 0)"

lemma count_status_errs:
  assumes "errs_ok s" "paging s"
  shows "errs_rsp (count_status st s)"
proof -
  have "unat (error_count s) < 2 ^ 24 + 1"
    using assms paging_bound [OF assms(2)] by (auto simp: errs_ok_def paging_def pipe_ok_def)
  then have "unat (error_count s + 1) = Suc (unat (error_count s))" by (simp add: unat_word_ariths)
  moreover from this have "error_count s + 1 \<noteq> 0" by (metis nat.simps(3) unat_0 unsigned_0)
  ultimately show ?thesis using assms(1) by (auto simp: errs_ok_def errs_rsp_def count_status_def)
qed

lemma recv_next:
  assumes "paging s"
  shows "unat (recv_idx s + 1) = Suc (unat (recv_idx s))"
  using assms paging_bound [OF assms] by (auto simp: paging_def pipe_ok_def unat_word_ariths)

lemma ctrl_finish_inv: "fpga_state s = FPGA_IDLE \<Longrightarrow> fw_inv (ctrl_finish st s) l"
  by (simp add: fw_inv_def ctrl_finish_def fwup_cleanup_def ctrl_send_rsp_def fw_call_def)

lemma ctrl_enter_verify_inv:
  assumes img: "has_image s b" "depth_ok s" and "fpga_state s = FPGA_IDLE" "error_code s = 0"
  shows "fw_inv (ctrl_enter_verify s) []"
proof -
  let ?r = "s\<lparr>ctrl_state := CTRL_VERIFY, send_idx := 0, recv_idx := 0, error_count := 0\<rparr>"
  have "has_image ?r b" "depth_ok ?r" using img by (auto simp: has_image_def depth_ok_def)
  then obtain s' where s': "ctrl_send_reads ?r = s'" "same_job ?r s'" "recv_idx s' = 0" "pipe_ok s'"
    using crp.start_fill [of ?r b] by auto
  moreover have "has_image s' b" "depth_ok s'"
    using \<open>has_image ?r b\<close> \<open>depth_ok ?r\<close> has_image_job [OF s'(2)] by (auto simp: depth_ok_def same_jobD [OF s'(2)])
  ultimately show ?thesis using assms
    by (auto simp: ctrl_enter_verify_def fw_inv_def paging_def errs_ok_def same_jobD [OF s'(2)])
qed

lemma ctrl_enter_write_inv:
  assumes "job_ok s b" "fpga_state s = FPGA_IDLE"
  shows "\<exists>s'. ctrl_enter_write s = Inr s' \<and> fw_inv s' []"
proof -
  let ?w = "s\<lparr>ctrl_state := CTRL_WRITE, send_idx := 0, recv_idx := 0, error_count := 0\<rparr>"
  have img: "has_image ?w b" "depth_ok ?w" using assms(1) by (auto simp: job_ok_def has_image_def depth_ok_def)
  then obtain s' where s': "ctrl_send_writes ?w = Inr s'" "same_job ?w s'" "recv_idx s' = 0" "pipe_ok s'"
    using cwp.start_fill [of ?w b] by auto
  moreover have "has_image s' b" "depth_ok s'"
    using img has_image_job [OF s'(2)] by (auto simp: depth_ok_def same_jobD [OF s'(2)])
  ultimately show ?thesis using assms
    by (auto simp: ctrl_enter_write_def fw_inv_def paging_def errs_ok_def job_ok_def same_jobD [OF s'(2)])
qed

lemma ctrl_on_write_inv:
  assumes p: "paging s" and e: "errs_rsp s" and st: "ctrl_state s = CTRL_WRITE" "fpga_state s = FPGA_IDLE"
  shows "\<exists>s'. ctrl_on_write s = Inr s' \<and> fw_inv s' []"
proof -
  let ?s = "s\<lparr>recv_idx := recv_idx s + 1\<rparr>"
  note inc = recv_next [OF p]
  obtain b where b: "has_image ?s b" "depth_ok ?s" using p by (auto simp: paging_def depth_ok_def)
  have i: "unat (recv_idx ?s) \<le> unat (send_idx ?s)" "unat (send_idx ?s) \<le> unat (page_count ?s)"
    "unat (send_idx ?s) \<le> unat (recv_idx ?s) + unat (pipeline_depth ?s)"
    using p inc by (auto simp: paging_def pipe_ok_def)
  consider (drain) "error_count s \<noteq> 0" "\<not> send_idx s \<le> recv_idx s + 1" | (fail) "error_count s \<noteq> 0" "send_idx s \<le> recv_idx s + 1"
    | (last) "error_count s = 0" "page_count s \<le> recv_idx s + 1" | (more) "error_count s = 0" "\<not> page_count s \<le> recv_idx s + 1"
    by blast
  then show ?thesis
  proof cases
    case drain
    then have "ctrl_on_write s = Inr ?s" by (simp add: ctrl_on_write_def word_gt_0 not_le [symmetric])
    moreover have "paging ?s" "errs_ok ?s"
      using p e b i drain inc by (auto simp: paging_def pipe_ok_def errs_rsp_def errs_ok_def word_le_nat_alt)
    ultimately show ?thesis using st by (auto simp: fw_inv_def)
  next
    case fail
    then show ?thesis using st ctrl_finish_inv [of ?s] by (simp add: ctrl_on_write_def word_gt_0)
  next
    case last
    have "fw_inv (ctrl_enter_verify ?s) []"
      using ctrl_enter_verify_inv [OF b] st e last by (auto simp: errs_rsp_def)
    then show ?thesis using last by (simp add: ctrl_on_write_def)
  next
    case more
    then have "unat (recv_idx ?s) < unat (page_count ?s)" by (simp add: word_le_nat_alt)
    from cwp.pipe_fill [OF b i this] obtain s' where s': "ctrl_send_writes ?s = Inr s'" "same_job ?s s'" "recv_idx s' = recv_idx s + 1" "pipe_ok s'"
      by auto
    have "paging s'" "errs_ok s'"
      using b s' has_image_job [OF s'(2)] e inc by (auto simp: paging_def depth_ok_def errs_ok_def errs_rsp_def same_jobD [OF s'(2)])
    then show ?thesis using more s' st by (auto simp: ctrl_on_write_def fw_inv_def same_jobD [OF s'(2)])
  qed
qed

text \<open>A page that the handlers could read is the page of the image, also just past its end.\<close>

lemma get_page_some:
  assumes img: "has_image s b" and d: "ctrl_get_page_data (off div 256) s = Inr d"
  shows "d = page b (unat off div 256)"
proof (cases "unat off div 256 < pages b")
  case True
  then show ?thesis using get_page_offset [OF img True] d by simp
next
  case False
  define i where "i = unat off div 256"
  have b: "image s = Some b" "unat (image_size s) = length b" "length b \<le> i * 256"
    using img False by (auto simp: has_image_def pages_def i_def)
  have "i < 2 ^ 24" using unat_bound_u32 [of off] by (simp add: i_def less_mult_imp_div_less)
  then have o: "unat (off div 256 * (256 :: u32)) = i * 256"
    by (simp add: unat_word_ariths unat_div i_def)
  define chunk where "chunk = (if image_size s - off div 256 * 256 > 256 then 256 else image_size s - off div 256 * (256 :: u32))"
  have "ctrl_get_page_data (off div 256) s =
      cbind (image_read s (off div 256 * 256) chunk) (\<lambda>d. Inr (d @ replicate (256 - unat chunk) 0xFF))"
    by (simp add: ctrl_get_page_data_def FW_PAGE_SIZE_def Let_def chunk_def)
  then have r: "cbind (image_read s (off div 256 * 256) chunk) (\<lambda>d. Inr (d @ replicate (256 - unat chunk) 0xFF)) = Inr d" using d by simp
  have "chunk = 0"
  proof (rule ccontr)
    assume "chunk \<noteq> 0"
    then have "0 < unat chunk" by (simp add: unat_gt_0)
    then show False using r b o \<open>chunk \<noteq> 0\<close> by (auto simp: image_read_def Let_def split: if_splits)
  qed
  then have "d = replicate 256 0xFF" using r by (simp add: image_read_def Let_def)
  then show ?thesis using b(3) by (simp add: page_def i_def [symmetric])
qed

lemma verify_page_result: "ctrl_verify_page m s = Inr t \<Longrightarrow> \<exists>k x. t = s\<lparr>error_count := k, error_code := x\<rparr>"
proof -
  assume t: "ctrl_verify_page m s = Inr t"
  have "t = s \<or> t = s\<lparr>error_count := error_count s + 1, error_code := ec IO\<rparr>"
    using t by (cases "ctrl_get_page_data (offset m div of_nat FW_PAGE_SIZE) s") (auto simp: ctrl_verify_page_def split: if_splits)
  moreover have "s = s\<lparr>error_count := error_count s, error_code := error_code s\<rparr>" by simp
  ultimately show ?thesis by blast
qed

lemma verify_page_cases:
  assumes img: "has_image s b" and e: "error_count s = 0 \<longleftrightarrow> error_code s = 0" and v: "ctrl_verify_page m s = Inr t"
  shows "(t = s \<and> (error_code s = 0 \<longrightarrow> status m = 0 \<longrightarrow> checked b m)) \<or>
    (error_code s = 0 \<and> status m = 0 \<and> t = s\<lparr>error_count := 1, error_code := ec IO\<rparr>)"
proof (cases "status m = 0 \<and> error_code s = 0")
  case True
  then obtain d where d: "ctrl_get_page_data (offset m div 256) s = Inr d"
    "t = (if 256 \<le> length (mdata m) \<and> take 256 (mdata m) \<noteq> d then s\<lparr>error_count := error_count s + 1, error_code := ec IO\<rparr> else s)"
    using v by (auto simp: ctrl_verify_page_def FW_PAGE_SIZE_def cbind_eq_Inr)
  have "error_count s = 0" using e True by simp
  then show ?thesis using d get_page_some [OF img d(1)] True by (auto simp: checked_def)
next
  case False
  then show ?thesis using v by (auto simp: ctrl_verify_page_def)
qed

lemma ctrl_on_verify_inv:
  assumes p: "paging s" and e: "errs_rsp s" and st: "ctrl_state s = CTRL_VERIFY" "fpga_state s = FPGA_IDLE"
    and l: "length l = unat (recv_idx s)" "error_count s = 0 \<longrightarrow> status m = 0 \<and> (\<forall>m \<in> set l. checked (the (image s)) m)"
    and s': "ctrl_on_verify m s = Inr s'"
  shows "fw_inv s' (l @ [m]) \<and> (ctrl_state s' = CTRL_UPDATE \<longrightarrow> length (l @ [m]) = pages (the (image s)) \<and>
      (\<forall>m \<in> set (l @ [m]). checked (the (image s)) m))"
proof -
  let ?s = "s\<lparr>recv_idx := recv_idx s + 1\<rparr>"
  note inc = recv_next [OF p]
  obtain b where b: "has_image ?s b" "depth_ok ?s" "the (image s) = b" using p by (auto simp: paging_def depth_ok_def has_image_def)
  have i: "unat (recv_idx ?s) \<le> unat (send_idx ?s)" "unat (send_idx ?s) \<le> unat (page_count ?s)"
    "unat (send_idx ?s) \<le> unat (recv_idx ?s) + unat (pipeline_depth ?s)"
    using p inc by (auto simp: paging_def pipe_ok_def)
  obtain t where t: "ctrl_verify_page m ?s = Inr t" using s' by (auto simp: ctrl_on_verify_def cbind_eq_Inr)
  have tc: "(t = ?s \<and> (error_code s = 0 \<longrightarrow> status m = 0 \<longrightarrow> checked b m)) \<or>
      (error_code s = 0 \<and> status m = 0 \<and> t = ?s\<lparr>error_count := 1, error_code := ec IO\<rparr>)"
    using verify_page_cases [OF b(1) _ t] e by (auto simp: errs_rsp_def)
  have res: "s' = (if error_count t > 0 then (if recv_idx t \<ge> send_idx t then ctrl_finish (error_code t) t else t)
      else if recv_idx t \<ge> page_count t then ctrl_send_fw_cmd FWUP_DEV_OP_UPDATE UPDATE_TARGET_SLOT 0 0 [] (t\<lparr>ctrl_state := CTRL_UPDATE\<rparr>)
      else ctrl_send_reads t)"
    using s' by (auto simp: ctrl_on_verify_def t split: if_splits)
  have tf: "fpga_state t = FPGA_IDLE" "ctrl_state t = CTRL_VERIFY" "recv_idx t = recv_idx s + 1" "send_idx t = send_idx s"
    "page_count t = page_count s" "has_image t b" "depth_ok t" "pipeline_depth t = pipeline_depth s"
    using tc st b by (auto simp: has_image_def depth_ok_def)
  show ?thesis
  proof (cases "error_count t = 0")
    case False
    then have "errs_ok t" using tc e inc by (auto simp: errs_ok_def errs_rsp_def)
    then show ?thesis
      using False res tf i l(1) inc ctrl_finish_inv [of t "error_code t"]
      by (auto simp: word_gt_0 fw_inv_def paging_def pipe_ok_def word_le_nat_alt ctrl_finish_def)
  next
    case True
    then have ts: "t = ?s" and c: "error_code s = 0 \<longrightarrow> status m = 0 \<longrightarrow> checked b m" using tc by auto
    then have e0: "error_count s = 0" "error_code s = 0" using True e by (auto simp: errs_rsp_def)
    then have good: "\<forall>m \<in> set (l @ [m]). checked b m" using c l(2) b(3) by auto
    show ?thesis
    proof (cases "page_count s \<le> recv_idx s + 1")
      case last: True
      then have "s' = ctrl_send_fw_cmd FWUP_DEV_OP_UPDATE UPDATE_TARGET_SLOT 0 0 [] (t\<lparr>ctrl_state := CTRL_UPDATE\<rparr>)"
        using res True tf by simp
      moreover have "Suc (length l) = pages b" using last i l(1) inc b(1) by (auto simp: word_le_nat_alt has_image_def)
      ultimately show ?thesis using good b(3) tf by (auto simp: fw_inv_def ctrl_send_fw_cmd_def fw_call_def Let_def)
    next
      case False
      then have s'r: "s' = ctrl_send_reads ?s" using res True ts by simp
      have "unat (recv_idx ?s) < unat (page_count ?s)" using False by (simp add: word_le_nat_alt)
      from crp.pipe_fill [OF b(1,2) i this] have r: "same_job ?s s'" "recv_idx s' = recv_idx s + 1" "pipe_ok s'" by (simp_all add: s'r)
      have "paging s'" "errs_ok s'"
        using b r has_image_job [OF r(1)] e0 by (auto simp: paging_def depth_ok_def errs_ok_def same_jobD [OF r(1)])
      then show ?thesis using r good b(3) l(1) inc tf by (auto simp: fw_inv_def same_jobD [OF r(1)] ts st)
    qed
  qed
qed

lemma fpga_enter_close_inv: "ctrl_state s = CTRL_IDLE \<Longrightarrow> fw_inv (fpga_enter_close s) l"
  by (simp add: fw_inv_def fpga_enter_close_def same_jobD [OF send_jtag_job])

lemma fpga_cleanup_inv:
  "ctrl_state s = CTRL_IDLE \<Longrightarrow> fpga_state s \<in> {FPGA_OPEN, FPGA_ERASE, FPGA_WRITE, FPGA_VERIFY} \<Longrightarrow>
   fw_inv (fpga_enter_error_cleanup s) l"
  by (auto simp: fpga_enter_error_cleanup_def fpga_enter_close_inv)

lemma fpga_enter_write_inv:
  assumes "has_image s b" "depth_ok s" "ctrl_state s = CTRL_IDLE"
  shows "\<exists>s'. fpga_enter_write s = Inr s' \<and> fw_inv s' l"
proof -
  let ?w = "s\<lparr>fpga_state := FPGA_WRITE, send_idx := 0, recv_idx := 0, error_count := 0\<rparr>"
  have img: "has_image ?w b" "depth_ok ?w" using assms by (auto simp: has_image_def depth_ok_def)
  then obtain s' where s': "fpga_send_writes ?w = Inr s'" "same_job ?w s'" "pipe_ok s'"
    using fwp.start_fill [of ?w b] by auto
  moreover have "has_image s' b" "depth_ok s'"
    using img has_image_job [OF s'(2)] by (auto simp: depth_ok_def same_jobD [OF s'(2)])
  ultimately show ?thesis using assms
    by (auto simp: fpga_enter_write_def fw_inv_def paging_def same_jobD [OF s'(2)])
qed

lemma fpga_enter_verify_inv:
  assumes "has_image s b" "depth_ok s" "ctrl_state s = CTRL_IDLE"
  shows "fw_inv (fpga_enter_verify s) l"
proof -
  let ?r = "s\<lparr>fpga_state := FPGA_VERIFY, send_idx := 0, recv_idx := 0, error_count := 0\<rparr>"
  have img: "has_image ?r b" "depth_ok ?r" using assms by (auto simp: has_image_def depth_ok_def)
  then obtain s' where s': "fpga_send_reads ?r = s'" "same_job ?r s'" "pipe_ok s'"
    using frp.start_fill [of ?r b] by auto
  moreover have "has_image s' b" "depth_ok s'"
    using img has_image_job [OF s'(2)] by (auto simp: depth_ok_def same_jobD [OF s'(2)])
  ultimately show ?thesis using assms
    by (auto simp: fpga_enter_verify_def fw_inv_def paging_def same_jobD [OF s'(2)])
qed

lemma progress_job: "same_job s (fpga_send_progress p a n s)"
  by (simp add: fpga_send_progress_def same_job_call)

lemma image_job: "same_job s s' \<Longrightarrow> has_image s b \<Longrightarrow> depth_ok s \<Longrightarrow> has_image s' b \<and> depth_ok s'"
  by (simp add: has_image_job depth_ok_def same_jobD)

lemma fpga_on_erase_inv:
  assumes "has_image s b" "depth_ok s" "ctrl_state s = CTRL_IDLE" "fpga_state s = FPGA_ERASE"
  shows "\<exists>s'. fpga_on_erase s = Inr s' \<and> fw_inv s' l"
proof -
  let ?e = "s\<lparr>erase_block_idx := erase_block_idx s + 1\<rparr>"
  let ?s = "fpga_send_progress 0 (erase_block_idx s + 1) (erase_block_count s) ?e"
  let ?t = "fpga_send_jtag_mem_cmd OP_ERASE (erase_block_idx ?s * FLASH_BLOCK_64K) FLASH_BLOCK_64K [] 5000 ?s"
  have "has_image ?e b" "depth_ok ?e" using assms by (auto simp: has_image_def depth_ok_def)
  then have img: "has_image ?s b" "depth_ok ?s" using image_job [OF progress_job] by blast+
  have st: "ctrl_state ?s = CTRL_IDLE" "fpga_state ?s = FPGA_ERASE" using assms by (simp_all add: same_jobD [OF progress_job])
  have "has_image ?t b \<and> depth_ok ?t" using img image_job [OF send_jtag_job] by blast
  then have "fw_inv ?t l" using st by (auto simp: fw_inv_def same_jobD [OF send_jtag_job])
  then show ?thesis
    using fpga_enter_write_inv [OF img st(1)] fpga_cleanup_inv [of s l] assms
    by (auto simp: fpga_on_erase_def Let_def same_jobD [OF progress_job])
qed

lemma fpga_on_write_inv:
  assumes p: "paging s" and st: "ctrl_state s = CTRL_IDLE" "fpga_state s = FPGA_WRITE"
  shows "\<exists>s'. fpga_on_write s = Inr s' \<and> fw_inv s' l"
proof -
  let ?s = "s\<lparr>recv_idx := recv_idx s + 1\<rparr>" and ?n = "fpga_page_progress 1 (s\<lparr>recv_idx := recv_idx s + 1\<rparr>)"
  let ?v = "fpga_send_progress 1 (recv_idx ?s) (page_count ?s) ?s"
  note inc = recv_next [OF p]
  obtain b where b: "has_image ?s b" "depth_ok ?s" using p by (auto simp: paging_def depth_ok_def)
  have bn: "has_image ?n b" "depth_ok ?n" using image_job [OF page_progress(1) b] by auto
  have bv: "has_image ?v b" "depth_ok ?v" using image_job [OF progress_job b] by auto
  have i: "unat (recv_idx ?s) \<le> unat (send_idx ?s)" "unat (send_idx ?s) \<le> unat (page_count ?s)"
    "unat (send_idx ?s) \<le> unat (recv_idx ?s) + unat (pipeline_depth ?s)"
    using p inc by (auto simp: paging_def pipe_ok_def)
  have "fw_inv ?s l" if "\<not> send_idx s \<le> recv_idx s + 1"
    using that b i st by (auto simp: fw_inv_def paging_def pipe_ok_def word_le_nat_alt)
  moreover have "fw_inv (fpga_enter_error_cleanup ?s) l" using st by (intro fpga_cleanup_inv) auto
  moreover have "fw_inv (fpga_enter_verify ?v) l" using st by (intro fpga_enter_verify_inv [OF bv]) (simp add: same_jobD [OF progress_job])
  moreover have "\<exists>s'. fpga_send_writes ?n = Inr s' \<and> fw_inv s' l" if "\<not> page_count s \<le> recv_idx s + 1"
  proof -
    have "\<exists>s'. fpga_send_writes ?n = Inr s' \<and> same_job ?n s' \<and> recv_idx s' = recv_idx ?n \<and> pipe_ok s'"
      by (rule fwp.pipe_fill [OF bn]) (use i that in \<open>auto simp: page_progress same_jobD [OF page_progress(1)] word_le_nat_alt\<close>)
    then obtain s' where s': "fpga_send_writes ?n = Inr s'" "same_job ?n s'" "pipe_ok s'" by auto
    then show ?thesis using image_job [OF s'(2) bn] st
      by (auto simp: fw_inv_def paging_def same_jobD [OF s'(2)] same_jobD [OF page_progress(1)])
  qed
  ultimately show ?thesis by (auto simp: fpga_on_write_def Let_def)
qed

lemma fpga_on_verify_inv:
  assumes p: "paging s" and st: "ctrl_state s = CTRL_IDLE" "fpga_state s = FPGA_VERIFY" and s': "fpga_on_verify m s = Inr s'"
  shows "fw_inv s' l"
proof -
  let ?s = "s\<lparr>recv_idx := recv_idx s + 1\<rparr>"
  note inc = recv_next [OF p]
  obtain t where t: "ctrl_verify_page m ?s = Inr t" using s' by (auto simp: fpga_on_verify_def fpga_verify cbind_eq_Inr)
  obtain k x where tk: "t = ?s\<lparr>error_count := k, error_code := x\<rparr>" using verify_page_result [OF t] by blast
  have tf: "ctrl_state t = CTRL_IDLE" "fpga_state t = FPGA_VERIFY" "recv_idx t = recv_idx s + 1" "send_idx t = send_idx s"
    "page_count t = page_count s" "pipeline_depth t = pipeline_depth s" "image t = image s" "image_size t = image_size s"
    using st by (simp_all add: tk)
  obtain b where b: "has_image t b" "depth_ok t" using p tf by (auto simp: paging_def has_image_def depth_ok_def)
  let ?n = "fpga_page_progress 2 t" and ?v = "fpga_send_progress 2 (recv_idx t) (page_count t) t"
  have bn: "has_image ?n b" "depth_ok ?n" using image_job [OF page_progress(1) b] by auto
  have i: "unat (recv_idx t) \<le> unat (send_idx t)" "unat (send_idx t) \<le> unat (page_count t)"
    "unat (send_idx t) \<le> unat (recv_idx t) + unat (pipeline_depth t)"
    using p inc tf by (auto simp: paging_def pipe_ok_def)
  have "fw_inv t l" if "\<not> send_idx t \<le> recv_idx t"
    using that b i tf by (auto simp: fw_inv_def paging_def pipe_ok_def word_le_nat_alt)
  moreover have "fw_inv (fpga_enter_error_cleanup t) l" using tf by (intro fpga_cleanup_inv) auto
  moreover have "fw_inv (fpga_enter_close ?v) l" using tf by (intro fpga_enter_close_inv) (simp add: same_jobD [OF progress_job])
  moreover have "fw_inv (fpga_send_reads ?n) l" if "\<not> page_count t \<le> recv_idx t"
  proof -
    have "unat (recv_idx ?n) \<le> unat (send_idx ?n)" "unat (send_idx ?n) \<le> unat (page_count ?n)"
      "unat (send_idx ?n) \<le> unat (recv_idx ?n) + unat (pipeline_depth ?n)" "unat (recv_idx ?n) < unat (page_count ?n)"
      using i that by (auto simp: page_progress same_jobD [OF page_progress(1)] word_le_nat_alt)
    from frp.pipe_fill [OF bn this] have s': "same_job ?n (fpga_send_reads ?n)" "pipe_ok (fpga_send_reads ?n)" by auto
    then show ?thesis using image_job [OF s'(1) bn] tf
      by (auto simp: fw_inv_def paging_def same_jobD [OF s'(1)] same_jobD [OF page_progress(1)])
  qed
  moreover have "s' = (if error_count t > 0 then (if recv_idx t \<ge> send_idx t then fpga_enter_error_cleanup t else t)
      else if recv_idx t \<ge> page_count t then fpga_enter_close ?v else fpga_send_reads ?n)"
    using s' by (auto simp: fpga_on_verify_def fpga_verify t split: if_splits)
  ultimately show ?thesis by auto
qed

lemma fw_inv_cong:
  assumes "ctrl_state s' = ctrl_state s" "fpga_state s' = fpga_state s" "image s' = image s" "image_size s' = image_size s"
    "page_count s' = page_count s" "pipeline_depth s' = pipeline_depth s" "recv_idx s' = recv_idx s" "send_idx s' = send_idx s"
    "error_count s' = error_count s" "error_code s' = error_code s"
  shows "fw_inv s' l = fw_inv s l"
proof -
  have e: "has_image s' = has_image s" "depth_ok s' = depth_ok s" "pipe_ok s' = pipe_ok s" "errs_ok s' = errs_ok s"
    using assms by (simp_all add: fun_eq_iff has_image_def depth_ok_def pipe_ok_def errs_ok_def)
  then have "paging s' = paging s" "job_ok s' = job_ok s" using assms by (simp_all add: fun_eq_iff paging_def job_ok_def)
  note eqs = this e
  have "ctrl_stage (ctrl_state s') s' l = ctrl_stage (ctrl_state s) s l" using assms eqs by (cases "ctrl_state s") simp_all
  moreover have "fpga_stage (fpga_state s') s' = fpga_stage (fpga_state s) s" using assms eqs by (cases "fpga_state s") simp_all
  ultimately show ?thesis using assms by (simp add: fw_inv_def)
qed

lemma ctrl_cmd_inv:
  assumes inv: "fw_inv s l" and f: "fpga_state s = FPGA_IDLE" and v: "length (bv_bin v) + 247 < 2 ^ 32"
  shows "fw_inv (ctrl_on_cmd v s) (if ctrl_state s = CTRL_IDLE then [] else l)"
proof (cases "ctrl_state s = CTRL_IDLE")
  case False
  then have "fw_inv (ctrl_on_cmd v s) l = fw_inv s l"
    by (intro fw_inv_cong) (auto simp: ctrl_on_cmd_def ctrl_send_rsp_def fw_call_def)
  then show ?thesis using inv False by simp
next
  case idle: True
  have e: "error_count s = 0" using inv idle f by (simp add: fw_inv_def)
  let ?d = "drop 8 (bv_bin v)" and ?s = "s\<lparr>ctrl_transaction_id := get_u32 (bv_bin v) 0, ctrl_image_slot := bv_bin v ! 5,
      pipeline_depth := pipeline_depth_validate (bv_bin v ! 6), error_code := 0\<rparr>"
  have "job_ok (image_take ?d ?s) ?d" if "?d \<noteq> []"
    using image_take_has_image [OF that, of ?s] v e depth_validate [of "bv_bin v ! 6"]
    by (simp add: job_ok_def depth_ok_def image_take_def)
  then have "?d \<noteq> [] \<Longrightarrow> job_ok (ctrl_send_fw_cmd FWUP_DEV_OP_ALLOCATE 0 0 x [] ((image_take ?d ?s)\<lparr>ctrl_state := CTRL_ALLOCATE\<rparr>)) ?d" for x
    by (simp add: job_ok_def has_image_def depth_ok_def ctrl_send_fw_cmd_def fw_call_def Let_def)
  then show ?thesis
    using idle f e by (auto simp: ctrl_on_cmd_def Let_def fw_inv_def ctrl_send_rsp_def ctrl_send_fw_cmd_def fw_call_def image_take_def)
qed

lemma fpga_cmd_inv:
  assumes inv: "fw_inv s l" and c: "ctrl_state s = CTRL_IDLE" and v: "length (bv_bin v) + 247 < 2 ^ 32"
  shows "fw_inv (fpga_on_cmd now v s) []"
proof (cases "fpga_state s = FPGA_IDLE")
  case False
  then have "fw_inv (fpga_on_cmd now v s) [] = fw_inv s []"
    by (intro fw_inv_cong) (auto simp: fpga_on_cmd_def fpga_send_rsp_def fw_call_def)
  then show ?thesis using inv c by (simp add: fw_inv_def)
next
  case idle: True
  have e: "error_count s = 0" using inv idle c by (simp add: fw_inv_def)
  let ?d = "drop 8 (bv_bin v)" and ?s = "s\<lparr>fpga_transaction_id := get_u32 (bv_bin v) 0,
      pipeline_depth := pipeline_depth_validate (bv_bin v ! 5), error_code := 0\<rparr>"
  let ?c = "\<lambda>i. fw_call (Set_timeout (now + JSDRV_TIME_MILLISECOND * 100)) (fw_call (To_device_u32 ''c/mode'' 2)
      ((fw_call (To_device_u8 ''c/comm/sensor/!req'' 0) i)\<lparr>fpga_state := FPGA_MODE_SWITCH\<rparr>))"
  have mode: "fw_inv (?c i) []" if "has_image i d" "depth_ok i" "ctrl_state i = CTRL_IDLE" for i d
    using that by (auto simp: fw_inv_def has_image_def depth_ok_def fw_call_def)
  have "has_image (image_take ?d ?s) ?d \<and> depth_ok (image_take ?d ?s)" if "?d \<noteq> []"
    using image_take_has_image [OF that, of ?s] v depth_validate [of "bv_bin v ! 5"] by (simp add: depth_ok_def image_take_def)
  then have "fw_inv (?c (image_take ?d ?s)) []" if "?d \<noteq> []"
    using mode [of "image_take ?d ?s" ?d] that c by (simp add: image_take_def)
  moreover have "fw_inv (fpga_send_rsp x ?s) []" "fw_inv (fpga_send_rsp x s) []" for x
    using idle c e by (simp_all add: fw_inv_def fpga_send_rsp_def fw_call_def)
  ultimately show ?thesis using idle by (simp add: fpga_on_cmd_def Let_def)
qed

lemma ctrl_rsp_inv:
  assumes inv: "fw_inv s l" and busy: "ctrl_state s \<noteq> CTRL_IDLE" and v: "hdr_offset v + MEM_SIZE \<le> length (bv_bin v)"
    and s': "ctrl_on_dev_rsp v s = Inr s'"
  shows "fw_inv s' (if ctrl_state s = CTRL_VERIFY then l @ [rsp_mem v] else l)"
proof -
  let ?t = "count_status (status (rsp_mem v)) s"
  have f: "fpga_state s = FPGA_IDLE" using inv busy by (simp add: fw_inv_def)
  have st: "ctrl_stage (ctrl_state s) s l" using inv by (simp add: fw_inv_def)
  have fin: "fw_inv (ctrl_finish x ?t) l" for x l using f by (intro ctrl_finish_inv) simp
  show ?thesis
  proof (cases "ctrl_state s")
    case CTRL_ALLOCATE
    then obtain b where b: "job_ok s b" "l = []" using st by auto
    show ?thesis
    proof (cases "status (rsp_mem v) = 0")
      case True
      then have "?t = s" by (simp add: count_status_def)
      then show ?thesis using s' v CTRL_ALLOCATE b ctrl_enter_write_inv [OF b(1) f]
        by (auto simp: ctrl_on_dev_rsp_def Let_def job_ok_def)
    next
      case False
      then have "error_count ?t = 1" using b by (simp add: count_status_def job_ok_def)
      then show ?thesis using s' v CTRL_ALLOCATE fin by (auto simp: ctrl_on_dev_rsp_def Let_def)
    qed
  next
    case CTRL_WRITE
    then have "paging s" "errs_ok s" "l = []" using st by auto
    then show ?thesis using ctrl_on_write_inv [of ?t] count_status_errs s' v CTRL_WRITE f
      by (auto simp: ctrl_on_dev_rsp_def Let_def)
  next
    case CTRL_VERIFY
    then have p: "paging s" "errs_ok s" and l: "length l = unat (recv_idx s)"
      "error_count s = 0 \<longrightarrow> (\<forall>m \<in> set l. checked (the (image s)) m)" using st by auto
    have e: "errs_rsp ?t" using count_status_errs [OF p(2,1)] .
    have "error_count ?t = 0 \<longrightarrow> status (rsp_mem v) = 0 \<and> error_count s = 0"
      using e p(2) by (auto simp: count_status_def errs_rsp_def split: if_splits)
    then show ?thesis using ctrl_on_verify_inv [of ?t l "rsp_mem v" s'] e p l s' v CTRL_VERIFY f
      by (auto simp: ctrl_on_dev_rsp_def Let_def)
  qed (use s' v busy fin st in \<open>auto simp: ctrl_on_dev_rsp_def Let_def\<close>)
qed

lemma fpga_enter_erase_inv:
  assumes "has_image s b" "depth_ok s" "ctrl_state s = CTRL_IDLE"
  shows "fw_inv (fpga_enter_erase s) l"
proof -
  let ?s = "s\<lparr>erase_block_count := (image_size s + FLASH_BLOCK_64K - 1) div FLASH_BLOCK_64K, erase_block_idx := 0,
          send_idx := 0, recv_idx := 0, error_count := 0, fpga_state := FPGA_ERASE\<rparr>"
  have "has_image ?s b" "depth_ok ?s" using assms by (simp_all add: has_image_def depth_ok_def)
  then have "has_image (fpga_enter_erase s) b \<and> depth_ok (fpga_enter_erase s)"
    unfolding fpga_enter_erase_def using image_job [OF send_jtag_job] by blast
  then show ?thesis using assms(3) by (auto simp: fw_inv_def fpga_enter_erase_def same_jobD [OF send_jtag_job])
qed

lemma fpga_rsp_inv:
  assumes inv: "fw_inv s l" and idle: "ctrl_state s = CTRL_IDLE" and s': "fpga_on_dev_rsp now v s = Inr s'"
    and v: "hdr_offset v + MEM_SIZE \<le> length (bv_bin v)" and busy: "fpga_state s \<noteq> FPGA_IDLE"
  shows "fw_inv s' l"
proof -
  let ?t = "count_status (status (rsp_mem v)) s"
  have st: "fpga_stage (fpga_state s) s" and i: "ctrl_state ?t = CTRL_IDLE" using inv idle by (simp_all add: fw_inv_def)
  show ?thesis
  proof (cases "fpga_state s")
    case FPGA_MODE_SWITCH
    then have "s' = ?t" using s' v by (simp add: fpga_on_dev_rsp_def Let_def)
    moreover obtain b where "has_image ?t b" "depth_ok ?t" using st FPGA_MODE_SWITCH by auto
    ultimately show ?thesis using i FPGA_MODE_SWITCH by (auto simp: fw_inv_def)
  next
    case FPGA_OPEN
    then obtain b where b: "has_image ?t b" "depth_ok ?t" using st by auto
    then show ?thesis using s' v FPGA_OPEN fpga_enter_erase_inv [OF b i] fpga_cleanup_inv [OF i]
      by (auto simp: fpga_on_dev_rsp_def Let_def split: if_splits)
  next
    case FPGA_ERASE
    then obtain b where b: "has_image ?t b" "depth_ok ?t" using st by auto
    then show ?thesis using s' v FPGA_ERASE fpga_on_erase_inv [OF b i] by (auto simp: fpga_on_dev_rsp_def Let_def)
  next
    case FPGA_WRITE
    then show ?thesis using s' v st i fpga_on_write_inv [of ?t l] by (auto simp: fpga_on_dev_rsp_def Let_def)
  next
    case FPGA_VERIFY
    then show ?thesis using s' v st i fpga_on_verify_inv [of ?t "rsp_mem v" s' l] by (auto simp: fpga_on_dev_rsp_def Let_def)
  next
    case FPGA_CLOSE
    then show ?thesis using s' v i by (auto simp: fpga_on_dev_rsp_def Let_def fw_inv_def fpga_on_close_def fw_call_def)
  next
    case FPGA_MODE_RESTORE
    then have "s' = ?t" using s' v by (simp add: fpga_on_dev_rsp_def Let_def)
    then show ?thesis using i FPGA_MODE_RESTORE by (simp add: fw_inv_def)
  qed (use busy st in auto)
qed

lemma fpga_timeout_inv:
  assumes inv: "fw_inv s l" and busy: "fpga_state s \<noteq> FPGA_IDLE"
  shows "fw_inv (fpga_on_timeout s) l"
proof -
  have idle: "ctrl_state s = CTRL_IDLE" and st: "fpga_stage (fpga_state s) s" using inv busy by (auto simp: fw_inv_def)
  have "fw_inv (fpga_send_jtag_mem_cmd JS320_JTAG_OP_MEM_OPEN 0 0 [] 5000 (s\<lparr>fpga_state := FPGA_OPEN\<rparr>)) l" if sw: "fpga_state s = FPGA_MODE_SWITCH"
  proof -
    obtain b where "has_image (s\<lparr>fpga_state := FPGA_OPEN\<rparr>) b" "depth_ok (s\<lparr>fpga_state := FPGA_OPEN\<rparr>)"
      using st sw by (auto simp: has_image_def depth_ok_def)
    from image_job [OF send_jtag_job this, of JS320_JTAG_OP_MEM_OPEN 0 0 "[]" 5000] show ?thesis
      using idle by (auto simp: fw_inv_def same_jobD [OF send_jtag_job])
  qed
  moreover have "fw_inv (fpga_finish x (fw_call c s)) l" for x c
    using idle by (simp add: fw_inv_def fpga_finish_def fwup_cleanup_def fpga_send_rsp_def fw_call_def)
  ultimately show ?thesis using inv by (cases "fpga_state s") (auto simp: fpga_on_timeout_def Let_def)
qed

lemma fw_step_inv:
  assumes inv: "fw_inv s l" and ok: "fw_allowed e s" and s': "fw_step e s = Inr s'"
  shows "fw_inv s' (fw_log e s l)"
proof (cases e)
  case FOpen
  then have "fw_inv s' l = fw_inv s l" using s' by (intro fw_inv_cong) (auto simp: js320_fwup_on_open_def)
  then show ?thesis using inv FOpen by simp
next
  case FClose
  then show ?thesis using s'
    by (auto simp: js320_fwup_on_close_def Let_def fw_inv_def fwup_cleanup_def fw_call_def)
next
  case FTimer
  then show ?thesis using s' inv fpga_timeout_inv [OF inv] by (auto simp: js320_fwup_on_timeout_def split: if_splits)
next
  case (FCmd now t v)
  have "fw_inv s (if ctrl_state s = CTRL_IDLE then [] else l)" using inv by (auto simp: fw_inv_def)
  then show ?thesis using s' ok ctrl_cmd_inv [OF inv] fpga_cmd_inv [OF inv] FCmd
    by (auto simp: js320_fwup_handle_cmd_def split: if_splits)
next
  case (FPub now t v)
  show ?thesis
  proof (cases "t = ''h/!rsp'' \<and> hdr_offset v + MEM_SIZE \<le> length (bv_bin v) \<and> (ctrl_state s \<noteq> CTRL_IDLE \<or> fpga_state s \<noteq> FPGA_IDLE)")
    case False
    then have "s' = s" "fw_log e s l = l"
      using s' FPub by (auto simp: js320_fwup_handle_publish_def ctrl_on_dev_rsp_def fpga_on_dev_rsp_def split: if_splits)
    then show ?thesis using inv by simp
  next
    case True
    show ?thesis
    proof (cases "ctrl_state s = CTRL_IDLE")
      case False
      then have "ctrl_on_dev_rsp v s = Inr s'"
        using s' FPub True by (auto simp: js320_fwup_handle_publish_def cbind_eq_Inr)
      then show ?thesis using ctrl_rsp_inv [OF inv False] True FPub by auto
    next
      case idle: True
      then have "fpga_on_dev_rsp now v s = Inr s'"
        using s' FPub True by (auto simp: js320_fwup_handle_publish_def cbind_eq_Inr)
      then show ?thesis using fpga_rsp_inv [OF inv idle] True FPub idle by auto
    qed
  qed
qed

lemma fw_reach_inv: "fw_reach s l \<Longrightarrow> fw_inv s l"
proof (induction rule: fw_reach.induct)
  case fw_init
  show ?case by (simp add: fw_inv_def js320_fwup_alloc_def)
next
  case (fw_next s l e s')
  then show ?case by (intro fw_step_inv)
qed

section \<open>Faults\<close>

lemma get_page_fault:
  assumes "has_image s b" "ctrl_get_page_data (off div 256) s = Inl f"
  shows "f = OutOfBounds \<and> pages b \<le> unat off div 256"
proof
  show "pages b \<le> unat off div 256" using get_page_offset [OF assms(1), of off] assms(2) by (cases "unat off div 256 < pages b") auto
  show "f = OutOfBounds" using assms(2)
    by (auto simp: ctrl_get_page_data_def image_read_def Let_def cbind_def split: if_splits sum.splits)
qed

lemma verify_page_fault:
  assumes "has_image s b" "ctrl_verify_page m s = Inl f"
  shows "f = OutOfBounds \<and> status m = 0 \<and> pages b \<le> unat (offset m) div 256"
proof -
  have "status m = 0" "ctrl_get_page_data (offset m div 256) s = Inl f"
    using assms(2) by (auto simp: ctrl_verify_page_def FW_PAGE_SIZE_def cbind_def split: if_splits sum.splits)
  then show ?thesis using get_page_fault [OF assms(1)] by blast
qed

lemma on_verify_fault:
  assumes p: "paging s" and f: "ctrl_on_verify m s = Inl f \<or> fpga_on_verify m s = Inl f"
  shows "f = OutOfBounds \<and> status m = 0 \<and> pages (the (image s)) \<le> unat (offset m) div 256"
proof -
  obtain b where b: "has_image (s\<lparr>recv_idx := recv_idx s + 1\<rparr>) b" "the (image s) = b" using p by (auto simp: paging_def has_image_def)
  have "ctrl_verify_page m (s\<lparr>recv_idx := recv_idx s + 1\<rparr>) = Inl f"
    using f by (auto simp: ctrl_on_verify_def fpga_on_verify_def fpga_verify cbind_def split: if_splits sum.splits)
  from verify_page_fault [OF b(1) this] show ?thesis using b(2) by simp
qed

lemma dev_rsp_fault:
  assumes inv: "fw_inv s l" and f: "ctrl_state s \<noteq> CTRL_IDLE \<and> ctrl_on_dev_rsp v s = Inl f \<or>
    ctrl_state s = CTRL_IDLE \<and> fpga_on_dev_rsp now v s = Inl f"
  shows "f = OutOfBounds \<and> (ctrl_state s = CTRL_VERIFY \<or> fpga_state s = FPGA_VERIFY) \<and> status (rsp_mem v) = 0 \<and>
    pages (the (image s)) \<le> unat (offset (rsp_mem v)) div 256"
proof -
  let ?t = "count_status (status (rsp_mem v)) s"
  have v: "hdr_offset v + MEM_SIZE \<le> length (bv_bin v)"
    using f by (auto simp: ctrl_on_dev_rsp_def fpga_on_dev_rsp_def not_less [symmetric])
  from f show ?thesis
  proof (elim disjE conjE)
    assume busy: "ctrl_state s \<noteq> CTRL_IDLE" and f: "ctrl_on_dev_rsp v s = Inl f"
    have st: "ctrl_stage (ctrl_state s) s l" and i: "fpga_state s = FPGA_IDLE" using inv busy by (auto simp: fw_inv_def)
    have "ctrl_state s = CTRL_VERIFY \<and> paging s \<and> ctrl_on_verify (rsp_mem v) ?t = Inl f"
    proof (cases "ctrl_state s")
      case CTRL_ALLOCATE
      then obtain b where b: "job_ok s b" using st by auto
      then have "\<exists>s'. ctrl_on_dev_rsp v s = Inr s'"
        using v CTRL_ALLOCATE ctrl_enter_write_inv [OF b i]
        by (cases "status (rsp_mem v) = 0") (auto simp: ctrl_on_dev_rsp_def Let_def count_status_def job_ok_def)
      then show ?thesis using f by auto
    next
      case CTRL_WRITE
      then have "paging ?t" "errs_rsp ?t" using st count_status_errs by auto
      then show ?thesis using ctrl_on_write_inv [of ?t] CTRL_WRITE i f v by (auto simp: ctrl_on_dev_rsp_def Let_def)
    qed (use f v st in \<open>auto simp: ctrl_on_dev_rsp_def Let_def\<close>)
    then show ?thesis using on_verify_fault [of ?t "rsp_mem v" f] by auto
  next
    assume idle: "ctrl_state s = CTRL_IDLE" and f: "fpga_on_dev_rsp now v s = Inl f"
    have st: "fpga_stage (fpga_state s) s" using inv by (simp add: fw_inv_def)
    have "fpga_state s = FPGA_VERIFY \<and> paging s \<and> fpga_on_verify (rsp_mem v) ?t = Inl f"
    proof (cases "fpga_state s")
      case FPGA_ERASE
      then obtain b where "has_image ?t b" "depth_ok ?t" using st by auto
      then show ?thesis using fpga_on_erase_inv [of ?t b l] idle FPGA_ERASE f v by (auto simp: fpga_on_dev_rsp_def Let_def)
    next
      case FPGA_WRITE
      then show ?thesis using fpga_on_write_inv [of ?t l] idle st f v by (auto simp: fpga_on_dev_rsp_def Let_def)
    qed (use f v st in \<open>auto simp: fpga_on_dev_rsp_def Let_def\<close>)
    then show ?thesis using on_verify_fault [of ?t "rsp_mem v" f] by auto
  qed
qed

lemma fw_step_fault:
  assumes inv: "fw_inv s l" and f: "fw_step e s = Inl f"
  shows "f = OutOfBounds \<and> (ctrl_state s = CTRL_VERIFY \<or> fpga_state s = FPGA_VERIFY) \<and>
    (\<exists>now v. e = FPub now ''h/!rsp'' v \<and> pages (the (image s)) \<le> unat (offset (rsp_mem v)) div 256)"
proof -
  obtain now t v where e: "e = FPub now t v" using f by (cases e) auto
  then have t: "t = ''h/!rsp''" and "ctrl_state s \<noteq> CTRL_IDLE \<and> ctrl_on_dev_rsp v s = Inl f \<or>
    ctrl_state s = CTRL_IDLE \<and> fpga_on_dev_rsp now v s = Inl f"
    using f by (auto simp: js320_fwup_handle_publish_def cbind_def split: if_splits sum.splits)
  from dev_rsp_fault [OF inv this(2)] show ?thesis using e t by auto
qed

text \<open>
  C6. The page pipeline stays in bounds: as long as the host does not start one of the two jobs while the other runs, whatever the
  device answers, while pages are written or verified at least one and at most the configured number of commands, itself at
  most 16, are in flight, and no page beyond the image is asked for. The handlers stay inside the image, with one exception:
  while verifying, a response whose offset is beyond the last page makes the handler read past the end of the image.
\<close>

theorem fw_pipeline_bounded:
  assumes "fw_reach s l" "fw_allowed e s"
  shows "(ctrl_state s \<in> {CTRL_WRITE, CTRL_VERIFY} \<or> fpga_state s \<in> {FPGA_WRITE, FPGA_VERIFY} \<longrightarrow>
      unat (recv_idx s) < unat (send_idx s) \<and> unat (send_idx s) \<le> pages (the (image s)) \<and>
      unat (send_idx s) - unat (recv_idx s) \<le> unat (pipeline_depth s) \<and> unat (pipeline_depth s) \<le> 16) \<and>
    (\<forall>f. fw_step e s = Inl f \<longrightarrow> f = OutOfBounds \<and> (ctrl_state s = CTRL_VERIFY \<or> fpga_state s = FPGA_VERIFY) \<and>
      (\<exists>now v. e = FPub now ''h/!rsp'' v \<and> pages (the (image s)) \<le> unat (offset (rsp_mem v)) div 256))"
proof
  have inv: "fw_inv s l" using assms(1) by (rule fw_reach_inv)
  then have "ctrl_state s \<in> {CTRL_WRITE, CTRL_VERIFY} \<or> fpga_state s \<in> {FPGA_WRITE, FPGA_VERIFY} \<Longrightarrow> paging s"
    by (auto simp: fw_inv_def)
  then show "ctrl_state s \<in> {CTRL_WRITE, CTRL_VERIFY} \<or> fpga_state s \<in> {FPGA_WRITE, FPGA_VERIFY} \<longrightarrow>
      unat (recv_idx s) < unat (send_idx s) \<and> unat (send_idx s) \<le> pages (the (image s)) \<and>
      unat (send_idx s) - unat (recv_idx s) \<le> unat (pipeline_depth s) \<and> unat (pipeline_depth s) \<le> 16"
    by (auto simp: paging_def pipe_ok_def depth_ok_def has_image_def)
  show "\<forall>f. fw_step e s = Inl f \<longrightarrow> f = OutOfBounds \<and> (ctrl_state s = CTRL_VERIFY \<or> fpga_state s = FPGA_VERIFY) \<and>
      (\<exists>now v. e = FPub now ''h/!rsp'' v \<and> pages (the (image s)) \<le> unat (offset (rsp_mem v)) div 256)"
    using fw_step_fault [OF inv] by blast
qed

section \<open>The commit\<close>

fun is_commit :: "call \<Rightarrow> bool" where
  "is_commit (To_device t m) \<longleftrightarrow> t = ''c/fwup/!cmd'' \<and> operation m = mem_op_code FWUP_DEV_OP_UPDATE"
| "is_commit _ \<longleftrightarrow> False"

definition commits :: "fwup_s \<Rightarrow> call list" where
  "commits s = filter is_commit (fw_calls s)"

lemma commits_call [simp]: "commits (fw_call c s) = commits s @ (if is_commit c then [c] else [])"
  by (simp add: commits_def fw_call_def)

lemma commits_upd [simp]:
  "commits (s\<lparr>ctrl_state := a\<rparr>) = commits s" "commits (s\<lparr>fpga_state := b\<rparr>) = commits s" "commits (s\<lparr>send_idx := i\<rparr>) = commits s"
  "commits (s\<lparr>recv_idx := i\<rparr>) = commits s" "commits (s\<lparr>error_count := i\<rparr>) = commits s" "commits (s\<lparr>error_code := x\<rparr>) = commits s"
  "commits (s\<lparr>device_cmd_id := i\<rparr>) = commits s" "commits (s\<lparr>erase_block_idx := i\<rparr>) = commits s" "commits (s\<lparr>erase_block_count := i\<rparr>) = commits s"
  "commits (s\<lparr>ctrl_transaction_id := i\<rparr>) = commits s" "commits (s\<lparr>fpga_transaction_id := i\<rparr>) = commits s"
  "commits (s\<lparr>pipeline_depth := i\<rparr>) = commits s" "commits (s\<lparr>ctrl_image_slot := sl\<rparr>) = commits s" "commits (s\<lparr>fw_dev := d\<rparr>) = commits s"
  "commits (image_take im s) = commits s" "commits (fwup_cleanup s) = commits s" "commits (count_status st s) = commits s"
  by (simp_all add: commits_def image_take_def fwup_cleanup_def count_status_def)

context page_sender
begin

lemma no_commit:
  assumes "\<And>s i m. msg s i = Inr m \<Longrightarrow> tpc = ''c/fwup/!cmd'' \<Longrightarrow> operation m \<noteq> mem_op_code FWUP_DEV_OP_UPDATE"
  shows "loop s = Inr s' \<Longrightarrow> commits s' = commits s"
proof (induction "unat (page_count s) - unat (send_idx s)" arbitrary: s rule: less_induct)
  case less
  show ?case
  proof (cases "pipeline_open s")
    case False
    then have "loop s = Inr s" by (subst loop) auto
    then show ?thesis using less.prems by simp
  next
    case True
    then have eq: "loop s = cbind (msg s (send_idx s)) (\<lambda>m. loop ((send_tagged tpc m s)\<lparr>send_idx := send_idx s + 1\<rparr>))"
      by (subst loop) simp
    then obtain m where m: "msg s (send_idx s) = Inr m" "loop ((send_tagged tpc m s)\<lparr>send_idx := send_idx s + 1\<rparr>) = Inr s'"
      using less.prems unfolding eq cbind_eq_Inr by blast
    have "unat (send_idx s + 1) = Suc (unat (send_idx s))" using True unat_Suc_less by blast
    then have "commits s' = commits ((send_tagged tpc m s)\<lparr>send_idx := send_idx s + 1\<rparr>)"
      using True by (intro less.hyps [OF _ m(2)]) (auto simp: send_tagged_def fw_call_def Let_def word_less_nat_alt)
    then show ?thesis using assms [OF m(1)] by (auto simp: send_tagged_def Let_def)
  qed
qed

end

lemma loops_no_commit:
  "ctrl_send_writes s = Inr s' \<Longrightarrow> commits s' = commits s" "commits (ctrl_send_reads s) = commits s"
  "fpga_send_writes s = Inr s' \<Longrightarrow> commits s' = commits s" "commits (fpga_send_reads s) = commits s"
proof -
  show "ctrl_send_writes s = Inr s' \<Longrightarrow> commits s' = commits s"
    by (erule cw.no_commit [rotated]) (auto simp: cbind_eq_Inr ctrl_write_msg_def)
  show "commits (ctrl_send_reads s) = commits s" by (rule cr.no_commit) (auto simp: ctrl_read_msg_def)
  show "fpga_send_writes s = Inr s' \<Longrightarrow> commits s' = commits s" by (erule fw.no_commit [rotated]) simp
  show "commits (fpga_send_reads s) = commits s" by (rule fr.no_commit) auto
qed

lemma quiet_ops [simp]:
  "commits (ctrl_send_rsp x s) = commits s" "commits (fpga_send_rsp x s) = commits s" "commits (fpga_send_progress p a n s) = commits s"
  "commits (fpga_send_jtag_mem_cmd q off len d tmo s) = commits s"
  "q \<noteq> FWUP_DEV_OP_UPDATE \<Longrightarrow> mem_op_code q \<noteq> 9 \<Longrightarrow> commits (ctrl_send_fw_cmd q img off len d s) = commits s"
  by (simp_all add: ctrl_send_rsp_def fpga_send_rsp_def fpga_send_progress_def fpga_send_jtag_mem_cmd_def ctrl_send_fw_cmd_def Let_def)

lemma quiet_phases [simp]:
  "commits (ctrl_finish x s) = commits s" "commits (fpga_finish x s) = commits s" "commits (fpga_enter_close s) = commits s"
  "commits (fpga_enter_erase s) = commits s" "commits (fpga_enter_error_cleanup s) = commits s"
  "commits (ctrl_enter_verify s) = commits s" "commits (fpga_enter_verify s) = commits s"
  "commits (fpga_page_progress p s) = commits s" "commits (fpga_on_close now s) = commits s"
  by (auto simp: ctrl_finish_def fpga_finish_def fpga_enter_close_def fpga_enter_erase_def fpga_enter_error_cleanup_def
      ctrl_enter_verify_def fpga_enter_verify_def loops_no_commit fpga_page_progress_def fpga_on_close_def split: fpga_state_e.split)

lemma quiet_writes:
  "ctrl_enter_write s = Inr s' \<Longrightarrow> commits s' = commits s" "fpga_enter_write s = Inr s' \<Longrightarrow> commits s' = commits s"
  "ctrl_on_write s = Inr s' \<Longrightarrow> commits s' = commits s" "fpga_on_write s = Inr s' \<Longrightarrow> commits s' = commits s"
  "fpga_on_erase s = Inr s' \<Longrightarrow> commits s' = commits s"
  using loops_no_commit(1,3)
  by (fastforce simp: ctrl_enter_write_def fpga_enter_write_def ctrl_on_write_def fpga_on_write_def fpga_on_erase_def Let_def
      split: if_splits)+

lemma quiet_verify: "ctrl_verify_page m s = Inr t \<Longrightarrow> commits t = commits s"
  using verify_page_result by fastforce

lemma ctrl_on_verify_commit:
  assumes "ctrl_on_verify m s = Inr s'" "commits s' \<noteq> commits s"
  shows "ctrl_state s' = CTRL_UPDATE \<and> commits s' = commits s @ [To_device ''c/fwup/!cmd'' (mem_clr\<lparr>transaction_id := device_cmd_id s',
    operation := mem_op_code FWUP_DEV_OP_UPDATE, target := UPDATE_TARGET_SLOT\<rparr>)]"
proof -
  obtain t where t: "ctrl_verify_page m (s\<lparr>recv_idx := recv_idx s + 1\<rparr>) = Inr t" using assms(1) by (auto simp: ctrl_on_verify_def cbind_eq_Inr)
  have c: "commits t = commits s" using quiet_verify [OF t] by simp
  have "s' = ctrl_send_fw_cmd FWUP_DEV_OP_UPDATE UPDATE_TARGET_SLOT 0 0 [] (t\<lparr>ctrl_state := CTRL_UPDATE\<rparr>)"
    using assms c by (auto simp: ctrl_on_verify_def t loops_no_commit split: if_splits)
  then show ?thesis using c by (auto simp: ctrl_send_fw_cmd_def Let_def) (simp_all add: fw_call_def mem_clr_def)
qed

lemma fpga_rsp_quiet: "fpga_on_dev_rsp now v s = Inr s' \<Longrightarrow> commits s' = commits s"
proof -
  assume s': "fpga_on_dev_rsp now v s = Inr s'"
  have "fpga_on_verify m t = Inr t' \<Longrightarrow> commits t' = commits t" for m t t'
    using quiet_verify [of m "t\<lparr>recv_idx := recv_idx t + 1\<rparr>"]
    by (auto simp: fpga_on_verify_def fpga_verify cbind_eq_Inr loops_no_commit split: if_splits)
  then show ?thesis using s' quiet_writes
    by (cases "fpga_state s") (fastforce simp: fpga_on_dev_rsp_def Let_def split: if_splits)+
qed

lemma ctrl_rsp_commit:
  assumes "ctrl_on_dev_rsp v s = Inr s'" "commits s' \<noteq> commits s"
  shows "hdr_offset v + MEM_SIZE \<le> length (bv_bin v) \<and> ctrl_state s = CTRL_VERIFY \<and>
    ctrl_on_verify (rsp_mem v) (count_status (status (rsp_mem v)) s) = Inr s'"
proof -
  have v: "hdr_offset v + MEM_SIZE \<le> length (bv_bin v)" using assms by (auto simp: ctrl_on_dev_rsp_def not_less [symmetric])
  then show ?thesis using assms quiet_writes(1,3) [of "count_status (status (rsp_mem v)) s" s']
    by (cases "ctrl_state s") (auto simp: ctrl_on_dev_rsp_def Let_def split: if_splits)
qed

lemma fw_step_commit:
  assumes "fw_step e s = Inr s'" "commits s' \<noteq> commits s"
  shows "\<exists>now v. e = FPub now ''h/!rsp'' v \<and> ctrl_state s \<noteq> CTRL_IDLE \<and> ctrl_on_dev_rsp v s = Inr s'"
proof (cases e)
  case (FPub now t v)
  then show ?thesis using assms fpga_rsp_quiet
    by (auto simp: js320_fwup_handle_publish_def cbind_eq_Inr split: if_splits)
next
  case FTimer
  have "commits (fpga_on_timeout s) = commits s" by (simp add: fpga_on_timeout_def Let_def split: fpga_state_e.split)
  then show ?thesis using assms FTimer by (auto simp: js320_fwup_on_timeout_def split: if_splits)
next
  case (FCmd now t v)
  have "commits (ctrl_on_cmd v s) = commits s" "commits (fpga_on_cmd now v s) = commits s"
    by (simp_all add: ctrl_on_cmd_def fpga_on_cmd_def Let_def)
  then show ?thesis using assms FCmd by (auto simp: js320_fwup_handle_cmd_def split: if_splits)
qed (use assms in \<open>auto simp: js320_fwup_on_open_def js320_fwup_on_close_def Let_def split: if_splits\<close>)

text \<open>
  C4. Nothing is committed unverified: as long as the host does not start one of the two jobs while the other runs, whatever
  the device answers, the command that commits the staged image is sent only while verifying, once, for slot 0, and
  only when since the start of the verification exactly as many responses arrived as the image has pages, all without an
  error, and every full page among them was the page of the image at its offset. (A response with less than a page of
  data is not compared.)
\<close>

theorem ctrl_commit_verified:
  assumes "fw_reach s l" "fw_allowed e s" "fw_step e s = Inr s'" "commits s' \<noteq> commits s" and b: "b = the (image s)"
  shows "ctrl_state s = CTRL_VERIFY \<and> has_image s b \<and> length (fw_log e s l) = pages b \<and> (\<forall>m \<in> set (fw_log e s l). checked b m) \<and>
    commits s' = commits s @ [To_device ''c/fwup/!cmd'' (mem_clr\<lparr>transaction_id := device_cmd_id s',
      operation := mem_op_code FWUP_DEV_OP_UPDATE, target := UPDATE_TARGET_SLOT\<rparr>)]"
proof -
  have inv: "fw_inv s l" using assms(1) by (rule fw_reach_inv)
  obtain now v where e: "e = FPub now ''h/!rsp'' v" "ctrl_state s \<noteq> CTRL_IDLE" "ctrl_on_dev_rsp v s = Inr s'"
    using fw_step_commit [OF assms(3,4)] by blast
  let ?t = "count_status (status (rsp_mem v)) s"
  have v: "hdr_offset v + MEM_SIZE \<le> length (bv_bin v)" "ctrl_state s = CTRL_VERIFY" "ctrl_on_verify (rsp_mem v) ?t = Inr s'"
    using ctrl_rsp_commit [OF e(3) assms(4)] by auto
  have st: "paging s" "errs_ok s" "length l = unat (recv_idx s)" "error_count s = 0 \<longrightarrow> (\<forall>m \<in> set l. checked b m)" "fpga_state s = FPGA_IDLE"
    using inv v(2) b by (auto simp: fw_inv_def)
  have er: "errs_rsp ?t" using count_status_errs [OF st(2,1)] .
  have "error_count ?t = 0 \<longrightarrow> status (rsp_mem v) = 0 \<and> error_count s = 0"
    using er st(2) by (auto simp: count_status_def errs_rsp_def split: if_splits)
  moreover have c: "ctrl_state s' = CTRL_UPDATE" "commits s' = commits s @ [To_device ''c/fwup/!cmd'' (mem_clr\<lparr>transaction_id := device_cmd_id s',
      operation := mem_op_code FWUP_DEV_OP_UPDATE, target := UPDATE_TARGET_SLOT\<rparr>)]"
    using ctrl_on_verify_commit [OF v(3)] assms(4) by auto
  ultimately have "length (l @ [rsp_mem v]) = pages b \<and> (\<forall>m \<in> set (l @ [rsp_mem v]). checked b m)"
    using ctrl_on_verify_inv [OF _ er _ _ _ _ v(3), of l] st v(2) b by auto
  moreover have "has_image s b" using st(1) b by (auto simp: paging_def has_image_def)
  ultimately show ?thesis using c e(1) v by auto
qed

section \<open>Examples\<close>

definition ex_image :: "u8 list" where "ex_image = [1, 2, 3]"

definition ex_ok :: bin_value where "ex_ok = \<lparr>bv_type = U_BIN, bv_bin = replicate 24 0\<rparr>"

definition ex_read :: bin_value where "ex_read = \<lparr>bv_type = U_BIN, bv_bin = replicate 24 0 @ page ex_image 0\<rparr>"

definition ex_update :: bin_value where "ex_update = \<lparr>bv_type = U_BIN, bv_bin = put_u32 7 @ [1, 0, 0, 0] @ ex_image\<rparr>"

lemma ex_image_size: "ex_image \<noteq> []" "pages ex_image = 1" "blocks ex_image = 1" "length ex_image = 3"
  by (simp_all add: ex_image_def pages_def blocks_def)

lemma ex_rsp_ok: "rsp_ok ex_ok"
  by (simp add: rsp_ok_def ex_ok_def hdr_offset_def MEM_SIZE_def mem_of_def)

lemma ex_read_ok: "read_ok ex_image ex_read"
proof -
  have n: "(replicate 24 (0 :: u8) @ page ex_image 0) ! i = 0" if "i < 24" for i using that by (simp add: nth_append)
  have p: "length (page ex_image 0) = 256" by (simp add: page_def Let_def)
  have "rsp_mem ex_read = \<lparr>transaction_id = 0, target = 0, operation = 0, mflags = 0, status = 0, timeout_ms = 0, offset = 0,
      mlength = 0, delay_us = 0, mdata = page ex_image 0\<rparr>"
    by (simp add: ex_read_def mem_of_def hdr_offset_def get_u32_def get_u16_def n MEM_SIZE_def)
  then show ?thesis
    by (simp add: read_ok_def rsp_ok_def ex_image_size p) (simp add: ex_read_def hdr_offset_def MEM_SIZE_def)
qed

lemma ex_alloc: "ctrl_state js320_fwup_alloc = CTRL_IDLE" "fpga_state js320_fwup_alloc = FPGA_IDLE" "error_count js320_fwup_alloc = 0"
  by (simp_all add: js320_fwup_alloc_def)



lemma reach_feed:
  "fw_reach s l \<Longrightarrow> feed now vs s = Inr s' \<Longrightarrow> \<exists>l'. fw_reach s' l'"
proof (induction vs arbitrary: s l)
  case (Cons v vs)
  then obtain t where t: "fw_rsp now v s = Inr t" "feed now vs t = Inr s'" by (auto simp: cbind_eq_Inr)
  then have "fw_reach t (fw_log (FPub now ''h/!rsp'' v) s l)"
    by (intro fw_next [OF Cons.prems(1)]) (simp_all add: fw_rsp_def)
  then show ?case using Cons.IH t(2) by blast
qed auto

lemma ex_update_reach: "\<exists>l. fw_reach (ctrl_on_cmd ex_update js320_fwup_alloc) l"
proof -
  have "fw_step (FCmd 0 ''h/fwup/ctrl/!cmd'' ex_update) js320_fwup_alloc = Inr (ctrl_on_cmd ex_update js320_fwup_alloc)"
    by (simp add: js320_fwup_handle_cmd_def)
  moreover have "fw_allowed (FCmd 0 ''h/fwup/ctrl/!cmd'' ex_update) js320_fwup_alloc"
    by (simp add: ex_alloc ex_update_def ex_image_def put_u32_def)
  ultimately show ?thesis using fw_next [OF fw_init] by blast
qed

lemma ex_verify:
  "\<exists>s l s'. fw_reach s l \<and> ctrl_state s = CTRL_VERIFY \<and> fw_step (FPub 0 ''h/!rsp'' ex_read) s = Inr s' \<and> commits s' \<noteq> commits s"
proof -
  let ?s0 = "ctrl_on_cmd ex_update js320_fwup_alloc"
  have upd: "bv_type ex_update = U_BIN" "bv_bin ex_update = put_u32 7 @ [1, 0, 0, 0] @ ex_image" by (simp_all add: ex_update_def)
  note start = update_start [OF ex_alloc(1,3) upd _ _ refl]
  obtain s1 where s1: "feed 0 [ex_ok, ex_ok] ?s0 = Inr (ctrl_enter_verify s1)" "job_ok s1 ex_image"
    using ctrl_write_phase [of ?s0 ex_image "[ex_ok]" ex_ok 0] start ex_image_size ex_rsp_ok by auto
  obtain l where l: "fw_reach (ctrl_enter_verify s1) l" using reach_feed [OF _ s1(1)] ex_update_reach by blast
  obtain s2 where s2: "feed 0 [ex_read] (ctrl_enter_verify s1) = Inr s2"
    "to_dev (fw_calls s2) = to_dev (fw_calls s1) @ map (\<lambda>i. ctrl_dev_cmd (ctrl_read_msg (of_nat i))) [0..<pages ex_image]
      @ [ctrl_dev_cmd (mem_clr\<lparr>operation := mem_op_code FWUP_DEV_OP_UPDATE, target := UPDATE_TARGET_SLOT\<rparr>)]"
    using ctrl_verify_phase [OF s1(2), of "[ex_read]" 0] ex_read_ok ex_image_size(2) by auto
  have cnt: "length (filter is_commit (to_dev cs)) = length (filter is_commit cs)" for cs
  proof (induction cs)
    case (Cons c cs)
    then show ?case by (cases c) auto
  qed simp
  have "length (commits s2) = Suc (length (commits s1))"
    using arg_cong [OF s2(2), of "\<lambda>x. length (filter is_commit x)"]
    by (simp add: cnt commits_def ex_image_size(2) ctrl_dev_cmd_def ctrl_read_msg_def)
  then have "commits s2 \<noteq> commits (ctrl_enter_verify s1)" by auto
  moreover have "fw_step (FPub 0 ''h/!rsp'' ex_read) (ctrl_enter_verify s1) = Inr s2"
    using s2(1) by (auto simp: fw_rsp_def cbind_eq_Inr)
  moreover have "ctrl_state (ctrl_enter_verify s1) = CTRL_VERIFY"
    using fw_step_commit [OF calculation(2,1)] ctrl_rsp_commit calculation(1) by blast
  ultimately show ?thesis using l by blast
qed

theorem fw_pipeline_bounded_witness:
  "\<exists>s l. fw_reach s l \<and> ctrl_state s = CTRL_VERIFY \<and> unat (recv_idx s) < unat (send_idx s) \<and> unat (pipeline_depth s) \<le> 16"
  using ex_verify fw_pipeline_bounded [where e = FOpen] by fastforce

theorem ctrl_commit_verified_witness:
  "\<exists>s l s'. fw_reach s l \<and> commits s' = commits s @ [To_device ''c/fwup/!cmd'' (mem_clr\<lparr>transaction_id := device_cmd_id s',
     operation := mem_op_code FWUP_DEV_OP_UPDATE, target := UPDATE_TARGET_SLOT\<rparr>)] \<and>
     length (fw_log (FPub 0 ''h/!rsp'' ex_read) s l) = pages (the (image s))"
proof -
  obtain s l s' where s: "fw_reach s l" "fw_step (FPub 0 ''h/!rsp'' ex_read) s = Inr s'" "commits s' \<noteq> commits s"
    using ex_verify by blast
  from ctrl_commit_verified [OF s(1) _ s(2,3) refl] s(1) show ?thesis by fastforce
qed

end
