(* ===== verification/I128.thy ===== *)
theory I128
  imports Ieee_Round
begin

text \<open>
  The 128-bit integer arithmetic of the statistics (\<^verbatim>\<open>src/devices/js220/js220_i128.c\<close>). The
  source has a native variant (\<^verbatim>\<open>__int128\<close>, gcc and clang) and a portable variant made of
  64-bit operations; both are modelled, and the portable one is proved equal to the native
  one wherever the native one is defined. A shift by 64 or more, a signed overflow and a
  division by zero are undefined in C and are the fault \<open>Undefined\<close>.
\<close>

section \<open>Data\<close>

text \<open>The union \<^verbatim>\<open>js220_i128\<close> through its \<^verbatim>\<open>u64\<close> member; \<^verbatim>\<open>i64\<close> is the signed view of the same words.\<close>

record js220_i128 =
  u64_0 :: u64
  u64_1 :: u64

text \<open>The \<^verbatim>\<open>__int128\<close> member of the union, and the unsigned reading of the same bits.\<close>

definition i128 :: "js220_i128 \<Rightarrow> int" where
  "i128 x = sint (u64_1 x) * 2 ^ 64 + uint (u64_0 x)"

definition u128 :: "js220_i128 \<Rightarrow> int" where
  "u128 x = uint (u64_1 x) * 2 ^ 64 + uint (u64_0 x)"

definition of_i128 :: "int \<Rightarrow> js220_i128" where
  "of_i128 k = \<lparr>u64_0 = word_of_int k, u64_1 = word_of_int (k div 2 ^ 64)\<rparr>"

definition fits_i128 :: "int \<Rightarrow> bool" where
  "fits_i128 k \<longleftrightarrow> - (2 ^ 127) \<le> k \<and> k < 2 ^ 127"

text \<open>An expression of type \<^verbatim>\<open>__int128\<close>: overflow is undefined.\<close>

definition native :: "int \<Rightarrow> js220_i128 c" where
  "native k = (if fits_i128 k then Inr (of_i128 k) else Inl Undefined)"

definition U64_SIGN_BIT :: u64 where "U64_SIGN_BIT = 0x8000000000000000"

section \<open>Portable helpers\<close>

text \<open>The product as the pair (low word, high word).\<close>

definition js220_i128_umul128 :: "u64 \<Rightarrow> u64 \<Rightarrow> u64 \<times> u64" where
  "js220_i128_umul128 a b =
     (let a_lo = ucast (ucast a :: u32); a_hi = drop_bit 32 a;
          b_lo = ucast (ucast b :: u32); b_hi = drop_bit 32 b;
          p_ll = a_lo * b_lo; p_lh = a_lo * b_hi; p_hl = a_hi * b_lo; p_hh = a_hi * b_hi;
          mid = drop_bit 32 p_ll + (p_lh AND 0xFFFFFFFF) + (p_hl AND 0xFFFFFFFF);
          hi = p_hh + drop_bit 32 p_lh + drop_bit 32 p_hl + drop_bit 32 mid
      in ((p_ll AND 0xFFFFFFFF) OR push_bit 32 mid, hi))"

text \<open>One pass of the division loop on (rem, lo, quot).\<close>

definition udiv_step :: "u64 \<Rightarrow> u64 \<times> u64 \<times> u64 \<Rightarrow> u64 \<times> u64 \<times> u64" where
  "udiv_step divisor = (\<lambda>(rem, lo, quot).
     let rem_top = drop_bit 63 rem;
         rem = push_bit 1 rem OR drop_bit 63 lo;
         lo = push_bit 1 lo;
         quot = push_bit 1 quot
     in if rem_top \<noteq> 0 \<or> divisor \<le> rem then (rem - divisor, lo, quot OR 1) else (rem, lo, quot))"

text \<open>The quotient and the remainder.\<close>

definition js220_i128_udiv128 :: "u64 \<Rightarrow> u64 \<Rightarrow> u64 \<Rightarrow> u64 \<times> u64" where
  "js220_i128_udiv128 hi lo divisor =
     (case (udiv_step divisor ^^ 64) (hi, lo, 0) of (rem, _, quot) \<Rightarrow> (quot, rem))"

section \<open>Operations\<close>

definition js220_i128_init_i64 :: "u64 \<Rightarrow> js220_i128" where
  "js220_i128_init_i64 a = \<lparr>u64_0 = a, u64_1 = (if 0 \<le> sint a then 0 else - 1)\<rparr>"

definition js220_i128_add :: "js220_i128 \<Rightarrow> js220_i128 \<Rightarrow> js220_i128" where
  "js220_i128_add a b =
     (let r0 = u64_0 a + u64_0 b;
          carry = (if r0 < u64_0 a then 1 else 0)
      in \<lparr>u64_0 = r0, u64_1 = u64_1 a + u64_1 b + carry\<rparr>)"

definition js220_i128_add_native :: "js220_i128 \<Rightarrow> js220_i128 \<Rightarrow> js220_i128 c" where
  "js220_i128_add_native a b = native (i128 a + i128 b)"

definition js220_i128_sub :: "js220_i128 \<Rightarrow> js220_i128 \<Rightarrow> js220_i128" where
  "js220_i128_sub a b =
     (let r0 = u64_0 a - u64_0 b;
          borrow = (if u64_0 a < u64_0 b then 1 else 0)
      in \<lparr>u64_0 = r0, u64_1 = u64_1 a - u64_1 b - borrow\<rparr>)"

definition js220_i128_sub_native :: "js220_i128 \<Rightarrow> js220_i128 \<Rightarrow> js220_i128 c" where
  "js220_i128_sub_native a b = native (i128 a - i128 b)"

text \<open>\<^verbatim>\<open>if (a < 0) a = -a\<close> on an \<^verbatim>\<open>int64_t\<close>, undefined at the least value.\<close>

definition abs_i64 :: "u64 \<Rightarrow> u64 c" where
  "abs_i64 a = (if sint a < 0 then if a = U64_SIGN_BIT then Inl Undefined else Inr (- a) else Inr a)"

definition js220_i128_square_i64 :: "u64 \<Rightarrow> js220_i128 c" where
  "js220_i128_square_i64 a =
     cbind (abs_i64 a) (\<lambda>ua. case js220_i128_umul128 ua ua of (lo, hi) \<Rightarrow> Inr \<lparr>u64_0 = lo, u64_1 = hi\<rparr>)"

definition js220_i128_square_i64_native :: "u64 \<Rightarrow> js220_i128 c" where
  "js220_i128_square_i64_native a = native (sint a * sint a)"

definition js220_i128_neg :: "js220_i128 \<Rightarrow> js220_i128" where
  "js220_i128_neg x =
     (let x1 = NOT (u64_1 x);
          x0 = NOT (u64_0 x);
          z1 = x0 AND U64_SIGN_BIT;
          x0 = x0 + 1
      in \<lparr>u64_0 = x0, u64_1 = (if x0 AND U64_SIGN_BIT \<noteq> z1 then x1 + 1 else x1)\<rparr>)"

text \<open>The quotient and the remainder that \<^verbatim>\<open>js220_i128_udiv\<close> stores.\<close>

definition js220_i128_udiv :: "js220_i128 \<Rightarrow> u64 \<Rightarrow> (js220_i128 \<times> u64) c" where
  "js220_i128_udiv dividend divisor =
     (if divisor = 0 then Inl Undefined
      else
        let r1 = u64_1 dividend div divisor;
            d1 = u64_1 dividend - r1 * divisor
        in case js220_i128_udiv128 d1 (u64_0 dividend) divisor of
             (quot, rem) \<Rightarrow> Inr (\<lparr>u64_0 = quot, u64_1 = r1\<rparr>, rem))"

text \<open>
  The native variant divides signed numbers: the \<^verbatim>\<open>uint64_t\<close> divisor converts to \<^verbatim>\<open>__int128\<close>
  and the quotient truncates toward zero.
\<close>

definition js220_i128_udiv_native :: "js220_i128 \<Rightarrow> u64 \<Rightarrow> (js220_i128 \<times> u64) c" where
  "js220_i128_udiv_native dividend divisor =
     (if divisor = 0 then Inl Undefined
      else let k = i128 dividend; n = uint divisor; q = sgn k * (\<bar>k\<bar> div n)
           in Inr (of_i128 q, word_of_int (k - q * n)))"

definition js220_i128_lshift :: "js220_i128 \<Rightarrow> int \<Rightarrow> js220_i128 c" where
  "js220_i128_lshift x shift =
     (if shift > 0 then
        if shift \<ge> 64 then Inl Undefined
        else let s = nat shift in
          Inr \<lparr>u64_0 = push_bit s (u64_0 x), u64_1 = push_bit s (u64_1 x) OR drop_bit (64 - s) (u64_0 x)\<rparr>
      else if shift = 0 then Inr x
      else if - shift \<ge> 64 then Inl Undefined
      else let s = nat (- shift) in
        Inr \<lparr>u64_0 = drop_bit s (u64_0 x) OR push_bit (64 - s) (u64_1 x), u64_1 = signed_drop_bit s (u64_1 x)\<rparr>)"

definition js220_i128_rshift :: "js220_i128 \<Rightarrow> int \<Rightarrow> js220_i128 c" where
  "js220_i128_rshift x shift = js220_i128_lshift x (- shift)"

definition js220_i128_is_neg :: "js220_i128 \<Rightarrow> bool" where
  "js220_i128_is_neg x \<longleftrightarrow> sint (u64_1 x) < 0"

definition js220_i128_compute_integral :: "js220_i128 \<Rightarrow> u64 \<Rightarrow> js220_i128 c" where
  "js220_i128_compute_integral x n =
     (if sint (u64_1 x) < 0 then
        cbind (js220_i128_udiv (js220_i128_neg x) n) (\<lambda>(q, _). Inr (js220_i128_neg q))
      else cbind (js220_i128_udiv x n) (\<lambda>(q, _). Inr q))"

section \<open>The two readings of the bits\<close>

lemma uint_u64: "0 \<le> uint (w :: u64)" "uint (w :: u64) < 18446744073709551616"
  using unsigned_less [of w, where ?'a = int] by simp_all

lemma uint_u64_pos: "uint (w :: u64) \<noteq> 0 \<Longrightarrow> 0 < uint w"
  using uint_u64(1) [of w] by linarith

lemma u128_bounds: "0 \<le> u128 x" "u128 x < 2 ^ 128"
  using uint_u64 [of "u64_1 x"] uint_u64 [of "u64_0 x"]
  by (simp_all add: u128_def)

lemma u128_words: "uint (u64_1 x) = u128 x div 2 ^ 64" "uint (u64_0 x) = u128 x mod 2 ^ 64"
  using uint_u64 [of "u64_0 x"] by (simp_all add: u128_def)

lemma u128_inject: "u128 x = u128 y \<longleftrightarrow> x = y"
  using u128_words [of x] u128_words [of y] by (auto simp: word_uint_eq_iff)

lemma top_bit_64:
  assumes "0 \<le> k" and "k < 2 ^ 64"
  shows "k div 2 ^ 63 = (if 2 ^ 63 \<le> k then 1 else (0::int))"
  using assms int_div_pos_eq [of k "2 ^ 63" 1 "k - 2 ^ 63"] by (auto simp: div_pos_pos_trivial)

lemma bit_63: "bit (uint (w::u64)) 63 \<longleftrightarrow> 2 ^ 63 \<le> uint w"
  using top_bit_64 [of "uint w"] uint_u64 [of w] by (simp add: bit_iff_odd split: if_splits)

lemma sint_uint_64: "sint (w :: u64) = (if 2 ^ 63 \<le> uint w then uint w - 2 ^ 64 else uint w)"
  using uint_u64 [of w] bit_63 [of w]
  by (simp add: sint_uint signed_take_bit_eq_take_bit_minus take_bit_int_eq_self)

lemma sign_add_low:
  "0 \<le> (l::int) \<Longrightarrow> l < 2 ^ 64 \<Longrightarrow> 2 ^ 127 \<le> h * 2 ^ 64 + l \<longleftrightarrow> 2 ^ 63 \<le> h"
  by auto

lemma i128_u128: "i128 x = (if 2 ^ 127 \<le> u128 x then u128 x - 2 ^ 128 else u128 x)"
  using sign_add_low [of "uint (u64_0 x)" "uint (u64_1 x)"] uint_u64 [of "u64_0 x"]
  by (simp add: i128_def u128_def sint_uint_64)

lemma u128_of_i128: "u128 (of_i128 k) = k mod 2 ^ 128"
proof -
  have "k mod 2 ^ 128 = 2 ^ 64 * (k div 2 ^ 64 mod 2 ^ 64) + k mod 2 ^ 64"
    using zmod_zmult2_eq [of "2 ^ 64" k "2 ^ 64"] by simp
  then show ?thesis
    by (simp add: u128_def of_i128_def unsigned_of_int take_bit_eq_mod)
qed

lemma i128_mod: "i128 x mod 2 ^ 128 = u128 x"
proof -
  have "(u128 x - 2 ^ 128) mod 2 ^ 128 = u128 x mod 2 ^ 128"
    by (simp add: minus_mod_self2)
  then show ?thesis using u128_bounds [of x] by (simp add: i128_u128)
qed

lemma i128_fits: "fits_i128 (i128 x)"
  using u128_bounds [of x] by (simp add: i128_u128 fits_i128_def)

lemma of_i128_eq: "of_i128 k = x \<longleftrightarrow> u128 x = k mod 2 ^ 128"
  by (metis u128_inject u128_of_i128)

lemma of_i128_i128 [simp]: "of_i128 (i128 x) = x"
  by (simp only: of_i128_eq i128_mod)

lemma i128_of_i128 [simp]: "fits_i128 k \<Longrightarrow> i128 (of_i128 k) = k"
proof -
  assume k: "fits_i128 k"
  have "k mod 2 ^ 128 = (if 0 \<le> k then k else k + 2 ^ 128)"
    using k mod_pos_pos_trivial [of k "2 ^ 128"] mod_pos_pos_trivial [of "k + 2 ^ 128" "2 ^ 128"]
    by (auto simp: fits_i128_def)
  with k show ?thesis using i128_u128 [of "of_i128 k"] unfolding u128_of_i128 fits_i128_def by auto
qed

lemma native_eq: "native k = Inr x \<longleftrightarrow> fits_i128 k \<and> u128 x = k mod 2 ^ 128"
  by (auto simp only: native_def of_i128_eq [symmetric] split: if_splits)

section \<open>Addition and subtraction\<close>

lemma mod_join:
  assumes "0 \<le> l" and "l < 2 ^ 64"
  shows "(2 ^ 64 * h + l) mod 2 ^ 128 = 2 ^ 64 * (h mod 2 ^ 64) + (l::int)"
proof -
  have "(2 ^ 64 * h + l) div 2 ^ 64 = h" "(2 ^ 64 * h + l) mod 2 ^ 64 = l"
    using assms by simp_all
  then show ?thesis using zmod_zmult2_eq [of "2 ^ 64" "2 ^ 64 * h + l" "2 ^ 64"] by simp
qed

lemma js220_i128_add_u128: "u128 (js220_i128_add a b) = (u128 a + u128 b) mod 2 ^ 128"
proof -
  let ?a0 = "uint (u64_0 a)" and ?b0 = "uint (u64_0 b)" and ?a1 = "uint (u64_1 a)" and ?b1 = "uint (u64_1 b)"
  define k where "k = (if u64_0 a + u64_0 b < u64_0 a then 1 else (0::int))"
  have lo: "uint (u64_0 a + u64_0 b) = ?a0 + ?b0 - 2 ^ 64 * k"
    using uint_u64 [of "u64_0 a"] uint_u64 [of "u64_0 b"]
    by (auto simp: k_def word_less_def uint_plus_if')
  have hi: "uint (u64_1 (js220_i128_add a b)) = (?a1 + ?b1 + k) mod 2 ^ 64"
    by (simp add: js220_i128_add_def Let_def k_def uint_word_ariths mod_simps)
  have "(u128 a + u128 b) mod 2 ^ 128
        = (2 ^ 64 * (?a1 + ?b1 + k) + (?a0 + ?b0 - 2 ^ 64 * k)) mod 2 ^ 128"
    by (simp add: u128_def algebra_simps)
  also have "\<dots> = 2 ^ 64 * ((?a1 + ?b1 + k) mod 2 ^ 64) + (?a0 + ?b0 - 2 ^ 64 * k)"
    unfolding lo [symmetric] using uint_u64 [of "u64_0 a + u64_0 b"] by (intro mod_join) simp_all
  finally show ?thesis
    using lo hi by (simp add: u128_def js220_i128_add_def Let_def)
qed

lemma js220_i128_sub_u128: "u128 (js220_i128_sub a b) = (u128 a - u128 b) mod 2 ^ 128"
proof -
  let ?a0 = "uint (u64_0 a)" and ?b0 = "uint (u64_0 b)" and ?a1 = "uint (u64_1 a)" and ?b1 = "uint (u64_1 b)"
  define k where "k = (if u64_0 a < u64_0 b then 1 else (0::int))"
  have lo: "uint (u64_0 a - u64_0 b) = ?a0 - ?b0 + 2 ^ 64 * k"
    by (auto simp: k_def word_less_def uint_sub_if')
  have hi: "uint (u64_1 (js220_i128_sub a b)) = (?a1 - ?b1 - k) mod 2 ^ 64"
    by (simp add: js220_i128_sub_def Let_def k_def uint_word_ariths mod_simps)
  have "(u128 a - u128 b) mod 2 ^ 128
        = (2 ^ 64 * (?a1 - ?b1 - k) + (?a0 - ?b0 + 2 ^ 64 * k)) mod 2 ^ 128"
    by (simp add: u128_def algebra_simps)
  also have "\<dots> = 2 ^ 64 * ((?a1 - ?b1 - k) mod 2 ^ 64) + (?a0 - ?b0 + 2 ^ 64 * k)"
    unfolding lo [symmetric] using uint_u64 [of "u64_0 a - u64_0 b"] by (intro mod_join) simp_all
  finally show ?thesis
    using lo hi by (simp add: u128_def js220_i128_sub_def Let_def)
qed

lemma add_portable_native: "js220_i128_add_native a b = Inr r \<Longrightarrow> js220_i128_add a b = r"
  unfolding js220_i128_add_native_def native_eq u128_inject [symmetric] js220_i128_add_u128
  by (metis i128_mod mod_add_eq)

lemma sub_portable_native: "js220_i128_sub_native a b = Inr r \<Longrightarrow> js220_i128_sub a b = r"
  unfolding js220_i128_sub_native_def native_eq u128_inject [symmetric] js220_i128_sub_u128
  by (metis i128_mod mod_diff_eq)

section \<open>Multiplication\<close>

lemma mask32: "(0xFFFFFFFF::u64) = mask 32"
  by (simp add: mask_eq_decr_exp)

lemma uint_lo32: "uint (ucast (ucast (a::u64) :: u32) :: u64) = uint a mod 2 ^ 32"
  using uint_u64 [of a] by (simp only: unsigned_ucast_eq unsigned_take_bit_eq) (simp add: take_bit_eq_mod)

lemma uint_drop_bit: "uint (drop_bit n (a::u64)) = uint a div 2 ^ n"
  by (simp only: unsigned_drop_bit_eq) (simp add: drop_bit_eq_div take_bit_int_eq_self uint_u64)

lemma uint_mask32: "uint ((a::u64) AND 0xFFFFFFFF) = uint a mod 2 ^ 32"
  by (simp only: mask32 take_bit_eq_mask [symmetric] unsigned_take_bit_eq) (simp add: take_bit_eq_mod)

lemma uint_push_bit: "uint (push_bit n (a::u64)) = (uint a * 2 ^ n) mod 2 ^ 64"
  by (simp only: unsigned_push_bit_eq) (simp add: push_bit_eq_mult take_bit_eq_mod)

lemma uint_join32:
  "uint (((p::u64) AND 0xFFFFFFFF) OR push_bit 32 m) = uint p mod 2 ^ 32 + 2 ^ 32 * (uint m mod 2 ^ 32)"
proof -
  have "(p AND mask 32) AND push_bit 32 m = 0"
    by (rule bit_word_eqI) (simp add: bit_simps)
  then have "(p AND 0xFFFFFFFF) OR push_bit 32 m = (p AND 0xFFFFFFFF) + push_bit 32 m"
    unfolding mask32 by (rule disjunctive_add_eq_or [symmetric])
  moreover have "uint (push_bit 32 m) = 2 ^ 32 * (uint m mod 2 ^ 32)"
    using mult_mod_right [of "2 ^ 32" "uint m" "2 ^ 32"] by (simp add: uint_push_bit mult.commute)
  moreover have "uint p mod 2 ^ 32 \<le> 2 ^ 32 - 1" "uint m mod 2 ^ 32 \<le> 2 ^ 32 - 1"
    using pos_mod_bound [of "2 ^ 32" "uint p"] pos_mod_bound [of "2 ^ 32" "uint m"] by simp_all
  ultimately show ?thesis by (simp add: uint_plus_if' uint_mask32)
qed

lemma umul128_split:
  fixes B :: int
  assumes "al * bl = B * q1 + r1" "al * bh = B * q2 + r2" "ah * bl = B * q3 + r3"
    and "q1 + r2 + r3 = B * q4 + r4"
  shows "(ah * B + al) * (bh * B + bl) = (ah * bh + q2 + q3 + q4) * (B * B) + (r1 + B * r4)"
  using assms by algebra

lemma int_div_less_self_mult: "0 < (b::int) \<Longrightarrow> a < q * b \<Longrightarrow> a div b < q"
  by (metis div_mult_mod_eq mult_less_cancel_right_pos not_less order_trans pos_mod_sign
      add_increasing2 le_less_linear less_le_not_le order_refl)

lemma zdiv_le_dividend: "0 \<le> (a::int) \<Longrightarrow> 1 \<le> b \<Longrightarrow> a div b \<le> a"
  using zdiv_mono2 [of a 1 b] by simp

lemma half_product:
  fixes x y :: int
  assumes "0 \<le> x" "x < 2 ^ 32" "0 \<le> y" "y < 2 ^ 32"
  shows "0 \<le> x * y" "x * y \<le> (2 ^ 32 - 1) * (2 ^ 32 - 1)"
  using assms mult_mono [of x "2 ^ 32 - 1" y "2 ^ 32 - 1"] by simp_all

lemma umul128_value:
  assumes "js220_i128_umul128 a b = (lo, hi)"
  shows "uint hi * 2 ^ 64 + uint lo = uint a * uint b"
proof -
  define al ah bl bh where "al = uint a mod 2 ^ 32" and "ah = uint a div 2 ^ 32"
    and "bl = uint b mod 2 ^ 32" and "bh = uint b div 2 ^ 32"
  note parts = al_def [symmetric] ah_def [symmetric] bl_def [symmetric] bh_def [symmetric]
  define mid where "mid = (al * bl) div 2 ^ 32 + (al * bh) mod 2 ^ 32 + (ah * bl) mod 2 ^ 32"
  define top where "top = ah * bh + (al * bh) div 2 ^ 32 + (ah * bl) div 2 ^ 32 + mid div 2 ^ 32"
  have r: "0 \<le> al" "al < 2 ^ 32" "0 \<le> ah" "ah < 2 ^ 32" "0 \<le> bl" "bl < 2 ^ 32" "0 \<le> bh" "bh < 2 ^ 32"
    using uint_u64 [of a] uint_u64 [of b] by (auto simp: al_def ah_def bl_def bh_def pos_imp_zdiv_nonneg_iff)
  have ab: "uint a = ah * 2 ^ 32 + al" "uint b = bh * 2 ^ 32 + bl"
    by (simp_all add: al_def ah_def bl_def bh_def)
  note p = half_product [OF r(1,2,5,6)] half_product [OF r(1,2,7,8)] half_product [OF r(3,4,5,6)]
    half_product [OF r(3,4,7,8)]
  have prods: "(al * bl) mod 2 ^ 64 = al * bl" "(al * bh) mod 2 ^ 64 = al * bh"
    "(ah * bl) mod 2 ^ 64 = ah * bl" "(ah * bh) mod 2 ^ 64 = ah * bh"
    using p by (simp_all add: mod_pos_pos_trivial)
  have q: "0 \<le> (al * bl) div 2 ^ 32" "(al * bl) div 2 ^ 32 < 2 ^ 32"
    "0 \<le> (al * bh) div 2 ^ 32" "0 \<le> (ah * bl) div 2 ^ 32"
    using p int_div_less_self_mult [of "al * bl" "2 ^ 32" "2 ^ 32"] by (simp_all add: pos_imp_zdiv_nonneg_iff)
  have mid: "0 \<le> mid" "mid < 2 ^ 64"
    using q pos_mod_sign [of "2 ^ 32" "al * bh"] pos_mod_bound [of "2 ^ 32" "al * bh"]
      pos_mod_sign [of "2 ^ 32" "ah * bl"] pos_mod_bound [of "2 ^ 32" "ah * bl"]
    unfolding mid_def by simp_all
  have eq: "uint a * uint b = top * 2 ^ 64 + ((al * bl) mod 2 ^ 32 + 2 ^ 32 * (mid mod 2 ^ 32))"
    unfolding ab top_def
    using umul128_split [of al bl "2 ^ 32" "(al * bl) div 2 ^ 32" "(al * bl) mod 2 ^ 32" bh
        "(al * bh) div 2 ^ 32" "(al * bh) mod 2 ^ 32" ah "(ah * bl) div 2 ^ 32" "(ah * bl) mod 2 ^ 32"
        "mid div 2 ^ 32" "mid mod 2 ^ 32"] by (simp add: mid_def)
  have "uint a * uint b \<le> (2 ^ 64 - 1) * (2 ^ 64 - 1)"
    using uint_u64 [of a] uint_u64 [of b] by (intro mult_mono) simp_all
  moreover have "0 \<le> (al * bl) mod 2 ^ 32 + 2 ^ 32 * (mid mod 2 ^ 32)" by simp
  ultimately have "top * 2 ^ 64 \<le> (2 ^ 64 - 1) * (2 ^ 64 - 1)" unfolding eq by linarith
  then have top: "0 \<le> top" "top < 2 ^ 64"
    using q(3,4) p(7) mid(1) unfolding top_def by (simp_all add: pos_imp_zdiv_nonneg_iff)
  have words: "uint (ucast (ucast a :: u32) * ucast (ucast b :: u32) :: u64) = al * bl"
    "uint (ucast (ucast a :: u32) * drop_bit 32 b) = al * bh"
    "uint (drop_bit 32 a * ucast (ucast b :: u32)) = ah * bl"
    "uint (drop_bit 32 a * drop_bit 32 b) = ah * bh"
    unfolding uint_word_ariths uint_lo32 uint_drop_bit parts using prods by simp_all
  define pll plh phl phh :: u64 where "pll = ucast (ucast a :: u32) * ucast (ucast b :: u32)"
    and "plh = ucast (ucast a :: u32) * drop_bit 32 b" and "phl = drop_bit 32 a * ucast (ucast b :: u32)"
    and "phh = drop_bit 32 a * drop_bit 32 b"
  note pw = words [folded pll_def plh_def phl_def phh_def]
  define mw where "mw = drop_bit 32 pll + (plh AND 0xFFFFFFFF) + (phl AND 0xFFFFFFFF)"
  have mw: "uint mw = mid"
    unfolding mw_def uint_word_ariths uint_mask32 uint_drop_bit pw
    using mid mod_pos_pos_trivial [OF mid] by (simp add: mod_simps) (simp add: mid_def)
  have "hi = phh + drop_bit 32 plh + drop_bit 32 phl + drop_bit 32 mw"
    and lo: "lo = (pll AND 0xFFFFFFFF) OR push_bit 32 mw"
    using assms by (simp_all add: js220_i128_umul128_def Let_def pll_def plh_def phl_def phh_def mw_def)
  then have "uint hi = top mod 2 ^ 64"
    unfolding top_def by (simp only: uint_word_ariths uint_drop_bit pw mw) (simp add: mod_simps)
  then have "uint hi = top" using top by simp
  with lo eq show ?thesis by (simp add: uint_join32 pw mw)
qed

lemma abs_i64_value: "abs_i64 a = Inr u \<Longrightarrow> uint u = \<bar>sint a\<bar>"
proof -
  assume a: "abs_i64 a = Inr u"
  have "uint (- a) = 2 ^ 64 - uint a" if "2 ^ 63 \<le> uint a"
    using that uint_u64 [of a] by (simp add: uint_word_ariths zmod_zminus1_eq_if)
  with a uint_u64 [of a] show ?thesis by (auto simp: abs_i64_def sint_uint_64 split: if_splits)
qed

lemma square_value: "js220_i128_square_i64 a = Inr r \<Longrightarrow> u128 r = sint a * sint a"
proof -
  assume "js220_i128_square_i64 a = Inr r"
  then obtain u lo hi where u: "abs_i64 a = Inr u" and m: "js220_i128_umul128 u u = (lo, hi)"
    and r: "r = \<lparr>u64_0 = lo, u64_1 = hi\<rparr>"
    unfolding js220_i128_square_i64_def cbind_eq_Inr by (metis (no_types, lifting) case_prod_conv surj_pair sum.inject(2))
  show ?thesis
    using umul128_value [OF m] abs_i64_value [OF u] r by (simp add: u128_def abs_mult_self_eq)
qed

lemma square_defined: "a \<noteq> U64_SIGN_BIT \<Longrightarrow> \<exists>r. js220_i128_square_i64 a = Inr r"
  by (simp add: js220_i128_square_i64_def abs_i64_def split: prod.splits)

lemma square_portable_native:
  assumes "js220_i128_square_i64 a = Inr r"
  shows "js220_i128_square_i64_native a = Inr r"
proof -
  have "uint a < 2 ^ 64" using uint_u64 [of a] by simp
  then have "\<bar>sint a\<bar> \<le> 2 ^ 63" using uint_u64 [of a] by (simp add: sint_uint_64)
  then have "sint a * sint a \<le> 2 ^ 63 * 2 ^ 63"
    using mult_mono [of "\<bar>sint a\<bar>" "2 ^ 63" "\<bar>sint a\<bar>" "2 ^ 63"] by (simp add: abs_mult_self_eq)
  then show ?thesis
    using square_value [OF assms] u128_bounds [of r] zero_le_square [of "sint a"]
    unfolding js220_i128_square_i64_native_def native_eq fits_i128_def by (simp add: order_trans [OF _ zero_le_square])
qed

section \<open>Division\<close>

lemma push_or_bit:
  assumes "y = 0 \<or> y = 1"
  shows "push_bit 1 (x::u64) OR y = push_bit 1 x + y"
proof -
  have "even (push_bit 1 x)" by (simp only: even_push_bit_iff) simp
  then have "push_bit 1 x AND 1 = 0" by (simp only: and_one_eq even_iff_mod_2_eq_zero)
  with assms show ?thesis using disjunctive_add_eq_or [of "push_bit 1 x" y] by auto
qed

text \<open>One pass shifts one bit of the dividend into the remainder and yields one bit of the quotient.\<close>

lemma udiv_step_value:
  assumes step: "udiv_step d (rem, lo, quot) = (rem', lo', quot')"
    and rem: "uint rem < uint d" and quot: "uint quot < 2 ^ 63"
  shows "uint rem' < uint d"
    and "uint quot' * uint d + uint rem' = 2 * (uint quot * uint d + uint rem) + uint lo div 2 ^ 63"
    and "uint lo' = (2 * uint lo) mod 2 ^ 64"
    and "uint quot' \<le> 2 * uint quot + 1"
proof -
  define t where "t = uint lo div 2 ^ 63"
  define w where "w = 2 * uint rem + t"
  have t: "t = 0 \<or> t = 1" using top_bit_64 [of "uint lo"] uint_u64 [of lo] by (auto simp: t_def)
  define rw where "rw = push_bit 1 rem OR drop_bit 63 lo"
  have "drop_bit 63 lo = 0 \<or> drop_bit 63 lo = 1"
    using t by (simp only: word_uint_eq_iff uint_drop_bit t_def [symmetric]) simp
  then have "rw = push_bit 1 rem + drop_bit 63 lo"
    unfolding rw_def by (rule push_or_bit)
  then have rw: "uint rw = w mod 2 ^ 64"
    by (simp only: uint_word_ariths uint_push_bit uint_drop_bit) (simp add: w_def t_def mod_simps mult.commute)
  have top: "drop_bit 63 rem \<noteq> 0 \<longleftrightarrow> 2 ^ 63 \<le> uint rem"
    using top_bit_64 [of "uint rem"] uint_u64 [of rem]
    by (simp only: word_uint_eq_iff uint_drop_bit) simp
  have ge: "(drop_bit 63 rem \<noteq> 0 \<or> d \<le> rw) \<longleftrightarrow> uint d \<le> w"
    unfolding top word_le_def rw using uint_u64 [of rem] uint_u64 [of d] t
    by (cases "2 ^ 63 \<le> uint rem") (auto simp: w_def mod_pos_pos_trivial)
  have w: "0 \<le> w" "w < 2 * uint d" using rem t by (auto simp: w_def)
  have q0: "uint (push_bit 1 quot) = 2 * uint quot"
    using quot by (simp only: uint_push_bit) (simp add: mod_pos_pos_trivial mult.commute)
  have "push_bit 1 quot OR 1 = push_bit 1 quot + 1" by (rule push_or_bit) simp
  then have q1: "uint (push_bit 1 quot OR 1) = 2 * uint quot + 1"
    using quot q0 by (simp add: uint_plus_if')
  have lo': "lo' = push_bit 1 lo"
    using step by (auto simp: udiv_step_def Let_def split: if_splits)
  then show "uint lo' = (2 * uint lo) mod 2 ^ 64" by (simp only: uint_push_bit) (simp add: mult.commute)
  have r1: "uint (rw - d) = w - uint d" if "uint d \<le> w"
  proof -
    have "uint (rw - d) = (w - uint d) mod 2 ^ 64"
      by (simp only: uint_word_ariths rw) (simp add: mod_simps)
    then show ?thesis using that w uint_u64 [of d] by (simp add: mod_pos_pos_trivial)
  qed
  have "(rem', lo', quot') = (if uint d \<le> w then (rw - d, push_bit 1 lo, push_bit 1 quot OR 1)
                              else (rw, push_bit 1 lo, push_bit 1 quot))"
    unfolding step [symmetric] udiv_step_def prod.case Let_def rw_def [symmetric] ge ..
  then have "rem' = (if uint d \<le> w then rw - d else rw)"
    and "quot' = (if uint d \<le> w then push_bit 1 quot OR 1 else push_bit 1 quot)"
    by (simp_all split: if_splits)
  then have "uint rem' = (if uint d \<le> w then w - uint d else w)"
    and "uint quot' = 2 * uint quot + (if uint d \<le> w then 1 else 0)"
    using r1 rw w q0 q1 uint_u64 [of d] by (simp_all add: mod_pos_pos_trivial)
  with w show "uint rem' < uint d" "uint quot' \<le> 2 * uint quot + 1"
    "uint quot' * uint d + uint rem' = 2 * (uint quot * uint d + uint rem) + uint lo div 2 ^ 63"
    by (auto simp: w_def t_def algebra_simps)
qed

lemma shift_out:
  assumes "k < 64" and "0 \<le> (l::int)" and "l < 2 ^ 64"
  shows "(l * 2 ^ k) mod 2 ^ 64 div 2 ^ 63 = l div 2 ^ (64 - Suc k) - 2 * (l div 2 ^ (64 - k))"
proof -
  define j where "j = 63 - k"
  have e: "64 - k = Suc j" "64 - Suc k = j" "(2::int) ^ 64 = 2 ^ Suc j * 2 ^ k" "(2::int) ^ 63 = 2 ^ j * 2 ^ k"
    using assms(1) by (simp_all add: j_def flip: power_add)
  have "(l * 2 ^ k) mod 2 ^ 64 div 2 ^ 63 = (l mod 2 ^ Suc j) div 2 ^ j"
    unfolding e by (simp add: mult_mod_right [symmetric] mult.commute [of _ "2 ^ k"] del: power_Suc)
  also have "\<dots> = l div 2 ^ j mod 2"
    by (simp add: zmod_zmult2_eq mult.commute [of 2])
  also have "\<dots> = l div 2 ^ j - 2 * (l div 2 ^ Suc j)"
    by (simp add: zdiv_zmult2_eq mult.commute [of 2] minus_div_mult_eq_mod)
  finally show ?thesis by (simp only: e(1,2))
qed

lemma udiv_loop:
  assumes "(udiv_step d ^^ k) (hi, lo, 0) = (rem, lo', quot)" and "k \<le> 64" and "uint hi < uint d"
  shows "uint rem < uint d" and "uint quot < 2 ^ k"
    and "uint quot * uint d + uint rem = uint hi * 2 ^ k + uint lo div 2 ^ (64 - k)"
    and "uint lo' = (uint lo * 2 ^ k) mod 2 ^ 64"
proof -
  have "uint rem < uint d \<and> uint quot < 2 ^ k
    \<and> uint quot * uint d + uint rem = uint hi * 2 ^ k + uint lo div 2 ^ (64 - k)
    \<and> uint lo' = (uint lo * 2 ^ k) mod 2 ^ 64"
    using assms(1,2)
  proof (induction k arbitrary: rem lo' quot)
    case 0
    then show ?case using assms(3) uint_u64 [of lo] by (simp add: div_pos_pos_trivial)
  next
    case (Suc k)
    obtain r l q where p: "(udiv_step d ^^ k) (hi, lo, 0) = (r, l, q)" by (metis surj_pair)
    have step: "udiv_step d (r, l, q) = (rem, lo', quot)" using Suc.prems(1) p by simp
    have IH: "uint r < uint d" "uint q < 2 ^ k"
      "uint q * uint d + uint r = uint hi * 2 ^ k + uint lo div 2 ^ (64 - k)"
      "uint l = (uint lo * 2 ^ k) mod 2 ^ 64"
      using Suc.IH [OF p] Suc.prems(2) by simp_all
    have "uint q < 2 ^ 63"
      using IH(2) power_increasing [of k 63 "2::int"] Suc.prems(2) by simp
    note v = udiv_step_value [OF step IH(1) this]
    have "uint l div 2 ^ 63 = uint lo div 2 ^ (64 - Suc k) - 2 * (uint lo div 2 ^ (64 - k))"
      using shift_out [of k "uint lo"] uint_u64 [of lo] IH(4) Suc.prems(2) by simp
    then have "uint quot * uint d + uint rem = uint hi * 2 ^ Suc k + uint lo div 2 ^ (64 - Suc k)"
      using v(2) IH(3) by (simp add: algebra_simps)
    moreover have "uint lo' = (uint lo * 2 ^ Suc k) mod 2 ^ 64"
      using v(3) IH(4) by (simp add: mod_simps algebra_simps)
    ultimately show ?case using v(1,4) IH(2) by simp
  qed
  then show "uint rem < uint d" "uint quot < 2 ^ k"
    "uint quot * uint d + uint rem = uint hi * 2 ^ k + uint lo div 2 ^ (64 - k)"
    "uint lo' = (uint lo * 2 ^ k) mod 2 ^ 64" by auto
qed

lemma udiv128_value:
  assumes "js220_i128_udiv128 hi lo d = (quot, rem)" and "uint hi < uint d"
  shows "uint quot = (uint hi * 2 ^ 64 + uint lo) div uint d"
    and "uint rem = (uint hi * 2 ^ 64 + uint lo) mod uint d"
proof -
  obtain l where "(udiv_step d ^^ 64) (hi, lo, 0) = (rem, l, quot)"
    using assms(1) by (auto simp: js220_i128_udiv128_def split: prod.splits)
  from udiv_loop [OF this _ assms(2)]
  have "uint rem < uint d" "uint hi * 2 ^ 64 + uint lo = uint d * uint quot + uint rem"
    by (simp_all add: algebra_simps)
  then show "uint quot = (uint hi * 2 ^ 64 + uint lo) div uint d"
    "uint rem = (uint hi * 2 ^ 64 + uint lo) mod uint d"
    by (simp_all add: int_div_pos_eq int_mod_pos_eq)
qed

lemma udiv_value:
  assumes "js220_i128_udiv x n = Inr (q, r)"
  shows "u128 q = u128 x div uint n" and "uint r = u128 x mod uint n" and "n \<noteq> 0"
proof -
  show n: "n \<noteq> 0" using assms by (auto simp: js220_i128_udiv_def)
  define h where "h = uint (u64_1 x)"
  define r1 where "r1 = u64_1 x div n"
  define d1 where "d1 = u64_1 x - r1 * n"
  have np: "0 < uint n" using n by (intro uint_u64_pos) (simp add: unsigned_eq_0_iff)
  have r1: "uint r1 = h div uint n" by (simp add: r1_def h_def uint_div_distrib)
  have "uint d1 = (h - h div uint n * uint n) mod 2 ^ 64"
    unfolding d1_def uint_word_ariths r1 by (simp add: mod_simps h_def)
  then have "uint d1 = (h mod uint n) mod 2 ^ 64" by (simp only: minus_div_mult_eq_mod)
  moreover have m: "0 \<le> h mod uint n" "h mod uint n < uint n" using np by simp_all
  ultimately have d1: "uint d1 = h mod uint n" using uint_u64 [of n] by simp
  obtain quot where u: "js220_i128_udiv128 d1 (u64_0 x) n = (quot, r)" and q: "q = \<lparr>u64_0 = quot, u64_1 = r1\<rparr>"
    using assms n by (auto simp: js220_i128_udiv_def Let_def r1_def d1_def split: prod.splits)
  note v = udiv128_value [OF u, unfolded d1, OF m(2)]
  have x: "u128 x = uint n * (h div uint n * 2 ^ 64) + (h mod uint n * 2 ^ 64 + uint (u64_0 x))"
  proof -
    have "h * 2 ^ 64 = (uint n * (h div uint n) + h mod uint n) * 2 ^ 64" by (simp only: mult_div_mod_eq)
    then show ?thesis by (simp only: u128_def h_def [symmetric] distrib_right mult.assoc add.assoc)
  qed
  show "u128 q = u128 x div uint n" "uint r = u128 x mod uint n"
    unfolding x using np v q r1 by (simp_all add: u128_def)
qed

lemma udiv_defined: "n \<noteq> 0 \<Longrightarrow> \<exists>q r. js220_i128_udiv x n = Inr (q, r)"
  by (simp add: js220_i128_udiv_def Let_def split: prod.splits)

lemma udiv_portable_native:
  assumes "0 \<le> i128 x"
  shows "js220_i128_udiv_native x n = js220_i128_udiv x n"
proof (cases "n = 0")
  case False
  obtain q r where u: "js220_i128_udiv x n = Inr (q, r)" using udiv_defined [OF False] by blast
  note v = udiv_value [OF u]
  have x: "i128 x = u128 x" using assms u128_bounds [of x] by (simp add: i128_u128 split: if_splits)
  define k where "k = u128 x div uint n"
  have "k = sgn (u128 x) * (\<bar>u128 x\<bar> div uint n)"
    using u128_bounds(1) [of x] by (simp add: k_def sgn_if)
  moreover have "of_i128 k = q"
    using v(1) u128_bounds [of q] by (simp add: of_i128_eq k_def)
  moreover have "word_of_int (u128 x - k * uint n) = r"
    using v(2) by (simp add: k_def minus_div_mult_eq_mod) (metis word_of_int_uint)
  ultimately show ?thesis
    using False u by (simp add: js220_i128_udiv_native_def x Let_def)
qed (simp add: js220_i128_udiv_native_def js220_i128_udiv_def)

section \<open>Negation\<close>

lemma and_sign_bit: "(w::u64) AND U64_SIGN_BIT = (if 2 ^ 63 \<le> uint w then U64_SIGN_BIT else 0)"
proof -
  have "bit w 63 \<longleftrightarrow> 2 ^ 63 \<le> uint w" using bit_63 [of w] by (simp only: bit_uint_iff) simp
  moreover have "U64_SIGN_BIT = 2 ^ 63" by (simp add: U64_SIGN_BIT_def)
  moreover have "w AND 2 ^ 63 = (if bit w 63 then 2 ^ 63 else 0)"
    by (rule bit_word_eqI) (auto simp only: bit_and_iff bit_exp_iff bit_0_eq split: if_splits)
  ultimately show ?thesis by (simp only:)
qed

text \<open>
  Negation takes the carry out of the low word from a change of its top bit. That bit also
  changes, without a carry, when the low word is \<open>2 ^ 63\<close>: then the high word is one too large.
\<close>

lemma uint_not: "uint (NOT (w::u64)) = 2 ^ 64 - 1 - uint w"
  using uint_u64 [of w]
  by (simp only: unsigned_not_eq take_bit_not_eq_mask_diff) (simp add: mask_eq_exp_minus_1 take_bit_int_eq_self)

lemma neg_u128:
  "u128 (js220_i128_neg x)
   = (- u128 x + (if u64_0 x = U64_SIGN_BIT then 2 ^ 64 else 0)) mod 2 ^ 128"
proof -
  let ?l = "uint (u64_0 x)" and ?h = "uint (u64_1 x)"
  define z where "z = (if ?l = 0 then 1 else (0::int))"
  define b where "b = (if u64_0 x = U64_SIGN_BIT then 1 else (0::int))"
  have sb: "u64_0 x = U64_SIGN_BIT \<longleftrightarrow> ?l = 2 ^ 63" by (simp add: word_uint_eq_iff U64_SIGN_BIT_def)
  have l1: "uint (NOT (u64_0 x) + 1) = 2 ^ 64 - ?l - 2 ^ 64 * z"
    using uint_u64 [of "u64_0 x"] by (auto simp: uint_plus_if' z_def uint_not intro: uint_u64_pos)
  have "U64_SIGN_BIT \<noteq> 0" by (simp add: U64_SIGN_BIT_def)
  then have c: "(NOT (u64_0 x) + 1) AND U64_SIGN_BIT \<noteq> NOT (u64_0 x) AND U64_SIGN_BIT \<longleftrightarrow> z + b = 1"
    unfolding and_sign_bit l1 uint_not using sb uint_u64 [of "u64_0 x"] by (simp add: z_def b_def)
  have zb: "z + b = 0 \<or> z + b = 1" using sb by (simp add: z_def b_def)
  have hi: "uint (u64_1 (js220_i128_neg x)) = (2 ^ 64 - 1 - ?h + (z + b)) mod 2 ^ 64"
  proof -
    have "(2 ^ 64 - 1 - ?h) mod 2 ^ 64 = 2 ^ 64 - 1 - ?h"
      by (rule mod_pos_pos_trivial) (use uint_u64 [of "u64_1 x"] in \<open>simp_all add: less_le_trans [of _ 0]\<close>)
    then show ?thesis using c zb by (auto simp: js220_i128_neg_def Let_def uint_word_ariths uint_not)
  qed
  have lo: "uint (u64_0 (js220_i128_neg x)) = 2 ^ 64 - ?l - 2 ^ 64 * z"
    by (simp add: js220_i128_neg_def Let_def l1)
  have "- u128 x + 2 ^ 64 * b = (2 ^ 64 * (2 ^ 64 - 1 - ?h + (z + b)) + (2 ^ 64 - ?l - 2 ^ 64 * z)) - 2 ^ 128"
    by (simp add: u128_def algebra_simps)
  then have "(- u128 x + 2 ^ 64 * b) mod 2 ^ 128
      = (2 ^ 64 * (2 ^ 64 - 1 - ?h + (z + b)) + (2 ^ 64 - ?l - 2 ^ 64 * z)) mod 2 ^ 128"
    by (simp only: minus_mod_self2)
  also have "\<dots> = 2 ^ 64 * ((2 ^ 64 - 1 - ?h + (z + b)) mod 2 ^ 64) + (2 ^ 64 - ?l - 2 ^ 64 * z)"
    unfolding l1 [symmetric] using uint_u64 [of "NOT (u64_0 x) + 1"] by (intro mod_join) simp_all
  finally show ?thesis using hi lo by (simp add: u128_def b_def split: if_splits)
qed

lemma neg_eq:
  assumes "u64_0 x \<noteq> U64_SIGN_BIT"
  shows "js220_i128_neg x = of_i128 (- i128 x)"
proof -
  have "(- i128 x) mod 2 ^ 128 = (- u128 x) mod 2 ^ 128" by (metis i128_mod mod_minus_eq)
  with assms neg_u128 [of x] have "u128 (js220_i128_neg x) = (- i128 x) mod 2 ^ 128" by simp
  then show ?thesis by (simp only: eq_commute [of _ "of_i128 _"] of_i128_eq)
qed

lemma neg_value:
  assumes "u64_0 x \<noteq> U64_SIGN_BIT" and "i128 x \<noteq> - (2 ^ 127)"
  shows "i128 (js220_i128_neg x) = - i128 x"
  using i128_fits [of x] assms by (simp add: neg_eq fits_i128_def)

lemma neg_of_negative:
  assumes "i128 x < 0" and "u64_0 x \<noteq> U64_SIGN_BIT"
  shows "u128 (js220_i128_neg x) = - i128 x"
  using assms i128_fits [of x] unfolding neg_eq [OF assms(2)] u128_of_i128 by (simp add: fits_i128_def)

lemma of_i128_cong: "k mod 2 ^ 128 = j mod 2 ^ 128 \<Longrightarrow> of_i128 k = of_i128 j"
  by (simp only: of_i128_eq u128_of_i128)

lemma neg_to_negative:
  assumes "u128 q \<le> 2 ^ 127" and "u64_0 q \<noteq> U64_SIGN_BIT"
  shows "i128 (js220_i128_neg q) = - u128 q"
proof -
  have "of_i128 (- i128 q) = of_i128 (- u128 q)"
    by (rule of_i128_cong) (metis i128_mod mod_minus_eq mod_mod_trivial)
  then show ?thesis
    using neg_eq [OF assms(2)] assms(1) u128_bounds [of q] by (simp add: fits_i128_def)
qed

lemma low_word: "u64_0 y = U64_SIGN_BIT \<longleftrightarrow> u128 y mod 2 ^ 64 = 2 ^ 63"
  "u64_0 y = U64_SIGN_BIT \<longleftrightarrow> i128 y mod 2 ^ 64 = 2 ^ 63"
  using uint_u64 [of "u64_0 y"] by (simp_all add: word_uint_eq_iff U64_SIGN_BIT_def u128_def i128_def)

lemma i128_nonneg: "0 \<le> sint (u64_1 x) \<longleftrightarrow> 0 \<le> i128 x" "0 \<le> i128 x \<Longrightarrow> i128 x = u128 x"
proof -
  show "0 \<le> sint (u64_1 x) \<longleftrightarrow> 0 \<le> i128 x" using uint_u64 [of "u64_0 x"] by (auto simp: i128_def)
  show "0 \<le> i128 x \<Longrightarrow> i128 x = u128 x" using u128_bounds [of x] by (simp add: i128_u128 split: if_splits)
qed

lemma compute_integral_value:
  assumes "n \<noteq> 0"
    and "i128 x < 0 \<Longrightarrow> i128 x mod 2 ^ 64 \<noteq> 2 ^ 63 \<and> (\<bar>i128 x\<bar> div uint n) mod 2 ^ 64 \<noteq> 2 ^ 63"
  shows "\<exists>r. js220_i128_compute_integral x n = Inr r \<and> i128 r = sgn (i128 x) * (\<bar>i128 x\<bar> div uint n)"
proof (cases "i128 x < 0")
  case True
  note neg = neg_of_negative [OF True, unfolded low_word(2)]
  obtain q r where u: "js220_i128_udiv (js220_i128_neg x) n = Inr (q, r)" using udiv_defined [OF assms(1)] by blast
  have v: "u128 q = - i128 x div uint n" using udiv_value(1) [OF u] neg assms(2) [OF True] by simp
  have "1 \<le> uint n" using uint_u64_pos [of n] assms(1) by (simp add: unsigned_eq_0_iff)
  then have "u128 q \<le> - i128 x" unfolding v using True by (intro zdiv_le_dividend) simp_all
  then have "i128 (js220_i128_neg q) = - u128 q"
    using i128_fits [of x] assms(2) [OF True] True v by (intro neg_to_negative) (auto simp: fits_i128_def low_word(1))
  moreover have "sint (u64_1 x) < 0" using True i128_nonneg(1) [of x] by linarith
  ultimately show ?thesis using True u v by (simp add: js220_i128_compute_integral_def)
next
  case False
  obtain q r where u: "js220_i128_udiv x n = Inr (q, r)" using udiv_defined [OF assms(1)] by blast
  have x: "0 \<le> i128 x" "i128 x = u128 x" "0 \<le> sint (u64_1 x)"
    using False i128_nonneg [of x] by simp_all
  have v: "u128 q = i128 x div uint n" using udiv_value(1) [OF u] x by simp
  have "1 \<le> uint n" using uint_u64_pos [of n] assms(1) by (simp add: unsigned_eq_0_iff)
  then have "u128 q \<le> i128 x" unfolding v using x by (intro zdiv_le_dividend) simp_all
  then have "i128 q = u128 q" using i128_fits [of x] by (simp add: fits_i128_def i128_u128)
  then show ?thesis using x u v by (simp add: js220_i128_compute_integral_def sgn_if)
qed

section \<open>Shifts\<close>

lemma disjoint_or_add: "(\<And>i. bit a i \<Longrightarrow> bit b i \<Longrightarrow> False) \<Longrightarrow> a OR b = a + (b::u64)"
  by (rule disjunctive_add_eq_or [symmetric]) (rule bit_word_eqI, auto simp: bit_and_iff)

lemma lshift_value:
  assumes "0 \<le> s" and "s < 64"
  shows "\<exists>r. js220_i128_lshift x s = Inr r \<and> u128 r = (u128 x * 2 ^ nat s) mod 2 ^ 128"
proof (cases "s = 0")
  case True
  then show ?thesis using u128_bounds [of x] by (simp add: js220_i128_lshift_def)
next
  case False
  define k where "k = nat s"
  have k: "0 < k" "k < 64" using assms False by (auto simp: k_def)
  let ?l = "uint (u64_0 x)" and ?h = "uint (u64_1 x)"
  have e: "(2::int) ^ 64 = 2 ^ (64 - k) * 2 ^ k" using k by (simp flip: power_add)
  have "bit (push_bit k (u64_1 x)) i \<Longrightarrow> bit (drop_bit (64 - k) (u64_0 x)) i \<Longrightarrow> False" for i
    using k bit_imp_le_length [of "u64_0 x" "64 - k + i"] by (auto simp: bit_push_bit_iff bit_drop_bit_eq)
  then have "push_bit k (u64_1 x) OR drop_bit (64 - k) (u64_0 x) = push_bit k (u64_1 x) + drop_bit (64 - k) (u64_0 x)"
    by (rule disjoint_or_add)
  moreover have d: "?l * 2 ^ k div 2 ^ 64 = ?l div 2 ^ (64 - k)" unfolding e by simp
  ultimately have hi: "uint (push_bit k (u64_1 x) OR drop_bit (64 - k) (u64_0 x))
      = (?h * 2 ^ k + ?l * 2 ^ k div 2 ^ 64) mod 2 ^ 64"
    by (simp add: uint_word_ariths uint_push_bit uint_drop_bit mod_simps)
  have "u128 x * 2 ^ k = 2 ^ 64 * (?h * 2 ^ k + ?l * 2 ^ k div 2 ^ 64) + ?l * 2 ^ k mod 2 ^ 64"
    by (simp add: u128_def algebra_simps)
  then have "(u128 x * 2 ^ k) mod 2 ^ 128
      = 2 ^ 64 * ((?h * 2 ^ k + ?l * 2 ^ k div 2 ^ 64) mod 2 ^ 64) + ?l * 2 ^ k mod 2 ^ 64"
    using mod_join [of "?l * 2 ^ k mod 2 ^ 64" "?h * 2 ^ k + ?l * 2 ^ k div 2 ^ 64"] by simp
  then show ?thesis
    using k assms False hi by (simp add: js220_i128_lshift_def Let_def k_def [symmetric] u128_def uint_push_bit)
qed

lemma rshift_value:
  assumes "0 \<le> s" and "s < 64"
  shows "\<exists>r. js220_i128_rshift x s = Inr r \<and> i128 r = i128 x div 2 ^ nat s"
proof (cases "s = 0")
  case True
  then show ?thesis by (simp add: js220_i128_rshift_def js220_i128_lshift_def)
next
  case False
  define k where "k = nat s"
  have k: "0 < k" "k < 64" using assms False by (auto simp: k_def)
  define l h j where "l = uint (u64_0 x)" and "h = sint (u64_1 x)" and "j = 64 - k"
  have e: "(2::int) ^ 64 = 2 ^ k * 2 ^ j" using k by (simp add: j_def flip: power_add)
  have l: "0 \<le> l div 2 ^ k" "l div 2 ^ k < 2 ^ j"
    using uint_u64 [of "u64_0 x"] int_div_less_self_mult [of "2 ^ k" l "2 ^ j"] e
    by (simp_all add: l_def mult.commute pos_imp_zdiv_nonneg_iff)
  have "bit (drop_bit k (u64_0 x)) i \<Longrightarrow> bit (push_bit j (u64_1 x)) i \<Longrightarrow> False" for i
    using k bit_imp_le_length [of "u64_0 x" "k + i"] by (auto simp: bit_push_bit_iff bit_drop_bit_eq j_def)
  then have "drop_bit k (u64_0 x) OR push_bit j (u64_1 x) = drop_bit k (u64_0 x) + push_bit j (u64_1 x)"
    by (rule disjoint_or_add)
  then have "uint (drop_bit k (u64_0 x) OR push_bit j (u64_1 x)) = (l div 2 ^ k + uint (u64_1 x) * 2 ^ j mod 2 ^ 64) mod 2 ^ 64"
    by (simp add: uint_word_ariths uint_push_bit uint_drop_bit l_def)
  moreover have hj: "uint (u64_1 x) * 2 ^ j mod 2 ^ 64 = 2 ^ j * (h mod 2 ^ k)"
  proof -
    have "uint (u64_1 x) mod 2 ^ k = h mod 2 ^ k"
      using sint_uint_64 [of "u64_1 x"] unfolding h_def e by (auto simp: mod_diff_eq [symmetric])
    then show ?thesis unfolding e by (simp add: mult.commute [of _ "2 ^ j"] mult_mod_right [symmetric])
  qed
  moreover have "2 ^ j * (h mod 2 ^ k) \<le> 2 ^ j * (2 ^ k - 1)" "0 \<le> 2 ^ j * (h mod 2 ^ k)"
    using pos_mod_bound [of "2 ^ k" h] by (intro mult_left_mono) simp_all
  ultimately have lo: "uint (drop_bit k (u64_0 x) OR push_bit j (u64_1 x)) = l div 2 ^ k + 2 ^ j * (h mod 2 ^ k)"
    using l e by (simp add: algebra_simps)
  have "i128 x = 2 ^ k * (2 ^ j * h) + l" using e by (simp add: i128_def h_def l_def)
  then have "i128 x div 2 ^ k = 2 ^ j * h + l div 2 ^ k" by simp
  moreover have "2 ^ j * h = 2 ^ 64 * (h div 2 ^ k) + 2 ^ j * (h mod 2 ^ k)"
    unfolding e by (metis (no_types, opaque_lifting) distrib_left mult.assoc mult.commute mult_div_mod_eq)
  moreover have "sint (signed_drop_bit k (u64_1 x)) = h div 2 ^ k"
    by (simp add: sint_signed_drop_bit_eq drop_bit_eq_div h_def)
  ultimately show ?thesis
    using lo k assms False
    by (simp add: js220_i128_rshift_def js220_i128_lshift_def Let_def k_def [symmetric] j_def [symmetric] i128_def)
qed

section \<open>Conversion to double\<close>

definition normalize_step :: "js220_i128 \<Rightarrow> js220_i128" where
  "normalize_step x =
     \<lparr>u64_0 = push_bit 1 (u64_0 x), u64_1 = push_bit 1 (u64_1 x) OR (drop_bit 63 (u64_0 x) AND 1)\<rparr>"

text \<open>The loop that shifts the leading bit to the top; it would not end on zero.\<close>

partial_function (option) normalize_loop :: "js220_i128 \<Rightarrow> int \<Rightarrow> (js220_i128 \<times> int) option" where
  "normalize_loop x exponent =
     (if u64_1 x AND U64_SIGN_BIT = 0 then normalize_loop (normalize_step x) (exponent - 1)
      else Some (x, exponent))"

text \<open>\<open>None\<close> is a loop that does not end; \<open>q\<close> is the number of fraction bits.\<close>

definition js220_i128_to_f64 :: "js220_i128 \<Rightarrow> u32 \<Rightarrow> u64 option" where
  "js220_i128_to_f64 x q =
     (let exponent = sint (128 - q - 64);
          is_neg = u64_1 x AND U64_SIGN_BIT \<noteq> 0;
          x = (if is_neg then js220_i128_neg x else x)
      in if u64_0 x = 0 \<and> u64_1 x = 0 then Some 0
         else case normalize_loop x exponent of
                None \<Rightarrow> None
              | Some (x, exponent) \<Rightarrow>
                  let f = f64_mul (int_to_f64 (uint (u64_1 x))) (pow2_f64 exponent)
                  in Some (if is_neg then f64_neg f else f))"

lemma normalize_step_u128: "u128 x < 2 ^ 127 \<Longrightarrow> u128 (normalize_step x) = 2 * u128 x"
proof -
  assume x: "u128 x < 2 ^ 127"
  have "uint (drop_bit 63 (u64_0 x)) = 0 \<or> uint (drop_bit 63 (u64_0 x)) = 1"
    using top_bit_64 [of "uint (u64_0 x)"] uint_u64 [of "u64_0 x"] by (simp only: uint_drop_bit) (simp split: if_splits)
  then have "drop_bit 63 (u64_0 x) = 0 \<or> drop_bit 63 (u64_0 x) = 1"
    by (simp only: word_uint_eq_iff uint_0_eq uint_1_eq)
  then have d: "drop_bit 63 (u64_0 x) AND 1 = drop_bit 63 (u64_0 x)" by (metis and.idem and_zero_eq bit.conj_zero_left)
  have "js220_i128_lshift x 1 = Inr (normalize_step x)"
    unfolding js220_i128_lshift_def normalize_step_def d by simp
  then show ?thesis using lshift_value [of 1 x] x u128_bounds [of x] by simp
qed

lemma sign_clear: "u64_1 x AND U64_SIGN_BIT = 0 \<longleftrightarrow> u128 x < 2 ^ 127"
proof -
  have "u128 x < 2 ^ 127 \<longleftrightarrow> uint (u64_1 x) < 2 ^ 63"
    using sign_add_low [of "uint (u64_0 x)" "uint (u64_1 x)"] uint_u64 [of "u64_0 x"]
    by (simp add: u128_def not_le [symmetric])
  moreover have "U64_SIGN_BIT \<noteq> 0" by (simp add: U64_SIGN_BIT_def)
  ultimately show ?thesis by (simp add: and_sign_bit not_le)
qed

lemma normalize_loop_ends:
  "2 ^ 127 \<le> u128 x * 2 ^ n \<Longrightarrow>
   \<exists>k y. k \<le> n \<and> normalize_loop x e = Some (y, e - int k) \<and> u128 y = u128 x * 2 ^ k \<and> 2 ^ 127 \<le> u128 y"
proof (induction n arbitrary: x e)
  case 0
  then show ?case
    using sign_clear [of x] by (intro exI [of _ 0] exI [of _ x]) (simp add: normalize_loop.simps)
next
  case (Suc n)
  show ?case
  proof (cases "u128 x < 2 ^ 127")
    case False
    then show ?thesis
      using sign_clear [of x] by (intro exI [of _ 0] exI [of _ x]) (simp add: normalize_loop.simps)
  next
    case True
    note s = normalize_step_u128 [OF True]
    have "2 ^ 127 \<le> u128 (normalize_step x) * 2 ^ n" using Suc.prems by (simp add: s mult.commute mult.assoc)
    from Suc.IH [OF this, of "e - 1"] obtain k y where k: "k \<le> n"
      "normalize_loop (normalize_step x) (e - 1) = Some (y, e - 1 - int k)"
      "u128 y = u128 (normalize_step x) * 2 ^ k" "2 ^ 127 \<le> u128 y" by blast
    then show ?thesis
      using sign_clear [of x] True
      by (intro exI [of _ "Suc k"] exI [of _ y]) (simp add: normalize_loop.simps [of x] s algebra_simps)
  qed
qed

lemma fp_decode_sign:
  assumes "n < 2 ^ 63" and "fp_decode 52 11 n = FFin False M E"
  shows "fp_decode 52 11 (n + 2 ^ 63) = FFin True M E"
proof -
  have e: "(2::nat) ^ 63 = 2 ^ 52 * 2 ^ 11" by simp
  have "(n + 2 ^ 63) div 2 ^ 52 = 2 ^ 11 + n div 2 ^ 52" unfolding e by (rule div_mult_self2) simp
  then have a: "(n + 2 ^ 63) div 2 ^ 52 mod 2 ^ 11 = n div 2 ^ 52 mod 2 ^ 11" by (simp only: mod_add_self1)
  have "(n + 2 ^ 63) mod 2 ^ 52 = n mod 2 ^ 52" unfolding e by (rule mod_mult_self2)
  note a = a this
  define ex fr where "ex = n div 2 ^ 52 mod 2 ^ 11" and "fr = n mod (2 ^ 52 :: nat)"
  have s: "(n + 2 ^ 63) div 2 ^ 63 mod 2 = 1" "n div 2 ^ 63 mod 2 = 0" "(52::nat) + 11 = 63" using assms(1) by simp_all
  show ?thesis
    using assms(2) unfolding fp_decode_def Let_def s a ex_def [symmetric] fr_def [symmetric]
    by (cases "ex = 2 ^ 11 - 1"; cases "fr = 0"; cases "ex = 0") simp_all
qed

lemma f64_neg_val:
  assumes "f64_val f = FFin False M E"
  shows "f64_val (f64_neg f) = FFin True M E"
proof -
  have u: "unat f < 2 ^ 64" using unat_bound_u64 [of f] by simp
  have "unat f div 2 ^ 63 mod 2 \<noteq> 1"
    using assms by (auto simp: f64_val_def fp_decode_def Let_def split: if_splits)
  then have n: "unat f < 2 ^ 63" using u by (cases "unat f < 2 ^ 63") (simp_all add: div_nat_eqI [of 1])
  have s: "(0x8000000000000000::u64) = 2 ^ 63" by simp
  have b: "\<not> bit f 63"
  proof -
    have "unat f div 2 ^ 63 = 0" using n by (rule div_less)
    then have "\<not> bit (unat f) 63" by (simp only: bit_iff_odd) simp
    moreover have "possible_bit TYPE(nat) 63" by simp
    ultimately show ?thesis using bit_unsigned_iff [of f 63, where ?'a = nat] by blast
  qed
  have "f AND 2 ^ 63 = 0" using b by (rule and_exp_eq_0_iff_not_bit [THEN iffD2])
  then have "f64_neg f = f + 2 ^ 63"
    unfolding f64_neg_def s by (simp only: disjunctive_add_eq_xor)
  then have "unat (f64_neg f) = unat f + 2 ^ 63"
    using n by (simp add: unat_word_ariths)
  then show ?thesis using fp_decode_sign [OF n] assms by (simp add: f64_val_def)
qed

lemma truncated_scale_error:
  fixes h Y P m :: real
  assumes "h \<le> Y" "Y \<le> h + 1" "2 ^ 63 \<le> h" "0 < P" "\<bar>m - h * P\<bar> \<le> h * P * 2 powi - 53"
  shows "\<bar>m - Y * P\<bar> \<le> Y * P * 2 powi - 52"
proof -
  have a: "h * P \<le> Y * P" "Y * P \<le> (h + 1) * P" using assms by (auto intro!: mult_right_mono)
  have "2 ^ 63 * P \<le> Y * P" using assms by (intro mult_right_mono) simp_all
  then have b: "P \<le> Y * P / 2 ^ 63" by (simp add: field_simps)
  have "h * P * 2 powi - 53 \<le> Y * P * 2 powi - 53" by (rule mult_right_mono [OF a(1)]) simp
  then have c: "\<bar>m - h * P\<bar> \<le> Y * P / 2 ^ 53" using assms(5) by (simp add: power_int_minus field_simps)
  have "\<bar>m - Y * P\<bar> \<le> \<bar>m - h * P\<bar> + (Y * P - h * P)" using a(1) by linarith
  also have "\<dots> \<le> Y * P / 2 ^ 53 + Y * P / 2 ^ 63" using a(2) b c unfolding distrib_right by linarith
  also have "\<dots> \<le> Y * P * 2 powi - 52"
  proof -
    have "0 \<le> Y * P" using b assms(4) by (smt (verit) divide_nonneg_nonneg divide_less_0_iff zero_less_power)
    then show ?thesis by (simp add: power_int_minus field_simps)
  qed
  finally show ?thesis .
qed

lemma to_f64_accurate:
  assumes "i128 x \<noteq> 0" and "i128 x < 0 \<Longrightarrow> i128 x mod 2 ^ 64 \<noteq> 2 ^ 63" and "unat q \<le> 500"
  shows "\<exists>f M E. js220_i128_to_f64 x q = Some f \<and> f64_val f = FFin (i128 x < 0) M E
     \<and> \<bar>mag M E - \<bar>i128 x\<bar> * 2 powi - int (unat q)\<bar> \<le> \<bar>i128 x\<bar> * 2 powi (- int (unat q)) * 2 powi - 52"
proof -
  define neg where "neg \<longleftrightarrow> u64_1 x AND U64_SIGN_BIT \<noteq> 0"
  define z where "z = (if neg then js220_i128_neg x else x)"
  have neg: "neg \<longleftrightarrow> i128 x < 0"
    unfolding neg_def sign_clear i128_u128 using u128_bounds [of x] by auto
  have z: "u128 z = \<bar>i128 x\<bar>"
    using neg_of_negative [of x] assms(2) i128_nonneg(2) [of x] by (simp add: z_def neg low_word(2))
  have "2 ^ 127 \<le> u128 z * 2 ^ 127" using assms(1) z by simp
  from normalize_loop_ends [OF this, of "64 - int (unat q)"]
  obtain k y where k: "k \<le> 127" "normalize_loop z (64 - int (unat q)) = Some (y, 64 - int (unat q) - int k)"
    "u128 y = \<bar>i128 x\<bar> * 2 ^ k" "2 ^ 127 \<le> u128 y" unfolding z by blast
  define e where "e = 64 - int (unat q) - int k"
  define h where "h = nat (uint (u64_1 y))"
  have ex: "sint (128 - q - 64 :: u32) = 64 - int (unat q)"
  proof -
    have "128 - q - 64 = (word_of_int (64 - int (unat q)) :: u32)"
      by (simp add: wi_hom_sub [symmetric])
    moreover have "int (unat q) \<le> 500" using assms(3) by linarith
    then have "signed_take_bit 31 (64 - int (unat q)) = 64 - int (unat q)"
      by (intro signed_take_bit_int_eq_self) (simp_all add: le_less_trans [of _ 0])
    ultimately show ?thesis by (simp only: signed_of_int) simp
  qed
  have "u64_0 z \<noteq> 0 \<or> u64_1 z \<noteq> 0" using assms(1) z by (auto simp: u128_def)
  then have f: "js220_i128_to_f64 x q
      = Some (let f = f64_mul (int_to_f64 (int h)) (pow2_f64 e) in if neg then f64_neg f else f)"
    unfolding js220_i128_to_f64_def Let_def ex neg_def [symmetric] z_def [symmetric] k(2)
    by (auto simp: e_def h_def)
  have hu: "int h = uint (u64_1 y)" using uint_u64(1) [of "u64_1 y"] by (simp only: h_def nat_0_le)
  then have hy: "int h = u128 y div 2 ^ 64" by (simp only: u128_words)
  have "2 ^ 63 \<le> uint (u64_1 y)"
    using k(4) sign_add_low [of "uint (u64_0 y)" "uint (u64_1 y)"] uint_u64 [of "u64_0 y"] by (simp add: u128_def)
  then have "int (2 ^ 63) \<le> int h" "int h < int (2 ^ 64)" using hu uint_u64 [of "u64_1 y"] by simp_all
  then have h: "2 ^ 63 \<le> h" "h < 2 ^ 64" by (simp_all only: of_nat_le_iff of_nat_less_iff)
  obtain M E where v: "f64_val (f64_mul (int_to_f64 (int h)) (pow2_f64 e)) = FFin False M E"
    and err: "\<bar>mag M E - mag h e\<bar> \<le> mag h e * 2 powi - 53"
  proof -
    have "- 900 \<le> e" "e \<le> 900" unfolding e_def using k(1) assms(3) by linarith+
    then show ?thesis using f64_scale_error [OF h, of e] that by blast
  qed
  define V where "V = real_of_int \<bar>i128 x\<bar> * 2 powi - int (unat q)"
  have V: "V = real_of_int (u128 y) / 2 ^ 64 * 2 powi e"
  proof -
    have "e = - int (unat q) + (64 - int k)" by (simp add: e_def)
    then have "(2::real) powi e = 2 powi - int (unat q) * (2 powi 64 / 2 powi int k)"
      by (simp only: power_int_add power_int_diff simp_thms zero_neq_numeral [symmetric] not_False_eq_True)
    then show ?thesis by (simp add: V_def k(3))
  qed
  have "real h = real_of_int (u128 y div 2 ^ 64)" by (metis hy of_int_of_nat_eq)
  then have "real h \<le> real_of_int (u128 y) / 2 ^ 64" "real_of_int (u128 y) / 2 ^ 64 \<le> real h + 1"
    using real_of_int_div4 [of "u128 y" "2 ^ 64"] real_of_int_div3 [of "u128 y" "2 ^ 64"] by simp_all
  moreover have "real (2 ^ 63) \<le> real h" using h(1) by (simp only: of_nat_le_iff)
  ultimately have "\<bar>mag M E - V\<bar> \<le> V * 2 powi - 52"
    unfolding V using err by (intro truncated_scale_error [where h = "real h"]) (simp_all add: mag_def)
  then show ?thesis using f v f64_neg_val [OF v] neg unfolding V_def Let_def by auto
qed

section \<open>Standard deviation\<close>

fun isqrt :: "nat \<Rightarrow> nat" where
  "isqrt n = (if n = 0 then 0 else let r = 2 * isqrt (n div 4) in if (r + 1) * (r + 1) \<le> n then r + 1 else r)"

declare isqrt.simps [simp del]

text \<open>\<^verbatim>\<open>sqrt\<close> of the C library, correctly rounded: the root carries spare bits and a sticky last bit.\<close>

fun fp_sqrt :: "fpval \<Rightarrow> fpval" where
  "fp_sqrt (FFin s m e) =
     (if m = 0 then FFin s 0 0 else if s then FNan
      else let t = (if even e then 110 else 111); M = m * 2 ^ t; r = isqrt M
           in FFin False (2 * r + (if r * r = M then 0 else 1)) ((e - int t) div 2 - 1))"
| "fp_sqrt (FInf s) = (if s then FNan else FInf False)"
| "fp_sqrt FNan = FNan"

definition f64_sqrt :: "u64 \<Rightarrow> u64" where
  "f64_sqrt a = of_nat (fp_encode 52 11 (fp_sqrt (f64_val a)))"

definition js220_i128_compute_std :: "u64 \<Rightarrow> js220_i128 \<Rightarrow> u64 \<Rightarrow> u32 \<Rightarrow> u64 c" where
  "js220_i128_compute_std x1 x2 n q =
     cbind (abs_i64 x1) (\<lambda>x1. cbind (js220_i128_square_i64 x1) (\<lambda>m. cbind (js220_i128_udiv m n) (\<lambda>(d, _).
       if u64_1 x2 < u64_1 d \<or> (u64_1 x2 = u64_1 d \<and> u64_0 x2 < u64_0 d) then Inr 0
       else
         let hi = (if u64_0 d > u64_0 x2 then u64_1 x2 - 1 else u64_1 x2);
             m = \<lparr>u64_0 = u64_0 x2 - u64_0 d, u64_1 = hi - u64_1 d\<rparr>
         in cbind (js220_i128_udiv m n) (\<lambda>(d, _).
              case js220_i128_to_f64 d (q * 2) of None \<Rightarrow> Inl OutOfFuel | Some f \<Rightarrow> Inr (f64_sqrt f)))))"

lemma isqrt_bounds: "isqrt n * isqrt n \<le> n \<and> n < (isqrt n + 1) * (isqrt n + 1)"
proof (induction n rule: isqrt.induct)
  case (1 n)
  show ?case
  proof (cases "n = 0")
    case False
    define r where "r = isqrt (n div 4)"
    have IH: "r * r \<le> n div 4" "n div 4 < (r + 1) * (r + 1)" using 1 False by (simp_all add: r_def)
    have lo: "2 * r * (2 * r) \<le> n" using IH(1) by simp
    have "n < 4 * (n div 4 + 1)" by simp
    also have "\<dots> \<le> 4 * ((r + 1) * (r + 1))" using IH(2) by (intro mult_le_mono2) simp
    finally have hi: "n < (2 * r + 2) * (2 * r + 2)" by (simp add: algebra_simps)
    have "isqrt n = (if (2 * r + 1) * (2 * r + 1) \<le> n then 2 * r + 1 else 2 * r)"
      using False by (subst isqrt.simps) (simp add: Let_def r_def)
    then show ?thesis using lo hi by (simp add: not_le)
  qed (simp add: isqrt.simps)
qed

lemma u128_less: "u128 x < u128 y \<longleftrightarrow> u64_1 x < u64_1 y \<or> (u64_1 x = u64_1 y \<and> u64_0 x < u64_0 y)"
proof -
  have "x1 * B + x0 < y1 * B + y0 \<longleftrightarrow> x1 < y1 \<or> x1 = y1 \<and> x0 < y0"
    if "0 \<le> x0" "x0 < B" "0 \<le> y0" "y0 < B" for x0 x1 y0 y1 B :: int
  proof -
    have "x1 * B + B \<le> y1 * B" if "x1 < y1"
      using that \<open>0 \<le> x0\<close> \<open>x0 < B\<close> mult_right_mono [of "x1 + 1" y1 B] by (simp add: distrib_right)
    moreover have "y1 * B + B \<le> x1 * B" if "y1 < x1"
      using that \<open>0 \<le> x0\<close> \<open>x0 < B\<close> mult_right_mono [of "y1 + 1" x1 B] by (simp add: distrib_right)
    ultimately show ?thesis using that by (cases "x1 < y1"; cases "y1 < x1") auto
  qed
  from this [of "uint (u64_0 x)" "2 ^ 64" "uint (u64_0 y)" "uint (u64_1 x)" "uint (u64_1 y)"]
  show ?thesis using uint_u64 [of "u64_0 x"] uint_u64 [of "u64_0 y"]
    by (simp add: u128_def word_less_def word_uint_eq_iff)
qed

lemma abs_i64_defined: "a \<noteq> U64_SIGN_BIT \<Longrightarrow> \<exists>u. abs_i64 a = Inr u"
  by (simp add: abs_i64_def)

lemma abs_i64_idem:
  assumes "abs_i64 a = Inr u"
  shows "abs_i64 u = Inr u" and "sint u = \<bar>sint a\<bar>" and "u \<noteq> U64_SIGN_BIT"
proof -
  have "sint a < 0 \<Longrightarrow> uint a \<noteq> 2 ^ 63"
    using assms by (auto simp: abs_i64_def word_uint_eq_iff U64_SIGN_BIT_def)
  moreover have "uint a < 2 ^ 64" using uint_u64 [of a] by simp
  ultimately have "\<bar>sint a\<bar> < 2 ^ 63"
    unfolding sint_uint_64 by (cases "2 ^ 63 \<le> uint a") auto
  then have u: "uint u < 2 ^ 63" using abs_i64_value [OF assms] by simp
  then have s: "sint u = uint u" by (simp add: sint_uint_64)
  then show "abs_i64 u = Inr u" "sint u = \<bar>sint a\<bar>" using abs_i64_value [OF assms] by (simp_all add: abs_i64_def)
  show "u \<noteq> U64_SIGN_BIT" using u by (auto simp: U64_SIGN_BIT_def)
qed

lemma compute_std_value:
  assumes n: "n \<noteq> 0" and x1: "x1 \<noteq> U64_SIGN_BIT"
  defines "a \<equiv> (sint x1 * sint x1) div uint n"
  shows "u128 x2 < a \<Longrightarrow> js220_i128_compute_std x1 x2 n q = Inr 0"
    and "a \<le> u128 x2 \<Longrightarrow> \<exists>d. u128 d = (u128 x2 - a) div uint n
      \<and> js220_i128_compute_std x1 x2 n q
          = (case js220_i128_to_f64 d (q * 2) of None \<Rightarrow> Inl OutOfFuel | Some f \<Rightarrow> Inr (f64_sqrt f))"
proof -
  obtain u where u: "abs_i64 x1 = Inr u" using abs_i64_defined [OF x1] by blast
  note ui = abs_i64_idem [OF u]
  obtain m where m: "js220_i128_square_i64 u = Inr m" using ui square_defined by blast
  have mv: "u128 m = sint x1 * sint x1" using square_value [OF m] ui by (simp add: abs_mult_self_eq)
  obtain d r where d: "js220_i128_udiv m n = Inr (d, r)" using udiv_defined [OF n] by blast
  have dv: "u128 d = a" using udiv_value(1) [OF d] mv by (simp add: a_def)
  show "js220_i128_compute_std x1 x2 n q = Inr 0" if "u128 x2 < a"
    using that u m d u128_less [of x2 d] by (simp add: js220_i128_compute_std_def dv)
  assume ge: "a \<le> u128 x2"
  define s where "s = js220_i128_sub x2 d"
  have "u128 s = u128 x2 - a"
    using js220_i128_sub_u128 [of x2 d] ge u128_bounds [of x2] u128_bounds(1) [of d] dv by (simp add: s_def)
  moreover obtain e r' where e: "js220_i128_udiv s n = Inr (e, r')" using udiv_defined [OF n] by blast
  ultimately have "u128 e = (u128 x2 - a) div uint n" using udiv_value(1) [OF e] by simp
  moreover have "s = \<lparr>u64_0 = u64_0 x2 - u64_0 d, u64_1 = (if u64_0 d > u64_0 x2 then u64_1 x2 - 1 else u64_1 x2) - u64_1 d\<rparr>"
    by (simp add: s_def js220_i128_sub_def Let_def)
  ultimately show "\<exists>d. u128 d = (u128 x2 - a) div uint n \<and> js220_i128_compute_std x1 x2 n q
          = (case js220_i128_to_f64 d (q * 2) of None \<Rightarrow> Inl OutOfFuel | Some f \<Rightarrow> Inr (f64_sqrt f))"
    using ge u m d e u128_less [of x2 d] by (intro exI [of _ e]) (auto simp: js220_i128_compute_std_def dv Let_def)
qed

text \<open>Neither the conversion nor the standard deviation can fail to end.\<close>

lemma to_f64_total: "\<exists>f. js220_i128_to_f64 x q = Some f"
proof -
  define z where "z = (if u64_1 x AND U64_SIGN_BIT \<noteq> 0 then js220_i128_neg x else x)"
  have "\<exists>y e'. normalize_loop z e = Some (y, e')" if "\<not> (u64_0 z = 0 \<and> u64_1 z = 0)" for e
  proof -
    have "u128 z \<noteq> 0" using that uint_u64 [of "u64_0 z"] uint_u64 [of "u64_1 z"] by (auto simp: u128_def add_nonneg_eq_0_iff word_uint_eq_iff)
    then have "1 \<le> u128 z" using u128_bounds [of z] by linarith
    then have "2 ^ 127 \<le> u128 z * 2 ^ 127" by simp
    then show ?thesis using normalize_loop_ends [of z 127 e] by blast
  qed
  from this [of "sint (128 - q - 64)"] show ?thesis
    unfolding js220_i128_to_f64_def Let_def z_def [symmetric] by (cases "u64_0 z = 0 \<and> u64_1 z = 0") auto
qed

lemma compute_std_total:
  assumes "n \<noteq> 0" and "x1 \<noteq> U64_SIGN_BIT"
  shows "\<exists>f. js220_i128_compute_std x1 x2 n q = Inr f"
proof (cases "u128 x2 < (sint x1 * sint x1) div uint n")
  case True
  then show ?thesis using compute_std_value(1) [OF assms] by blast
next
  case False
  then obtain d where "js220_i128_compute_std x1 x2 n q
          = (case js220_i128_to_f64 d (q * 2) of None \<Rightarrow> Inl OutOfFuel | Some f \<Rightarrow> Inr (f64_sqrt f))"
    using compute_std_value(2) [OF assms, of x2 q] by auto
  then show ?thesis using to_f64_total [of d "q * 2"] by auto
qed

section \<open>Properties\<close>



text \<open>
  C20. The restoring long division divides: for every dividend and every divisor but zero it
  returns the quotient and a remainder below the divisor.
\<close>

theorem js220_i128_udiv_correct:
  assumes "n \<noteq> 0"
  shows "\<exists>q r. js220_i128_udiv x n = Inr (q, r) \<and> u128 x = u128 q * uint n + uint r \<and> r < n"
proof -
  obtain q r where u: "js220_i128_udiv x n = Inr (q, r)" using udiv_defined [OF assms] by blast
  have "0 < uint n" using assms by (intro uint_u64_pos) (simp add: unsigned_eq_0_iff)
  then show ?thesis using u udiv_value [OF u] by (auto simp: word_less_def)
qed

theorem js220_i128_udiv_correct_witness:
  "\<exists>q r. js220_i128_udiv \<lparr>u64_0 = 5, u64_1 = 1\<rparr> 3 = Inr (q, r)
     \<and> u128 \<lparr>u64_0 = 5, u64_1 = 1\<rparr> = u128 q * uint (3::u64) + uint r \<and> r < 3"
  by (rule js220_i128_udiv_correct) simp

text \<open>
  C25. Negation: the result is the two's complement of the argument exactly when the low 64-bit
  word of the argument is not \<open>2 ^ 63\<close>; for those arguments the high word is one too large.
\<close>

theorem js220_i128_neg_exact_iff:
  assumes "i128 x \<noteq> - (2 ^ 127)"
  shows "i128 (js220_i128_neg x) = - i128 x \<longleftrightarrow> u64_0 x \<noteq> U64_SIGN_BIT"
proof (cases "u64_0 x = U64_SIGN_BIT")
  case True
  have "js220_i128_neg x \<noteq> of_i128 (- i128 x)"
  proof
    assume "js220_i128_neg x = of_i128 (- i128 x)"
    then have "(- u128 x + 2 ^ 64) mod 2 ^ 128 = (- i128 x) mod 2 ^ 128"
      using neg_u128 [of x] True u128_of_i128 [of "- i128 x"] by simp
    also have "\<dots> = (- u128 x) mod 2 ^ 128" by (metis i128_mod mod_minus_eq)
    finally have "(2 ^ 128 :: int) dvd 2 ^ 64" by (simp add: mod_eq_dvd_iff)
    then show False using zdvd_imp_le [of "2 ^ 128" "2 ^ 64"] by simp
  qed
  then have "i128 (js220_i128_neg x) \<noteq> - i128 x" using of_i128_i128 [of "js220_i128_neg x"] by metis
  then show ?thesis using True by simp
qed (use assms neg_value in auto)

theorem js220_i128_neg_exact_iff_witness:
  "i128 (of_i128 (- (2 ^ 63))) = - (2 ^ 63) \<and> i128 (js220_i128_neg (of_i128 (- (2 ^ 63)))) \<noteq> 2 ^ 63"
proof -
  have i: "i128 (of_i128 (- (2 ^ 63))) = - (2 ^ 63)" by (rule i128_of_i128) (simp add: fits_i128_def)
  have "u64_0 (of_i128 (- (2 ^ 63))) = U64_SIGN_BIT" by (simp add: of_i128_def U64_SIGN_BIT_def)
  then show ?thesis using js220_i128_neg_exact_iff [of "of_i128 (- (2 ^ 63))"] unfolding i by simp
qed

text \<open>
  C23. Conversion to \<^verbatim>\<open>double\<close>: the normalisation loop ends for every number but zero, and the result has
  the sign of the number and the magnitude \<open>\<bar>x\<bar> / 2 ^ q\<close> within one part in \<open>2 ^ 52\<close> (negative numbers
  whose low word is \<open>2 ^ 63\<close> excepted).
\<close>

theorem js220_i128_to_f64_accurate:
  assumes "i128 x \<noteq> 0" and "i128 x < 0 \<longrightarrow> i128 x mod 2 ^ 64 \<noteq> 2 ^ 63" and "unat q \<le> 500"
  shows "\<exists>f M E. js220_i128_to_f64 x q = Some f \<and> f64_val f = FFin (i128 x < 0) M E
     \<and> \<bar>mag M E - \<bar>i128 x\<bar> * 2 powi - int (unat q)\<bar> \<le> \<bar>i128 x\<bar> * 2 powi (- int (unat q)) * 2 powi - 52"
  using to_f64_accurate [of x q] assms by blast

theorem js220_i128_to_f64_accurate_witness:
  "\<exists>f M E. js220_i128_to_f64 (of_i128 (- 5)) 31 = Some f \<and> f64_val f = FFin True M E
     \<and> \<bar>mag M E - \<bar>real_of_int (i128 (of_i128 (- 5)))\<bar> * 2 powi - int (unat (31::u32))\<bar>
       \<le> \<bar>real_of_int (i128 (of_i128 (- 5)))\<bar> * 2 powi (- int (unat (31::u32))) * 2 powi - 52"
proof -
  have i: "i128 (of_i128 (- 5)) = - 5" by (rule i128_of_i128) (simp add: fits_i128_def)
  show ?thesis using js220_i128_to_f64_accurate [of "of_i128 (- 5)" 31] unfolding i by simp
qed

text \<open>
  C24. The integral: the accumulator divided by a rate other than zero, truncated toward zero,
  with the sign kept. For a negative accumulator neither its own low word nor that of the
  quotient may be \<open>2 ^ 63\<close>, where negation is wrong.
\<close>

theorem js220_i128_compute_integral_correct:
  assumes "n \<noteq> 0"
    and "i128 x < 0 \<longrightarrow> i128 x mod 2 ^ 64 \<noteq> 2 ^ 63 \<and> (\<bar>i128 x\<bar> div uint n) mod 2 ^ 64 \<noteq> 2 ^ 63"
  shows "\<exists>r. js220_i128_compute_integral x n = Inr r \<and> i128 r = sgn (i128 x) * (\<bar>i128 x\<bar> div uint n)"
  using compute_integral_value [of n x] assms by blast

theorem js220_i128_compute_integral_correct_witness:
  "\<exists>r. js220_i128_compute_integral (of_i128 (- 7)) 2 = Inr r \<and> i128 r = - 3"
proof -
  have i: "i128 (of_i128 (- 7)) = - 7" by (rule i128_of_i128) (simp add: fits_i128_def)
  show ?thesis using js220_i128_compute_integral_correct [of 2 "of_i128 (- 7)"] unfolding i by simp
qed



end
