(* ===== verification/Sbuf.thy ===== *)
theory Sbuf
  imports Ieee
begin

text \<open>
  The sample buffer that pairs current with voltage to compute power
  (\<^verbatim>\<open>src/sample_buffer_f32.c\<close>): a ring of 1024 \<^verbatim>\<open>float\<close> values in which the sample at the head has
  a known sample identifier. A \<^verbatim>\<open>float\<close> is its bit pattern. The ring is proved to hold the
  newest 1023 samples of the stream, with NaN for those that were lost.
\<close>

section \<open>State\<close>

definition SAMPLE_BUFFER_LENGTH :: u32 where "SAMPLE_BUFFER_LENGTH = 1024"
definition SAMPLE_BUFFER_MASK :: u32 where "SAMPLE_BUFFER_MASK = SAMPLE_BUFFER_LENGTH - 1"

record sbuf_f32_s =
  sf_head_sample_id :: u64
  sf_head :: u32
  sf_tail :: u32
  sf_decimate :: u8
  sf_msg_sample_id :: u32
  sf_buffer :: "u32 list"

definition f32_mul :: "u32 \<Rightarrow> u32 \<Rightarrow> u32" where
  "f32_mul a b = of_nat (fp_encode 23 8 (fp_mul (f32_val a) (f32_val b)))"

section \<open>Operations\<close>

definition sbuf_f32_clear :: "sbuf_f32_s \<Rightarrow> sbuf_f32_s" where
  "sbuf_f32_clear s =
     s\<lparr>sf_head_sample_id := 0, sf_head := 0, sf_tail := 0, sf_decimate := 2, sf_msg_sample_id := 0\<rparr>"

definition sbuf_f32_length :: "sbuf_f32_s \<Rightarrow> u32" where
  "sbuf_f32_length s = (sf_head s - sf_tail s) AND SAMPLE_BUFFER_MASK"

definition sbuf_head_sample_id :: "sbuf_f32_s \<Rightarrow> u64" where
  "sbuf_head_sample_id s = sf_head_sample_id s"

definition sbuf_tail_sample_id :: "sbuf_f32_s \<Rightarrow> u64" where
  "sbuf_tail_sample_id s = sf_head_sample_id s - ucast (sbuf_f32_length s * ucast (sf_decimate s))"

text \<open>The body shared by the two loops of \<^verbatim>\<open>sbuf_f32_add\<close>: store a value, drop the oldest when full.\<close>

definition sbuf_put :: "u32 \<Rightarrow> sbuf_f32_s \<Rightarrow> sbuf_f32_s c" where
  "sbuf_put x s =
     cbind (buf_set (sf_buffer s) (unat (sf_head s)) x) (\<lambda>b.
       let h = (sf_head s + 1) AND SAMPLE_BUFFER_MASK
       in Inr (s\<lparr>sf_buffer := b, sf_head := h,
                 sf_tail := (if sf_tail s = h then (sf_tail s + 1) AND SAMPLE_BUFFER_MASK else sf_tail s)\<rparr>))"

partial_function (option) sbuf_fill :: "u64 \<Rightarrow> sbuf_f32_s \<Rightarrow> sbuf_f32_s c option" where
  "sbuf_fill sample_id s =
     (if sf_head_sample_id s < sample_id then
        (case sbuf_put F32_NAN s of
           Inl e \<Rightarrow> Some (Inl e)
         | Inr s' \<Rightarrow> sbuf_fill sample_id
                      (s'\<lparr>sf_head_sample_id := sf_head_sample_id s' + ucast (sf_decimate s')\<rparr>))
      else Some (Inr s))"

fun sbuf_copy :: "u32 list \<Rightarrow> nat \<Rightarrow> sbuf_f32_s \<Rightarrow> sbuf_f32_s c" where
  "sbuf_copy data 0 s = Inr s"
| "sbuf_copy [] (Suc n) s = Inl OutOfBounds"
| "sbuf_copy (x # data) (Suc n) s = cbind (sbuf_put x s) (sbuf_copy data n)"

definition sbuf_append :: "u32 list \<Rightarrow> u32 \<Rightarrow> sbuf_f32_s \<Rightarrow> sbuf_f32_s c" where
  "sbuf_append data n s =
     sbuf_copy data (unat n) (s\<lparr>sf_head_sample_id := sf_head_sample_id s + ucast (n * ucast (sf_decimate s))\<rparr>)"

definition sbuf_add_new :: "sbuf_f32_s \<Rightarrow> u64 \<Rightarrow> u32 list \<Rightarrow> u32 \<Rightarrow> sbuf_f32_s c option" where
  "sbuf_add_new s sample_id data n =
     (let dec = ucast (sf_decimate s) in
      if n \<ge> SAMPLE_BUFFER_LENGTH then
        let skip = n - (SAMPLE_BUFFER_LENGTH - 1);
            n = SAMPLE_BUFFER_LENGTH - 1
        in Some (sbuf_append (drop (unat skip) data) n
                   (s\<lparr>sf_head_sample_id := sample_id - ucast (n * ucast (sf_decimate s))\<rparr>))
      else if sf_head_sample_id s < sample_id then
        if sf_decimate s = 0 then Some (Inl Undefined)
        else
          let skips = (sample_id - sf_head_sample_id s) div dec;
              s = (if skips \<ge> ucast (SAMPLE_BUFFER_LENGTH - 1)
                   then s\<lparr>sf_head_sample_id := sample_id - ucast (SAMPLE_BUFFER_LENGTH - 1) * dec, sf_tail := sf_head s\<rparr>
                   else s)
          in (case sbuf_fill sample_id s of
                None \<Rightarrow> None
              | Some (Inl e) \<Rightarrow> Some (Inl e)
              | Some (Inr s) \<Rightarrow> Some (sbuf_append data n s))
      else Some (sbuf_append data n s))"

text \<open>\<open>None\<close> is a fill loop that does not end.\<close>

definition sbuf_f32_add :: "sbuf_f32_s \<Rightarrow> u64 \<Rightarrow> u32 list \<Rightarrow> u32 \<Rightarrow> sbuf_f32_s c option" where
  "sbuf_f32_add s sample_id data n =
     (if sf_head_sample_id s > sample_id then
        if sf_decimate s = 0 then Some (Inl Undefined)
        else
          let dup = (sf_head_sample_id s - sample_id) div ucast (sf_decimate s)
          in if dup \<ge> ucast n then Some (Inr s)
             else sbuf_add_new s (sample_id + dup * ucast (sf_decimate s)) (drop (unat dup) data) (n - ucast dup)
      else sbuf_add_new s sample_id data n)"

definition sbuf_f32_advance :: "sbuf_f32_s \<Rightarrow> u64 \<Rightarrow> sbuf_f32_s c" where
  "sbuf_f32_advance s sample_id =
     (let self_sample_id = sbuf_tail_sample_id s in
      if self_sample_id < sample_id then
        if sf_decimate s = 0 then Inl Undefined
        else
          let delta_count = (sample_id - self_sample_id) div ucast (sf_decimate s)
          in if delta_count \<ge> ucast (sbuf_f32_length s)
             then Inr (s\<lparr>sf_tail := sf_head s, sf_head_sample_id := sample_id\<rparr>)
             else Inr (s\<lparr>sf_tail := ucast ((ucast (sf_tail s) + delta_count) AND ucast SAMPLE_BUFFER_MASK)\<rparr>)
      else Inr s)"

text \<open>The product loop on (r, s1, s2).\<close>

partial_function (option) sbuf_mult_loop ::
    "sbuf_f32_s \<Rightarrow> sbuf_f32_s \<Rightarrow> sbuf_f32_s \<Rightarrow> (sbuf_f32_s \<times> sbuf_f32_s \<times> sbuf_f32_s) c option" where
  "sbuf_mult_loop r s1 s2 =
     (if sf_tail s1 \<noteq> sf_head s1 \<and> sf_tail s2 \<noteq> sf_head s2 then
        (case cbind (buf_get (sf_buffer s1) (unat (sf_tail s1))) (\<lambda>x.
              cbind (buf_get (sf_buffer s2) (unat (sf_tail s2))) (\<lambda>y.
                buf_set (sf_buffer r) (unat (sf_head r)) (f32_mul x y))) of
           Inl e \<Rightarrow> Some (Inl e)
         | Inr b \<Rightarrow> sbuf_mult_loop
                     (r\<lparr>sf_buffer := b, sf_head := sf_head r + 1,
                        sf_head_sample_id := sf_head_sample_id r + ucast (sf_decimate r)\<rparr>)
                     (s1\<lparr>sf_tail := (sf_tail s1 + 1) AND SAMPLE_BUFFER_MASK\<rparr>)
                     (s2\<lparr>sf_tail := (sf_tail s2 + 1) AND SAMPLE_BUFFER_MASK\<rparr>))
      else Some (Inr (r, s1, s2)))"

definition sbuf_f32_mult ::
    "sbuf_f32_s \<Rightarrow> sbuf_f32_s \<Rightarrow> sbuf_f32_s \<Rightarrow> (sbuf_f32_s \<times> sbuf_f32_s \<times> sbuf_f32_s) c option" where
  "sbuf_f32_mult r s1 s2 =
     (let r0 = sf_head_sample_id r;
          r = (sbuf_f32_clear r)\<lparr>sf_decimate := sf_decimate s1\<rparr>;
          r1 = (if r0 < sbuf_tail_sample_id s1 then sbuf_tail_sample_id s1 else r0);
          r2 = (if r1 < sbuf_tail_sample_id s2 then sbuf_tail_sample_id s2 else r1)
      in case cbind (sbuf_f32_advance s1 r2) (\<lambda>s1. cbind (sbuf_f32_advance s2 r2) (\<lambda>s2. Inr (s1, s2))) of
           Inl e \<Rightarrow> Some (Inl e)
         | Inr (s1, s2) \<Rightarrow>
             sbuf_mult_loop (r\<lparr>sf_msg_sample_id := ucast (r2 AND 0xFFFFFFFF), sf_head_sample_id := r2\<rparr>) s1 s2)"

section \<open>Rings\<close>

definition ring :: "'a list \<Rightarrow> nat \<Rightarrow> nat \<Rightarrow> 'a list" where
  "ring b t n = map (\<lambda>i. b ! ((t + i) mod length b)) [0..<n]"

lemma length_ring [simp]: "length (ring b t n) = n"
  by (simp add: ring_def)

lemma ring_0 [simp]: "ring b t 0 = []"
  by (simp add: ring_def)

lemma ring_eqI:
  "(\<And>i. i < n \<Longrightarrow> b ! ((t + i) mod length b) = xs ! i) \<Longrightarrow> length xs = n \<Longrightarrow> ring b t n = xs"
  by (simp add: ring_def list_eq_iff_nth_eq)

lemma ring_snoc:
  assumes "n < length b"
  shows "ring (b[(t + n) mod length b := x]) t (Suc n) = ring b t n @ [x]"
proof (rule ring_eqI)
  fix i assume i: "i < Suc n"
  have "(t + i) mod length b \<noteq> (t + n) mod length b" if "i < n"
  proof
    assume "(t + i) mod length b = (t + n) mod length b"
    then have "length b dvd (t + n) - (t + i)"
      using mod_eq_dvd_iff_nat [of "t + i" "t + n" "length b"] that by simp
    then show False using that assms by (auto dest: dvd_imp_le)
  qed
  moreover have "(t + n) mod length b < length b" using assms by (intro mod_less_divisor) linarith
  ultimately show "b[(t + n) mod length b := x] ! ((t + i) mod length (b[(t + n) mod length b := x])) = (ring b t n @ [x]) ! i"
    using i by (auto simp: less_Suc_eq nth_append ring_def)
qed simp

lemma ring_drop: "k \<le> n \<Longrightarrow> ring b ((t + k) mod length b) (n - k) = drop k (ring b t n)"
  by (rule ring_eqI) (auto simp: ring_def mod_simps add.assoc less_diff_conv)

section \<open>What the buffer holds\<close>

definition sbuf_wf :: "sbuf_f32_s \<Rightarrow> bool" where
  "sbuf_wf s \<longleftrightarrow> length (sf_buffer s) = 1024 \<and> unat (sf_head s) < 1024 \<and> unat (sf_tail s) < 1024
     \<and> sf_decimate s \<noteq> 0"

abbreviation sbuf_len :: "sbuf_f32_s \<Rightarrow> nat" where
  "sbuf_len s \<equiv> unat (sbuf_f32_length s)"

text \<open>The samples from the oldest to the newest.\<close>

definition samples :: "sbuf_f32_s \<Rightarrow> u32 list" where
  "samples s = ring (sf_buffer s) (unat (sf_tail s)) (sbuf_len s)"

text \<open>The newest samples of a stream, as many as the ring can hold.\<close>

definition newest :: "'a list \<Rightarrow> 'a list" where
  "newest xs = drop (length xs - 1023) xs"

lemma unat_and_smask: "unat (w AND SAMPLE_BUFFER_MASK) = unat w mod 1024"
proof -
  have "SAMPLE_BUFFER_MASK = mask 10"
    by (simp add: SAMPLE_BUFFER_MASK_def SAMPLE_BUFFER_LENGTH_def mask_eq_exp_minus_1)
  then show ?thesis using unat_and_mask [of w 10] by simp
qed

lemma sbuf_len_eq:
  assumes "sbuf_wf s"
  shows "sbuf_len s = (unat (sf_head s) + (1024 - unat (sf_tail s))) mod 1024"
proof -
  have "unat (sf_head s - sf_tail s) mod 1024 = (unat (sf_head s) + (1024 - unat (sf_tail s))) mod 1024"
  proof (cases "unat (sf_tail s) \<le> unat (sf_head s)")
    case True
    then have "unat (sf_head s - sf_tail s) = unat (sf_head s) - unat (sf_tail s)" by (simp add: unat_sub word_le_nat_alt)
    then show ?thesis using True assms by (simp add: sbuf_wf_def mod_if)
  next
    case False
    then have "unat (sf_head s - sf_tail s) = unat (sf_head s) + 2 ^ 32 - unat (sf_tail s)"
      by (simp add: unat_sub_if')
    moreover have "\<dots> = (unat (sf_head s) + (1024 - unat (sf_tail s))) + 4194303 * 1024"
      using assms by (simp add: sbuf_wf_def)
    ultimately show ?thesis by (simp only: mod_mult_self1)
  qed
  then show ?thesis by (simp add: sbuf_f32_length_def unat_and_smask)
qed

lemma sbuf_len_less: "sbuf_len s < 1024"
  by (simp add: sbuf_f32_length_def unat_and_smask)

lemma length_samples [simp]: "length (samples s) = sbuf_len s"
  by (simp add: samples_def)

lemma sbuf_head_eq:
  assumes "sbuf_wf s"
  shows "unat (sf_head s) = (unat (sf_tail s) + sbuf_len s) mod 1024"
  using assms unfolding sbuf_len_eq [OF assms] by (simp add: sbuf_wf_def mod_simps)

lemma sbuf_put_samples:
  assumes "sbuf_wf s"
  shows "\<exists>s'. sbuf_put x s = Inr s' \<and> sbuf_wf s' \<and> samples s' = newest (samples s @ [x])
    \<and> sf_head_sample_id s' = sf_head_sample_id s \<and> sf_decimate s' = sf_decimate s"
proof -
  let ?h = "unat (sf_head s)" and ?t = "unat (sf_tail s)" and ?n = "sbuf_len s"
  let ?b = "(sf_buffer s)[?h := x]"
  define s' where "s' = s\<lparr>sf_buffer := ?b, sf_head := (sf_head s + 1) AND SAMPLE_BUFFER_MASK,
     sf_tail := (if sf_tail s = (sf_head s + 1) AND SAMPLE_BUFFER_MASK then (sf_tail s + 1) AND SAMPLE_BUFFER_MASK else sf_tail s)\<rparr>"
  have L: "length (sf_buffer s) = 1024" "?h < 1024" "?t < 1024" using assms by (auto simp: sbuf_wf_def)
  have put: "sbuf_put x s = Inr s'" using L by (simp add: sbuf_put_def s'_def Let_def)
  have inc: "unat ((w + 1) AND SAMPLE_BUFFER_MASK) = (unat w + 1) mod 1024" if "unat w < 1024" for w :: u32
    using that by (simp add: unat_and_smask unat_word_ariths)
  have wf: "sbuf_wf s'" using assms L by (simp add: sbuf_wf_def s'_def unat_and_smask)
  have n: "?n < 1024" by (rule sbuf_len_less)
  have r: "ring ?b ?t (Suc ?n) = samples s @ [x]"
    using ring_snoc [of ?n "sf_buffer s" ?t x] n L sbuf_head_eq [OF assms] by (simp add: samples_def)
  have full: "sf_tail s = (sf_head s + 1) AND SAMPLE_BUFFER_MASK \<longleftrightarrow> ?n = 1023"
    unfolding word_unat_eq_iff inc [OF L(2)] sbuf_len_eq [OF assms] using L by (auto simp: mod_if split: if_splits)
  show ?thesis
  proof (cases "?n = 1023")
    case True
    have t': "unat (sf_tail s') = (?t + 1) mod 1024" using True full inc [OF L(3)] by (simp add: s'_def)
    have "unat (sf_head s') = (?t + 1 + 1023) mod 1024"
      using inc [OF L(2)] sbuf_head_eq [OF assms] True by (simp add: s'_def mod_simps)
    then have n': "sbuf_len s' = 1023" unfolding sbuf_len_eq [OF wf] t' using L(3) by (auto simp: mod_if split: if_splits)
    have "samples s' = ring ?b ((?t + 1) mod length ?b) (Suc ?n - 1)"
      using t' n' True L by (simp add: samples_def s'_def)
    also have "\<dots> = drop 1 (samples s @ [x])" using ring_drop [of 1 "Suc ?n" ?b ?t] r by simp
    finally have "samples s' = newest (samples s @ [x])" using True by (simp add: newest_def)
    then show ?thesis using put wf by (simp add: s'_def)
  next
    case False
    then have f: "sf_tail s \<noteq> (sf_head s + 1) AND SAMPLE_BUFFER_MASK" using full by simp
    have t': "sf_tail s' = sf_tail s" using f by (simp add: s'_def)
    have "unat (sf_head s') = (?t + Suc ?n) mod 1024"
      using inc [OF L(2)] sbuf_head_eq [OF assms] by (simp add: s'_def mod_simps)
    then have n': "sbuf_len s' = Suc ?n"
      unfolding sbuf_len_eq [OF wf] t' using L(3) n False by (auto simp: mod_if split: if_splits)
    have "samples s' = ring ?b ?t (Suc ?n)" unfolding samples_def n' t' by (simp add: s'_def)
    then have "samples s' = newest (samples s @ [x])" using n False r by (simp add: newest_def)
    then show ?thesis using put wf by (simp add: s'_def)
  qed
qed

lemma newest_append: "newest (newest xs @ ys) = newest (xs @ ys)"
proof (cases "length xs \<le> 1023")
  case False
  define k where "k = length xs - 1023"
  have k: "newest xs = drop k xs" "length xs = k + 1023" "drop k xs @ ys = drop k (xs @ ys)"
    using False by (simp_all add: newest_def k_def)
  then show ?thesis by (simp only: k(1,3)) (simp add: newest_def k(2) add.commute)
qed (simp add: newest_def)

lemma newest_short: "length xs \<le> 1023 \<Longrightarrow> newest xs = xs"
  by (simp add: newest_def)

lemma newest_samples [simp]: "newest (samples s) = samples s"
  using sbuf_len_less [of s] by (simp add: newest_def)

lemma newest_suffix: "1023 \<le> length ys \<Longrightarrow> newest (xs @ ys) = newest ys"
  by (simp add: newest_def)

lemma sbuf_copy_samples:
  "sbuf_wf s \<Longrightarrow> n \<le> length data \<Longrightarrow>
   \<exists>s'. sbuf_copy data n s = Inr s' \<and> sbuf_wf s' \<and> samples s' = newest (samples s @ take n data)
     \<and> sf_head_sample_id s' = sf_head_sample_id s \<and> sf_decimate s' = sf_decimate s"
proof (induction data n s rule: sbuf_copy.induct)
  case (3 x data n s)
  obtain s1 where s1: "sbuf_put x s = Inr s1" "sbuf_wf s1" "samples s1 = newest (samples s @ [x])"
    "sf_head_sample_id s1 = sf_head_sample_id s" "sf_decimate s1 = sf_decimate s"
    using sbuf_put_samples [OF 3(2)] by blast
  then show ?case using 3(1) [OF s1(2)] 3(3) newest_append [of "samples s @ [x]"] by fastforce
qed simp_all

lemma unat_ucast_wider [simp]:
  "unat (ucast (w :: u8) :: u64) = unat w" "unat (ucast (w :: u8) :: u32) = unat w"
  "unat (ucast (v :: u32) :: u64) = unat v"
  using unat_bound_u8 [of w] unat_bound_u32 [of v]
  by (simp_all only: unsigned_ucast_eq) (simp_all add: take_bit_nat_eq_self)

lemma samples_head_id [simp]:
  "samples (s\<lparr>sf_head_sample_id := h\<rparr>) = samples s" "sbuf_wf (s\<lparr>sf_head_sample_id := h\<rparr>) = sbuf_wf s"
  by (simp_all add: samples_def sbuf_wf_def sbuf_f32_length_def)

lemma sbuf_fill_samples:
  "sbuf_wf s \<Longrightarrow> unat sid = unat (sf_head_sample_id s) + g * unat (sf_decimate s) \<Longrightarrow>
   \<exists>s'. sbuf_fill sid s = Some (Inr s') \<and> sbuf_wf s' \<and> samples s' = newest (samples s @ replicate g F32_NAN)
     \<and> sf_head_sample_id s' = sid \<and> sf_decimate s' = sf_decimate s"
proof (induction g arbitrary: s)
  case 0
  then have "sid = sf_head_sample_id s" by (simp add: word_unat_eq_iff)
  then show ?case using 0 by (intro exI [of _ s]) (simp add: sbuf_fill.simps)
next
  case (Suc g)
  let ?D = "unat (sf_decimate s)"
  obtain s1 where s1: "sbuf_put F32_NAN s = Inr s1" "sbuf_wf s1" "samples s1 = newest (samples s @ [F32_NAN])"
    "sf_head_sample_id s1 = sf_head_sample_id s" "sf_decimate s1 = sf_decimate s"
    using sbuf_put_samples [OF Suc.prems(1)] by blast
  let ?s2 = "s1\<lparr>sf_head_sample_id := sf_head_sample_id s1 + ucast (sf_decimate s1)\<rparr>"
  have D: "0 < ?D" using Suc.prems(1) by (simp add: sbuf_wf_def unat_gt_0)
  then have lt: "sf_head_sample_id s < sid" using Suc.prems(2) by (simp add: word_less_nat_alt)
  have "unat (sf_head_sample_id s) + ?D < 2 ^ 64"
    using Suc.prems(2) unat_bound_u64 [of sid] by simp
  then have "unat (sf_head_sample_id ?s2) = unat (sf_head_sample_id s) + ?D"
    using s1(4,5) by (simp add: unat_add_no_wrap)
  then have "unat sid = unat (sf_head_sample_id ?s2) + g * unat (sf_decimate ?s2)"
    using Suc.prems(2) s1(5) by simp
  from Suc.IH [OF _ this] obtain s' where s': "sbuf_fill sid ?s2 = Some (Inr s')" "sbuf_wf s'"
    "samples s' = newest (samples s1 @ replicate g F32_NAN)" "sf_head_sample_id s' = sid" "sf_decimate s' = sf_decimate s1"
    using s1(2) by auto
  have "samples s' = newest (samples s @ replicate (Suc g) F32_NAN)"
    using s'(3) s1(3) newest_append [of "samples s @ [F32_NAN]" "replicate g F32_NAN"] by simp
  then show ?case using s' s1 lt by (simp add: sbuf_fill.simps [of sid s])
qed

lemma sbuf_append_samples:
  assumes "sbuf_wf s" and "unat n = length data" and "length data < 1024"
    and "unat (sf_head_sample_id s) + length data * unat (sf_decimate s) < 2 ^ 64"
  shows "\<exists>s'. sbuf_append data n s = Inr s' \<and> sbuf_wf s' \<and> samples s' = newest (samples s @ data)
    \<and> unat (sf_head_sample_id s') = unat (sf_head_sample_id s) + length data * unat (sf_decimate s)
    \<and> sf_decimate s' = sf_decimate s"
proof -
  have "length data * unat (sf_decimate s) \<le> 1024 * 256"
    using assms(3) unat_bound_u8 [of "sf_decimate s"] by (intro mult_mono) simp_all
  then have m: "unat (n * ucast (sf_decimate s)) = length data * unat (sf_decimate s)"
    using assms(2) by (simp add: unat_mult_no_wrap)
  then have "unat (sf_head_sample_id s + ucast (n * ucast (sf_decimate s)))
      = unat (sf_head_sample_id s) + length data * unat (sf_decimate s)"
    using assms(4) by (simp add: unat_add_no_wrap)
  then show ?thesis
    using sbuf_copy_samples [of "s\<lparr>sf_head_sample_id := sf_head_sample_id s + ucast (n * ucast (sf_decimate s))\<rparr>"
        "unat n" data] assms(1,2)
    by (auto simp: sbuf_append_def)
qed

text \<open>The number of samples between two identifiers, none when the first is not below the second.\<close>

definition steps_between :: "u64 \<Rightarrow> u64 \<Rightarrow> u8 \<Rightarrow> nat" where
  "steps_between a b dec = (unat b - unat a) div unat dec"

definition aligned :: "u64 \<Rightarrow> u64 \<Rightarrow> u8 \<Rightarrow> bool" where
  "aligned a b dec \<longleftrightarrow> unat dec dvd (unat b - unat a) \<and> unat dec dvd (unat a - unat b)"

lemma samples_empty: "sf_tail s = sf_head s \<Longrightarrow> samples s = []"
  by (simp add: samples_def sbuf_f32_length_def)

lemma sbuf_add_new_samples:
  assumes wf: "sbuf_wf s" and n: "unat n = length data" and len: "length data < 1024"
    and le: "unat (sf_head_sample_id s) \<le> unat sid"
    and al: "unat (sf_decimate s) dvd unat sid - unat (sf_head_sample_id s)"
    and top: "unat sid + length data * unat (sf_decimate s) < 2 ^ 64"
  defines "g \<equiv> steps_between (sf_head_sample_id s) sid (sf_decimate s)"
  shows "\<exists>s'. sbuf_add_new s sid data n = Some (Inr s') \<and> sbuf_wf s'
    \<and> samples s' = newest (samples s @ replicate g F32_NAN @ data)
    \<and> unat (sf_head_sample_id s') = unat sid + length data * unat (sf_decimate s)
    \<and> sf_decimate s' = sf_decimate s"
proof -
  let ?D = "unat (sf_decimate s)"
  have D: "0 < ?D" "sf_decimate s \<noteq> 0" using wf by (auto simp: sbuf_wf_def unat_gt_0)
  have nl: "\<not> SAMPLE_BUFFER_LENGTH \<le> n" using n len by (simp add: SAMPLE_BUFFER_LENGTH_def word_le_nat_alt)
  have g: "unat sid = unat (sf_head_sample_id s) + g * ?D" using le al by (simp add: g_def steps_between_def)
  show ?thesis
  proof (cases "sf_head_sample_id s < sid")
    case False
    then have "g = 0" "sf_head_sample_id s = sid"
      using le by (auto simp: g_def steps_between_def word_less_nat_alt word_unat_eq_iff)
    then show ?thesis
      using sbuf_append_samples [OF wf n len] top False nl by (auto simp: sbuf_add_new_def)
  next
    case True
    define skips where "skips = (sid - sf_head_sample_id s) div ucast (sf_decimate s)"
    have sk: "unat skips = g"
      unfolding skips_def using le by (simp add: unat_div_distrib unat_sub word_le_nat_alt g_def steps_between_def)
    define s1 where "s1 = (if skips \<ge> ucast (SAMPLE_BUFFER_LENGTH - 1)
        then s\<lparr>sf_head_sample_id := sid - ucast (SAMPLE_BUFFER_LENGTH - 1) * ucast (sf_decimate s), sf_tail := sf_head s\<rparr>
        else s)"
    have ge: "skips \<ge> ucast (SAMPLE_BUFFER_LENGTH - 1) \<longleftrightarrow> 1023 \<le> g"
      by (simp add: word_le_nat_alt sk SAMPLE_BUFFER_LENGTH_def)
    define g1 where "g1 = min g 1023"
    have s1: "sbuf_wf s1" "unat sid = unat (sf_head_sample_id s1) + g1 * unat (sf_decimate s1)"
      "newest (samples s1 @ replicate g1 F32_NAN) = newest (samples s @ replicate g F32_NAN)"
      "sf_decimate s1 = sf_decimate s"
    proof -
      show "sf_decimate s1 = sf_decimate s" by (simp add: s1_def)
      show "sbuf_wf s1" using wf by (auto simp: s1_def sbuf_wf_def)
      have "unat (1023 * ucast (sf_decimate s) :: u64) = 1023 * ?D"
        using unat_bound_u8 [of "sf_decimate s"] by (simp add: unat_mult_no_wrap)
      moreover have "1023 * ?D \<le> unat sid" if "1023 \<le> g"
        using g that mult_right_mono [of 1023 g ?D] by linarith
      ultimately have "unat (sf_head_sample_id s1) = unat sid - 1023 * ?D" if "1023 \<le> g"
        using that ge by (simp add: s1_def SAMPLE_BUFFER_LENGTH_def unat_sub word_le_nat_alt)
      then show "unat sid = unat (sf_head_sample_id s1) + g1 * unat (sf_decimate s1)"
        using g ge \<open>1023 \<le> g \<Longrightarrow> 1023 * ?D \<le> unat sid\<close> by (cases "1023 \<le> g") (simp_all add: g1_def s1_def)
      show "newest (samples s1 @ replicate g1 F32_NAN) = newest (samples s @ replicate g F32_NAN)"
      proof (cases "1023 \<le> g")
        case True
        then have "samples s1 = []" using ge by (intro samples_empty) (simp add: s1_def)
        then show ?thesis using True newest_suffix [of "replicate g F32_NAN" "samples s"] by (simp add: g1_def newest_def)
      next
        case False
        then show ?thesis using ge by (simp add: g1_def s1_def)
      qed
    qed
    obtain s2 where s2: "sbuf_fill sid s1 = Some (Inr s2)" "sbuf_wf s2"
      "samples s2 = newest (samples s @ replicate g F32_NAN)" "sf_head_sample_id s2 = sid" "sf_decimate s2 = sf_decimate s"
      using sbuf_fill_samples [OF s1(1,2)] s1(3,4) by auto
    have "sbuf_add_new s sid data n = Some (sbuf_append data n s2)"
      using nl True D(2) s2(1) unfolding sbuf_add_new_def Let_def skips_def [symmetric] s1_def [symmetric] by simp
    then show ?thesis
      using sbuf_append_samples [OF s2(2) n len] top s2(3-5) newest_append [of "samples s @ replicate g F32_NAN" data]
      by auto
  qed
qed

lemma sbuf_add_samples:
  assumes wf: "sbuf_wf s" and n: "unat n = length data"
    and al: "aligned (sf_head_sample_id s) sid (sf_decimate s)"
    and top: "unat sid + length data * unat (sf_decimate s) < 2 ^ 64"
  defines "dup \<equiv> steps_between sid (sf_head_sample_id s) (sf_decimate s)"
    and "gap \<equiv> steps_between (sf_head_sample_id s) sid (sf_decimate s)"
  assumes len: "length data - dup < 1024"
  shows "\<exists>s'. sbuf_f32_add s sid data n = Some (Inr s') \<and> sbuf_wf s' \<and> sf_decimate s' = sf_decimate s
    \<and> samples s' = newest (samples s @ replicate gap F32_NAN @ drop dup data)
    \<and> unat (sf_head_sample_id s') = max (unat (sf_head_sample_id s)) (unat sid + length data * unat (sf_decimate s))"
proof (cases "sf_head_sample_id s > sid")
  case False
  then have le: "unat (sf_head_sample_id s) \<le> unat sid" by (simp add: word_less_nat_alt)
  then have "dup = 0" by (simp add: dup_def steps_between_def)
  then show ?thesis
    using sbuf_add_new_samples [OF wf n _ le _ top] al len False le
    by (auto simp: sbuf_f32_add_def gap_def aligned_def)
next
  case True
  let ?H = "unat (sf_head_sample_id s)" and ?D = "unat (sf_decimate s)"
  have D: "0 < ?D" "sf_decimate s \<noteq> 0" using wf by (auto simp: sbuf_wf_def unat_gt_0)
  have lt: "unat sid < ?H" using True by (simp add: word_less_nat_alt)
  have H: "?H = unat sid + dup * ?D" using al lt by (simp add: aligned_def dup_def steps_between_def)
  have gap: "gap = 0" using lt by (simp add: gap_def steps_between_def)
  define w where "w = (sf_head_sample_id s - sid) div ucast (sf_decimate s)"
  have w: "unat w = dup"
    unfolding w_def using lt by (simp add: unat_div_distrib unat_sub word_le_nat_alt dup_def steps_between_def)
  show ?thesis
  proof (cases "length data \<le> dup")
    case le: True
    then have "w \<ge> ucast n" by (simp add: word_le_nat_alt w n)
    moreover have "length data * ?D \<le> dup * ?D" using le by (intro mult_right_mono) simp_all
    ultimately show ?thesis using True D(2) wf H gap le by (simp add: sbuf_f32_add_def Let_def w_def [symmetric])
  next
    case gt: False
    have nw: "\<not> ucast n \<le> w" using gt by (simp add: word_le_nat_alt w n)
    have "dup * ?D < 2 ^ 64" using H unat_bound_u64 [of "sf_head_sample_id s"] by simp
    then have m: "unat (w * ucast (sf_decimate s)) = dup * ?D" by (simp add: unat_mult_no_wrap w)
    have sid: "sid + w * ucast (sf_decimate s) = sf_head_sample_id s"
      using H unat_bound_u64 [of "sf_head_sample_id s"] by (simp add: word_unat_eq_iff unat_add_no_wrap m)
    have uw: "unat (ucast w :: u32) = dup"
    proof -
      have "dup < 2 ^ 32" using gt n unat_bound_u32 [of n] by simp
      then show ?thesis by (simp only: unsigned_ucast_eq w) (simp add: take_bit_nat_eq_self)
    qed
    then have n': "unat (n - ucast w) = length (drop dup data)" using gt n by (simp add: unat_sub word_le_nat_alt)
    have "(length data - dup) * ?D = length data * ?D - dup * ?D" by (rule diff_mult_distrib)
    moreover have "dup * ?D \<le> length data * ?D" using gt by (intro mult_right_mono) simp_all
    ultimately have e: "?H + (length data - dup) * ?D = unat sid + length data * ?D" using H by simp
    obtain s' where "sbuf_add_new s (sf_head_sample_id s) (drop dup data) (n - ucast w) = Some (Inr s')" "sbuf_wf s'"
      "samples s' = newest (samples s @ drop dup data)"
      "unat (sf_head_sample_id s') = unat sid + length data * ?D" "sf_decimate s' = sf_decimate s"
      using sbuf_add_new_samples [OF wf n', of "sf_head_sample_id s"] len e top by (auto simp: steps_between_def)
    moreover from this have "?H \<le> unat sid + length data * ?D" using e by simp
    ultimately show ?thesis
      using True D(2) nw gap by (simp add: sbuf_f32_add_def Let_def w_def [symmetric] sid w max_def)
  qed
qed

text \<open>Data longer than the ring: the samples are right, the identifier is that of the first new sample.\<close>

lemma sbuf_add_new_long:
  assumes wf: "sbuf_wf s" and n: "unat n = length data" and len: "1024 \<le> length data"
  shows "\<exists>s'. sbuf_add_new s sid data n = Some (Inr s') \<and> sbuf_wf s'
    \<and> samples s' = newest data \<and> sf_head_sample_id s' = sid"
proof -
  have le: "SAMPLE_BUFFER_LENGTH \<le> n" using n len by (simp add: SAMPLE_BUFFER_LENGTH_def word_le_nat_alt)
  let ?k = "SAMPLE_BUFFER_LENGTH - 1" and ?data = "drop (unat (n - (SAMPLE_BUFFER_LENGTH - 1))) data"
  let ?s = "s\<lparr>sf_head_sample_id := sid - ucast (?k * ucast (sf_decimate s))\<rparr>"
  have k: "unat ?k = 1023" by (simp add: SAMPLE_BUFFER_LENGTH_def)
  have "unat (n - ?k) = length data - 1023"
    using n len by (simp add: unat_sub word_le_nat_alt SAMPLE_BUFFER_LENGTH_def)
  then have d: "?data = newest data" "length (newest data) = 1023" using len by (simp_all add: newest_def)
  obtain s' where s': "sbuf_copy ?data (unat ?k) (?s\<lparr>sf_head_sample_id := sid\<rparr>) = Inr s'" "sbuf_wf s'"
    "samples s' = newest (samples s @ take (unat ?k) ?data)" "sf_head_sample_id s' = sid"
    using sbuf_copy_samples [of "?s\<lparr>sf_head_sample_id := sid\<rparr>" "unat ?k" ?data] wf d k by auto
  have "samples s' = newest data"
    using s'(3) d k newest_suffix [of "newest data" "samples s"] by (simp add: newest_short)
  then show ?thesis using s' le by (simp add: sbuf_add_new_def Let_def sbuf_append_def)
qed

section \<open>Advancing and multiplying\<close>

lemma sbuf_tail_move:
  assumes wf: "sbuf_wf s" and w: "unat w = (unat (sf_tail s) + k) mod 1024" and k: "k \<le> sbuf_len s"
  shows "sbuf_wf (s\<lparr>sf_tail := w\<rparr>)" and "samples (s\<lparr>sf_tail := w\<rparr>) = drop k (samples s)"
proof -
  let ?t = "unat (sf_tail s)"
  show wf': "sbuf_wf (s\<lparr>sf_tail := w\<rparr>)" using wf w by (simp add: sbuf_wf_def)
  have t: "?t < 1024" "length (sf_buffer s) = 1024" using wf by (simp_all add: sbuf_wf_def)
  have "unat (sf_head s) = (?t + sbuf_len s) mod 1024" by (rule sbuf_head_eq [OF wf])
  then have "sbuf_len (s\<lparr>sf_tail := w\<rparr>) = sbuf_len s - k"
    unfolding sbuf_len_eq [OF wf'] using w t k sbuf_len_less [of s] by (auto simp: mod_if split: if_splits)
  then show "samples (s\<lparr>sf_tail := w\<rparr>) = drop k (samples s)"
    using ring_drop [OF k, of "sf_buffer s" ?t] w t by (simp add: samples_def)
qed

lemma samples_Nil_iff: "sbuf_wf s \<Longrightarrow> samples s = [] \<longleftrightarrow> sf_tail s = sf_head s"
proof -
  assume wf: "sbuf_wf s"
  have "samples s = [] \<longleftrightarrow> sbuf_len s = 0" by (metis length_0_conv length_samples)
  also have "\<dots> \<longleftrightarrow> sf_tail s = sf_head s"
    unfolding word_unat_eq_iff [of "sf_tail s"] sbuf_len_eq [OF wf] using wf by (auto simp: sbuf_wf_def mod_if split: if_splits)
  finally show ?thesis .
qed

lemma unat_inc_mask: "unat w < 1024 \<Longrightarrow> unat ((w + 1) AND SAMPLE_BUFFER_MASK) = (unat w + 1) mod 1024"
  by (simp add: unat_and_smask unat_word_ariths)

lemma sbuf_pop:
  assumes wf: "sbuf_wf s" and ne: "samples s = x # xs"
  shows "buf_get (sf_buffer s) (unat (sf_tail s)) = Inr x"
    and "sbuf_wf (s\<lparr>sf_tail := (sf_tail s + 1) AND SAMPLE_BUFFER_MASK\<rparr>)"
    and "samples (s\<lparr>sf_tail := (sf_tail s + 1) AND SAMPLE_BUFFER_MASK\<rparr>) = xs"
proof -
  have t: "unat (sf_tail s) < 1024" "length (sf_buffer s) = 1024" using wf by (simp_all add: sbuf_wf_def)
  have len: "1 \<le> sbuf_len s" using ne length_samples [of s] by (simp del: length_samples)
  have "samples s ! 0 = x" by (simp add: ne)
  moreover have "samples s ! 0 = sf_buffer s ! unat (sf_tail s)" using len t by (simp add: samples_def ring_def)
  ultimately show "buf_get (sf_buffer s) (unat (sf_tail s)) = Inr x" using t by simp
  note m = sbuf_tail_move [OF wf unat_inc_mask [OF t(1)] len]
  show "sbuf_wf (s\<lparr>sf_tail := (sf_tail s + 1) AND SAMPLE_BUFFER_MASK\<rparr>)" by (rule m(1))
  show "samples (s\<lparr>sf_tail := (sf_tail s + 1) AND SAMPLE_BUFFER_MASK\<rparr>) = xs" using m(2) by (simp add: ne)
qed

lemma sbuf_tail_id:
  assumes "sbuf_len s * unat (sf_decimate s) \<le> unat (sf_head_sample_id s)"
  shows "unat (sbuf_tail_sample_id s) = unat (sf_head_sample_id s) - sbuf_len s * unat (sf_decimate s)"
proof -
  have "sbuf_len s * unat (sf_decimate s) \<le> 1024 * 256"
    using sbuf_len_less [of s] unat_bound_u8 [of "sf_decimate s"] by (intro mult_mono) simp_all
  then have "unat (sbuf_f32_length s * ucast (sf_decimate s)) = sbuf_len s * unat (sf_decimate s)"
    by (simp add: unat_mult_no_wrap)
  then show ?thesis using assms by (simp add: sbuf_tail_sample_id_def unat_sub word_le_nat_alt)
qed

text \<open>The identifiers of the samples in the ring do not reach below zero.\<close>

definition sbuf_ids :: "sbuf_f32_s \<Rightarrow> bool" where
  "sbuf_ids s \<longleftrightarrow> sbuf_len s * unat (sf_decimate s) \<le> unat (sf_head_sample_id s)"

lemma sbuf_advance_samples:
  assumes wf: "sbuf_wf s" and ids: "sbuf_ids s"
    and al: "unat (sf_decimate s) dvd unat sid - unat (sbuf_tail_sample_id s)"
  shows "\<exists>s'. sbuf_f32_advance s sid = Inr s' \<and> sbuf_wf s' \<and> sbuf_ids s' \<and> sf_decimate s' = sf_decimate s
    \<and> samples s' = drop (steps_between (sbuf_tail_sample_id s) sid (sf_decimate s)) (samples s)
    \<and> sbuf_tail_sample_id s' = max (sbuf_tail_sample_id s) sid"
proof (cases "sbuf_tail_sample_id s < sid")
  case False
  then have "sid \<le> sbuf_tail_sample_id s" by simp
  then have "max (sbuf_tail_sample_id s) sid = sbuf_tail_sample_id s"
    "steps_between (sbuf_tail_sample_id s) sid (sf_decimate s) = 0"
    by (simp_all add: steps_between_def word_le_nat_alt)
  then show ?thesis using wf ids False by (simp add: sbuf_f32_advance_def Let_def)
next
  case True
  let ?D = "unat (sf_decimate s)" and ?T = "unat (sbuf_tail_sample_id s)" and ?n = "sbuf_len s"
  define k where "k = steps_between (sbuf_tail_sample_id s) sid (sf_decimate s)"
  define w where "w = (sid - sbuf_tail_sample_id s) div ucast (sf_decimate s)"
  have D: "0 < ?D" "sf_decimate s \<noteq> 0" using wf by (auto simp: sbuf_wf_def unat_gt_0)
  have lt: "?T < unat sid" using True by (simp add: word_less_nat_alt)
  have sid: "unat sid = ?T + k * ?D" using al lt by (simp add: k_def steps_between_def)
  have T: "?T = unat (sf_head_sample_id s) - ?n * ?D" using ids by (simp add: sbuf_tail_id sbuf_ids_def)
  have w: "unat w = k"
    unfolding w_def using lt by (simp add: unat_div_distrib unat_sub word_le_nat_alt k_def steps_between_def)
  have mx: "max (sbuf_tail_sample_id s) sid = sid" using True by simp
  show ?thesis
  proof (cases "?n \<le> k")
    case le: True
    define s' where "s' = s\<lparr>sf_tail := sf_head s, sf_head_sample_id := sid\<rparr>"
    have "sbuf_f32_advance s sid = Inr s'"
      using True D(2) le by (simp add: sbuf_f32_advance_def Let_def w_def [symmetric] word_le_nat_alt w s'_def)
    moreover have "sbuf_len s' = 0" by (simp add: s'_def sbuf_f32_length_def)
    moreover have "sbuf_wf s'" using wf by (simp add: sbuf_wf_def s'_def)
    moreover have "sbuf_tail_sample_id s' = sid" by (simp add: sbuf_tail_sample_id_def sbuf_f32_length_def s'_def)
    moreover have "samples s' = []" using \<open>sbuf_len s' = 0\<close> by (simp add: samples_def)
    ultimately show ?thesis using le by (simp add: sbuf_ids_def k_def [symmetric] mx) (simp add: s'_def)
  next
    case gt: False
    define v :: u32 where "v = ucast ((ucast (sf_tail s) + w) AND ucast SAMPLE_BUFFER_MASK)"
    define s' where "s' = s\<lparr>sf_tail := v\<rparr>"
    have adv: "sbuf_f32_advance s sid = Inr s'"
      using True D(2) gt by (simp add: sbuf_f32_advance_def Let_def w_def [symmetric] word_le_nat_alt w s'_def v_def)
    have t: "unat (sf_tail s) < 1024" using wf by (simp add: sbuf_wf_def)
    have v: "unat v = (unat (sf_tail s) + k) mod 1024"
    proof -
      have "ucast SAMPLE_BUFFER_MASK = (mask 10 :: u64)"
        by (simp add: SAMPLE_BUFFER_MASK_def SAMPLE_BUFFER_LENGTH_def mask_eq_exp_minus_1)
      moreover have "unat (ucast (sf_tail s) + w) = unat (sf_tail s) + k"
        using t gt sbuf_len_less [of s] by (simp add: unat_add_no_wrap w)
      ultimately have "unat ((ucast (sf_tail s) + w) AND ucast SAMPLE_BUFFER_MASK) = (unat (sf_tail s) + k) mod 1024"
        using unat_and_mask [of "ucast (sf_tail s) + w" 10] by simp
      then show ?thesis
        unfolding v_def by (simp only: unsigned_ucast_eq) (rule take_bit_nat_eq_self, simp add: less_le_trans [OF mod_less_divisor])
    qed
    note m = sbuf_tail_move [OF wf v, folded s'_def]
    have s': "sbuf_wf s'" "samples s' = drop k (samples s)" using m gt by simp_all
    then have n': "sbuf_len s' = ?n - k" by (metis length_drop length_samples)
    have d: "sf_decimate s' = sf_decimate s" "sf_head_sample_id s' = sf_head_sample_id s" by (simp_all add: s'_def)
    have e: "(?n - k) * ?D = ?n * ?D - k * ?D" "k * ?D \<le> ?n * ?D"
      using gt by (simp_all add: diff_mult_distrib)
    have ids': "sbuf_ids s'" using ids e by (simp add: sbuf_ids_def n' d)
    then have "unat (sbuf_tail_sample_id s') = unat sid"
      using sbuf_tail_id [of s'] sid T e ids by (simp add: sbuf_ids_def n' d)
    then have "sbuf_tail_sample_id s' = sid" by (simp add: word_unat_eq_iff)
    then show ?thesis using adv s' ids' d by (simp add: k_def [symmetric] mx)
  qed
qed

lemma sbuf_store_product:
  fixes x :: u32 and i :: u64
  assumes wf: "sbuf_wf r" and t: "sf_tail r = 0" and h: "unat (sf_head r) < 1023"
  defines "r' \<equiv> r\<lparr>sf_buffer := (sf_buffer r)[unat (sf_head r) := x], sf_head := sf_head r + 1,
     sf_head_sample_id := i\<rparr>"
  shows "sbuf_wf r'" and "samples r' = samples r @ [x]" and "unat (sf_head r') = Suc (unat (sf_head r))"
    and "sbuf_len r = unat (sf_head r)"
proof -
  have u: "unat (sf_head r + 1) = Suc (unat (sf_head r))" using h by (simp add: unat_word_ariths)
  show "unat (sf_head r') = Suc (unat (sf_head r))" by (simp add: r'_def u)
  show wf': "sbuf_wf r'" using wf h u by (simp add: sbuf_wf_def r'_def)
  show len: "sbuf_len r = unat (sf_head r)" unfolding sbuf_len_eq [OF wf] using t h by simp
  have len': "sbuf_len r' = Suc (unat (sf_head r))" unfolding sbuf_len_eq [OF wf'] using t h u by (simp add: r'_def mod_if)
  have L: "length (sf_buffer r) = 1024" using wf by (simp add: sbuf_wf_def)
  show "samples r' = samples r @ [x]"
    unfolding samples_def len len' using ring_snoc [of "unat (sf_head r)" "sf_buffer r" 0 x] L h t by (simp add: r'_def)
qed

lemma sbuf_mult_loop_samples:
  "sbuf_wf r \<Longrightarrow> sf_tail r = 0 \<Longrightarrow> sbuf_wf s1 \<Longrightarrow> sbuf_wf s2 \<Longrightarrow>
   samples s1 = xs \<Longrightarrow> samples s2 = ys \<Longrightarrow> unat (sf_head r) + min (length xs) (length ys) < 1024 \<Longrightarrow>
   unat (sf_head_sample_id r) + min (length xs) (length ys) * unat (sf_decimate r) < 2 ^ 64 \<Longrightarrow>
   \<exists>r' s1' s2'. sbuf_mult_loop r s1 s2 = Some (Inr (r', s1', s2')) \<and> sbuf_wf r'
     \<and> samples r' = samples r @ map2 f32_mul xs ys
     \<and> unat (sf_head_sample_id r') = unat (sf_head_sample_id r) + min (length xs) (length ys) * unat (sf_decimate r)
     \<and> sf_decimate r' = sf_decimate r \<and> sf_msg_sample_id r' = sf_msg_sample_id r
     \<and> samples s1' = drop (length ys) xs \<and> samples s2' = drop (length xs) ys"
proof (induction xs ys arbitrary: r s1 s2 rule: list_induct2')
  case (4 x xs y ys)
  let ?s1 = "s1\<lparr>sf_tail := (sf_tail s1 + 1) AND SAMPLE_BUFFER_MASK\<rparr>"
    and ?s2 = "s2\<lparr>sf_tail := (sf_tail s2 + 1) AND SAMPLE_BUFFER_MASK\<rparr>"
    and ?id = "sf_head_sample_id r + ucast (sf_decimate r)"
  let ?r = "r\<lparr>sf_buffer := (sf_buffer r)[unat (sf_head r) := f32_mul x y], sf_head := sf_head r + 1,
     sf_head_sample_id := ?id\<rparr>"
  note p1 = sbuf_pop [OF 4(4,6)] and p2 = sbuf_pop [OF 4(5,7)]
  have h: "unat (sf_head r) < 1023" using 4(8) by simp
  note st = sbuf_store_product(1-3) [OF 4(2,3) h, where x = "f32_mul x y" and i = ?id]
  have ne: "sf_tail s1 \<noteq> sf_head s1" "sf_tail s2 \<noteq> sf_head s2"
    using samples_Nil_iff [OF 4(4)] samples_Nil_iff [OF 4(5)] 4(6,7) by auto
  have L: "unat (sf_head r) < length (sf_buffer r)" using 4(2) by (simp add: sbuf_wf_def)
  have loop: "sbuf_mult_loop r s1 s2 = sbuf_mult_loop ?r ?s1 ?s2"
    using ne p1(1) p2(1) L by (simp add: sbuf_mult_loop.simps [of r s1 s2])
  have id: "unat ?id = unat (sf_head_sample_id r) + unat (sf_decimate r)"
    using 4(9) by (simp add: unat_add_no_wrap)
  have "\<exists>r' s1' s2'. sbuf_mult_loop ?r ?s1 ?s2 = Some (Inr (r', s1', s2')) \<and> sbuf_wf r'
     \<and> samples r' = samples ?r @ map2 f32_mul xs ys
     \<and> unat (sf_head_sample_id r') = unat (sf_head_sample_id ?r) + min (length xs) (length ys) * unat (sf_decimate ?r)
     \<and> sf_decimate r' = sf_decimate ?r \<and> sf_msg_sample_id r' = sf_msg_sample_id ?r
     \<and> samples s1' = drop (length ys) xs \<and> samples s2' = drop (length xs) ys"
    using 4(3,8,9) st(1,3) p1(2,3) p2(2,3) id by (intro 4(1)) simp_all
  then show ?case unfolding loop st(2) using id by (simp add: add.assoc)
next
  case (1 r s1 s2)
  then show ?case using samples_Nil_iff [of s1] by (simp add: sbuf_mult_loop.simps [of r])
next
  case (2 x xs r s1 s2)
  then show ?case using samples_Nil_iff [of s2] by (simp add: sbuf_mult_loop.simps [of r])
next
  case (3 y ys r s1 s2)
  then show ?case using samples_Nil_iff [of s1] by (simp add: sbuf_mult_loop.simps [of r])
qed

section \<open>Properties\<close>

text \<open>
  C26. Adding a block to the sample buffer: with \<open>dup\<close> the samples the buffer already has and
  \<open>gap\<close> the samples that were lost, the buffer then holds the newest 1023 of what it held, a NaN
  for each lost sample, and the new data without the duplicates; the identifier at the head is
  that of the end of the data. The fill loop ends, no access leaves the ring, and the
  invariant of the ring is kept.
\<close>

theorem sbuf_f32_add_correct:
  assumes "sbuf_wf s" and "unat n = length data" and "aligned (sf_head_sample_id s) sid (sf_decimate s)"
    and "unat sid + length data * unat (sf_decimate s) < 2 ^ 64"
    and "length data - steps_between sid (sf_head_sample_id s) (sf_decimate s) < 1024"
  shows "\<exists>s'. sbuf_f32_add s sid data n = Some (Inr s') \<and> sbuf_wf s' \<and> sf_decimate s' = sf_decimate s
    \<and> samples s' = newest (samples s @ replicate (steps_between (sf_head_sample_id s) sid (sf_decimate s)) F32_NAN
                             @ drop (steps_between sid (sf_head_sample_id s) (sf_decimate s)) data)
    \<and> unat (sf_head_sample_id s') = max (unat (sf_head_sample_id s)) (unat sid + length data * unat (sf_decimate s))"
  using sbuf_add_samples [OF assms] .

definition ex_sbuf :: sbuf_f32_s where
  "ex_sbuf = sbuf_f32_clear \<lparr>sf_head_sample_id = 0, sf_head = 0, sf_tail = 0, sf_decimate = 0, sf_msg_sample_id = 0,
     sf_buffer = replicate 1024 0\<rparr>"

lemma ex_sbuf_simps:
  "sbuf_wf ex_sbuf" "samples ex_sbuf = []" "sf_head_sample_id ex_sbuf = 0" "sf_decimate ex_sbuf = 2"
  by (simp_all add: sbuf_wf_def ex_sbuf_def sbuf_f32_clear_def samples_empty)

theorem sbuf_f32_add_correct_witness:
  "\<exists>s'. sbuf_f32_add ex_sbuf 4 [7, 8] 2 = Some (Inr s') \<and> samples s' = [F32_NAN, F32_NAN, 7, 8]
     \<and> unat (sf_head_sample_id s') = 8"
proof -
  have "replicate (2::nat) F32_NAN = [F32_NAN, F32_NAN]" by (simp add: numeral_2_eq_2)
  then show ?thesis
    using sbuf_f32_add_correct [of ex_sbuf 2 "[7, 8]" 4]
    by (auto simp: ex_sbuf_simps aligned_def steps_between_def newest_short)
qed

text \<open>
  C37. A block longer than the ring: the buffer keeps its newest 1023 samples, but the identifier at the
  head becomes that of the first new sample of the block instead of the one after its last, so
  every sample in the buffer is labelled too early.
\<close>

theorem sbuf_f32_add_long_mislabels:
  assumes "sbuf_wf s" and "unat n = length data" and "sf_head_sample_id s \<le> sid" and "1024 \<le> length data"
  shows "\<exists>s'. sbuf_f32_add s sid data n = Some (Inr s') \<and> samples s' = newest data \<and> sf_head_sample_id s' = sid"
  using sbuf_add_new_long [OF assms(1,2,4), of sid] assms(3) by (auto simp: sbuf_f32_add_def not_less [symmetric])

theorem sbuf_f32_add_long_mislabels_witness:
  "\<exists>s'. sbuf_f32_add ex_sbuf 4 (replicate 1024 9) 1024 = Some (Inr s') \<and> samples s' = newest (replicate 1024 9)
     \<and> sf_head_sample_id s' = 4"
  by (rule sbuf_f32_add_long_mislabels) (simp_all add: ex_sbuf_simps)

text \<open>
  C27. The product of two buffers: from the greatest of the identifiers where the last product
  ended and the two buffers begin, the result holds the products of the samples with equal
  identifiers, as far as both buffers go, labelled with those identifiers. The loop ends and
  writes inside the result's ring.
\<close>

theorem sbuf_f32_mult_correct:
  assumes "sbuf_wf r" and "sbuf_wf s1" and "sbuf_wf s2" and "sbuf_ids s1" and "sbuf_ids s2"
    and "sf_decimate s1 = sf_decimate s2"
    and start: "start = max (max (sf_head_sample_id r) (sbuf_tail_sample_id s1)) (sbuf_tail_sample_id s2)"
    and al: "aligned start (sbuf_tail_sample_id s1) (sf_decimate s1)" "aligned start (sbuf_tail_sample_id s2) (sf_decimate s1)"
    and top: "unat start + 1023 * 255 < 2 ^ 64"
    and xs: "xs = drop (steps_between (sbuf_tail_sample_id s1) start (sf_decimate s1)) (samples s1)"
    and ys: "ys = drop (steps_between (sbuf_tail_sample_id s2) start (sf_decimate s1)) (samples s2)"
  shows "\<exists>r' s1' s2'. sbuf_f32_mult r s1 s2 = Some (Inr (r', s1', s2')) \<and> sbuf_wf r'
     \<and> samples r' = map2 f32_mul xs ys \<and> sbuf_tail_sample_id r' = start
     \<and> sf_msg_sample_id r' = ucast start
     \<and> samples s1' = drop (length ys) xs \<and> samples s2' = drop (length xs) ys"
proof -
  obtain t1 where t1: "sbuf_f32_advance s1 start = Inr t1" "sbuf_wf t1" "samples t1 = xs"
    using sbuf_advance_samples [OF assms(2,4), of start] al(1) by (auto simp: aligned_def xs)
  obtain t2 where t2: "sbuf_f32_advance s2 start = Inr t2" "sbuf_wf t2" "samples t2 = ys"
    using sbuf_advance_samples [OF assms(3,5), of start] al(2) assms(6) by (auto simp: aligned_def ys)
  define r0 where "r0 = (sbuf_f32_clear r)\<lparr>sf_decimate := sf_decimate s1, sf_msg_sample_id := ucast (start AND 0xFFFFFFFF),
      sf_head_sample_id := start\<rparr>"
  have wf0: "sbuf_wf r0" using assms(1,2) by (simp add: sbuf_wf_def r0_def sbuf_f32_clear_def)
  have e0: "sf_tail r0 = 0" "sf_head r0 = 0" "samples r0 = []" "sf_head_sample_id r0 = start" "sf_decimate r0 = sf_decimate s1"
    by (simp_all add: r0_def sbuf_f32_clear_def samples_empty)
  define m where "m = min (length xs) (length ys)"
  have m: "m < 1024" using sbuf_len_less [of t1] t1(3) length_samples [of t1] by (simp add: m_def del: length_samples)
  then have "m * unat (sf_decimate s1) \<le> 1023 * 255"
    using unat_bound_u8 [of "sf_decimate s1"] by (intro mult_mono) simp_all
  then have "unat start + m * unat (sf_decimate s1) < 2 ^ 64" using top by linarith
  then obtain r' s1' s2' where l: "sbuf_mult_loop r0 t1 t2 = Some (Inr (r', s1', s2'))" "sbuf_wf r'"
    "samples r' = map2 f32_mul xs ys" "unat (sf_head_sample_id r') = unat start + m * unat (sf_decimate s1)"
    "sf_decimate r' = sf_decimate s1" "sf_msg_sample_id r' = sf_msg_sample_id r0"
    "samples s1' = drop (length ys) xs" "samples s2' = drop (length xs) ys"
    using sbuf_mult_loop_samples [OF wf0 e0(1) t1(2) t2(2) t1(3) t2(3)] m e0 by (auto simp: m_def)
  have "sbuf_len r' = m" using l(3) length_samples [of r'] by (simp add: m_def del: length_samples)
  then have "unat (sbuf_tail_sample_id r') = unat start" using sbuf_tail_id [of r'] l(4,5) by simp
  then have "sbuf_tail_sample_id r' = start" by (simp add: word_unat_eq_iff)
  moreover have "sf_msg_sample_id r0 = ucast start"
  proof -
    have "start AND 0xFFFFFFFF = take_bit 32 start" by (simp add: take_bit_eq_mask mask_eq_exp_minus_1)
    moreover have "(ucast (take_bit 32 start) :: u32) = ucast start"
      by (simp only: unsigned_take_bit_eq) (rule take_bit_word_eq_self, simp)
    ultimately show ?thesis by (simp add: r0_def)
  qed
  moreover have "sbuf_f32_mult r s1 s2 = sbuf_mult_loop r0 t1 t2"
  proof -
    have mx: "(if a < b then b else a) = max a b" for a b :: u64 by (auto simp: max_def)
    show ?thesis
      unfolding sbuf_f32_mult_def Let_def mx start [symmetric] using t1(1) t2(1) by (simp add: r0_def)
  qed
  ultimately show ?thesis using l by simp
qed

definition ex_sbuf1 :: sbuf_f32_s where
  "ex_sbuf1 = \<lparr>sf_head_sample_id = 2, sf_head = 1, sf_tail = 0, sf_decimate = 2, sf_msg_sample_id = 0,
     sf_buffer = replicate 1024 0x40000000\<rparr>"

lemma ex_sbuf1_simps:
  "sbuf_wf ex_sbuf1" "sbuf_ids ex_sbuf1" "samples ex_sbuf1 = [0x40000000]" "sbuf_tail_sample_id ex_sbuf1 = 0"
  "sf_decimate ex_sbuf1 = 2"
proof -
  define b where "b = replicate 1024 (0x40000000 :: u32)"
  have b: "length b = 1024" "b ! 0 = 0x40000000" by (simp_all add: b_def)
  have f: "sf_head_sample_id ex_sbuf1 = 2" "sf_head ex_sbuf1 = 1" "sf_tail ex_sbuf1 = 0" "sf_decimate ex_sbuf1 = 2"
    "sf_buffer ex_sbuf1 = b" by (simp_all only: ex_sbuf1_def sbuf_f32_s.simps b_def)
  have l: "sbuf_f32_length ex_sbuf1 = 1"
    by (simp add: sbuf_f32_length_def f SAMPLE_BUFFER_MASK_def SAMPLE_BUFFER_LENGTH_def)
  show "sbuf_wf ex_sbuf1" "sbuf_ids ex_sbuf1" "sbuf_tail_sample_id ex_sbuf1 = 0" "sf_decimate ex_sbuf1 = 2"
    by (simp_all add: sbuf_wf_def sbuf_ids_def sbuf_tail_sample_id_def l f b)
  show "samples ex_sbuf1 = [0x40000000]" unfolding samples_def l f by (simp add: ring_def b)
qed

theorem sbuf_f32_mult_correct_witness:
  "\<exists>r' s1' s2'. sbuf_f32_mult ex_sbuf ex_sbuf1 ex_sbuf1 = Some (Inr (r', s1', s2'))
     \<and> samples r' = [f32_mul 0x40000000 0x40000000] \<and> sbuf_tail_sample_id r' = 0 \<and> samples s1' = []"
proof -
  have k: "steps_between 0 0 2 = 0" "aligned 0 0 2" by (simp_all add: steps_between_def aligned_def)
  have "\<exists>r' s1' s2'. sbuf_f32_mult ex_sbuf ex_sbuf1 ex_sbuf1 = Some (Inr (r', s1', s2')) \<and> sbuf_wf r'
     \<and> samples r' = map2 f32_mul [0x40000000] [0x40000000] \<and> sbuf_tail_sample_id r' = 0
     \<and> sf_msg_sample_id r' = ucast (0 :: u64) \<and> samples s1' = drop (length [0x40000000 :: u32]) [0x40000000]
     \<and> samples s2' = drop (length [0x40000000 :: u32]) [0x40000000]"
    by (rule sbuf_f32_mult_correct) (simp_all only: ex_sbuf_simps ex_sbuf1_simps k max.idem drop_0, simp)
  then show ?thesis by simp blast
qed

end
