(* ===== verification/Time.thy ===== *)
theory Time
  imports I128
begin

text \<open>
  The 34Q30 time representation (\<^verbatim>\<open>include/jsdrv/time.h\<close>): the conversions between time and
  counter ticks, proved to be the exact quotients with the documented rounding, except for
  the one that rounds up.
\<close>

section \<open>Fixed-point conversions\<close>

definition JSDRV_FRACT_MASK :: u64 where "JSDRV_FRACT_MASK = mask 30"

text \<open>
  The end of each conversion: the sign of the argument is put back, and the negation of the
  smallest number overflows.
\<close>

definition with_sign :: "bool \<Rightarrow> u64 \<Rightarrow> u64 c" where
  "with_sign negate c = (if \<not> negate then Inr c else if c = U64_SIGN_BIT then Inl Undefined else Inr (- c))"

definition JSDRV_TIME_TO_COUNTER :: "u64 \<Rightarrow> u64 \<Rightarrow> u64 c" where
  "JSDRV_TIME_TO_COUNTER x z =
     cbind (abs_i64 x) (\<lambda>a.
       let c = drop_bit 29 (a AND NOT JSDRV_FRACT_MASK) * z;
           fract = push_bit 1 (a AND JSDRV_FRACT_MASK);
           c = c + (drop_bit 30 (fract * z) + 1);
           c = drop_bit 1 c
       in with_sign (sint x < 0) c)"

definition JSDRV_TIME_TO_COUNTER_RZERO :: "u64 \<Rightarrow> u64 \<Rightarrow> u64 c" where
  "JSDRV_TIME_TO_COUNTER_RZERO x z =
     cbind (abs_i64 x) (\<lambda>a.
       with_sign (sint x < 0) (drop_bit 30 a * z + drop_bit 30 ((a AND JSDRV_FRACT_MASK) * z)))"

text \<open>Rounding toward infinity adds to the signed time, which may overflow.\<close>

definition JSDRV_TIME_TO_COUNTER_RINF :: "u64 \<Rightarrow> u64 \<Rightarrow> u64 c" where
  "JSDRV_TIME_TO_COUNTER_RINF x z =
     cbind (abs_i64 x) (\<lambda>a.
       if sint a + (2 ^ 30 - 1) \<ge> 2 ^ 63 then Inl Undefined
       else let a = a + (2 ^ 30 - 1)
            in with_sign (sint x < 0) (drop_bit 30 a * z + drop_bit 30 ((a AND JSDRV_FRACT_MASK) * z)))"

definition JSDRV_COUNTER_TO_TIME :: "u64 \<Rightarrow> u64 \<Rightarrow> u64 c" where
  "JSDRV_COUNTER_TO_TIME x z =
     (if z = 0 then Inl Undefined
      else let seconds = x div z;
               remainder = x - seconds * z;
               fract = push_bit 30 remainder div z
           in Inr (push_bit 30 seconds + fract))"

lemma uint_fract: "uint (a AND JSDRV_FRACT_MASK) = uint a mod 2 ^ 30"
  unfolding JSDRV_FRACT_MASK_def
  by (simp only: take_bit_eq_mask [symmetric] unsigned_take_bit_eq) (simp add: take_bit_eq_mod)

lemma uint_whole: "uint (a AND NOT JSDRV_FRACT_MASK) = uint a div 2 ^ 30 * 2 ^ 30"
proof -
  have "a AND NOT JSDRV_FRACT_MASK = push_bit 30 (drop_bit 30 a)"
    unfolding JSDRV_FRACT_MASK_def by (rule bit_word_eqI) (auto simp: bit_and_iff bit_not_iff bit_mask_iff bit_push_bit_iff bit_drop_bit_eq)
  moreover have "uint a div 2 ^ 30 * 2 ^ 30 < 2 ^ 64"
  proof -
    have "uint a < 2 ^ 64" "0 \<le> uint a mod 2 ^ 30" using uint_u64 [of a] by simp_all
    then show ?thesis using div_mult_mod_eq [of "uint a" "2 ^ 30"] by linarith
  qed
  ultimately show ?thesis
    using uint_u64 [of a] by (simp only: uint_push_bit uint_drop_bit) (simp add: pos_imp_zdiv_nonneg_iff)
qed

lemma whole_fract: "(a div P * z) + (a mod P) * z div P = a * z div P" if "0 < P" for a z P :: int
proof -
  have "a * z = (a mod P) * z + (a div P * z) * P"
    using div_mult_mod_eq [of a P] by (metis (no_types, lifting) add.commute distrib_right mult.assoc mult.commute)
  then show ?thesis using that by simp
qed

lemma with_sign_sint:
  assumes "uint c < 2 ^ 63"
  shows "\<exists>r. with_sign b c = Inr r \<and> sint r = (if b then - uint c else uint c)"
proof -
  have "sint (- c) = - uint c"
    using assms uint_u64 [of c] by (cases "uint c = 0") (simp_all add: sint_uint_64 uint_word_ariths zmod_zminus1_eq_if)
  moreover have "sint c = uint c" using assms by (simp add: sint_uint_64)
  moreover have "c \<noteq> U64_SIGN_BIT" using assms by (auto simp: U64_SIGN_BIT_def)
  ultimately show ?thesis by (simp add: with_sign_def)
qed

lemma counter_product:
  assumes "uint a * uint z < 2 ^ 94" and "uint z < 2 ^ 34"
  shows "uint (drop_bit 30 a * z + drop_bit 30 ((a AND JSDRV_FRACT_MASK) * z)) = uint a * uint z div 2 ^ 30"
proof -
  have f: "0 \<le> uint a mod 2 ^ 30 * uint z" "uint a mod 2 ^ 30 * uint z < 2 ^ 64"
  proof -
    have "uint a mod 2 ^ 30 * uint z \<le> (2 ^ 30 - 1) * (2 ^ 34 - 1)"
      using assms(2) pos_mod_bound [of "2 ^ 30" "uint a"] by (intro mult_mono) simp_all
    then show "uint a mod 2 ^ 30 * uint z < 2 ^ 64" by simp
  qed simp
  have w: "uint a * uint z div 2 ^ 30 < 2 ^ 64" "0 \<le> uint a * uint z div 2 ^ 30"
    using assms(1) int_div_less_self_mult [of "2 ^ 30" "uint a * uint z" "2 ^ 64"] by (simp_all add: pos_imp_zdiv_nonneg_iff)
  have "uint (drop_bit 30 a * z + drop_bit 30 ((a AND JSDRV_FRACT_MASK) * z))
      = (uint a div 2 ^ 30 * uint z + uint a mod 2 ^ 30 * uint z div 2 ^ 30) mod 2 ^ 64"
    using f by (simp only: uint_word_ariths uint_drop_bit uint_fract) (simp add: mod_simps)
  also have "\<dots> = uint a * uint z div 2 ^ 30 mod 2 ^ 64" by (simp only: whole_fract [of "2 ^ 30"] zero_less_numeral zero_less_power)
  finally show ?thesis using w by simp
qed

lemma time_to_counter_rzero:
  assumes "x \<noteq> U64_SIGN_BIT" and "\<bar>sint x\<bar> * uint z < 2 ^ 93" and "uint z < 2 ^ 34"
  shows "\<exists>c. JSDRV_TIME_TO_COUNTER_RZERO x z = Inr c
    \<and> sint c = (if sint x < 0 then - (\<bar>sint x\<bar> * uint z div 2 ^ 30) else \<bar>sint x\<bar> * uint z div 2 ^ 30)"
proof -
  obtain a where a: "abs_i64 x = Inr a" using abs_i64_defined [OF assms(1)] by blast
  have ua: "uint a = \<bar>sint x\<bar>" using abs_i64_value [OF a] .
  define w where "w = drop_bit 30 a * z + drop_bit 30 ((a AND JSDRV_FRACT_MASK) * z)"
  have w: "uint w = \<bar>sint x\<bar> * uint z div 2 ^ 30"
    using counter_product [of a z] assms(2,3) by (simp add: w_def ua)
  moreover have "\<bar>sint x\<bar> * uint z div 2 ^ 30 < 2 ^ 63"
    using assms(2) int_div_less_self_mult [of "2 ^ 30" "\<bar>sint x\<bar> * uint z" "2 ^ 63"] by simp
  ultimately obtain r where "with_sign (sint x < 0) w = Inr r" "sint r = (if sint x < 0 then - uint w else uint w)"
    using with_sign_sint [of w "sint x < 0"] by auto
  then show ?thesis unfolding JSDRV_TIME_TO_COUNTER_RZERO_def a cbind_simps w_def [symmetric] w by blast
qed

lemma time_to_counter_nearest:
  assumes "x \<noteq> U64_SIGN_BIT" and "\<bar>sint x\<bar> * uint z < 2 ^ 92" and "uint z < 2 ^ 33"
  shows "\<exists>c. JSDRV_TIME_TO_COUNTER x z = Inr c
    \<and> sint c = (if sint x < 0 then - ((\<bar>sint x\<bar> * uint z + 2 ^ 29) div 2 ^ 30) else (\<bar>sint x\<bar> * uint z + 2 ^ 29) div 2 ^ 30)"
proof -
  obtain a where a: "abs_i64 x = Inr a" using abs_i64_defined [OF assms(1)] by blast
  have ua: "uint a = \<bar>sint x\<bar>" using abs_i64_value [OF a] .
  define P where "P = uint a * uint z"
  have P: "0 \<le> P" "P < 2 ^ 92" using assms(2) by (simp_all add: P_def ua)
  have f: "0 \<le> 2 * (uint a mod 2 ^ 30) * uint z" "2 * (uint a mod 2 ^ 30) * uint z < 2 ^ 64"
  proof -
    have "uint a mod 2 ^ 30 * uint z \<le> (2 ^ 30 - 1) * (2 ^ 33 - 1)"
      using assms(3) pos_mod_bound [of "2 ^ 30" "uint a"] by (intro mult_mono) simp_all
    then show "2 * (uint a mod 2 ^ 30) * uint z < 2 ^ 64" by (simp add: mult.commute)
  qed simp
  have fr: "uint (push_bit 1 (a AND JSDRV_FRACT_MASK)) = 2 * (uint a mod 2 ^ 30)"
  proof -
    have "uint a mod 2 ^ 30 < 2 ^ 30" by simp
    then have "(uint a mod 2 ^ 30) * 2 mod 2 ^ 64 = (uint a mod 2 ^ 30) * 2" by (intro mod_pos_pos_trivial) simp_all
    then show ?thesis by (simp only: uint_push_bit uint_fract) simp
  qed
  have wh: "uint (drop_bit 29 (a AND NOT JSDRV_FRACT_MASK)) = 2 * (uint a div 2 ^ 30)"
  proof -
    have "uint a div 2 ^ 30 * 2 ^ 30 = 2 * (uint a div 2 ^ 30) * 2 ^ 29" by simp
    then show ?thesis by (simp only: uint_drop_bit uint_whole) simp
  qed
  define dw fw where "dw = drop_bit 29 (a AND NOT JSDRV_FRACT_MASK)" and "fw = push_bit 1 (a AND JSDRV_FRACT_MASK)"
  define s where "s = dw * z + (drop_bit 30 (fw * z) + 1)"
  have "uint s = (2 * (uint a div 2 ^ 30) * uint z + (2 * (uint a mod 2 ^ 30) * uint z div 2 ^ 30 + 1)) mod 2 ^ 64"
    unfolding s_def using f by (simp only: uint_word_ariths uint_drop_bit wh [folded dw_def] fr [folded fw_def]) (simp add: mod_simps)
  moreover have "2 * (uint a div 2 ^ 30) * uint z + 2 * (uint a mod 2 ^ 30) * uint z div 2 ^ 30 = 2 * P div 2 ^ 30"
    using whole_fract [of "2 ^ 30" "uint a" "2 * uint z"] by (simp add: P_def mult.commute mult.left_commute)
  ultimately have "uint s = (2 * P div 2 ^ 30 + 1) mod 2 ^ 64" by (simp add: add.assoc [symmetric])
  moreover have h: "2 * P div 2 ^ 30 = P div 2 ^ 29" by simp
  moreover have "P div 2 ^ 29 < 2 ^ 63" "0 \<le> P div 2 ^ 29"
    using P int_div_less_self_mult [of "2 ^ 29" P "2 ^ 63"] by (simp_all add: pos_imp_zdiv_nonneg_iff)
  ultimately have s: "uint s = P div 2 ^ 29 + 1" "P div 2 ^ 29 + 1 < 2 ^ 64" by simp_all
  define q where "q = (P + 2 ^ 29) div 2 ^ 30"
  have "(P + 2 ^ 29) div 2 ^ 29 = P div 2 ^ 29 + 1" by simp
  then have "(P div 2 ^ 29 + 1) div 2 = q" using zdiv_zmult2_eq [of 2 "P + 2 ^ 29" "2 ^ 29"] by (simp add: q_def)
  then have u: "uint (drop_bit 1 s) = q" using s(1) by (simp only: uint_drop_bit) simp
  have "q < 2 ^ 63" using P int_div_less_self_mult [of "2 ^ 30" "P + 2 ^ 29" "2 ^ 63"] by (simp add: q_def)
  then obtain c where "with_sign (sint x < 0) (drop_bit 1 s) = Inr c" "sint c = (if sint x < 0 then - q else q)"
    using u with_sign_sint [of "drop_bit 1 s" "sint x < 0"] by auto
  moreover have "JSDRV_TIME_TO_COUNTER x z = with_sign (sint x < 0) (drop_bit 1 s)"
    using a by (simp only: JSDRV_TIME_TO_COUNTER_def s_def dw_def fw_def Let_def cbind_simps)
  ultimately show ?thesis unfolding q_def P_def ua by auto
qed

lemma counter_to_time_exact:
  assumes "z \<noteq> 0" and "uint z \<le> 2 ^ 34" and "uint x * 2 ^ 30 div uint z < 2 ^ 64"
  shows "\<exists>t. JSDRV_COUNTER_TO_TIME x z = Inr t \<and> uint t = uint x * 2 ^ 30 div uint z"
proof -
  have z: "0 < uint z" using assms(1) by (intro uint_u64_pos) (simp add: unsigned_eq_0_iff)
  define q r where "q = uint x div uint z" and "r = uint x mod uint z"
  have r: "0 \<le> r" "r < uint z" "r * 2 ^ 30 < 2 ^ 64" using z assms(2) by (simp_all add: r_def) (smt (verit) pos_mod_bound)
  have x: "uint x = q * uint z + r" by (simp add: q_def r_def)
  have "uint x * 2 ^ 30 = q * 2 ^ 30 * uint z + r * 2 ^ 30" unfolding x by (simp add: algebra_simps)
  then have e: "uint x * 2 ^ 30 div uint z = q * 2 ^ 30 + r * 2 ^ 30 div uint z" using z by simp
  have rem: "uint (x - x div z * z) = r"
  proof -
    have "uint (x - x div z * z) = (uint x - q * uint z) mod 2 ^ 64"
      by (simp add: uint_word_ariths uint_div_distrib q_def mod_simps)
    then show ?thesis using r uint_u64 [of z] x by simp
  qed
  have fr: "uint (push_bit 30 (x - x div z * z) div z) = r * 2 ^ 30 div uint z"
    using r by (simp only: uint_div_distrib uint_push_bit rem) simp
  define fw where "fw = push_bit 30 (x - x div z * z) div z"
  have "uint (push_bit 30 (x div z) + fw) = (q * 2 ^ 30 + r * 2 ^ 30 div uint z) mod 2 ^ 64"
    by (simp only: uint_word_ariths uint_push_bit fr [folded fw_def] uint_div_distrib) (simp add: q_def mod_simps)
  also have "\<dots> = uint x * 2 ^ 30 div uint z"
    unfolding e [symmetric] using assms(3) z by (intro mod_pos_pos_trivial) (simp_all add: pos_imp_zdiv_nonneg_iff)
  finally show ?thesis using assms(1) by (simp add: JSDRV_COUNTER_TO_TIME_def Let_def fw_def)
qed

lemma counter_time_roundtrip:
  assumes z0: "z \<noteq> 0" and z: "uint z \<le> 2 ^ 29" and x: "uint x * 2 ^ 30 div uint z < 2 ^ 63"
  shows "\<exists>t. JSDRV_COUNTER_TO_TIME x z = Inr t \<and> JSDRV_TIME_TO_COUNTER t z = Inr x"
proof -
  have zp: "0 < uint z" using z0 by (intro uint_u64_pos) (simp add: unsigned_eq_0_iff)
  obtain t where t: "JSDRV_COUNTER_TO_TIME x z = Inr t" "uint t = uint x * 2 ^ 30 div uint z"
    using counter_to_time_exact [OF z0, of x] z x by auto
  define T X Z where "T = uint t" and "X = uint x" and "Z = uint z"
  have Z: "0 < Z" "Z \<le> 2 ^ 29" using zp z by (simp_all add: Z_def)
  have T: "T = X * 2 ^ 30 div Z" "T < 2 ^ 63" "0 \<le> T" "0 \<le> X" using t(2) x uint_u64 [of t] uint_u64 [of x] by (simp_all add: T_def X_def Z_def)
  have "X * 2 ^ 30 = T * Z + X * 2 ^ 30 mod Z" using T(1) by simp
  moreover have "0 \<le> X * 2 ^ 30 mod Z" "X * 2 ^ 30 mod Z < Z" using Z by simp_all
  ultimately have b: "T * Z \<le> X * 2 ^ 30" "X * 2 ^ 30 - 2 ^ 29 < T * Z" using Z by linarith+
  then have r: "(T * Z + 2 ^ 29) div 2 ^ 30 = X"
    by (intro int_div_pos_eq [where r = "T * Z + 2 ^ 29 - X * 2 ^ 30"]) (simp_all add: mult.commute)
  have s: "sint t = T" using T(2) by (simp add: sint_uint_64 T_def)
  have tm: "t \<noteq> U64_SIGN_BIT" using T(2) by (auto simp: U64_SIGN_BIT_def T_def)
  have "T * Z \<le> (2 ^ 63 - 1) * 2 ^ 29" using T Z by (intro mult_mono) simp_all
  then have "T * Z < 2 ^ 92" by simp
  then obtain c where c: "JSDRV_TIME_TO_COUNTER t z = Inr c" "sint c = X"
    using time_to_counter_nearest [OF tm, of z] Z T(3) r by (auto simp: s Z_def [symmetric])
  have "X < 2 ^ 63"
  proof -
    have "T * Z \<le> (2 ^ 63 - 1) * 2 ^ 29" by fact
    then show ?thesis using b(2) by simp
  qed
  then have "sint x = X" by (simp add: sint_uint_64 X_def)
  then have "sint c = sint x" using c(2) by simp
  then have "c = x" by (rule signed_word_eqI)
  with t(1) c(1) show ?thesis by blast
qed

lemma rinf_zero:
  assumes "0 < uint z" and "uint z \<le> 2 ^ 30"
  shows "JSDRV_TIME_TO_COUNTER_RINF 0 z = Inr (z - 1)"
proof -
  have a: "abs_i64 0 = Inr 0" by (simp add: abs_i64_def)
  define m :: u64 where "m = 2 ^ 30 - 1"
  have m: "uint m = 2 ^ 30 - 1" by (simp add: m_def)
  have "uint (drop_bit 30 m * z + drop_bit 30 ((m AND JSDRV_FRACT_MASK) * z)) = (2 ^ 30 - 1) * uint z div 2 ^ 30"
    using counter_product [of m z] assms unfolding m by simp
  also have "\<dots> = uint z - 1"
    using assms by (intro int_div_pos_eq [where r = "2 ^ 30 - uint z"]) (simp_all add: algebra_simps)
  also have "\<dots> = uint (z - 1)" using assms by (simp add: uint_sub_if')
  finally have "drop_bit 30 m * z + drop_bit 30 ((m AND JSDRV_FRACT_MASK) * z) = z - 1" by (simp only: word_uint_eq_iff)
  then show ?thesis
    unfolding JSDRV_TIME_TO_COUNTER_RINF_def a cbind_simps Let_def add_0_left m_def [symmetric] by (simp add: with_sign_def)
qed

section \<open>The conversions are right\<close>

text \<open>
  C31. A time becomes the nearest number of counter ticks: the result is within half a tick of the
  exact product, and it has the sign of the time; \<^verbatim>\<open>JSDRV_TIME_TO_COUNTER_RZERO\<close> gives the exact product rounded toward
  zero. This holds for every time but the smallest as long as the result has some 62 bits,
  for counters of less than 8 GHz.
\<close>

theorem JSDRV_TIME_TO_COUNTER_rounds:
  assumes "x \<noteq> U64_SIGN_BIT" and "\<bar>sint x\<bar> * uint z < 2 ^ 92" and "uint z < 2 ^ 33"
  shows "\<exists>c c0. JSDRV_TIME_TO_COUNTER x z = Inr c \<and> JSDRV_TIME_TO_COUNTER_RZERO x z = Inr c0
    \<and> \<bar>sint c * 2 ^ 30 - sint x * uint z\<bar> \<le> 2 ^ 29 \<and> (sint x < 0 \<longrightarrow> sint c \<le> 0) \<and> (0 \<le> sint x \<longrightarrow> 0 \<le> sint c)
    \<and> \<bar>sint c0\<bar> = \<bar>sint x * uint z\<bar> div 2 ^ 30 \<and> (sint x < 0 \<longrightarrow> sint c0 \<le> 0) \<and> (0 \<le> sint x \<longrightarrow> 0 \<le> sint c0)"
proof -
  define P where "P = \<bar>sint x\<bar> * uint z"
  have P: "0 \<le> P" "P < 2 ^ 93" "sint x * uint z = (if sint x < 0 then - P else P)" "\<bar>sint x * uint z\<bar> = P"
    using assms(2) by (simp_all add: P_def abs_mult)
  define q where "q = (P + 2 ^ 29) div 2 ^ 30"
  have q: "0 \<le> q" "q * 2 ^ 30 \<le> P + 2 ^ 29" "P + 2 ^ 29 < (q + 1) * 2 ^ 30"
    using P(1) div_mult_mod_eq [of "P + 2 ^ 29" "2 ^ 30"] pos_mod_bound [of "2 ^ 30" "P + 2 ^ 29"] pos_mod_sign [of "2 ^ 30" "P + 2 ^ 29"]
    by (simp_all add: q_def pos_imp_zdiv_nonneg_iff algebra_simps)
  obtain c where c: "JSDRV_TIME_TO_COUNTER x z = Inr c" "sint c = (if sint x < 0 then - q else q)"
    using time_to_counter_nearest [OF assms] unfolding P_def [symmetric] q_def [symmetric] by blast
  obtain c0 where c0: "JSDRV_TIME_TO_COUNTER_RZERO x z = Inr c0" "sint c0 = (if sint x < 0 then - (P div 2 ^ 30) else P div 2 ^ 30)"
    using time_to_counter_rzero [OF assms(1), of z] assms(3) P(2) unfolding P_def [symmetric] by force
  have "0 \<le> P div 2 ^ 30" using P(1) by (simp add: pos_imp_zdiv_nonneg_iff)
  moreover have "\<bar>sint c * 2 ^ 30 - sint x * uint z\<bar> \<le> 2 ^ 29"
    unfolding P(3) c(2) using q by (cases "sint x < 0") (simp_all add: algebra_simps abs_le_iff)
  ultimately show ?thesis using c c0 q(1) P(4) by auto
qed

theorem JSDRV_TIME_TO_COUNTER_rounds_witness:
  "\<exists>c c0. JSDRV_TIME_TO_COUNTER (- 1610612737) 1000 = Inr c \<and> JSDRV_TIME_TO_COUNTER_RZERO (- 1610612737) 1000 = Inr c0
    \<and> \<bar>sint c * 2 ^ 30 + 1610612737000\<bar> \<le> 2 ^ 29 \<and> \<bar>sint c0\<bar> = 1500"
  using JSDRV_TIME_TO_COUNTER_rounds [of "- 1610612737" 1000] by (auto simp: U64_SIGN_BIT_def)

text \<open>
  A counter of at most 512 MHz survives the conversion to time and back: the time rounds
  toward zero, the way back to the nearest tick.
\<close>

theorem JSDRV_COUNTER_TO_TIME_roundtrip:
  assumes "z \<noteq> 0" and "uint z \<le> 2 ^ 29" and "uint x * 2 ^ 30 div uint z < 2 ^ 63"
  shows "\<exists>t. JSDRV_COUNTER_TO_TIME x z = Inr t \<and> uint t = uint x * 2 ^ 30 div uint z \<and> JSDRV_TIME_TO_COUNTER t z = Inr x"
  using counter_time_roundtrip [OF assms] counter_to_time_exact [OF assms(1), of x] assms(2,3) by auto

theorem JSDRV_COUNTER_TO_TIME_roundtrip_witness:
  "\<exists>t. JSDRV_COUNTER_TO_TIME 7 3 = Inr t \<and> uint t = 2505397589 \<and> JSDRV_TIME_TO_COUNTER t 3 = Inr 7"
  using JSDRV_COUNTER_TO_TIME_roundtrip [of 3 7] by simp

text \<open>
  \<^verbatim>\<open>JSDRV_TIME_TO_COUNTER_RINF\<close> does not round up to the next tick unless the counter runs at 1 Hz: it adds
  one second less one unit to the time before it multiplies by the frequency, so that time 0 is
  \<open>z - 1\<close> ticks.
\<close>

theorem JSDRV_TIME_TO_COUNTER_RINF_zero:
  assumes "0 < uint z" and "uint z \<le> 2 ^ 30"
  shows "JSDRV_TIME_TO_COUNTER_RINF 0 z = Inr (z - 1)"
  by (rule rinf_zero [OF assms])

theorem JSDRV_TIME_TO_COUNTER_RINF_zero_witness: "JSDRV_TIME_TO_COUNTER_RINF 0 1000 = Inr 999"
  using JSDRV_TIME_TO_COUNTER_RINF_zero [of 1000] by simp

end
