(* ===== verification/Calendar.thy ===== *)
theory Calendar
  imports Time
begin

text \<open>
  The printed date and time (\<^verbatim>\<open>jsdrv_time_to_str\<close> of \<^verbatim>\<open>src/time.c\<close>). The arithmetic that turns days into
  a date is proved against a calendar defined by month lengths and the leap year rule.
\<close>

section \<open>The calendar\<close>

text \<open>Division of an \<^verbatim>\<open>int64_t\<close> by a positive number truncates toward zero.\<close>

definition tdiv :: "int \<Rightarrow> int \<Rightarrow> int" where
  "tdiv a b = (if a < 0 then - ((- a) div b) else a div b)"

text \<open>The year, month and day that \<^verbatim>\<open>jsdrv_time_to_str\<close> computes from the days since 2018-01-01.\<close>

definition civil_from_days :: "u32 \<Rightarrow> u32 \<times> u32 \<times> u32" where
  "civil_from_days days =
     (let days = days + (719468 + 17532);
          era = days div 146097;
          doe = days - era * 146097;
          yoe = (doe - doe div 1460 + doe div 36524 - doe div 146096) div 365;
          y = yoe + era * 400;
          doy = doe - (365 * yoe + yoe div 4 - yoe div 100);
          mp = (5 * doy + 2) div 153;
          d = doy - (153 * mp + 2) div 5 + 1;
          m = mp + (if mp < 10 then 3 else - 9);
          y = y + (if m \<le> 2 then 1 else 0)
      in (y, m, d))"

text \<open>Decimal digits of a number, at least \<open>w\<close> of them: \<^verbatim>\<open>%0wu\<close>.\<close>

fun dec_digits :: "nat \<Rightarrow> string" where
  "dec_digits n = (if n < 10 then [char_of (48 + n)] else dec_digits (n div 10) @ [char_of (48 + n mod 10)])"

declare dec_digits.simps [simp del]

definition pad_digits :: "nat \<Rightarrow> u32 \<Rightarrow> string" where
  "pad_digits w n = (let s = dec_digits (unat n) in replicate (w - length s) (CHR ''0'') @ s)"

text \<open>The time of day: hours, minutes, seconds.\<close>

definition time_of_day :: "int \<Rightarrow> u32 \<times> u32 \<times> u32" where
  "time_of_day seconds =
     (let ss = word_of_int (seconds - tdiv seconds 86400 * 86400) :: u32;
          hh = ss div 3600;
          ss = ss - hh * 3600;
          mm = ss div 60
      in (hh, mm, ss - mm * 60))"

definition JSDRV_TIME_STRING_LENGTH :: nat where "JSDRV_TIME_STRING_LENGTH = 27"

text \<open>
  The number returned and the text stored (without its terminator); \<open>None\<close> for a buffer of no
  bytes, which is left alone.
\<close>

definition jsdrv_time_to_str :: "u64 \<Rightarrow> nat \<Rightarrow> (int \<times> string option) c" where
  "jsdrv_time_to_str t sz =
     (if sz = 0 then Inr (0, None)
      else cbind (JSDRV_TIME_TO_COUNTER t 1000000) (\<lambda>c.
        let microseconds = sint c;
            seconds = tdiv microseconds 1000000;
            days = word_of_int (tdiv seconds 86400) :: u32;
            us = word_of_int (microseconds - seconds * 1000000) :: u32
        in case (civil_from_days days, time_of_day seconds) of
             ((y, m, d), (hh, mm, ss)) \<Rightarrow>
               let s = pad_digits 4 y @ ''-'' @ pad_digits 2 m @ ''-'' @ pad_digits 2 d @ ''T''
                       @ pad_digits 2 hh @ '':'' @ pad_digits 2 mm @ '':'' @ pad_digits 2 ss @ ''.'' @ pad_digits 6 us
               in Inr (if sz \<ge> JSDRV_TIME_STRING_LENGTH then int JSDRV_TIME_STRING_LENGTH - 1 else int sz - 1,
                       Some (take (sz - 1) s))))"

section \<open>The calendar as it is defined\<close>

definition leap :: "nat \<Rightarrow> bool" where
  "leap y \<longleftrightarrow> 4 dvd y \<and> (\<not> 100 dvd y \<or> 400 dvd y)"

definition month_len :: "nat \<Rightarrow> nat \<Rightarrow> nat" where
  "month_len y m = (if m = 2 then (if leap y then 29 else 28) else if m \<in> {4, 6, 9, 11} then 30 else 31)"

primrec year_start :: "nat \<Rightarrow> nat" where
  "year_start 0 = 0"
| "year_start (Suc y) = year_start y + (if leap y then 366 else 365)"

text \<open>The days from the first of January of year 0.\<close>

definition day_number :: "nat \<Rightarrow> nat \<Rightarrow> nat \<Rightarrow> nat" where
  "day_number y m d = year_start y + sum_list (map (month_len y) [1..<m]) + (d - 1)"

definition valid_date :: "nat \<Rightarrow> nat \<Rightarrow> nat \<Rightarrow> bool" where
  "valid_date y m d \<longleftrightarrow> 1 \<le> m \<and> m \<le> 12 \<and> 1 \<le> d \<and> d \<le> month_len y m"

lemma ceil_floor:
  assumes "0 < (n::nat)"
  shows "(y + (n - 1)) div n + (if n dvd y then 1 else 0) = y div n + 1"
proof -
  have "(y + (n - 1)) div n = y div n + (y mod n + (n - 1)) div n"
  proof -
    have "y + (n - 1) = (y mod n + (n - 1)) + n * (y div n)" using mult_div_mod_eq [of n y] by linarith
    then show ?thesis using assms by (simp only: div_mult_self2)
  qed
  moreover have "(y mod n + (n - 1)) div n = (if n dvd y then 0 else 1)"
  proof (cases "n dvd y")
    case False
    then have "0 < y mod n" by (simp add: mod_greater_zero_iff_not_dvd)
    moreover have "y mod n < n" using assms by simp
    ultimately have "(y mod n + (n - 1)) div n = 1" by (intro div_nat_eqI) simp_all
    with False show ?thesis by simp
  qed (use assms in simp)
  ultimately show ?thesis by simp
qed

lemma dvd_400_100_4: "100 dvd (y::nat) \<Longrightarrow> 4 dvd y" "400 dvd (y::nat) \<Longrightarrow> 100 dvd y"
  using dvd_trans [of 4 100 y] dvd_trans [of 100 400 y] by simp_all

lemma year_start_closed:
  "year_start y + (y + 99) div 100 = 365 * y + (y + 3) div 4 + (y + 399) div 400"
proof (induction y)
  case (Suc y)
  have "(Suc y + 99) div 100 = y div 100 + 1" "(Suc y + 3) div 4 = y div 4 + 1" "(Suc y + 399) div 400 = y div 400 + 1"
    by simp_all
  then show ?case
    using Suc ceil_floor [of 4 y] ceil_floor [of 100 y] ceil_floor [of 400 y] dvd_400_100_4 [of y]
    by (auto simp: leap_def split: if_splits)
qed simp

text \<open>The first of March of year \<open>y\<close>.\<close>

lemma march_start:
  "year_start y + 59 + (if leap y then 1 else 0) + y div 100 = 365 * y + y div 4 + y div 400 + 60"
  using year_start_closed [of y] ceil_floor [of 4 y] ceil_floor [of 100 y] ceil_floor [of 400 y] dvd_400_100_4 [of y]
  by (auto simp: leap_def split: if_splits)

text \<open>
  A day of a year that begins in March: the month from March (0) to February (11) and the day
  of the month.
\<close>

lemma month_of_day:
  fixes doy :: nat
  defines "mp \<equiv> (5 * doy + 2) div 153"
  assumes "doy \<le> 365"
  shows "mp < 12" and "(153 * mp + 2) div 5 \<le> doy"
    and "mp < 11 \<Longrightarrow> doy < (153 * (mp + 1) + 2) div 5" and "mp = 11 \<longleftrightarrow> 337 \<le> doy"
proof -
  show "mp < 12" using assms(2) unfolding mp_def by simp
  have b: "153 * mp \<le> 5 * doy + 2" "5 * doy + 2 < 153 * (mp + 1)" unfolding mp_def by simp_all
  show "(153 * mp + 2) div 5 \<le> doy" using b(1) by simp
  show "mp < 11 \<Longrightarrow> doy < (153 * (mp + 1) + 2) div 5" using b(2) by simp
  show "mp = 11 \<longleftrightarrow> 337 \<le> doy" using b \<open>mp < 12\<close> by auto
qed

text \<open>
  A day of the 400 years that begin in March of a multiple of 400: centuries, blocks of four
  years and years.
\<close>

lemma era_split:
  assumes "doe < (146097::nat)"
  obtains c q a doy where "doe = 36524 * c + 1461 * q + 365 * a + doy"
    "c \<le> 3" "q \<le> 24" "a \<le> 3" "doy \<le> 365" "doy = 365 \<Longrightarrow> a = 3 \<and> (q < 24 \<or> c = 3)"
proof -
  define c where "c = min (doe div 36524) 3"
  define u where "u = doe - 36524 * c"
  have u: "doe = 36524 * c + u" "c \<le> 3" "u \<le> 36524" "u = 36524 \<Longrightarrow> c = 3"
  proof -
    show "c \<le> 3" by (simp add: c_def)
    have "36524 * c \<le> doe" "c < 3 \<Longrightarrow> doe < 36524 * (c + 1)" by (auto simp: c_def min_def)
    then show "doe = 36524 * c + u" "u \<le> 36524" "u = 36524 \<Longrightarrow> c = 3"
      using assms \<open>c \<le> 3\<close> by (cases "c < 3"; auto simp: u_def)+
  qed
  define q where "q = min (u div 1461) 24"
  define v where "v = u - 1461 * q"
  have v: "u = 1461 * q + v" "q \<le> 24" "v \<le> 1460" "v = 1460 \<Longrightarrow> q < 24 \<or> c = 3"
  proof -
    show "q \<le> 24" by (simp add: q_def)
    have "1461 * q \<le> u" "q < 24 \<Longrightarrow> u < 1461 * (q + 1)" by (auto simp: q_def min_def)
    then show "u = 1461 * q + v" "v \<le> 1460" "v = 1460 \<Longrightarrow> q < 24 \<or> c = 3"
      using u(3,4) \<open>q \<le> 24\<close> by (cases "q < 24"; auto simp: v_def)+
  qed
  define a where "a = min (v div 365) 3"
  define w where "w = v - 365 * a"
  have w: "v = 365 * a + w" "a \<le> 3" "w \<le> 365" "w = 365 \<Longrightarrow> a = 3 \<and> v = 1460"
  proof -
    show "a \<le> 3" by (simp add: a_def)
    have "365 * a \<le> v" "a < 3 \<Longrightarrow> v < 365 * (a + 1)" by (auto simp: a_def min_def)
    then show "v = 365 * a + w" "w \<le> 365" "w = 365 \<Longrightarrow> a = 3 \<and> v = 1460"
      using v(3) \<open>a \<le> 3\<close> by (cases "a < 3"; auto simp: w_def)+
  qed
  show thesis by (rule that [of c q a w]) (use u v w in auto)
qed

lemma year_of_era:
  assumes doe: "doe = 36524 * c + 1461 * q + 365 * a + doy"
    and r: "c \<le> 3" "q \<le> 24" "a \<le> 3" "doy \<le> 365" "doy = 365 \<Longrightarrow> a = 3 \<and> (q < 24 \<or> c = 3)" "doe < (146097::nat)"
  defines "yoe \<equiv> 100 * c + 4 * q + a"
  shows "doe div 1460 \<le> doe" "doe div 146096 \<le> doe - doe div 1460 + doe div 36524"
    and "(doe - doe div 1460 + doe div 36524 - doe div 146096) div 365 = yoe"
    and "yoe div 100 \<le> 365 * yoe + yoe div 4"
    and "365 * yoe + yoe div 4 - yoe div 100 = 36524 * c + 1461 * q + 365 * a"
    and "yoe < 400"
proof -
  define \<delta> where "\<delta> = (if 1460 \<le> 24 * c + q + 365 * a + doy then 1 else (0::nat))"
  define \<epsilon> where "\<epsilon> = (if doe = 146096 then 1 else (0::nat))"
  have d1: "doe div 1460 = 25 * c + q + \<delta>"
    using r by (intro div_nat_eqI) (auto simp: doe \<delta>_def)
  have d2: "doe div 146096 = \<epsilon>" using r(6) by (simp add: \<epsilon>_def)
  have "doe = 146096" if u: "1461 * q + 365 * a + doy = 36524"
  proof -
    have "doy = 365" using u r(2-4) by linarith
    then have "a = 3" "q < 24 \<or> c = 3" using r(5) by simp_all
    moreover have "\<not> q < 24" using u \<open>doy = 365\<close> \<open>a = 3\<close> by simp
    ultimately show ?thesis using u by (simp add: doe)
  qed
  moreover have "1461 * q + 365 * a + doy \<le> 36524" using r(2-4) by linarith
  ultimately have "\<epsilon> = 0 \<Longrightarrow> 1461 * q + 365 * a + doy < 36524" by (cases "1461 * q + 365 * a + doy = 36524") (auto simp: \<epsilon>_def)
  moreover have "\<epsilon> = 1 \<Longrightarrow> c = 3 \<and> 1461 * q + 365 * a + doy = 36524"
    using r(1-4) by (auto simp: \<epsilon>_def doe split: if_splits)
  moreover have "\<epsilon> = 0 \<or> \<epsilon> = 1" by (simp add: \<epsilon>_def)
  ultimately have d3: "doe div 36524 = c + \<epsilon>"
    by (intro div_nat_eqI) (auto simp: doe)
  have "\<delta> \<le> doy" using r(1-4) by (cases "doy = 0") (auto simp: \<delta>_def)
  moreover have "doy < 365 + \<delta>"
  proof (cases "doy = 365")
    case True
    then show ?thesis using r(5) by (simp add: \<delta>_def)
  next
    case False
    then show ?thesis using r(4) by simp
  qed
  ultimately show "doe div 1460 \<le> doe" "doe div 146096 \<le> doe - doe div 1460 + doe div 36524"
    "(doe - doe div 1460 + doe div 36524 - doe div 146096) div 365 = yoe"
    unfolding d1 d2 d3 by (auto simp: doe yoe_def intro!: div_nat_eqI)
  have y4: "yoe div 4 = 25 * c + q" and y100: "yoe div 100 = c"
    using r by (auto simp: yoe_def intro!: div_nat_eqI)
  show "yoe div 100 \<le> 365 * yoe + yoe div 4" "365 * yoe + yoe div 4 - yoe div 100 = 36524 * c + 1461 * q + 365 * a" "yoe < 400"
    unfolding y4 y100 using r by (auto simp: yoe_def)
qed

section \<open>Dates are right\<close>

text \<open>The same computation on natural numbers.\<close>

definition civil_nat :: "nat \<Rightarrow> nat \<times> nat \<times> nat" where
  "civil_nat days =
     (let era = days div 146097;
          doe = days - era * 146097;
          yoe = (doe - doe div 1460 + doe div 36524 - doe div 146096) div 365;
          y = yoe + era * 400;
          doy = doe - (365 * yoe + yoe div 4 - yoe div 100);
          mp = (5 * doy + 2) div 153;
          d = doy - (153 * mp + 2) div 5 + 1;
          m = (if mp < 10 then mp + 3 else mp - 9);
          y = y + (if m \<le> 2 then 1 else 0)
      in (y, m, d))"

text \<open>Months from March: what has passed of the year at the first of each.\<close>

lemma months_before:
  "sum_list (map (month_len y) [1..<3]) = 59 + (if leap y then 1 else 0)"
  "mp < 10 \<Longrightarrow> sum_list (map (month_len y) [1..<mp + 3]) = 59 + (if leap y then 1 else 0) + (153 * mp + 2) div 5"
proof -
  have two: "[1..<3] = [1, 2::nat]" by (simp add: upt_rec)
  show a: "sum_list (map (month_len y) [1..<3]) = 59 + (if leap y then 1 else 0)"
    unfolding two by (simp add: month_len_def)
  show "mp < 10 \<Longrightarrow> sum_list (map (month_len y) [1..<mp + 3]) = 59 + (if leap y then 1 else 0) + (153 * mp + 2) div 5"
  proof (induction mp)
    case 0
    then show ?case using a by simp
  next
    case (Suc mp)
    have "mp \<in> {0, 1, 2, 3, 4, 5, 6, 7, 8}" using Suc.prems by auto
    then have "month_len y (mp + 3) + (153 * mp + 2) div 5 = (153 * Suc mp + 2) div 5" by (auto simp: month_len_def)
    moreover have "[1..<Suc mp + 3] = [1..<mp + 3] @ [mp + 3]" using upt_Suc_append [of 1 "mp + 3"] by simp
    ultimately show ?case using Suc by (simp only: map_append sum_list_append) simp
  qed
qed

lemma year_start_march:
  "year_start (Suc y) = year_start y + 59 + (if leap y then 1 else 0) + 306"
  by simp

lemma month_valid:
  assumes "doy \<le> 365" and "doy = 365 \<Longrightarrow> leap (Y + 1)"
  defines "mp \<equiv> (5 * doy + 2) div 153"
  defines "d \<equiv> doy - (153 * mp + 2) div 5 + 1"
    and "m \<equiv> (if mp < 10 then mp + 3 else mp - 9)"
  defines "y \<equiv> Y + (if m \<le> 2 then 1 else 0)"
  shows "valid_date y m d \<and> day_number y m d = year_start Y + 59 + (if leap Y then 1 else 0) + doy"
proof -
  note b = month_of_day [OF assms(1), folded mp_def]
  have d: "doy = (153 * mp + 2) div 5 + (d - 1)" "1 \<le> d" using b(2) by (simp_all add: d_def)
  show ?thesis
  proof (cases "mp < 10")
    case True
    then have "mp \<in> {0, 1, 2, 3, 4, 5, 6, 7, 8, 9}" by auto
    moreover have "y = Y" "m = mp + 3" using True by (simp_all add: m_def y_def)
    moreover have "doy < (153 * (mp + 1) + 2) div 5" using b(3) True by simp
    ultimately have "valid_date y m d" using d by (auto simp: valid_date_def month_len_def)
    then show ?thesis using \<open>y = Y\<close> \<open>m = mp + 3\<close> months_before(2) [OF True, of Y] d by (simp add: day_number_def)
  next
    case False
    then have m: "mp = 10 \<and> m = 1 \<or> mp = 11 \<and> m = 2" and y: "y = Suc Y" using b(1) by (auto simp: m_def y_def)
    from m show ?thesis
    proof
      assume "mp = 10 \<and> m = 1"
      then show ?thesis using d b(3) y by (simp add: valid_date_def day_number_def month_len_def)
    next
      assume m: "mp = 11 \<and> m = 2"
      have one: "[1..<2] = [1::nat]" by (simp add: upt_rec)
      have "d \<le> month_len y 2" using d assms(1,2) m y by (cases "doy = 365") (auto simp: month_len_def)
      then show ?thesis using m d y one by (simp add: valid_date_def day_number_def month_len_def)
    qed
  qed
qed

lemma civil_nat_correct:
  assumes "civil_nat n = (y, m, d)"
  shows "valid_date y m d \<and> day_number y m d = n + 60"
proof -
  define era doe where "era = n div 146097" and "doe = n - era * 146097"
  have doe: "doe < 146097" "n = 146097 * era + doe"
    unfolding doe_def era_def by (simp_all add: minus_div_mult_eq_mod)
  obtain c q a doy where s: "doe = 36524 * c + 1461 * q + 365 * a + doy"
    "c \<le> 3" "q \<le> 24" "a \<le> 3" "doy \<le> 365" "doy = 365 \<Longrightarrow> a = 3 \<and> (q < 24 \<or> c = 3)"
    using era_split [OF doe(1)] by blast
  define yoe where "yoe = 100 * c + 4 * q + a"
  define Y where "Y = yoe + era * 400"
  note e = year_of_era [OF s doe(1), folded yoe_def]
  have doy: "doe - (365 * yoe + yoe div 4 - yoe div 100) = doy" using e(5) s(1) by simp
  have lp: "leap (Y + 1)" if "doy = 365"
  proof -
    have a: "a = 3" "q < 24 \<or> c = 3" using s(6) that by simp_all
    have Y: "Y + 1 = 100 * (c + 4 * era) + 4 * (q + 1)" by (simp add: Y_def yoe_def a(1))
    show ?thesis
    proof (cases "q = 24")
      case True
      then have "Y + 1 = 400 * (era + 1)" using a Y by simp
      then show ?thesis unfolding leap_def by (metis dvd_triv_left dvd_400_100_4)
    next
      case False
      then have "\<not> 100 dvd 4 * (q + 1)" using s(3) by (auto dest!: dvd_imp_le)
      then have "\<not> 100 dvd Y + 1" unfolding Y by (metis dvd_add_right_iff dvd_triv_left)
      moreover have "4 dvd Y + 1" unfolding Y by simp
      ultimately show ?thesis by (simp add: leap_def)
    qed
  qed
  define mp where "mp = (5 * doy + 2) div 153"
  have "civil_nat n = (Y + (if (if mp < 10 then mp + 3 else mp - 9) \<le> 2 then 1 else 0),
      if mp < 10 then mp + 3 else mp - 9, doy - (153 * mp + 2) div 5 + 1)"
    unfolding civil_nat_def Let_def
    by (simp only: era_def [symmetric]) (simp only: doe_def [symmetric] e(3) doy mp_def Y_def)
  then have "valid_date y m d \<and> day_number y m d = year_start Y + 59 + (if leap Y then 1 else 0) + doy"
    using month_valid [OF s(5) lp, folded mp_def] assms by simp
  moreover have "year_start Y + 59 + (if leap Y then 1 else 0) + doy = n + 60"
  proof -
    have "Y div 100 = yoe div 100 + era * 4" "Y div 4 = yoe div 4 + era * 100" "Y div 400 = era"
      using e(6) by (simp_all add: Y_def)
    moreover have "365 * Y = 365 * yoe + 146000 * era" by (simp add: Y_def)
    moreover have "365 * yoe + yoe div 4 = 36524 * c + 1461 * q + 365 * a + yoe div 100" using e(4,5) by simp
    ultimately show ?thesis using march_start [of Y] doe(2) s(1) by linarith
  qed
  ultimately show ?thesis by simp
qed

text \<open>The 32-bit computation does not wrap, so it is the one on natural numbers.\<close>

lemma u32_sub: "unat b \<le> unat a \<Longrightarrow> unat (a - b :: u32) = unat a - unat b"
  by (simp add: unat_sub word_le_nat_alt)

lemma u32_add: "unat a + unat b < 2 ^ 32 \<Longrightarrow> unat (a + b :: u32) = unat a + unat b"
  by (simp add: unat_add_no_wrap)

lemma u32_mult: "unat a * unat b < 2 ^ 32 \<Longrightarrow> unat (a * b :: u32) = unat a * unat b"
  by (simp add: unat_mult_no_wrap)

lemma civil_words:
  assumes "unat days + 737000 < 2 ^ 32" and "civil_from_days days = (y, m, d)"
  shows "civil_nat (unat days + 737000) = (unat y, unat m, unat d)"
proof -
  define w where "w = days + (719468 + 17532)"
  define era doe where "era = w div 146097" and "doe = w - era * 146097"
  have w: "unat w = unat days + 737000" using assms(1) by (simp add: w_def u32_add)
  have era: "unat era = unat w div 146097" by (simp add: era_def unat_div_distrib)
  have "unat era * 146097 \<le> unat w" unfolding era by simp
  then have em: "unat (era * 146097) = unat era * 146097" using unat_bound_u32 [of w] by (simp add: u32_mult)
  then have doe: "unat doe = unat w - unat era * 146097" using \<open>unat era * 146097 \<le> unat w\<close> by (simp add: doe_def u32_sub)
  have doe_lt: "unat doe < 146097" unfolding doe era by (simp add: minus_div_mult_eq_mod)
  obtain c q a r where s: "unat doe = 36524 * c + 1461 * q + 365 * a + r"
    "c \<le> 3" "q \<le> 24" "a \<le> 3" "r \<le> 365" "r = 365 \<Longrightarrow> a = 3 \<and> (q < 24 \<or> c = 3)"
    using era_split [OF doe_lt] by blast
  note e = year_of_era [OF s doe_lt]
  define yoe where "yoe = (doe - doe div 1460 + doe div 36524 - doe div 146096) div 365"
  have yoe: "unat yoe = (unat doe - unat doe div 1460 + unat doe div 36524 - unat doe div 146096) div 365"
  proof -
    have "unat (doe - doe div 1460) = unat doe - unat doe div 1460" using e(1) by (simp add: u32_sub unat_div_distrib)
    moreover from this have "unat (doe - doe div 1460 + doe div 36524) = unat doe - unat doe div 1460 + unat doe div 36524"
      using doe_lt by (simp add: u32_add unat_div_distrib)
    ultimately show ?thesis using e(2) by (simp add: yoe_def unat_div_distrib u32_sub)
  qed
  have yv: "unat yoe = 100 * c + 4 * q + a" using yoe e(3) by simp
  define doy where "doy = doe - (365 * yoe + yoe div 4 - yoe div 100)"
  have doy: "unat doy = unat doe - (365 * unat yoe + unat yoe div 4 - unat yoe div 100)" "unat doy = r"
  proof -
    have "unat (365 * yoe) = 365 * unat yoe" using yv e(6) by (simp add: u32_mult)
    then have "unat (365 * yoe + yoe div 4) = 365 * unat yoe + unat yoe div 4"
      using yv e(6) by (simp add: u32_add unat_div_distrib)
    then have "unat (365 * yoe + yoe div 4 - yoe div 100) = 365 * unat yoe + unat yoe div 4 - unat yoe div 100"
      using e(4) by (simp add: u32_sub unat_div_distrib yv)
    moreover have "365 * unat yoe + unat yoe div 4 - unat yoe div 100 \<le> unat doe" using e(5) s(1) by (simp add: yv)
    ultimately show "unat doy = unat doe - (365 * unat yoe + unat yoe div 4 - unat yoe div 100)"
      by (simp add: doy_def u32_sub)
    then show "unat doy = r" using e(5) s(1) by (simp add: yv)
  qed
  define mp where "mp = (5 * doy + 2) div 153"
  have mp: "unat mp = (5 * unat doy + 2) div 153"
  proof -
    have "unat (5 * doy) = 5 * unat doy" using doy(2) s(5) by (simp add: u32_mult)
    then have "unat (5 * doy + 2) = 5 * unat doy + 2" using doy(2) s(5) by (simp add: u32_add)
    then show ?thesis by (simp add: mp_def unat_div_distrib)
  qed
  note b = month_of_day [OF s(5), folded doy(2), folded mp]
  have dv: "unat (doy - (153 * mp + 2) div 5 + 1) = unat doy - (153 * unat mp + 2) div 5 + 1"
  proof -
    have "unat (153 * mp) = 153 * unat mp" using b(1) by (simp add: u32_mult)
    then have "unat (153 * mp + 2) = 153 * unat mp + 2" using b(1) by (simp add: u32_add)
    then have "unat (doy - (153 * mp + 2) div 5) = unat doy - (153 * unat mp + 2) div 5"
      using b(2) by (simp add: u32_sub unat_div_distrib)
    then show ?thesis using doy(2) s(5) by (simp add: u32_add)
  qed
  define mw where "mw = mp + (if mp < 10 then 3 else - 9)"
  have lt: "mp < 10 \<longleftrightarrow> unat mp < 10" by (simp add: word_less_nat_alt)
  have mw: "unat mw = (if unat mp < 10 then unat mp + 3 else unat mp - 9)"
    using b(1) lt by (auto simp: mw_def u32_add u32_sub)
  have yw: "unat (yoe + era * 400) = unat yoe + unat era * 400" "unat yoe + unat era * 400 < 2 ^ 32 - 1"
  proof -
    have "unat era \<le> 29398" using unat_bound_u32 [of w] div_le_mono [of "unat w" 4294967295 146097] by (simp add: era)
    then have "unat (era * 400) = unat era * 400" by (simp add: u32_mult)
    then show "unat (yoe + era * 400) = unat yoe + unat era * 400" "unat yoe + unat era * 400 < 2 ^ 32 - 1"
      using yv e(6) \<open>unat era \<le> 29398\<close> by (simp_all add: u32_add)
  qed
  have "(y, m, d) = (yoe + era * 400 + (if mw \<le> 2 then 1 else 0), mw, doy - (153 * mp + 2) div 5 + 1)"
    unfolding assms(2) [symmetric] civil_from_days_def Let_def
    by (simp only: w_def [symmetric] era_def [symmetric] doe_def [symmetric])
       (simp only: yoe_def [symmetric] doy_def [symmetric] mp_def [symmetric] mw_def [symmetric])
  then have "y = yoe + era * 400 + (if mw \<le> 2 then 1 else 0)" "m = mw" "d = doy - (153 * mp + 2) div 5 + 1" by auto
  then have "unat y = unat yoe + unat era * 400 + (if unat mw \<le> 2 then 1 else 0)" "unat m = unat mw"
    "unat d = unat doy - (153 * unat mp + 2) div 5 + 1"
    using yw dv by (auto simp: word_le_nat_alt u32_add)
  then show ?thesis
    unfolding civil_nat_def Let_def
    by (simp only: w [symmetric] era [symmetric] doe [symmetric])
       (simp only: yoe [symmetric] doy(1) [symmetric] mp [symmetric] mw [symmetric])
qed

lemma day_number_2018: "day_number 2018 1 1 = 737060"
  using year_start_closed [of 2018] by (simp add: day_number_def)

lemma date_correct:
  assumes "unat days + 737000 < 2 ^ 32" and "civil_from_days days = (y, m, d)"
  shows "valid_date (unat y) (unat m) (unat d)"
    and "day_number (unat y) (unat m) (unat d) = day_number 2018 1 1 + unat days"
  using civil_nat_correct [OF civil_words [OF assms]] unfolding day_number_2018 by simp_all

text \<open>Two dates of the calendar with the same number of days are the same date.\<close>

lemma year_start_mono: "y \<le> z \<Longrightarrow> year_start y \<le> year_start z"
  by (induction z) (auto simp: le_Suc_eq)

lemma months_sum_12: "sum_list (map (month_len y) [1..<13]) = (if leap y then 366 else 365)"
proof -
  have "[1..<13] = [1, 2, 3, 4, 5, 6, 7, 8, 9, 10, 11, 12::nat]" by (simp add: upt_rec)
  then show ?thesis by (simp add: month_len_def)
qed

lemma months_mono:
  assumes "valid_date y m d" and "m < n"
  shows "sum_list (map (month_len y) [1..<m]) + (d - 1) < sum_list (map (month_len y) [1..<n])"
proof -
  have "[1..<n] = [1..<m] @ m # [Suc m..<n]" using assms upt_add_eq_append [of 1 m "n - m"] by (simp add: valid_date_def upt_conv_Cons)
  then have "sum_list (map (month_len y) [1..<n])
      = sum_list (map (month_len y) [1..<m]) + month_len y m + sum_list (map (month_len y) [Suc m..<n])"
    by simp
  moreover have "d - 1 < month_len y m" using assms(1) by (auto simp: valid_date_def)
  ultimately show ?thesis by linarith
qed

lemma day_number_inject:
  assumes a: "valid_date y m d" and b: "valid_date y' m' d'" and eq: "day_number y m d = day_number y' m' d'"
  shows "y = y' \<and> m = m' \<and> d = d'"
proof -
  have bound: "day_number y m d < year_start (Suc y)" if "valid_date y m d" for y m d
    using months_mono [OF that, of 13] that months_sum_12 [of y] by (simp add: day_number_def valid_date_def)
  have low: "year_start y \<le> day_number y m d" for y m d by (simp add: day_number_def)
  have "\<not> y < y'" "\<not> y' < y"
    using bound [OF a] bound [OF b] low [of y m d] low [of y' m' d'] eq
      year_start_mono [of "Suc y" y'] year_start_mono [of "Suc y'" y] by (auto simp del: year_start.simps)
  then have y: "y = y'" by simp
  have "\<not> m < m'" "\<not> m' < m"
    using months_mono [OF a, of m'] months_mono [OF b, of m] eq y by (auto simp: day_number_def)
  then have "m = m'" by simp
  then show ?thesis using y eq a b by (auto simp: day_number_def valid_date_def)
qed

section \<open>The printed text\<close>

lemma dec_digits_length: "n < 10 ^ Suc k \<Longrightarrow> length (dec_digits n) \<le> Suc k \<and> dec_digits n \<noteq> []"
proof (induction k arbitrary: n)
  case 0
  then show ?case by (simp add: dec_digits.simps)
next
  case (Suc k)
  have "n div 10 < 10 ^ Suc k" using Suc.prems by (simp add: less_mult_imp_div_less)
  then show ?case using Suc.IH [of "n div 10"] by (subst (1 2) dec_digits.simps) auto
qed

lemma pad_digits_length: "0 < w \<Longrightarrow> unat n < 10 ^ w \<Longrightarrow> length (pad_digits w n) = w"
  using dec_digits_length [of "unat n" "w - 1"] by (simp add: pad_digits_def Let_def)

lemma unat_word_of_int_u32: "0 \<le> k \<Longrightarrow> k < 2 ^ 32 \<Longrightarrow> unat (word_of_int k :: u32) = nat k"
  by (simp add: unat_eq_nat_uint unsigned_of_int take_bit_int_eq_self)

lemma time_of_day_value:
  assumes "0 \<le> s" and "time_of_day s = (hh, mm, ss)"
  shows "unat hh = nat (s div 3600) mod 24" and "unat mm = nat (s div 60) mod 60" and "unat ss = nat s mod 60"
proof -
  define r where "r = s mod 86400"
  define w where "w = (word_of_int r :: u32)"
  have r: "0 \<le> r" "r < 86400" by (simp_all add: r_def)
  have w: "unat w = nat r" using r by (simp add: w_def unat_word_of_int_u32)
  have eq: "hh = w div 3600" "mm = (w - hh * 3600) div 60" "ss = w - hh * 3600 - mm * 60"
    using assms by (auto simp: time_of_day_def tdiv_def Let_def w_def r_def minus_div_mult_eq_mod)
  have hh: "unat hh = nat r div 3600" by (simp add: eq(1) unat_div_distrib w)
  then have "unat hh < 24" using r by (simp add: div_less_iff_less_mult)
  then have "unat (hh * 3600) = unat hh * 3600" by (simp add: u32_mult)
  then have s1: "unat (w - hh * 3600) = nat r mod 3600"
    using w hh by (simp add: u32_sub minus_div_mult_eq_mod)
  then have mm: "unat mm = nat r mod 3600 div 60" by (simp add: eq(2) unat_div_distrib)
  then have "unat mm < 60" by (simp add: div_less_iff_less_mult)
  then have "unat (mm * 60) = unat mm * 60" by (simp add: u32_mult)
  then have ss: "unat ss = nat r mod 3600 mod 60"
    unfolding eq(3) using s1 mm by (simp add: u32_sub minus_div_mult_eq_mod)
  define S where "S = nat s"
  have S: "nat r = S mod 86400" "nat (s div 3600) = S div 3600" "nat (s div 60) = S div 60"
    using assms(1) by (simp_all add: r_def S_def nat_mod_distrib nat_div_distrib)
  have "S mod 86400 div 3600 = S div 3600 mod 24"
    using mod_mult2_eq [of S 3600 24] by simp
  then show "unat hh = nat (s div 3600) mod 24" using hh S by simp
  have "S mod 86400 mod 3600 = S mod 3600" by (simp add: mod_mod_cancel)
  moreover have "S mod 3600 div 60 = S div 60 mod 60" using mod_mult2_eq [of S 60 60] by simp
  ultimately show "unat mm = nat (s div 60) mod 60" using mm S by simp
  show "unat ss = nat s mod 60" using ss S by (simp add: S_def mod_mod_cancel)
qed

text \<open>
  The text of a time that is not negative: the microseconds \<open>us\<close> since the epoch, rounded to the
  nearest, as a date of the calendar and a time of day.
\<close>

lemma time_to_str_text:
  assumes t: "0 \<le> sint t" and sz: "0 < sz"
  defines "us \<equiv> nat ((sint t * 1000000 + 2 ^ 29) div 2 ^ 30)"
  shows "\<exists>y m d hh mm ss u. jsdrv_time_to_str t sz
      = Inr (min 26 (int sz - 1),
             Some (take (sz - 1) (pad_digits 4 y @ ''-'' @ pad_digits 2 m @ ''-'' @ pad_digits 2 d @ ''T''
               @ pad_digits 2 hh @ '':'' @ pad_digits 2 mm @ '':'' @ pad_digits 2 ss @ ''.'' @ pad_digits 6 u)))
    \<and> valid_date (unat y) (unat m) (unat d)
    \<and> day_number (unat y) (unat m) (unat d) = day_number 2018 1 1 + us div 86400000000
    \<and> unat y < 10000
    \<and> unat hh = us div 3600000000 mod 24 \<and> unat mm = us div 60000000 mod 60
    \<and> unat ss = us div 1000000 mod 60 \<and> unat u = us mod 1000000"
proof -
  have "uint t < 2 ^ 63" "sint t = uint t" using t uint_u64 [of t] by (simp_all add: sint_uint_64 split: if_splits)
  then have tb: "sint t < 2 ^ 63" by simp
  have tn: "t \<noteq> U64_SIGN_BIT" using \<open>uint t < 2 ^ 63\<close> by (auto simp: U64_SIGN_BIT_def)
  define M where "M = (sint t * 1000000 + 2 ^ 29) div 2 ^ 30"
  have M: "0 \<le> M" "M < 2 ^ 53" unfolding M_def
    using t tb int_div_less_self_mult [of "2 ^ 30" "sint t * 1000000 + 2 ^ 29" "2 ^ 53"]
    by (simp_all add: pos_imp_zdiv_nonneg_iff)
  have us: "us = nat M" by (simp add: us_def M_def)
  obtain c where c: "JSDRV_TIME_TO_COUNTER t 1000000 = Inr c" "sint c = M"
    using time_to_counter_nearest [OF tn, of 1000000] t tb by (auto simp: M_def)
  define s where "s = M div 1000000"
  have s: "0 \<le> s" "s < 2 ^ 34" using M int_div_less_self_mult [of 1000000 M "2 ^ 34"] by (simp_all add: s_def pos_imp_zdiv_nonneg_iff)
  have S: "nat s = us div 1000000" using M by (simp add: s_def us nat_div_distrib)
  define days where "days = (word_of_int (s div 86400) :: u32)"
  have dd: "0 \<le> s div 86400" "s div 86400 < 200000"
    using s int_div_less_self_mult [of 86400 s 200000] by (simp_all add: pos_imp_zdiv_nonneg_iff)
  have days: "unat days = us div 86400000000"
  proof -
    have "unat days = nat (s div 86400)" unfolding days_def using dd by (intro unat_word_of_int_u32) simp_all
    also have "\<dots> = us div 1000000 div 86400" using s(1) S by (simp add: nat_div_distrib)
    finally show ?thesis by (simp add: div_mult2_eq [symmetric])
  qed
  define u where "u = (word_of_int (M - s * 1000000) :: u32)"
  have u: "unat u = us mod 1000000"
  proof -
    have "M - s * 1000000 = M mod 1000000" by (simp add: s_def minus_div_mult_eq_mod)
    moreover have "0 \<le> M mod 1000000" "M mod 1000000 < 2 ^ 32" by (simp, rule less_trans [OF pos_mod_bound], simp_all)
    ultimately have "unat u = nat (M mod 1000000)" by (simp only: u_def unat_word_of_int_u32)
    then show ?thesis using M by (simp add: us nat_mod_distrib)
  qed
  obtain y m d where ymd: "civil_from_days days = (y, m, d)" by (metis prod_cases3)
  obtain hh mm ss where tod: "time_of_day s = (hh, mm, ss)" by (metis prod_cases3)
  have du: "unat days < 200000"
    using dd by (simp add: days_def unat_word_of_int_u32 nat_less_iff)
  note date = date_correct [OF _ ymd]
  have y: "unat y < 10000"
  proof (rule ccontr)
    assume "\<not> unat y < 10000"
    then have "year_start 10000 \<le> year_start (unat y)" by (intro year_start_mono) simp
    also have "\<dots> \<le> day_number 2018 1 1 + unat days" using date(2) du by (simp add: day_number_def)
    finally show False using year_start_closed [of 10000] du by (simp add: day_number_2018 [simplified])
  qed
  have td: "tdiv M 1000000 = s" "tdiv s 86400 = s div 86400" using M(1) s(1) by (simp_all add: tdiv_def s_def)
  have "jsdrv_time_to_str t sz = Inr (min 26 (int sz - 1),
         Some (take (sz - 1) (pad_digits 4 y @ ''-'' @ pad_digits 2 m @ ''-'' @ pad_digits 2 d @ ''T''
               @ pad_digits 2 hh @ '':'' @ pad_digits 2 mm @ '':'' @ pad_digits 2 ss @ ''.'' @ pad_digits 6 u)))"
    unfolding jsdrv_time_to_str_def c(1) cbind_simps Let_def c(2) td days_def [symmetric] u_def [symmetric] ymd tod prod.case
    using sz by (auto simp: JSDRV_TIME_STRING_LENGTH_def min_def)
  moreover have "valid_date (unat y) (unat m) (unat d)"
    "day_number (unat y) (unat m) (unat d) = day_number 2018 1 1 + us div 86400000000"
    using date du by (simp_all only: days) simp_all
  moreover have n: "nat (s div 3600) = us div 3600000000" "nat (s div 60) = us div 60000000"
    using s(1) S by (simp_all add: nat_div_distrib div_mult2_eq [symmetric])
  moreover have "unat hh = us div 3600000000 mod 24" "unat mm = us div 60000000 mod 60" "unat ss = us div 1000000 mod 60"
    using time_of_day_value [OF s(1) tod] by (simp_all only: n S)
  ultimately show ?thesis using y u by blast
qed

text \<open>
  C30. The text of every time that is not negative, in a buffer of at least 27 bytes: with \<open>us\<close> the
  microseconds since the epoch (2018-01-01) rounded to the nearest, the text is the date of the
  calendar with that number of days since the epoch, defined by month lengths and the leap year
  rule, then the time of day. It has 26 characters, the number returned.
\<close>

theorem jsdrv_time_to_str_correct:
  assumes "0 \<le> sint t" and "27 \<le> sz" and "us = nat ((sint t * 1000000 + 2 ^ 29) div 2 ^ 30)"
    and "valid_date y m d" and "day_number y m d = day_number 2018 1 1 + us div 86400000000"
  shows "\<exists>s. jsdrv_time_to_str t sz = Inr (26, Some s) \<and> length s = 26
    \<and> s = pad_digits 4 (of_nat y) @ ''-'' @ pad_digits 2 (of_nat m) @ ''-'' @ pad_digits 2 (of_nat d) @ ''T''
          @ pad_digits 2 (of_nat (us div 3600000000 mod 24)) @ '':'' @ pad_digits 2 (of_nat (us div 60000000 mod 60)) @ '':''
          @ pad_digits 2 (of_nat (us div 1000000 mod 60)) @ ''.'' @ pad_digits 6 (of_nat (us mod 1000000))"
proof -
  have sz: "0 < sz" using assms(2) by simp
  obtain y' m' d' hh mm ss u where
    s: "jsdrv_time_to_str t sz = Inr (min 26 (int sz - 1),
         Some (take (sz - 1) (pad_digits 4 y' @ ''-'' @ pad_digits 2 m' @ ''-'' @ pad_digits 2 d' @ ''T''
           @ pad_digits 2 hh @ '':'' @ pad_digits 2 mm @ '':'' @ pad_digits 2 ss @ ''.'' @ pad_digits 6 u)))"
    and date: "valid_date (unat y') (unat m') (unat d')"
      "day_number (unat y') (unat m') (unat d') = day_number 2018 1 1 + us div 86400000000" "unat y' < 10000"
    and tod: "unat hh = us div 3600000000 mod 24" "unat mm = us div 60000000 mod 60" "unat ss = us div 1000000 mod 60" "unat u = us mod 1000000"
    using time_to_str_text [OF assms(1) sz] unfolding assms(3) [symmetric] by (elim exE conjE) (rule that; assumption)
  have eq: "y' = of_nat y" "m' = of_nat m" "d' = of_nat d"
    using day_number_inject [OF date(1) assms(4)] date(2) assms(5) by auto
  have eqt: "hh = of_nat (us div 3600000000 mod 24)" "mm = of_nat (us div 60000000 mod 60)"
    "ss = of_nat (us div 1000000 mod 60)" "u = of_nat (us mod 1000000)"
    by (simp_all only: tod [symmetric] of_nat_unat ucast_id)
  have "unat m' \<le> 12" "unat d' \<le> 31" using date(1) by (auto simp: valid_date_def month_len_def split: if_splits)
  moreover have "unat hh < 24" "unat mm < 60" "unat ss < 60" "unat u < 1000000" unfolding tod by simp_all
  ultimately have "length (pad_digits 4 y') = 4" "length (pad_digits 2 m') = 2" "length (pad_digits 2 d') = 2" "length (pad_digits 2 hh) = 2"
    "length (pad_digits 2 mm) = 2" "length (pad_digits 2 ss) = 2" "length (pad_digits 6 u) = 6"
    using date(3) by (simp_all add: pad_digits_length)
  then show ?thesis using s assms(2) unfolding eq eqt by simp
qed

theorem jsdrv_time_to_str_correct_witness:
  "jsdrv_time_to_str 73245187391881216 27 = Inr (26, Some ''2020-02-29T12:34:56.500000'')"
proof -
  have "\<exists>s. jsdrv_time_to_str 73245187391881216 27 = Inr (26, Some s) \<and> length s = 26
    \<and> s = pad_digits 4 (of_nat 2020) @ ''-'' @ pad_digits 2 (of_nat 2) @ ''-'' @ pad_digits 2 (of_nat 29) @ ''T''
          @ pad_digits 2 (of_nat (68214896500000 div 3600000000 mod 24)) @ '':'' @ pad_digits 2 (of_nat (68214896500000 div 60000000 mod 60)) @ '':''
          @ pad_digits 2 (of_nat (68214896500000 div 1000000 mod 60)) @ ''.'' @ pad_digits 6 (of_nat (68214896500000 mod 1000000))"
  proof (rule jsdrv_time_to_str_correct)
    show "valid_date 2020 2 29" by (simp add: valid_date_def month_len_def leap_def)
    show "day_number 2020 2 29 = day_number 2018 1 1 + 68214896500000 div 86400000000"
      unfolding day_number_2018 using year_start_closed [of 2020] by (simp add: day_number_def month_len_def upt_rec)
  qed simp_all
  then show ?thesis by (simp add: pad_digits_def dec_digits.simps char_of_def bit_0)
qed

end
