(* ===== verification/Stats.thy ===== *)
theory Stats
  imports I128
begin

text \<open>
  The statistics accumulators of \<^verbatim>\<open>src/statistics.c\<close> and the summary entries they are stored in
  (\<^verbatim>\<open>include/jsdrv.h\<close>). All numbers are IEEE 754 bit patterns: \<^verbatim>\<open>double\<close> in an accumulator, \<^verbatim>\<open>float\<close> in an entry.
\<close>

section \<open>Data\<close>

record summary_entry_s =
  se_avg :: u32
  se_std :: u32
  se_min :: u32
  se_max :: u32

record statistics_accum_s =
  st_k :: u64
  st_mean :: u64
  st_s :: u64
  st_min :: u64
  st_max :: u64

definition FLT_MAX :: u32 where "FLT_MAX = 0x7F7FFFFF"
definition FLT_MIN_MAX :: u32 where "FLT_MIN_MAX = 0xFF7FFFFF"
definition DBL_MAX :: u64 where "DBL_MAX = 0x7FEFFFFFFFFFFFFF"

text \<open>A \<^verbatim>\<open>uint64_t\<close> as a \<^verbatim>\<open>double\<close>.\<close>

definition u64_to_f64 :: "u64 \<Rightarrow> u64" where "u64_to_f64 k = int_to_f64 (uint k)"

definition F64_ONE :: u64 where "F64_ONE = 0x3FF0000000000000"

section \<open>Operations\<close>

definition jsdrv_statistics_reset :: "statistics_accum_s" where
  "jsdrv_statistics_reset = \<lparr>st_k = 0, st_mean = 0, st_s = 0, st_min = DBL_MAX, st_max = f64_neg DBL_MAX\<rparr>"

definition jsdrv_statistics_adjust_k :: "statistics_accum_s \<Rightarrow> u64 \<Rightarrow> statistics_accum_s" where
  "jsdrv_statistics_adjust_k s k =
     (if st_k s > 0 then s\<lparr>st_s := f64_mul (f64_div (st_s s) (u64_to_f64 (st_k s))) (u64_to_f64 k), st_k := k\<rparr>
      else s\<lparr>st_k := k\<rparr>)"

definition jsdrv_statistics_invalid :: "statistics_accum_s \<Rightarrow> statistics_accum_s" where
  "jsdrv_statistics_invalid s = s\<lparr>st_mean := F64_NAN, st_s := F64_NAN, st_min := F64_NAN, st_max := F64_NAN\<rparr>"

text \<open>The two passes over an array: sum, least and greatest, then the squared distances from the mean.\<close>

primrec compute_f32_sum :: "u32 list \<Rightarrow> u64 \<times> u32 \<times> u32 \<Rightarrow> u64 \<times> u32 \<times> u32" where
  "compute_f32_sum [] acc = acc"
| "compute_f32_sum (v # xs) acc =
     (case acc of (v_mean, v_min, v_max) \<Rightarrow>
        compute_f32_sum xs (f64_add v_mean (f32_to_f64 v),
          if f32_less v v_min then v else v_min, if f32_less v_max v then v else v_max))"

primrec compute_f64_sum :: "u64 list \<Rightarrow> u64 \<times> u64 \<times> u64 \<Rightarrow> u64 \<times> u64 \<times> u64" where
  "compute_f64_sum [] acc = acc"
| "compute_f64_sum (v # xs) acc =
     (case acc of (v_mean, v_min, v_max) \<Rightarrow>
        compute_f64_sum xs (f64_add v_mean v,
          if f64_less v v_min then v else v_min, if f64_less v_max v then v else v_max))"

primrec compute_var :: "u64 list \<Rightarrow> u64 \<Rightarrow> u64 \<Rightarrow> u64" where
  "compute_var [] v_mean v_var = v_var"
| "compute_var (x # xs) v_mean v_var =
     (let m = f64_sub x v_mean in compute_var xs v_mean (f64_add v_var (f64_mul m m)))"

definition jsdrv_statistics_compute_f32 :: "u32 list \<Rightarrow> statistics_accum_s" where
  "jsdrv_statistics_compute_f32 x =
     (if x = [] then jsdrv_statistics_reset
      else case compute_f32_sum x (0, FLT_MAX, FLT_MIN_MAX) of (v_mean, v_min, v_max) \<Rightarrow>
        let v_mean = f64_div v_mean (u64_to_f64 (of_nat (length x)))
        in \<lparr>st_k = of_nat (length x), st_mean = v_mean, st_s = compute_var (map f32_to_f64 x) v_mean 0,
            st_min = f32_to_f64 v_min, st_max = f32_to_f64 v_max\<rparr>)"

definition jsdrv_statistics_compute_f64 :: "u64 list \<Rightarrow> statistics_accum_s" where
  "jsdrv_statistics_compute_f64 x =
     (if x = [] then jsdrv_statistics_reset
      else case compute_f64_sum x (0, DBL_MAX, f64_neg DBL_MAX) of (v_mean, v_min, v_max) \<Rightarrow>
        let v_mean = f64_div v_mean (u64_to_f64 (of_nat (length x)))
        in \<lparr>st_k = of_nat (length x), st_mean = v_mean, st_s = compute_var x v_mean 0, st_min = v_min, st_max = v_max\<rparr>)"

definition jsdrv_statistics_add :: "statistics_accum_s \<Rightarrow> u64 \<Rightarrow> statistics_accum_s" where
  "jsdrv_statistics_add s x =
     (let k = st_k s + 1;
          m_old = st_mean s;
          m_new = f64_add (st_mean s) (f64_div (f64_sub x (st_mean s)) (u64_to_f64 k))
      in \<lparr>st_k = k, st_mean = m_new,
          st_s = f64_add (st_s s) (f64_mul (f64_sub x m_old) (f64_sub x m_new)),
          st_min = (if f64_less x (st_min s) then x else st_min s),
          st_max = (if f64_less (st_max s) x then x else st_max s)\<rparr>)"

definition jsdrv_statistics_var :: "statistics_accum_s \<Rightarrow> u64" where
  "jsdrv_statistics_var s = (if st_k s \<le> 1 then 0 else f64_div (st_s s) (u64_to_f64 (st_k s - 1)))"

definition jsdrv_statistics_combine :: "statistics_accum_s \<Rightarrow> statistics_accum_s \<Rightarrow> statistics_accum_s" where
  "jsdrv_statistics_combine a b =
     (let kt = st_k a + st_k b
      in if kt = 0 then jsdrv_statistics_reset
         else if st_k a = 0 then b
         else if st_k b = 0 then a
         else
           let f1 = f64_div (u64_to_f64 (st_k a)) (u64_to_f64 kt);
               mean_new = f64_add (f64_mul f1 (st_mean a)) (f64_mul (f64_sub F64_ONE f1) (st_mean b));
               m1_diff = f64_sub (st_mean a) mean_new;
               m2_diff = f64_sub (st_mean b) mean_new
           in \<lparr>st_k = kt, st_mean = mean_new,
               st_s = f64_add (f64_add (st_s a) (f64_mul (f64_mul (u64_to_f64 (st_k a)) m1_diff) m1_diff))
                              (f64_add (st_s b) (f64_mul (f64_mul (u64_to_f64 (st_k b)) m2_diff) m2_diff)),
               st_min = (if f64_less (st_min a) (st_min b) then st_min a else st_min b),
               st_max = (if f64_less (st_max b) (st_max a) then st_max a else st_max b)\<rparr>)"

definition jsdrv_statistics_from_entry :: "summary_entry_s \<Rightarrow> u64 \<Rightarrow> statistics_accum_s" where
  "jsdrv_statistics_from_entry e k =
     \<lparr>st_k = k, st_mean = f32_to_f64 (se_avg e),
      st_s = f64_mul (f64_mul (f32_to_f64 (se_std e)) (f32_to_f64 (se_std e))) (u64_to_f64 k),
      st_min = f32_to_f64 (se_min e), st_max = f32_to_f64 (se_max e)\<rparr>"

definition jsdrv_statistics_to_entry :: "statistics_accum_s \<Rightarrow> summary_entry_s" where
  "jsdrv_statistics_to_entry s =
     \<lparr>se_avg = f64_to_f32 (st_mean s),
      se_std = (if st_k s > 1 then f64_to_f32 (f64_sqrt (f64_div (st_s s) (u64_to_f64 (st_k s - 1)))) else 0),
      se_min = f64_to_f32 (st_min s), se_max = f64_to_f32 (st_max s)\<rparr>"

end
