(* ===== verification/Bufsig.thy ===== *)
theory Bufsig
  imports Stats Tmap
begin

text \<open>
  The sample buffer of one signal (\<^verbatim>\<open>src/buffer_signal.c\<close>): a ring of samples of 1, 4 or 32 bits,
  packed in bytes, and levels of summaries above it. Sample identifiers and the numbers of a
  request are 64-bit words; positions in the ring and sizes of arrays are natural numbers, which
  are bounded by the memory that was allocated. A loop that may not end has fuel, and \<open>OutOfFuel\<close> is its
  result when it does not end. The contents of memory as allocated are arguments.
\<close>

section \<open>Packed bits\<close>

text \<open>\<^verbatim>\<open>memset\<close> to zero of \<open>n\<close> bytes.\<close>

definition mem_zero :: "u8 list \<Rightarrow> nat \<Rightarrow> nat \<Rightarrow> u8 list c" where
  "mem_zero dst i n = (if i + n \<le> length dst then Inr (take i dst @ replicate n 0 @ drop (i + n) dst) else Inl OutOfBounds)"

text \<open>The body of the loops for a single bit.\<close>

definition bit_put :: "u8 \<Rightarrow> nat \<Rightarrow> u8 \<Rightarrow> u8" where
  "bit_put d i b = (let mask = push_bit i 1 in if b \<noteq> 0 then d OR mask else d AND NOT mask)"

function bits_copy :: "u8 list \<Rightarrow> nat \<Rightarrow> u8 list \<Rightarrow> nat \<Rightarrow> nat \<Rightarrow> u8 list c" where
  "bits_copy dst dst_bit src src_bit bit_count =
     (if bit_count = 0 then Inr dst
      else if dst_bit mod 8 = 0 \<and> src_bit mod 8 = 0 \<and> bit_count \<ge> 8 then
        let byte_count = bit_count div 8
        in cbind (ent_copy dst (dst_bit div 8) src (src_bit div 8) byte_count) (\<lambda>dst.
             bits_copy dst (dst_bit + 8 * byte_count) src (src_bit + 8 * byte_count) (bit_count - 8 * byte_count))
      else
        cbind (buf_get src (src_bit div 8)) (\<lambda>s. cbind (buf_get dst (dst_bit div 8)) (\<lambda>d.
          cbind (buf_set dst (dst_bit div 8) (bit_put d (dst_bit mod 8) (drop_bit (src_bit mod 8) s AND 1))) (\<lambda>dst.
            bits_copy dst (dst_bit + 1) src (src_bit + 1) (bit_count - 1)))))"
  by pat_completeness auto
termination by (relation "measure (\<lambda>(_, _, _, _, n). n)") auto

function bits_zero :: "u8 list \<Rightarrow> nat \<Rightarrow> nat \<Rightarrow> u8 list c" where
  "bits_zero dst dst_bit bit_count =
     (if bit_count = 0 then Inr dst
      else if dst_bit mod 8 = 0 \<and> bit_count \<ge> 8 then
        let byte_count = bit_count div 8
        in cbind (mem_zero dst (dst_bit div 8) byte_count) (\<lambda>dst.
             bits_zero dst (dst_bit + 8 * byte_count) (bit_count - 8 * byte_count))
      else
        cbind (buf_get dst (dst_bit div 8)) (\<lambda>d.
          cbind (buf_set dst (dst_bit div 8) (bit_put d (dst_bit mod 8) 0)) (\<lambda>dst.
            bits_zero dst (dst_bit + 1) (bit_count - 1))))"
  by pat_completeness auto
termination by (relation "measure (\<lambda>(_, _, n). n)") auto

declare bits_copy.simps [simp del] bits_zero.simps [simp del]

text \<open>A \<^verbatim>\<open>float\<close> in memory, least significant byte first.\<close>

definition f32_bytes :: "u32 \<Rightarrow> u8 list" where
  "f32_bytes w = [ucast w, ucast (drop_bit 8 w), ucast (drop_bit 16 w), ucast (drop_bit 24 w)]"

definition f32_load :: "u8 list \<Rightarrow> nat \<Rightarrow> u32 c" where
  "f32_load b i =
     (if 4 * i + 4 \<le> length b
      then Inr (ucast (b ! (4 * i)) OR push_bit 8 (ucast (b ! (4 * i + 1)))
             OR push_bit 16 (ucast (b ! (4 * i + 2))) OR push_bit 24 (ucast (b ! (4 * i + 3))))
      else Inl OutOfBounds)"

definition f32_store :: "u8 list \<Rightarrow> nat \<Rightarrow> u32 \<Rightarrow> u8 list c" where
  "f32_store b i w = ent_copy b (4 * i) (f32_bytes w) 0 4"

section \<open>State\<close>

definition JSDRV_DATA_TYPE_UINT :: u8 where "JSDRV_DATA_TYPE_UINT = 3"
definition JSDRV_DATA_TYPE_FLOAT :: u8 where "JSDRV_DATA_TYPE_FLOAT = 4"
definition JSDRV_BUFSIG_LEVELS_MAX :: nat where "JSDRV_BUFSIG_LEVELS_MAX = 32"

record stream_header_s =
  hd_sample_id :: u64
  hd_field_id :: u8
  hd_index :: u8
  hd_element_type :: u8
  hd_element_size_bits :: u8
  hd_element_count :: u32
  hd_sample_rate :: u32
  hd_decimate_factor :: u32

record stream_signal_s = stream_header_s +
  ss_time_map :: time_map_s
  ss_data :: "u8 list"

text \<open>A level of summaries; \<open>None\<close> is no array.\<close>

record bufsig_level_s =
  lv_k :: nat
  lv_r :: nat
  lv_samples_per_entry :: nat
  lv_data :: "summary_entry_s list option"

record bufsig_s =
  bs_active :: bool
  bs_topic :: string
  bs_hdr :: stream_header_s
  bs_tmap :: "tmap_s option"
  bs_N :: nat
  bs_size_in_utc :: int
  bs_r0 :: nat
  bs_rN :: nat
  bs_k :: nat
  bs_level_count :: u8
  bs_levels :: "bufsig_level_s list"
  bs_head :: nat
  bs_size :: nat
  bs_sample_id_head :: u64
  bs_data :: "u8 list option"

definition level_zero :: bufsig_level_s where
  "level_zero = \<lparr>lv_k = 0, lv_r = 0, lv_samples_per_entry = 0, lv_data = None\<rparr>"

definition hdr_zero :: stream_header_s where
  "hdr_zero = \<lparr>hd_sample_id = 0, hd_field_id = 0, hd_index = 0, hd_element_type = 0, hd_element_size_bits = 0,
     hd_element_count = 0, hd_sample_rate = 0, hd_decimate_factor = 0\<rparr>"

abbreviation ebits :: "bufsig_s \<Rightarrow> nat" where
  "ebits s \<equiv> unat (hd_element_size_bits (bs_hdr s))"

definition entry_clear :: summary_entry_s where
  "entry_clear = \<lparr>se_avg = F32_NAN, se_std = F32_NAN, se_min = F32_NAN, se_max = F32_NAN\<rparr>"

text \<open>The entry of a level that a pointer would point to: \<open>None\<close> is the null pointer.\<close>

definition level_entry :: "bufsig_s \<Rightarrow> nat \<Rightarrow> nat \<Rightarrow> nat option c" where
  "level_entry s level idx =
     cbind (jsdrv_assert (level > 0)) (\<lambda>_. cbind (jsdrv_assert (level < JSDRV_BUFSIG_LEVELS_MAX)) (\<lambda>_.
     cbind (buf_get (bs_levels s) (level - 1)) (\<lambda>lvl.
       if idx \<ge> lv_k lvl then Inr None else Inr (Some idx))))"

text \<open>Reading and writing through that pointer.\<close>

definition entry_get :: "bufsig_s \<Rightarrow> nat \<Rightarrow> nat option \<Rightarrow> summary_entry_s c" where
  "entry_get s level p =
     (case p of None \<Rightarrow> Inl OutOfBounds
      | Some i \<Rightarrow> cbind (buf_get (bs_levels s) (level - 1)) (\<lambda>lvl.
          case lv_data lvl of None \<Rightarrow> Inl OutOfBounds | Some d \<Rightarrow> buf_get d i))"

definition entry_set :: "bufsig_s \<Rightarrow> nat \<Rightarrow> nat option \<Rightarrow> summary_entry_s \<Rightarrow> bufsig_s c" where
  "entry_set s level p y =
     (case p of None \<Rightarrow> Inl OutOfBounds
      | Some i \<Rightarrow> cbind (buf_get (bs_levels s) (level - 1)) (\<lambda>lvl.
          case lv_data lvl of None \<Rightarrow> Inl OutOfBounds
          | Some d \<Rightarrow> cbind (buf_set d i y) (\<lambda>d.
              Inr (s\<lparr>bs_levels := (bs_levels s)[level - 1 := lvl\<lparr>lv_data := Some d\<rparr>]\<rparr>))))"

section \<open>Allocation\<close>

definition jsdrv_bufsig_element_type_is_supported :: "u8 \<Rightarrow> u8 \<Rightarrow> bool" where
  "jsdrv_bufsig_element_type_is_supported element_type element_size_bits =
     (if element_type = JSDRV_DATA_TYPE_FLOAT then element_size_bits = 32
      else if element_type = JSDRV_DATA_TYPE_UINT then element_size_bits = 1 \<or> element_size_bits = 4
      else False)"

text \<open>The conversion of a \<^verbatim>\<open>double\<close> to a time (\<^verbatim>\<open>include/jsdrv/time.h\<close>).\<close>

definition JSDRV_F64_TO_TIME :: "u64 \<Rightarrow> int c" where
  "JSDRV_F64_TO_TIME x =
     (let negate = f64_less x 0;
          x = (if negate then f64_neg x else x)
      in cbind (f64_to_i64 (f64_add (f64_mul x (int_to_f64 JSDRV_TIME_SECOND)) 0x3FE0000000000000)) (\<lambda>c.
           Inr (if negate then - c else c)))"

partial_function (option) level_count_loop :: "nat \<Rightarrow> nat \<Rightarrow> u8 \<Rightarrow> (nat \<times> u8) option" where
  "level_count_loop rN k n = (if k \<ge> rN * rN then level_count_loop rN (k div rN) (n + 1) else Some (k, n))"

text \<open>The loop that allocates the levels from level \<open>i\<close>; \<open>mem i\<close> is what the memory of level \<open>i\<close> holds.\<close>

function alloc_levels :: "nat \<Rightarrow> nat \<Rightarrow> nat \<Rightarrow> (nat \<Rightarrow> nat \<Rightarrow> summary_entry_s) \<Rightarrow> nat \<Rightarrow> nat
    \<Rightarrow> bufsig_level_s list \<Rightarrow> bufsig_level_s list" where
  "alloc_levels N r0 rN mem i samples_per_entry levels =
     (if i \<ge> JSDRV_BUFSIG_LEVELS_MAX then levels
      else
        let r = (if i = 0 then r0 else rN);
            samples_per_entry = samples_per_entry * r;
            k = N div samples_per_entry
        in if k \<le> 1 then levels
           else alloc_levels N r0 rN mem (i + 1) samples_per_entry
                  (levels[i := \<lparr>lv_k = k, lv_r = r, lv_samples_per_entry = samples_per_entry,
                                lv_data = Some (map (mem i) [0..<k])\<rparr>]))"
  by pat_completeness auto
termination by (relation "measure (\<lambda>(_, _, _, _, i, _, _). JSDRV_BUFSIG_LEVELS_MAX - i)") auto

declare alloc_levels.simps [simp del]

text \<open>
  A reduction or a rate of zero divides by zero, and a reduction of one does not end; \<open>None\<close> is the latter.
\<close>

definition jsdrv_bufsig_alloc :: "bufsig_s \<Rightarrow> nat \<Rightarrow> nat \<Rightarrow> nat \<Rightarrow> (nat \<Rightarrow> u8) \<Rightarrow> (nat \<Rightarrow> nat \<Rightarrow> summary_entry_s)
    \<Rightarrow> (int \<times> bufsig_s) c option" where
  "jsdrv_bufsig_alloc s N r0 rN mem0 mem =
     (let h = bs_hdr s in
      if \<not> jsdrv_bufsig_element_type_is_supported (hd_element_type h) (hd_element_size_bits h)
      then Some (Inr (ec NOT_SUPPORTED, s))
      else if r0 = 0 \<or> rN = 0 \<or> hd_decimate_factor h = 0 then Some (Inl Undefined)
      else case level_count_loop rN (N div r0) 1 of
             None \<Rightarrow> None
           | Some (k, n) \<Rightarrow> Some (
               let tm = (case bs_tmap s of None \<Rightarrow> Some (jsdrv_tmap_alloc 0) | Some t \<Rightarrow> jsdrv_tmap_clear (Some t));
                   rate = hd_sample_rate h div hd_decimate_factor h;
                   sz = (if hd_element_type h = JSDRV_DATA_TYPE_FLOAT then N * 4
                         else (N * unat (hd_element_size_bits h) + 7) div 8)
               in cbind (JSDRV_F64_TO_TIME (f64_div (int_to_f64 (int N)) (int_to_f64 (uint rate)))) (\<lambda>utc.
                    Inr (0, s\<lparr>bs_N := N, bs_r0 := r0, bs_rN := rN, bs_k := k, bs_level_count := n, bs_tmap := tm,
                              bs_size_in_utc := utc, bs_data := Some (map mem0 [0..<sz]), bs_head := 0, bs_size := 0,
                              bs_levels := alloc_levels N r0 rN mem 0 1 (bs_levels s)\<rparr>))))"

definition jsdrv_bufsig_free :: "bufsig_s \<Rightarrow> bufsig_s" where
  "jsdrv_bufsig_free s =
     s\<lparr>bs_levels := replicate JSDRV_BUFSIG_LEVELS_MAX level_zero, bs_data := None, bs_hdr := hdr_zero, bs_N := 0,
       bs_level_count := 0, bs_sample_id_head := 0, bs_tmap := None\<rparr>"

section \<open>Summaries of samples\<close>

definition Q_SCALE :: u64 where "Q_SCALE = 0x4270000000000000"

text \<open>
  The loop over \<open>n\<close> float samples from position \<open>index\<close>: sum, sum of squares, count, least and greatest. NaN is skipped.
\<close>

primrec sum_f32 :: "nat \<Rightarrow> u8 list \<Rightarrow> nat \<Rightarrow> nat \<Rightarrow> int \<times> js220_i128 \<times> nat \<times> u32 \<times> u32
    \<Rightarrow> (int \<times> js220_i128 \<times> nat \<times> u32 \<times> u32) c" where
  "sum_f32 0 data N index acc = Inr acc"
| "sum_f32 (Suc n) data N index acc =
     (let index = (if index \<ge> N then index mod N else index)
      in cbind (f32_load data index) (\<lambda>f.
           if f32_val f = FNan then sum_f32 n data N (index + 1) acc
           else case acc of (x1, x2, cnt, y_min, y_max) \<Rightarrow>
             cbind (f64_to_i64 (f64_mul (f32_to_f64 f) Q_SCALE)) (\<lambda>x.
             cbind (i64_chk (x1 + x)) (\<lambda>x1.
             cbind (js220_i128_square_i64 (word_of_int x)) (\<lambda>sq.
               sum_f32 n data N (index + 1)
                 (x1, js220_i128_add x2 sq, cnt + 1, if f32_less f y_min then f else y_min,
                  if f32_less y_max f then f else y_max))))))"

text \<open>A packed sample of 1 or 4 bits.\<close>

definition load_uint :: "nat \<Rightarrow> u8 list \<Rightarrow> nat \<Rightarrow> u8 c" where
  "load_uint bits data index =
     (if bits = 1 then cbind (buf_get data (index div 8)) (\<lambda>x. Inr (drop_bit (index mod 8) x AND 1))
      else if bits = 4 then
        cbind (buf_get data (index div 2)) (\<lambda>x. Inr ((if odd index then drop_bit 4 x else x) AND 0x0F))
      else Inr 0)"

primrec sum_uint :: "nat \<Rightarrow> nat \<Rightarrow> u8 list \<Rightarrow> nat \<Rightarrow> nat \<Rightarrow> u64 \<times> js220_i128 \<times> u8 \<times> u8
    \<Rightarrow> (u64 \<times> js220_i128 \<times> u8 \<times> u8) c" where
  "sum_uint 0 bits data N index acc = Inr acc"
| "sum_uint (Suc n) bits data N index acc =
     (let index = (if index \<ge> N then index mod N else index)
      in cbind (load_uint bits data index) (\<lambda>x.
           case acc of (x1, x2, y_min, y_max) \<Rightarrow>
             cbind (js220_i128_square_i64 (ucast x)) (\<lambda>sq.
               sum_uint n bits data N (index + 1)
                 (x1 + ucast x, js220_i128_add x2 sq, if x < y_min then x else y_min, if x > y_max then x else y_max))))"

definition i128_zero :: js220_i128 where "i128_zero = \<lparr>u64_0 = 0, u64_1 = 0\<rparr>"

definition summary_f32 :: "u8 list \<Rightarrow> nat \<Rightarrow> nat \<Rightarrow> nat \<Rightarrow> (nat \<times> summary_entry_s) c" where
  "summary_f32 data N index incr =
     cbind (sum_f32 incr data N index (0, i128_zero, 0, FLT_MAX, FLT_MIN_MAX)) (\<lambda>(x1, x2, cnt, y_min, y_max).
       if cnt \<noteq> 0 then
         cbind (js220_i128_compute_std (word_of_int x1) x2 (of_nat cnt) 40) (\<lambda>sd.
           Inr (cnt, \<lparr>se_avg = f64_to_f32 (f64_div (int_to_f64 x1) (f64_mul (u64_to_f64 (of_nat cnt)) Q_SCALE)),
                      se_std = f64_to_f32 sd, se_min = y_min, se_max = y_max\<rparr>))
       else Inr (0, entry_clear))"

definition summary_uint :: "nat \<Rightarrow> u8 list \<Rightarrow> nat \<Rightarrow> nat \<Rightarrow> nat \<Rightarrow> (nat \<times> summary_entry_s) c" where
  "summary_uint bits data N index incr =
     cbind (sum_uint incr bits data N index (0, i128_zero, of_nat (2 ^ bits - 1), 0)) (\<lambda>(x1, x2, y_min, y_max).
       cbind (js220_i128_compute_std x1 x2 (of_nat incr) 0) (\<lambda>sd.
         Inr (incr, \<lparr>se_avg = f64_to_f32 (f64_div (u64_to_f64 x1) (u64_to_f64 (of_nat incr))),
                     se_std = f64_to_f32 sd, se_min = int_to_f32 (uint y_min), se_max = int_to_f32 (uint y_max)\<rparr>)))"

text \<open>The number of samples counted and the entry.\<close>

definition summary_level0_get_by_idx :: "bufsig_s \<Rightarrow> nat \<Rightarrow> nat \<Rightarrow> (nat \<times> summary_entry_s) c" where
  "summary_level0_get_by_idx s index incr =
     cbind (jsdrv_assert (index < bs_N s)) (\<lambda>_. cbind (jsdrv_assert (incr \<le> bs_N s)) (\<lambda>_.
       if incr = 0 then Inr (0, entry_clear)
       else case bs_data s of None \<Rightarrow> Inl OutOfBounds | Some data \<Rightarrow>
         if hd_element_type (bs_hdr s) = JSDRV_DATA_TYPE_FLOAT then summary_f32 data (bs_N s) index incr
         else summary_uint (ebits s) data (bs_N s) index incr))"

section \<open>Summaries of summaries\<close>

text \<open>The inner loop: the entries \<open>i\<close> to \<open>r - 1\<close> from \<open>lvl_dn_idx\<close> are combined.\<close>

function combine_loop :: "bufsig_s \<Rightarrow> nat \<Rightarrow> nat \<Rightarrow> nat \<Rightarrow> nat \<Rightarrow> statistics_accum_s \<Rightarrow> statistics_accum_s c" where
  "combine_loop s level lvl_dn_idx r i s_accum =
     (if i < r then
        cbind (level_entry s level (lvl_dn_idx + i)) (\<lambda>p. cbind (entry_get s level p) (\<lambda>src.
        cbind (buf_get (bs_levels s) (level - 1)) (\<lambda>lvl_dn.
          combine_loop s level lvl_dn_idx r (i + 1)
            (jsdrv_statistics_combine s_accum (jsdrv_statistics_from_entry src (of_nat (lv_samples_per_entry lvl_dn)))))))
      else Inr s_accum)"
  by pat_completeness auto
termination by (relation "measure (\<lambda>(_, _, _, r, i, _). r - i)") auto

declare combine_loop.simps [simp del]

primrec summarizeN_loop :: "nat \<Rightarrow> nat \<Rightarrow> nat \<Rightarrow> nat \<Rightarrow> nat \<Rightarrow> bufsig_s \<Rightarrow> bufsig_s c" where
  "summarizeN_loop 0 level lvl_up_idx lvl_dn_idx len s = Inl OutOfFuel"
| "summarizeN_loop (Suc fuel) level lvl_up_idx lvl_dn_idx len s =
     cbind (buf_get (bs_levels s) (level - 1)) (\<lambda>lvl_dn. cbind (buf_get (bs_levels s) level) (\<lambda>lvl_up.
       if len \<ge> lv_samples_per_entry lvl_up then
         cbind (combine_loop s level lvl_dn_idx (lv_r lvl_up) 0 jsdrv_statistics_reset) (\<lambda>s_accum.
         cbind (level_entry s (level + 1) lvl_up_idx) (\<lambda>dst.
         cbind (entry_set s (level + 1) dst (jsdrv_statistics_to_entry s_accum)) (\<lambda>s.
           summarizeN_loop fuel level ((lvl_up_idx + 1) mod lv_k lvl_up) ((lvl_dn_idx + lv_r lvl_up) mod lv_k lvl_dn)
             (len - lv_samples_per_entry lvl_up) s)))
       else Inr s))"

function summarizeN :: "bufsig_s \<Rightarrow> nat \<Rightarrow> nat \<Rightarrow> nat \<Rightarrow> bufsig_s c" where
  "summarizeN s level start_idx len =
     (if level \<ge> JSDRV_BUFSIG_LEVELS_MAX then Inl OutOfBounds
      else cbind (buf_get (bs_levels s) (level - 1)) (\<lambda>lvl_dn. cbind (buf_get (bs_levels s) level) (\<lambda>lvl_up.
        if lv_data lvl_up = None then Inr s
        else if lv_samples_per_entry lvl_up = 0 \<or> lv_samples_per_entry lvl_dn = 0 then Inl Undefined
        else
          let lvl_up_idx = start_idx div lv_samples_per_entry lvl_up;
              level0_idx = lvl_up_idx * lv_samples_per_entry lvl_up;
              lvl_dn_idx = level0_idx div lv_samples_per_entry lvl_dn;
              n = len + (start_idx - level0_idx)
          in cbind (summarizeN_loop (n + 1) level lvl_up_idx lvl_dn_idx n s) (\<lambda>s.
               summarizeN s (level + 1) start_idx len))))"
  by pat_completeness auto
termination by (relation "measure (\<lambda>(_, level, _, _). JSDRV_BUFSIG_LEVELS_MAX - level)") auto

declare summarizeN.simps [simp del]

primrec summarize_loop :: "nat \<Rightarrow> nat \<Rightarrow> nat \<Rightarrow> nat \<Rightarrow> bufsig_s \<Rightarrow> bufsig_s c" where
  "summarize_loop 0 level1_idx level0_idx len s = Inl OutOfFuel"
| "summarize_loop (Suc fuel) level1_idx level0_idx len s =
     (if len \<ge> bs_r0 s then
        cbind (level_entry s 1 level1_idx) (\<lambda>p.
        cbind (summary_level0_get_by_idx s level0_idx (bs_r0 s)) (\<lambda>(_, y).
        cbind (entry_set s 1 p y) (\<lambda>s.
        cbind (buf_get (bs_levels s) 0) (\<lambda>lvl1.
          summarize_loop fuel ((level1_idx + 1) mod lv_k lvl1) ((level0_idx + bs_r0 s) mod bs_N s) (len - bs_r0 s) s))))
      else Inr s)"

definition summarize :: "bufsig_s \<Rightarrow> nat \<Rightarrow> nat \<Rightarrow> bufsig_s c" where
  "summarize s start_idx len =
     cbind (buf_get (bs_levels s) 0) (\<lambda>lvl1.
       if lv_data lvl1 = None then Inr s
       else if bs_r0 s = 0 then Inl Undefined
       else
         let level1_idx = start_idx div bs_r0 s;
             level0_idx = level1_idx * bs_r0 s;
             n = len + (start_idx - level0_idx)
         in cbind (summarize_loop (n + 1) level1_idx level0_idx n s) (\<lambda>s. summarizeN s 1 start_idx len))"

section \<open>Receiving samples\<close>

text \<open>The static function \<^verbatim>\<open>clear\<close>.\<close>

definition bufsig_clear :: "bufsig_s \<Rightarrow> u64 \<Rightarrow> bufsig_s" where
  "bufsig_clear s sample_id =
     s\<lparr>bs_head := 0, bs_size := 0, bs_sample_id_head := sample_id, bs_tmap := jsdrv_tmap_clear (bs_tmap s)\<rparr>"

definition jsdrv_bufsig_clear :: "bufsig_s \<Rightarrow> bufsig_s" where
  "jsdrv_bufsig_clear s = bufsig_clear s 0"

text \<open>Skipped samples: NaN for floats, zero for integers.\<close>

primrec fill_f32 :: "nat \<Rightarrow> nat \<Rightarrow> nat \<Rightarrow> u8 list \<Rightarrow> u8 list c" where
  "fill_f32 0 N idx data = Inr data"
| "fill_f32 (Suc k) N idx data =
     (let idx = (if idx \<ge> N then idx mod N else idx)
      in cbind (f32_store data idx F32_NAN) (\<lambda>data. fill_f32 k N (idx + 1) data))"

definition fill_uint :: "nat \<Rightarrow> nat \<Rightarrow> nat \<Rightarrow> nat \<Rightarrow> u8 list \<Rightarrow> u8 list c" where
  "fill_uint bits k N h data =
     (if h + k > N then
        let k1 = N - h
        in cbind (bits_zero data (h * bits) (k1 * bits)) (\<lambda>data. bits_zero data 0 ((k - k1) * bits))
      else bits_zero data (h * bits) (k * bits))"

definition size_add :: "bufsig_s \<Rightarrow> nat \<Rightarrow> nat" where
  "size_add s k = (if bs_size s + k > bs_N s then bs_N s else bs_size s + k)"

text \<open>The part of \<^verbatim>\<open>jsdrv_bufsig_recv_data\<close> for a gap of \<open>k\<close> samples that fits in the buffer.\<close>

definition recv_skip :: "bufsig_s \<Rightarrow> u8 \<Rightarrow> nat \<Rightarrow> u8 list \<Rightarrow> bufsig_s c" where
  "recv_skip s element_type k data =
     cbind (if element_type = JSDRV_DATA_TYPE_FLOAT then fill_f32 k (bs_N s) (bs_head s) data
            else fill_uint (ebits s) k (bs_N s) (bs_head s) data) (\<lambda>data.
       if bs_N s = 0 then Inl Undefined
       else summarize (s\<lparr>bs_data := Some data, bs_size := size_add s k, bs_head := (bs_head s + k) mod bs_N s\<rparr>) (bs_head s) k)"

text \<open>The copy of the new samples, from bit \<open>src_bit\<close> of the message on.\<close>

definition recv_copy :: "nat \<Rightarrow> u8 list \<Rightarrow> nat \<Rightarrow> u8 list \<Rightarrow> nat \<Rightarrow> nat \<Rightarrow> u8 list c" where
  "recv_copy bits dst h src src_bit k =
     (if bits mod 8 = 0 then ent_copy dst (h * bits div 8) src (src_bit div 8) (k * bits div 8)
      else bits_copy dst (h * bits) src src_bit (k * bits))"

primrec recv_loop :: "nat \<Rightarrow> u8 list \<Rightarrow> nat \<Rightarrow> nat \<Rightarrow> bufsig_s \<Rightarrow> bufsig_s c" where
  "recv_loop 0 src src_bit len s = Inl OutOfFuel"
| "recv_loop (Suc fuel) src src_bit len s =
     (if len = 0 then Inr s
      else
        let h = bs_head s;
            k = (if h + len > bs_N s then bs_N s - h else len);
            head_next = (if h + len > bs_N s then 0 else h + len)
        in case bs_data s of None \<Rightarrow> Inl OutOfBounds | Some data \<Rightarrow>
          cbind (recv_copy (ebits s) data h src src_bit k) (\<lambda>data.
          cbind (summarize (s\<lparr>bs_data := Some data, bs_size := size_add s k, bs_head := head_next,
                              bs_sample_id_head := bs_sample_id_head s + of_nat k\<rparr>) h k) (\<lambda>s.
            recv_loop fuel src (src_bit + k * ebits s) (len - k) s)))"

text \<open>The time map of a message, in units of decimated samples.\<close>

definition msg_time_map :: "stream_signal_s \<Rightarrow> time_map_s" where
  "msg_time_map m =
     \<lparr>offset_time = offset_time (ss_time_map m),
      offset_counter = offset_counter (ss_time_map m) div ucast (hd_decimate_factor m),
      counter_rate = f64_div (counter_rate (ss_time_map m)) (int_to_f64 (uint (hd_decimate_factor m)))\<rparr>"

text \<open>The part after the checks of the sample identifier: time map, copy, expiry.\<close>

definition recv_store :: "bufsig_s \<Rightarrow> stream_signal_s \<Rightarrow> u64 \<Rightarrow> bufsig_s c" where
  "recv_store s m sample_id =
     cbind (jsdrv_tmap_add (bs_tmap s) (Some (msg_time_map m))) (\<lambda>t.
     cbind (let n = unat (hd_element_count m)
            in recv_loop (2 * n + 2) (ss_data m) 0 n (s\<lparr>bs_tmap := t, bs_sample_id_head := sample_id\<rparr>)) (\<lambda>s.
     cbind (jsdrv_tmap_expire_by_sample_id (case bs_tmap s of None \<Rightarrow> 0 | Some t \<Rightarrow> alloc_size t) (bs_tmap s)
              (bs_sample_id_head s - of_nat (bs_size s))) (\<lambda>t.
       Inr (s\<lparr>bs_tmap := t\<rparr>))))"

definition jsdrv_bufsig_recv_data :: "bufsig_s \<Rightarrow> stream_signal_s \<Rightarrow> bufsig_s c" where
  "jsdrv_bufsig_recv_data s m =
     (let s = s\<lparr>bs_hdr := stream_header_s.truncate m\<rparr> in
      case bs_data s of None \<Rightarrow> Inr s
      | Some data \<Rightarrow>
        if hd_decimate_factor m = 0 then Inl Undefined
        else
          let sample_id = hd_sample_id m div ucast (hd_decimate_factor m);
              sample_id_end = sample_id + ucast (hd_element_count m) - 1;
              sample_id_expect = bs_sample_id_head s
          in if bs_sample_id_head s = 0 then recv_store (bufsig_clear s sample_id) m sample_id
             else if sample_id_end < sample_id_expect then
               Inr (if unat (sample_id_expect - sample_id_end) < bs_N s then bufsig_clear s sample_id else s)
             else if sample_id < sample_id_expect then Inr s
             else if sample_id > sample_id_expect then
               let k = unat (sample_id - sample_id_expect)
               in if k > bs_N s then recv_store (bufsig_clear s sample_id) m sample_id
                  else cbind (recv_skip s (hd_element_type m) k data) (\<lambda>s. recv_store s m sample_id)
             else recv_store s m sample_id)"

end
