(* ===== verification/Bufring.thy ===== *)
theory Bufring
  imports Bufsig
begin

text \<open>
  The sample buffer of a signal is correct: packed copies on lists of bits, the ring as the list
  of the newest samples, and the summaries of every level up to date.
\<close>

section \<open>Memory as a list of bits\<close>

definition bits_of :: "u8 list \<Rightarrow> bool list" where
  "bits_of b = concat (map (\<lambda>w. map (bit w) [0..<8]) b)"

definition overwrite :: "'a list \<Rightarrow> nat \<Rightarrow> 'a list \<Rightarrow> 'a list" where
  "overwrite xs i ys = take i xs @ ys @ drop (i + length ys) xs"

lemma bits_of_simps [simp]: "bits_of [] = []" "bits_of (w # b) = map (bit w) [0..<8] @ bits_of b"
  "bits_of (b @ b') = bits_of b @ bits_of b'"
  by (simp_all add: bits_of_def)

lemma length_bits_of [simp]: "length (bits_of b) = 8 * length b"
  by (induction b) (simp_all del: upt_Suc)

lemma bits_of_nth: "j < 8 * length b \<Longrightarrow> bits_of b ! j = bit (b ! (j div 8)) (j mod 8)"
proof (induction b arbitrary: j)
  case (Cons w b)
  show ?case
  proof (cases "j < 8")
    case False
    then have "j div 8 = Suc ((j - 8) div 8)" "j mod 8 = (j - 8) mod 8" by (simp_all add: le_div_geq le_mod_geq)
    then show ?thesis using Cons False by (simp add: nth_append del: upt_Suc)
  qed (simp add: nth_append del: upt_Suc)
qed simp

lemma bits_of_take: "bits_of (take n b) = take (8 * n) (bits_of b)"
proof (induction b arbitrary: n)
  case (Cons w b)
  then show ?case by (cases n) (simp_all del: upt_Suc)
qed simp

lemma bits_of_drop: "bits_of (drop n b) = drop (8 * n) (bits_of b)"
proof (induction b arbitrary: n)
  case (Cons w b)
  then show ?case by (cases n) (simp_all del: upt_Suc)
qed simp

lemma bits_of_replicate_0: "bits_of (replicate n 0) = replicate (8 * n) False"
proof (induction n)
  case (Suc n)
  have "map (bit (0::u8)) [0..<8] = replicate 8 False" by (simp add: upt_rec numeral_eq_Suc)
  then show ?case using Suc by (simp add: replicate_add del: upt_Suc)
qed simp

lemma length_overwrite [simp]: "i + length ys \<le> length xs \<Longrightarrow> length (overwrite xs i ys) = length xs"
  by (simp add: overwrite_def)

lemma overwrite_nil [simp]: "overwrite xs i [] = xs"
  by (simp add: overwrite_def)

lemma overwrite_splice:
  "i + length ys \<le> length xs \<Longrightarrow> overwrite (overwrite xs i ys) (i + length ys) zs = overwrite xs i (ys @ zs)"
  by (simp add: overwrite_def ac_simps)

lemma overwrite_one: "i < length xs \<Longrightarrow> overwrite xs i [v] = xs[i := v]"
  by (simp add: overwrite_def upd_conv_take_nth_drop)

lemma overwrite_nth:
  assumes "i + length ys \<le> length xs" and "j < length xs"
  shows "overwrite xs i ys ! j = (if i \<le> j \<and> j < i + length ys then ys ! (j - i) else xs ! j)"
  using assms by (auto simp: overwrite_def nth_append min_def not_less)

lemma ent_copy_bits:
  assumes "di + n \<le> length dst" and "si + n \<le> length src"
  shows "\<exists>r. ent_copy dst di src si n = Inr r \<and> length r = length dst
    \<and> bits_of r = overwrite (bits_of dst) (8 * di) (take (8 * n) (drop (8 * si) (bits_of src)))"
proof -
  have "length (take (8 * n) (drop (8 * si) (bits_of src))) = 8 * n" using assms(2) by simp
  then show ?thesis using assms by (simp add: ent_copy_def overwrite_def bits_of_take bits_of_drop)
qed

lemma mem_zero_bits:
  assumes "i + n \<le> length dst"
  shows "\<exists>r. mem_zero dst i n = Inr r \<and> length r = length dst
    \<and> bits_of r = overwrite (bits_of dst) (8 * i) (replicate (8 * n) False)"
  using assms by (simp add: mem_zero_def overwrite_def bits_of_take bits_of_drop bits_of_replicate_0)

lemma bit_put_bit: "i < 8 \<Longrightarrow> j < 8 \<Longrightarrow> bit (bit_put d i b) j = (if j = i then b \<noteq> 0 else bit d j)"
  by (auto simp: bit_put_def Let_def bit_or_iff bit_and_iff bit_not_iff bit_push_bit_iff bit_exp_iff)

lemma bit_put_bits:
  assumes "p < 8 * length dst"
  shows "bits_of (dst[p div 8 := bit_put (dst ! (p div 8)) (p mod 8) b]) = (bits_of dst)[p := (b \<noteq> 0)]"
proof (rule nth_equalityI)
  fix j assume j: "j < length (bits_of (dst[p div 8 := bit_put (dst ! (p div 8)) (p mod 8) b]))"
  then have jd: "j div 8 < length dst" by (simp add: less_mult_imp_div_less mult.commute)
  have "j = p \<longleftrightarrow> j div 8 = p div 8 \<and> j mod 8 = p mod 8" by (metis div_mult_mod_eq)
  then show "bits_of (dst[p div 8 := bit_put (dst ! (p div 8)) (p mod 8) b]) ! j = (bits_of dst)[p := (b \<noteq> 0)] ! j"
    using j jd by (cases "j div 8 = p div 8") (auto simp: bits_of_nth nth_list_update bit_put_bit)
qed simp

lemma bits_copy_bits:
  assumes "dst_bit + n \<le> 8 * length dst" and "src_bit + n \<le> 8 * length src"
  shows "\<exists>r. bits_copy dst dst_bit src src_bit n = Inr r \<and> length r = length dst
    \<and> bits_of r = overwrite (bits_of dst) dst_bit (take n (drop src_bit (bits_of src)))"
  using assms
proof (induction dst dst_bit src src_bit n rule: bits_copy.induct)
  case (1 dst dst_bit src src_bit n)
  consider "n = 0" | "n \<noteq> 0" "dst_bit mod 8 = 0 \<and> src_bit mod 8 = 0 \<and> n \<ge> 8"
    | "n \<noteq> 0" "\<not> (dst_bit mod 8 = 0 \<and> src_bit mod 8 = 0 \<and> n \<ge> 8)" by blast
  then show ?case
  proof cases
    case 1
    then show ?thesis by (simp add: bits_copy.simps)
  next
    case 2
    define bc where "bc = n div 8"
    have al: "8 * (dst_bit div 8) = dst_bit" "8 * (src_bit div 8) = src_bit" and bc: "8 * bc \<le> n"
      using 2 by (auto simp: bc_def)
    then have "dst_bit div 8 + bc \<le> length dst" "src_bit div 8 + bc \<le> length src" using "1.prems" by linarith+
    then obtain r where r: "ent_copy dst (dst_bit div 8) src (src_bit div 8) bc = Inr r" "length r = length dst"
      "bits_of r = overwrite (bits_of dst) dst_bit (take (8 * bc) (drop src_bit (bits_of src)))"
      using ent_copy_bits [of "dst_bit div 8" bc dst "src_bit div 8" src] unfolding al by blast
    have "\<exists>r'. bits_copy r (dst_bit + 8 * bc) src (src_bit + 8 * bc) (n - 8 * bc) = Inr r' \<and> length r' = length r
      \<and> bits_of r' = overwrite (bits_of r) (dst_bit + 8 * bc) (take (n - 8 * bc) (drop (src_bit + 8 * bc) (bits_of src)))"
      using "1.IH"(1) [OF 2 bc_def, of r] "1.prems" r(2) bc by simp
    moreover have "bits_copy dst dst_bit src src_bit n
        = bits_copy r (dst_bit + 8 * bc) src (src_bit + 8 * bc) (n - 8 * bc)"
      using 2 r(1) by (subst bits_copy.simps) (simp add: bc_def Let_def)
    moreover have "overwrite (bits_of r) (dst_bit + 8 * bc) (take (n - 8 * bc) (drop (src_bit + 8 * bc) (bits_of src)))
      = overwrite (bits_of dst) dst_bit (take n (drop src_bit (bits_of src)))"
    proof -
      define ys where "ys = take (8 * bc) (drop src_bit (bits_of src))"
      have ys: "length ys = 8 * bc" using "1.prems" bc by (simp add: ys_def)
      have "take n (drop src_bit (bits_of src)) = ys @ take (n - 8 * bc) (drop (src_bit + 8 * bc) (bits_of src))"
        using bc take_add [of "8 * bc" "n - 8 * bc" "drop src_bit (bits_of src)"] by (simp add: ys_def add.commute)
      then show ?thesis
        using overwrite_splice [of dst_bit ys "bits_of dst"] ys "1.prems"(1) bc unfolding r(3) ys_def [symmetric] by simp
    qed
    ultimately show ?thesis using r(2) by metis
  next
    case 3
    define b where "b = drop_bit (src_bit mod 8) (src ! (src_bit div 8)) AND 1"
    have in1: "dst_bit < 8 * length dst" "src_bit < 8 * length src" using "1.prems" 3(1) by linarith+
    then have in2: "src_bit div 8 < length src" "dst_bit div 8 < length dst"
      by (simp_all add: less_mult_imp_div_less mult.commute)
    have b: "(b \<noteq> 0) = bits_of src ! src_bit"
      using in1(2) by (simp add: bits_of_nth b_def and_one_eq bit_iff_odd_drop_bit odd_iff_mod_2_eq_one)
    define r where "r = dst[dst_bit div 8 := bit_put (dst ! (dst_bit div 8)) (dst_bit mod 8) b]"
    have r: "length r = length dst" "bits_of r = overwrite (bits_of dst) dst_bit [bits_of src ! src_bit]"
      using in1(1) bit_put_bits [of dst_bit dst b] by (simp_all add: r_def overwrite_one b)
    have "\<exists>r'. bits_copy r (dst_bit + 1) src (src_bit + 1) (n - 1) = Inr r' \<and> length r' = length r
      \<and> bits_of r' = overwrite (bits_of r) (dst_bit + 1) (take (n - 1) (drop (src_bit + 1) (bits_of src)))"
      using "1.IH"(2) [OF 3, of r] "1.prems" 3(1) r(1) by simp
    moreover have "bits_copy dst dst_bit src src_bit n = bits_copy r (dst_bit + 1) src (src_bit + 1) (n - 1)"
      using 3(1) in2 by (subst bits_copy.simps) (simp only: if_not_P [OF 3(2)] if_False buf_get_in buf_set_in cbind_simps r_def b_def)
    moreover have "take n (drop src_bit (bits_of src)) = [bits_of src ! src_bit] @ take (n - 1) (drop (src_bit + 1) (bits_of src))"
      using in1(2) 3(1) by (cases n) (simp_all add: Cons_nth_drop_Suc [symmetric])
    then have "overwrite (bits_of r) (dst_bit + 1) (take (n - 1) (drop (src_bit + 1) (bits_of src)))
      = overwrite (bits_of dst) dst_bit (take n (drop src_bit (bits_of src)))"
      using overwrite_splice [of dst_bit "[bits_of src ! src_bit]" "bits_of dst"] in1(1) unfolding r(2) by simp
    ultimately show ?thesis using r(1) by metis
  qed
qed

lemma bits_zero_bits:
  assumes "dst_bit + n \<le> 8 * length dst"
  shows "\<exists>r. bits_zero dst dst_bit n = Inr r \<and> length r = length dst
    \<and> bits_of r = overwrite (bits_of dst) dst_bit (replicate n False)"
  using assms
proof (induction dst dst_bit n rule: bits_zero.induct)
  case (1 dst dst_bit n)
  consider "n = 0" | "n \<noteq> 0" "dst_bit mod 8 = 0 \<and> n \<ge> 8" | "n \<noteq> 0" "\<not> (dst_bit mod 8 = 0 \<and> n \<ge> 8)" by blast
  then show ?case
  proof cases
    case 1
    then show ?thesis by (simp add: bits_zero.simps)
  next
    case 2
    define bc where "bc = n div 8"
    have al: "8 * (dst_bit div 8) = dst_bit" and bc: "8 * bc \<le> n" using 2 by (auto simp: bc_def)
    then have "dst_bit div 8 + bc \<le> length dst" using "1.prems" by linarith
    then obtain r where r: "mem_zero dst (dst_bit div 8) bc = Inr r" "length r = length dst"
      "bits_of r = overwrite (bits_of dst) dst_bit (replicate (8 * bc) False)"
      using mem_zero_bits [of "dst_bit div 8" bc dst] unfolding al by blast
    have "\<exists>r'. bits_zero r (dst_bit + 8 * bc) (n - 8 * bc) = Inr r' \<and> length r' = length r
      \<and> bits_of r' = overwrite (bits_of r) (dst_bit + 8 * bc) (replicate (n - 8 * bc) False)"
      using "1.IH"(1) [OF 2 bc_def, of r] "1.prems" r(2) bc by simp
    moreover have "bits_zero dst dst_bit n = bits_zero r (dst_bit + 8 * bc) (n - 8 * bc)"
      using 2 r(1) by (subst bits_zero.simps) (simp add: bc_def Let_def)
    moreover have "overwrite (bits_of r) (dst_bit + 8 * bc) (replicate (n - 8 * bc) False)
      = overwrite (bits_of dst) dst_bit (replicate n False)"
      using overwrite_splice [of dst_bit "replicate (8 * bc) False" "bits_of dst"] "1.prems" bc
      unfolding r(3) by (simp add: replicate_add [symmetric])
    ultimately show ?thesis using r(2) by metis
  next
    case 3
    have in1: "dst_bit < 8 * length dst" using "1.prems" 3(1) by linarith
    then have in2: "dst_bit div 8 < length dst" by (simp add: less_mult_imp_div_less mult.commute)
    define r where "r = dst[dst_bit div 8 := bit_put (dst ! (dst_bit div 8)) (dst_bit mod 8) 0]"
    have r: "length r = length dst" "bits_of r = overwrite (bits_of dst) dst_bit [False]"
      using in1 bit_put_bits [of dst_bit dst 0] by (simp_all add: r_def overwrite_one)
    have "\<exists>r'. bits_zero r (dst_bit + 1) (n - 1) = Inr r' \<and> length r' = length r
      \<and> bits_of r' = overwrite (bits_of r) (dst_bit + 1) (replicate (n - 1) False)"
      using "1.IH"(2) [OF 3, of r] "1.prems" 3(1) r(1) by simp
    moreover have "bits_zero dst dst_bit n = bits_zero r (dst_bit + 1) (n - 1)"
      using 3(1) in2 by (subst bits_zero.simps) (simp only: if_not_P [OF 3(2)] if_False buf_get_in buf_set_in cbind_simps r_def)
    moreover have "overwrite (bits_of r) (dst_bit + 1) (replicate (n - 1) False) = overwrite (bits_of dst) dst_bit (replicate n False)"
      using overwrite_splice [of dst_bit "[False]" "bits_of dst"] in1 3(1) unfolding r(2) by (cases n) simp_all
    ultimately show ?thesis using r(1) by metis
  qed
qed

section \<open>The ring as a list\<close>

text \<open>The newest \<open>n\<close> elements of a list.\<close>

definition lastn :: "nat \<Rightarrow> 'a list \<Rightarrow> 'a list" where
  "lastn n xs = drop (length xs - n) xs"

lemma lastn_all [simp]: "length xs \<le> n \<Longrightarrow> lastn n xs = xs"
  by (simp add: lastn_def)

lemma length_lastn [simp]: "length (lastn n xs) = min n (length xs)"
  by (simp add: lastn_def)

lemma lastn_lastn_append: "lastn n (lastn n xs @ ys) = lastn n (xs @ ys)"
  by (cases "length xs \<le> n") (simp_all add: lastn_def add.commute)

text \<open>The elements of a ring from the oldest to the newest: \<open>h\<close> is where the next one goes.\<close>

definition ring_list :: "bool \<Rightarrow> nat \<Rightarrow> 'a list \<Rightarrow> 'a list" where
  "ring_list full h R = (if full then drop h R @ take h R else take h R)"

lemma ring_list_put:
  assumes "h + length ys \<le> length R"
  shows "ring_list full (h + length ys) (overwrite R h ys) = (if full then lastn (length R) (ring_list True h R @ ys) else ring_list False h R @ ys)"
proof -
  have "drop (length ys) (drop h R @ take h R) = drop (h + length ys) R @ take h R" using assms by (simp add: add.commute)
  then show ?thesis using assms by (simp add: ring_list_def overwrite_def lastn_def)
qed

lemma ring_list_wrap: "ring_list True (length R) R = ring_list True 0 R" "ring_list False (length R) R = ring_list True 0 R"
  by (simp_all add: ring_list_def)

lemma length_ring_list [simp]: "h \<le> length R \<Longrightarrow> length (ring_list full h R) = (if full then length R else h)"
  by (simp add: ring_list_def)

section \<open>Summaries of samples are defined\<close>

text \<open>
  A float sample whose value in units of \<open>2\<^sup>-\<^sup>4\<^sup>0\<close> has at most 51 bits, or NaN: the range of \<open>\<plusminus>2048\<close> the code is made for.
\<close>

definition f32_safe :: "u32 \<Rightarrow> bool" where
  "f32_safe f \<longleftrightarrow> f32_val f = FNan \<or> (case f64_to_i64 (f64_mul (f32_to_f64 f) Q_SCALE) of Inl _ \<Rightarrow> False | Inr x \<Rightarrow> \<bar>x\<bar> \<le> 2 ^ 51)"

text \<open>Sample \<open>i\<close> of packed data: its bits.\<close>

definition sample_at :: "nat \<Rightarrow> u8 list \<Rightarrow> nat \<Rightarrow> bool list" where
  "sample_at b data i = take b (drop (i * b) (bits_of data))"

lemma byte_bits: "i < length b \<Longrightarrow> map (bit (b ! i)) [0..<8] = take 8 (drop (8 * i) (bits_of b))"
proof (rule nth_equalityI)
  fix j assume "i < length b" and "j < length (map (bit (b ! i)) [0..<8])"
  then show "map (bit (b ! i)) [0..<8] ! j = take 8 (drop (8 * i) (bits_of b)) ! j"
    by (simp add: bits_of_nth)
qed simp

lemma byte_eqI:
  assumes "i < length b" and "i < length b'" and "take 8 (drop (8 * i) (bits_of b)) = take 8 (drop (8 * i) (bits_of b'))"
  shows "b ! i = (b' ! i :: u8)"
proof (rule bit_word_eqI)
  fix n assume n: "n < LENGTH(8)"
  have "map (bit (b ! i)) [0..<8] ! n = map (bit (b' ! i)) [0..<8] ! n" using assms by (simp add: byte_bits del: upt_Suc)
  then show "bit (b ! i) n = bit (b' ! i) n" using n by (simp del: upt_Suc)
qed

lemma take_drop_sub: "i + n \<le> m \<Longrightarrow> take n (drop i (take m xs)) = take n (drop i xs)"
  by (simp add: drop_take min_def)

lemma f32_load_cong:
  assumes "sample_at 32 data i = sample_at 32 data' i" and "length data = length data'"
  shows "f32_load data i = f32_load data' i"
proof (cases "4 * i + 4 \<le> length data")
  case True
  have "data ! (4 * i + j) = data' ! (4 * i + j)" if "j < 4" for j
  proof (rule byte_eqI)
    have "take 8 (drop (8 * (4 * i + j)) (bits_of d)) = take 8 (drop (8 * j) (sample_at 32 d i))" for d
      using that by (simp add: sample_at_def take_drop_sub algebra_simps)
    then show "take 8 (drop (8 * (4 * i + j)) (bits_of data)) = take 8 (drop (8 * (4 * i + j)) (bits_of data'))"
      using assms(1) by simp
  qed (use True assms(2) that in simp_all)
  from this [of 0] this [of 1] this [of 2] this [of 3] show ?thesis using assms(2) by (simp add: f32_load_def)
qed (use assms(2) in \<open>simp add: f32_load_def\<close>)

lemma load_uint_cong:
  assumes "sample_at b data i = sample_at b data' i" and "length data = length data'" and "b = 1 \<or> b = 4"
  shows "load_uint b data i = load_uint b data' i"
proof -
  have eq: "bits_of data ! j = bits_of data' ! j" if "i * b \<le> j" "j < i * b + b" "j < 8 * length data" for j
  proof -
    have "bits_of d ! j = sample_at b d i ! (j - i * b)" if "length d = length data" for d
      using that \<open>i * b \<le> j\<close> \<open>j < i * b + b\<close> \<open>j < 8 * length data\<close> by (simp add: sample_at_def)
    then show ?thesis using assms(1,2) by simp
  qed
  from assms(3) show ?thesis
  proof
    assume b: "b = 1"
    show ?thesis
    proof (cases "i div 8 < length data")
      case True
      then have "i < 8 * length data" by (simp add: div_less_iff_less_mult mult.commute)
      then have "bit (data ! (i div 8)) (i mod 8) = bit (data' ! (i div 8)) (i mod 8)"
        using eq [of i] b assms(2) by (simp add: bits_of_nth)
      then show ?thesis using True b assms(2) by (simp add: load_uint_def and_one_eq bit_iff_odd_drop_bit mod_2_eq_odd)
    qed (use b assms(2) in \<open>simp add: load_uint_def\<close>)
  next
    assume b: "b = 4"
    show ?thesis
    proof (cases "i div 2 < length data")
      case True
      have "(if odd i then drop_bit 4 (data ! (i div 2)) else data ! (i div 2)) AND 0x0F
        = (if odd i then drop_bit 4 (data' ! (i div 2)) else data' ! (i div 2)) AND (0x0F :: u8)"
      proof (rule bit_word_eqI)
        fix n assume n: "n < LENGTH(8)"
        have m: "(0x0F :: u8) = mask 4" by (simp add: mask_eq_exp_minus_1)
        define j where "j = i * 4 + n"
        have "bit (data ! (i div 2)) (4 * (i mod 2) + n) = bit (data' ! (i div 2)) (4 * (i mod 2) + n)" if "n < 4"
        proof -
          have "j = 8 * (i div 2) + (4 * (i mod 2) + n)" "4 * (i mod 2) + n < 8"
            using that by (auto simp: j_def) presburger
          then have "j div 8 = i div 2" "j mod 8 = 4 * (i mod 2) + n" "j < 8 * length data" using True by auto
          then show ?thesis using eq [of j] b assms(2) that by (simp add: bits_of_nth j_def)
        qed
        then show "bit ((if odd i then drop_bit 4 (data ! (i div 2)) else data ! (i div 2)) AND 0x0F) n
          = bit ((if odd i then drop_bit 4 (data' ! (i div 2)) else data' ! (i div 2)) AND 0x0F) n"
          unfolding m by (cases "odd i") (auto simp: bit_and_iff bit_mask_iff bit_drop_bit_eq odd_iff_mod_2_eq_one)
      qed
      then show ?thesis using True b assms(2) by (simp add: load_uint_def)
    qed (use b assms(2) in \<open>simp add: load_uint_def\<close>)
  qed
qed

lemma ring_index: "(if i \<ge> N then i mod N else i) = i mod (N::nat)" if "0 < N"
  using that by simp

lemma Suc_mod_shift: "Suc (i mod N + j) mod N = Suc (i + j) mod (N::nat)"
  by (metis add_Suc_right mod_add_left_eq)

lemma sum_f32_cong:
  assumes "0 < N" and "length data = length data'"
    and "\<And>j. j < n \<Longrightarrow> sample_at 32 data ((i + j) mod N) = sample_at 32 data' ((i + j) mod N)"
  shows "sum_f32 n data N i acc = sum_f32 n data' N i acc"
  using assms(3)
proof (induction n arbitrary: i acc)
  case (Suc n)
  have l: "f32_load data (i mod N) = f32_load data' (i mod N)"
    using f32_load_cong [of data "i mod N" data'] Suc.prems [of 0] assms(2) by simp
  have "sum_f32 n data N (i mod N + 1) acc = sum_f32 n data' N (i mod N + 1) acc" for acc
    using Suc.IH [of "i mod N + 1"] Suc.prems [of "Suc _"] by (simp add: Suc_mod_shift)
  then show ?case using l ring_index [OF assms(1)] by (simp only: sum_f32.simps Let_def)
qed simp

lemma sum_uint_cong:
  assumes "0 < N" and "length data = length data'" and "b = 1 \<or> b = 4"
    and "\<And>j. j < n \<Longrightarrow> sample_at b data ((i + j) mod N) = sample_at b data' ((i + j) mod N)"
  shows "sum_uint n b data N i acc = sum_uint n b data' N i acc"
  using assms(4)
proof (induction n arbitrary: i acc)
  case (Suc n)
  have l: "load_uint b data (i mod N) = load_uint b data' (i mod N)"
    using load_uint_cong [of b data "i mod N" data'] Suc.prems [of 0] assms(2,3) by simp
  have "sum_uint n b data N (i mod N + 1) acc = sum_uint n b data' N (i mod N + 1) acc" for acc
    using Suc.IH [of "i mod N + 1"] Suc.prems [of "Suc _"] by (simp add: Suc_mod_shift)
  then show ?case using l ring_index [OF assms(1)] by (simp only: sum_uint.simps Let_def)
qed simp

lemma small_int64: "\<bar>x\<bar> < 2 ^ 63 \<Longrightarrow> word_of_int x \<noteq> U64_SIGN_BIT"
proof
  assume x: "\<bar>x\<bar> < 2 ^ 63" and "word_of_int x = U64_SIGN_BIT"
  then have "sint (word_of_int x :: u64) = sint U64_SIGN_BIT" by simp
  moreover have "sint (word_of_int x :: u64) = x"
    using x by (simp add: signed_of_int signed_take_bit_int_eq_self)
  ultimately show False using x by (simp add: U64_SIGN_BIT_def)
qed

definition f32_at :: "u8 list \<Rightarrow> nat \<Rightarrow> u32" where
  "f32_at data i = (case f32_load data i of Inl _ \<Rightarrow> 0 | Inr f \<Rightarrow> f)"

lemma sum_f32_ok:
  assumes "0 < N" and "4 * N \<le> length data"
    and "\<And>j. j < n \<Longrightarrow> f32_safe (f32_at data ((i + j) mod N))"
    and "\<bar>x1\<bar> \<le> int cnt * 2 ^ 51" and "cnt + n \<le> 2 ^ 11"
  shows "\<exists>y1 y2 c a b. sum_f32 n data N i (x1, x2, cnt, mn, mx) = Inr (y1, y2, c, a, b)
    \<and> \<bar>y1\<bar> \<le> int c * 2 ^ 51 \<and> c \<le> cnt + n"
  using assms(3-5)
proof (induction n arbitrary: i x1 x2 cnt mn mx)
  case (Suc n)
  have "i mod N < N" using assms(1) by simp
  then have "f32_load data (i mod N) = Inr (f32_at data (i mod N))" using assms(2) by (auto simp: f32_at_def f32_load_def)
  moreover define f where "f = f32_at data (i mod N)"
  ultimately have l: "f32_load data (i mod N) = Inr f" by simp
  have safe: "f32_safe f" using Suc.prems(1) [of 0] by (simp add: f_def)
  have rest: "f32_safe (f32_at data ((i mod N + 1 + j) mod N))" if "j < n" for j
    using Suc.prems(1) [of "Suc j"] that by (simp add: Suc_mod_shift)
  show ?case
  proof (cases "f32_val f = FNan")
    case True
    have "\<exists>y1 y2 c a b. sum_f32 n data N (i mod N + 1) (x1, x2, cnt, mn, mx) = Inr (y1, y2, c, a, b)
      \<and> \<bar>y1\<bar> \<le> int c * 2 ^ 51 \<and> c \<le> cnt + n"
      using Suc.IH [OF rest, of x1 cnt] Suc.prems(2,3) by simp
    then show ?thesis
      using l True ring_index [OF assms(1)] by (simp only: sum_f32.simps Let_def cbind_simps if_True) fastforce
  next
    case False
    then obtain x where x: "f64_to_i64 (f64_mul (f32_to_f64 f) Q_SCALE) = Inr x" "\<bar>x\<bar> \<le> 2 ^ 51"
      using safe by (auto simp: f32_safe_def split: sum.splits)
    then obtain sq where sq: "js220_i128_square_i64 (word_of_int x) = Inr sq"
      using square_defined [OF small_int64 [of x]] by auto
    have s: "\<bar>x1 + x\<bar> \<le> int (cnt + 1) * 2 ^ 51" using x(2) Suc.prems(2) by simp
    moreover have "int (cnt + 1) * 2 ^ 51 \<le> 2 ^ 11 * 2 ^ 51" using Suc.prems(3) by (intro mult_right_mono) simp_all
    ultimately have "i64_chk (x1 + x) = Inr (x1 + x)" by (simp add: i64_chk_def abs_le_iff)
    moreover have "\<exists>y1 y2 c a b. sum_f32 n data N (i mod N + 1) (x1 + x, x2', cnt + 1, mn', mx') = Inr (y1, y2, c, a, b)
      \<and> \<bar>y1\<bar> \<le> int c * 2 ^ 51 \<and> c \<le> cnt + Suc n" for x2' mn' mx'
      using Suc.IH [OF rest s, of x2' mn' mx'] Suc.prems(3) by simp
    ultimately show ?thesis
      using l False x(1) sq ring_index [OF assms(1)] by (simp only: sum_f32.simps Let_def cbind_simps if_False prod.case)
  qed
qed simp

lemma summary_f32_ok:
  assumes "0 < N" and "4 * N \<le> length data" and "\<And>j. j < n \<Longrightarrow> f32_safe (f32_at data ((i + j) mod N))" and "n \<le> 2 ^ 11"
  shows "\<exists>c y. summary_f32 data N i n = Inr (c, y)"
proof -
  obtain y1 y2 c a b where s: "sum_f32 n data N i (0, i128_zero, 0, FLT_MAX, FLT_MIN_MAX) = Inr (y1, y2, c, a, b)"
    "\<bar>y1\<bar> \<le> int c * 2 ^ 51" "c \<le> n"
    using sum_f32_ok [OF assms(1,2,3), of n 0 0 i128_zero FLT_MAX FLT_MIN_MAX] assms(4) by auto
  have "int c * 2 ^ 51 \<le> 2 ^ 11 * 2 ^ 51" using s(3) assms(4) by (intro mult_right_mono) simp_all
  then have x: "word_of_int y1 \<noteq> U64_SIGN_BIT" using s(2) by (intro small_int64) simp
  have "c \<noteq> 0 \<Longrightarrow> (of_nat c :: u64) \<noteq> 0" using s(3) assms(4) by (simp add: word_of_nat_eq_0_iff nat_dvd_not_less)
  then show ?thesis
    using s(1) compute_std_total [OF _ x, of "of_nat c" y2 40] by (auto simp: summary_f32_def)
qed

lemma load_uint_ok:
  assumes "i < N" and "N * b \<le> 8 * length data" and "b = 1 \<or> b = 4"
  shows "\<exists>x. load_uint b data i = Inr x"
proof -
  have "b = 1 \<Longrightarrow> i div 8 < length data" "b = 4 \<Longrightarrow> i div 2 < length data" using assms by auto
  then show ?thesis using assms(3) by (auto simp: load_uint_def)
qed

lemma ucast_u8_u64: "unat (ucast (x :: u8) :: u64) = unat x"
proof -
  have "unat x < 2 ^ 64" using unat_bound_u8 [of x] by simp
  then show ?thesis by (simp only: unsigned_ucast_eq take_bit_nat_eq_self len_bit0 len_num1) (simp add: take_bit_nat_eq_self)
qed

lemma sum_uint_ok:
  assumes "0 < N" and "N * b \<le> 8 * length data" and "b = 1 \<or> b = 4"
  shows "\<exists>y1 y2 mn' mx'. sum_uint n b data N i (x1, x2, mn, mx) = Inr (y1, y2, mn', mx') \<and> unat y1 \<le> unat x1 + 255 * n"
proof (induction n arbitrary: i x1 x2 mn mx)
  case (Suc n)
  obtain x where x: "load_uint b data (i mod N) = Inr x" using load_uint_ok [of "i mod N" N b data] assms by auto
  obtain sq where sq: "js220_i128_square_i64 (ucast x) = Inr sq"
  proof -
    have "unat (ucast x :: u64) < 256" using unat_bound_u8 [of x] ucast_u8_u64 [of x] by simp
    then have "(ucast x :: u64) \<noteq> U64_SIGN_BIT" by (auto simp: U64_SIGN_BIT_def)
    then show thesis using square_defined that by blast
  qed
  have "unat (x1 + ucast x) \<le> unat x1 + 255"
    using unat_bound_u8 [of x] ucast_u8_u64 [of x] mod_less_eq_dividend [of "unat x1 + unat x" "2 ^ 64"] by (simp add: unat_word_ariths)
  then show ?case
    using Suc.IH [of "i mod N + 1" "x1 + ucast x"] x sq ring_index [OF assms(1)]
    by (simp only: sum_uint.simps Let_def cbind_simps prod.case) (fastforce intro: le_trans)
qed simp

lemma summary_uint_ok:
  assumes "0 < N" and "N * b \<le> 8 * length data" and "b = 1 \<or> b = 4" and "0 < n" and "n < 2 ^ 54"
  shows "\<exists>c y. summary_uint b data N i n = Inr (c, y)"
proof -
  obtain y1 y2 mn mx where s: "sum_uint n b data N i (0, i128_zero, of_nat (2 ^ b - 1), 0) = Inr (y1, y2, mn, mx)"
    "unat y1 \<le> 255 * n"
    using sum_uint_ok [OF assms(1-3), of n i 0 i128_zero "of_nat (2 ^ b - 1)" 0] by auto
  have "y1 \<noteq> U64_SIGN_BIT" using s(2) assms(5) by (auto simp: U64_SIGN_BIT_def)
  moreover have "(of_nat n :: u64) \<noteq> 0" using assms(4,5) by (simp add: word_of_nat_eq_0_iff nat_dvd_not_less)
  ultimately show ?thesis using s(1) compute_std_total [of "of_nat n" y1 y2 0] by (auto simp: summary_uint_def)
qed

section \<open>The levels of summaries\<close>

definition spe :: "bufsig_s \<Rightarrow> nat \<Rightarrow> nat" where
  "spe s l = bs_r0 s * bs_rN s ^ l"

definition level_data :: "bufsig_s \<Rightarrow> nat \<Rightarrow> summary_entry_s list" where
  "level_data s l = (case lv_data (bs_levels s ! l) of None \<Rightarrow> [] | Some d \<Rightarrow> d)"

text \<open>There are \<open>L\<close> levels, as \<open>jsdrv_bufsig_alloc\<close> lays them out, and the entries of each divide the ring evenly.\<close>

definition level_ok :: "bufsig_s \<Rightarrow> nat \<Rightarrow> bool" where
  "level_ok s l \<longleftrightarrow> (let v = bs_levels s ! l in
     lv_r v = (if l = 0 then bs_r0 s else bs_rN s) \<and> lv_samples_per_entry v = spe s l \<and> lv_k v = bs_N s div spe s l
     \<and> spe s l dvd bs_N s \<and> lv_data v \<noteq> None \<and> length (level_data s l) = bs_N s div spe s l)"

definition levels_ok :: "nat \<Rightarrow> bufsig_s \<Rightarrow> bool" where
  "levels_ok L s \<longleftrightarrow> length (bs_levels s) = JSDRV_BUFSIG_LEVELS_MAX \<and> L < JSDRV_BUFSIG_LEVELS_MAX \<and> 0 < bs_r0 s \<and> 0 < bs_rN s \<and> 0 < bs_N s
     \<and> (\<forall>l<L. level_ok s l) \<and> lv_data (bs_levels s ! L) = None"

text \<open>Entries combined from the entries of the level below.\<close>

definition comb :: "nat \<Rightarrow> summary_entry_s list \<Rightarrow> statistics_accum_s \<Rightarrow> statistics_accum_s" where
  "comb n es acc = foldl (\<lambda>acc e. jsdrv_statistics_combine acc (jsdrv_statistics_from_entry e (of_nat n))) acc es"

definition block_value :: "bufsig_s \<Rightarrow> nat \<Rightarrow> nat \<Rightarrow> summary_entry_s" where
  "block_value s l i =
     (if l = 0 then (case summary_level0_get_by_idx s (i * bs_r0 s) (bs_r0 s) of Inl _ \<Rightarrow> entry_clear | Inr (_, y) \<Rightarrow> y)
      else jsdrv_statistics_to_entry
             (comb (spe s (l - 1)) (take (bs_rN s) (drop (i * bs_rN s) (level_data s (l - 1)))) jsdrv_statistics_reset))"

definition set_level :: "bufsig_s \<Rightarrow> nat \<Rightarrow> summary_entry_s list \<Rightarrow> bufsig_s" where
  "set_level s l d = s\<lparr>bs_levels := (bs_levels s)[l := (bs_levels s ! l)\<lparr>lv_data := Some d\<rparr>]\<rparr>"

lemma set_level_simps [simp]:
  "bs_N (set_level s l d) = bs_N s" "bs_r0 (set_level s l d) = bs_r0 s" "bs_rN (set_level s l d) = bs_rN s"
  "bs_hdr (set_level s l d) = bs_hdr s" "bs_data (set_level s l d) = bs_data s" "bs_head (set_level s l d) = bs_head s"
  "bs_size (set_level s l d) = bs_size s" "bs_tmap (set_level s l d) = bs_tmap s"
  "bs_sample_id_head (set_level s l d) = bs_sample_id_head s" "length (bs_levels (set_level s l d)) = length (bs_levels s)"
  "spe (set_level s l d) m = spe s m"
  by (simp_all add: set_level_def spe_def)

lemma set_level_twice [simp]: "set_level (set_level s l d) l d' = set_level s l d'"
  by (cases "l < length (bs_levels s)") (simp_all add: set_level_def list_update_beyond)

lemma set_level_same: "l < length (bs_levels s) \<Longrightarrow> lv_data (bs_levels s ! l) = Some d \<Longrightarrow> set_level s l d = s"
  by (metis bufsig_level_s.surjective bufsig_level_s.update_convs(4) bufsig_s.surjective bufsig_s.update_convs(11) list_update_id
      set_level_def)

lemma set_level_nth [simp]:
  "l < length (bs_levels s) \<Longrightarrow> bs_levels (set_level s l d) ! m = (if m = l then (bs_levels s ! l)\<lparr>lv_data := Some d\<rparr> else bs_levels s ! m)"
  by (simp add: set_level_def)

lemma level_data_set [simp]:
  "l < length (bs_levels s) \<Longrightarrow> level_data (set_level s l d) m = (if m = l then d else level_data s m)"
  by (simp add: level_data_def set_level_def nth_list_update)

lemma level0_get_set_level [simp]: "summary_level0_get_by_idx (set_level s l d) i n = summary_level0_get_by_idx s i n"
  unfolding summary_level0_get_by_idx_def set_level_simps by (rule refl)

lemma level_okD:
  assumes "levels_ok L s" and "l < L"
  shows "l < length (bs_levels s)" "l < 31" "lv_r (bs_levels s ! l) = (if l = 0 then bs_r0 s else bs_rN s)"
    "lv_samples_per_entry (bs_levels s ! l) = spe s l" "lv_k (bs_levels s ! l) = bs_N s div spe s l" "spe s l dvd bs_N s"
    "lv_data (bs_levels s ! l) = Some (level_data s l)" "length (level_data s l) = bs_N s div spe s l" "0 < spe s l"
    "0 < bs_N s div spe s l"
proof -
  have o: "level_ok s l" using assms by (simp add: levels_ok_def)
  show "l < length (bs_levels s)" "l < 31" using assms by (simp_all add: levels_ok_def JSDRV_BUFSIG_LEVELS_MAX_def)
  show "lv_r (bs_levels s ! l) = (if l = 0 then bs_r0 s else bs_rN s)" "lv_samples_per_entry (bs_levels s ! l) = spe s l"
    "lv_k (bs_levels s ! l) = bs_N s div spe s l" "length (level_data s l) = bs_N s div spe s l"
    using o by (simp_all add: level_ok_def Let_def)
  show d: "spe s l dvd bs_N s" using o by (simp add: level_ok_def Let_def)
  show "lv_data (bs_levels s ! l) = Some (level_data s l)" using o by (auto simp: level_ok_def Let_def level_data_def)
  show "0 < spe s l" "0 < bs_N s div spe s l"
    using assms(1) d by (simp_all add: levels_ok_def spe_def div_greater_zero_iff dvd_imp_le)
qed

lemma levels_ok_set:
  assumes "levels_ok L s" and "l < L" and "length d = bs_N s div spe s l"
  shows "levels_ok L (set_level s l d)"
proof -
  note D = level_okD [OF assms(1)]
  have "level_ok (set_level s l d) m" if "m < L" for m
    using D [OF that] D(1) [OF assms(2)] assms(3) by (cases "m = l") (auto simp: level_ok_def Let_def)
  then show ?thesis using assms(1,2) D(1) [OF assms(2)] by (simp add: levels_ok_def)
qed

text \<open>The loops write entries \<open>i\<close> to \<open>i + m - 1\<close>, around the end of the level.\<close>

primrec put_blocks :: "nat \<Rightarrow> (nat \<Rightarrow> 'a) \<Rightarrow> nat \<Rightarrow> nat \<Rightarrow> 'a list \<Rightarrow> 'a list" where
  "put_blocks 0 f k i d = d"
| "put_blocks (Suc m) f k i d = put_blocks m f k ((i + 1) mod k) (d[i := f i])"

lemma length_put_blocks [simp]: "length (put_blocks m f k i d) = length d"
  by (induction m arbitrary: i d) simp_all

lemma put_blocks_nth:
  assumes "m = 0 \<or> i < k" and "length d = k" and "x < k"
  shows "put_blocks m f k i d ! x = (if \<exists>j<m. x = (i + j) mod k then f x else d ! x)"
  using assms
proof (induction m arbitrary: i d)
  case (Suc m)
  have "(\<exists>j<Suc m. x = (i + j) mod k) \<longleftrightarrow> x = i \<or> (\<exists>j<m. x = ((i + 1) mod k + j) mod k)"
    using Suc.prems by (auto simp: less_Suc_eq_0_disj mod_simps)
  then show ?case using Suc.IH [of "(i + 1) mod k" "d[i := f i]"] Suc.prems by (auto simp: nth_list_update)
qed simp

lemma next_block: "(i * r + r) mod (k * r) = (i + 1) mod k * (r::nat)"
  using mult_mod_left [of "i + 1" k r] by (simp add: add.commute)

lemma div_SucD: "Suc m = n div r \<Longrightarrow> r \<le> n \<and> m = (n - r) div r" if "0 < (r::nat)"
  using that by (cases "n < r") (simp_all add: le_div_geq)

lemma summarize_loop_ok:
  assumes "levels_ok L s" and "0 < L" and "m = 0 \<or> i < bs_N s div bs_r0 s" and "m = len div bs_r0 s" and "m < fuel"
    and "\<And>j. j < m \<Longrightarrow> \<exists>c y. summary_level0_get_by_idx s ((i + j) mod (bs_N s div bs_r0 s) * bs_r0 s) (bs_r0 s) = Inr (c, y)"
  shows "summarize_loop fuel i (i * bs_r0 s) len s
    = Inr (set_level s 0 (put_blocks m (block_value s 0) (bs_N s div bs_r0 s) i (level_data s 0)))"
  using assms
proof (induction m arbitrary: i len s fuel)
  case 0
  note D = level_okD [OF 0(1) 0(2)]
  obtain f where "fuel = Suc f" using 0(5) by (cases fuel) simp_all
  moreover have "len < bs_r0 s" using 0(1,4) by (auto simp: levels_ok_def div_eq_0_iff)
  ultimately show ?case using set_level_same [OF D(1) D(7)] by simp
next
  case (Suc m)
  note D = level_okD [OF Suc.prems(1,2)]
  define k r where "k = bs_N s div bs_r0 s" and "r = bs_r0 s"
  have r0: "0 < r" "spe s 0 = r" and N: "bs_N s = k * r" using D(6,9) by (simp_all add: spe_def k_def r_def)
  have i: "i < k" using Suc.prems(3) by (simp add: k_def)
  obtain f where f: "fuel = Suc f" "m < f" using Suc.prems(5) by (cases fuel) simp_all
  have len: "r \<le> len" "m = (len - r) div r" using div_SucD [of r m len] Suc.prems(4) r0(1) by (simp_all add: r_def)
  obtain c y where y: "summary_level0_get_by_idx s (i * r) r = Inr (c, y)"
    using Suc.prems(6) [of 0] i by (auto simp: k_def r_def)
  have bv: "block_value s 0 i = y" using y by (simp add: block_value_def r_def)
  define t where "t = set_level s 0 ((level_data s 0)[i := y])"
  have "entry_set s 1 (Some i) y = Inr t"
    using D(1,7,8) i r0 by (simp add: entry_set_def t_def set_level_def k_def r_def)
  moreover have "level_entry s 1 i = Inr (Some i)"
    using D(1,5) i r0 by (simp add: level_entry_def JSDRV_BUFSIG_LEVELS_MAX_def k_def r_def)
  moreover have "buf_get (bs_levels t) 0 = Inr (bs_levels t ! 0)" "lv_k (bs_levels t ! 0) = k"
    using D(1,5) r0 by (simp_all add: t_def set_level_def k_def r_def)
  ultimately have "summarize_loop fuel i (i * r) len s = summarize_loop f ((i + 1) mod k) ((i * r + r) mod (k * r)) (len - r) t"
    using y len(1) N by (simp add: f(1) r_def) (simp add: t_def r_def)
  also have "(i * r + r) mod (k * r) = (i + 1) mod k * r" by (rule next_block)
  also have "summarize_loop f ((i + 1) mod k) ((i + 1) mod k * r) (len - r) t
    = Inr (set_level t 0 (put_blocks m (block_value t 0) k ((i + 1) mod k) (level_data t 0)))"
  proof -
    have t: "bs_N t = bs_N s" "bs_r0 t = r" "bs_N s div r = k" by (simp_all add: t_def r_def k_def)
    have "levels_ok L t" using levels_ok_set [OF Suc.prems(1,2)] D(8) by (simp add: t_def)
    moreover have "\<exists>c y. summary_level0_get_by_idx t (((i + 1) mod k + j) mod k * r) r = Inr (c, y)" if "j < m" for j
      using Suc.prems(6) [of "Suc j"] that by (simp add: t_def k_def r_def mod_simps)
    ultimately show ?thesis
      using Suc.IH [of t "(i + 1) mod k" "len - r" f] Suc.prems(2) f(2) len(2) i unfolding t by simp
  qed
  also have "block_value t 0 = block_value s 0" by (rule ext) (simp add: block_value_def t_def)
  finally show ?case using bv D(1) by (simp add: t_def r_def k_def)
qed

lemma spe_Suc: "spe s (Suc l) = spe s l * bs_rN s"
  by (simp add: spe_def algebra_simps)

lemma combine_loop_eq:
  assumes "levels_ok L s" and "l < L" and "b + r \<le> bs_N s div spe s l" and "i \<le> r"
  shows "combine_loop s (Suc l) b r i acc = Inr (comb (spe s l) (take (r - i) (drop (b + i) (level_data s l))) acc)"
  using assms(4)
proof (induction "r - i" arbitrary: i acc)
  case 0
  then show ?case by (simp add: combine_loop.simps comb_def)
next
  case (Suc n)
  note D = level_okD [OF assms(1,2)]
  have i: "i < r" "b + i < length (level_data s l)" using Suc.hyps(2) assms(3) D(8) by simp_all
  have "level_entry s (Suc l) (b + i) = Inr (Some (b + i))" "entry_get s (Suc l) (Some (b + i)) = Inr (level_data s l ! (b + i))"
    using D(1,2,5,7,8) i by (simp_all add: level_entry_def entry_get_def JSDRV_BUFSIG_LEVELS_MAX_def)
  then have "combine_loop s (Suc l) b r i acc = combine_loop s (Suc l) b r (i + 1)
      (jsdrv_statistics_combine acc (jsdrv_statistics_from_entry (level_data s l ! (b + i)) (of_nat (spe s l))))"
    using D(1,4) i by (subst combine_loop.simps) simp
  moreover have "take (r - i) (drop (b + i) (level_data s l))
      = level_data s l ! (b + i) # take (r - (i + 1)) (drop (b + (i + 1)) (level_data s l))"
    using i by (simp add: Cons_nth_drop_Suc [symmetric] take_Cons' )
  ultimately show ?case using Suc.hyps(1) [of "i + 1"] Suc.hyps(2) i by (simp add: comb_def)
qed

lemma summarizeN_loop_ok:
  assumes "levels_ok L s" and "Suc l < L" and "m = 0 \<or> i < bs_N s div spe s (Suc l)" and "m = len div spe s (Suc l)" and "m < fuel"
  shows "summarizeN_loop fuel (Suc l) i (i * bs_rN s) len s
    = Inr (set_level s (Suc l) (put_blocks m (block_value s (Suc l)) (bs_N s div spe s (Suc l)) i (level_data s (Suc l))))"
  using assms
proof (induction m arbitrary: i len s fuel)
  case 0
  note D = level_okD [OF 0(1) 0(2)] and D0 = level_okD(1) [OF 0(1) Suc_lessD [OF 0(2)]]
  obtain f where "fuel = Suc f" using 0(5) by (cases fuel) simp_all
  moreover have "len < spe s (Suc l)" using 0(4) D(9) by (auto simp: div_eq_0_iff)
  ultimately show ?case using set_level_same [OF D(1) D(7)] D(1,4) D0 by simp
next
  case (Suc m)
  note D = level_okD [OF Suc.prems(1,2)] and D0 = level_okD [OF Suc.prems(1) Suc_lessD [OF Suc.prems(2)]]
  define k r S where "k = bs_N s div spe s (Suc l)" and "r = bs_rN s" and "S = spe s (Suc l)"
  have kS: "bs_N s div S = k" by (simp add: k_def S_def)
  have dn: "bs_N s div spe s l = k * r"
  proof -
    have "bs_N s = k * r * spe s l" using D(6) by (simp add: k_def r_def spe_Suc mult.assoc mult.commute [of "bs_rN s"])
    then show ?thesis using D0(9) by simp
  qed
  have i: "i < k" using Suc.prems(3) by (simp add: k_def)
  obtain f where f: "fuel = Suc f" "m < f" using Suc.prems(5) by (cases fuel) simp_all
  have len: "S \<le> len" "m = (len - S) div S" using div_SucD [of S m len] Suc.prems(4) D(9) by (simp_all add: S_def)
  have "Suc i * r \<le> k * r" using i by (intro mult_right_mono) simp_all
  then have "i * r + r \<le> bs_N s div spe s l" by (simp add: dn add.commute)
  then have c: "combine_loop s (Suc l) (i * r) r 0 jsdrv_statistics_reset
      = Inr (comb (spe s l) (take r (drop (i * r) (level_data s l))) jsdrv_statistics_reset)"
    using combine_loop_eq [OF Suc.prems(1) Suc_lessD [OF Suc.prems(2)], of "i * r" r 0] by simp
  have bv: "block_value s (Suc l) i = jsdrv_statistics_to_entry (comb (spe s l) (take r (drop (i * r) (level_data s l))) jsdrv_statistics_reset)"
    by (simp add: block_value_def r_def)
  define t where "t = set_level s (Suc l) ((level_data s (Suc l))[i := block_value s (Suc l) i])"
  have "entry_set s (Suc (Suc l)) (Some i) (block_value s (Suc l) i) = Inr t"
    using D(1,7,8) i by (simp add: entry_set_def t_def set_level_def k_def)
  moreover have "level_entry s (Suc (Suc l)) i = Inr (Some i)"
    using D(1,2,5) i by (simp add: level_entry_def JSDRV_BUFSIG_LEVELS_MAX_def k_def)
  ultimately have "summarizeN_loop fuel (Suc l) i (i * r) len s
      = summarizeN_loop f (Suc l) ((i + 1) mod k) ((i * r + r) mod (k * r)) (len - S) t"
    using c D(1,3,4,5) D0(1,5) len(1) by (simp add: f(1) bv [symmetric] dn kS r_def [symmetric] S_def [symmetric])
  also have "(i * r + r) mod (k * r) = (i + 1) mod k * r" by (rule next_block)
  also have "summarizeN_loop f (Suc l) ((i + 1) mod k) ((i + 1) mod k * r) (len - S) t
    = Inr (set_level t (Suc l) (put_blocks m (block_value t (Suc l)) k ((i + 1) mod k) (level_data t (Suc l))))"
  proof -
    have t: "bs_rN t = r" "spe t (Suc l) = S" "bs_N t div S = k" by (simp_all add: t_def r_def S_def k_def)
    have "levels_ok L t" using levels_ok_set [OF Suc.prems(1,2)] D(8) by (simp add: t_def)
    then show ?thesis using Suc.IH [of t "(i + 1) mod k" "len - S" f] Suc.prems(2) f(2) len(2) i unfolding t by simp
  qed
  also have "block_value t (Suc l) = block_value s (Suc l)" using D(1) by (intro ext) (simp add: block_value_def t_def)
  finally show ?case using D(1) by (simp add: t_def r_def k_def)
qed

text \<open>The entries of a level with \<open>S\<close> samples each that end in the \<open>len\<close> samples from \<open>start\<close>.\<close>

definition touched :: "nat \<Rightarrow> nat \<Rightarrow> nat \<Rightarrow> nat \<Rightarrow> nat \<Rightarrow> bool" where
  "touched start len S k x \<longleftrightarrow> (\<exists>j < (len + start mod S) div S. x = (start div S + j) mod k)"

text \<open>Two states that differ in the summaries only.\<close>

definition same_but_levels :: "bufsig_s \<Rightarrow> bufsig_s \<Rightarrow> bool" where
  "same_but_levels s s' \<longleftrightarrow> s' = s\<lparr>bs_levels := bs_levels s'\<rparr>"

lemma same_but_levels_refl [simp]: "same_but_levels s s"
  by (simp add: same_but_levels_def)

lemma same_but_levels_trans: "same_but_levels s t \<Longrightarrow> same_but_levels t u \<Longrightarrow> same_but_levels s u"
  unfolding same_but_levels_def by (metis bufsig_s.surjective bufsig_s.update_convs(11))

lemma same_but_levels_set [simp]: "same_but_levels s (set_level s l d)"
  by (simp add: same_but_levels_def set_level_def)

lemma same_but_levelsD:
  assumes "same_but_levels s s'"
  shows "bs_N s' = bs_N s" "bs_r0 s' = bs_r0 s" "bs_rN s' = bs_rN s" "bs_hdr s' = bs_hdr s" "bs_data s' = bs_data s"
    "bs_head s' = bs_head s" "bs_size s' = bs_size s" "bs_tmap s' = bs_tmap s" "bs_sample_id_head s' = bs_sample_id_head s"
    "bs_active s' = bs_active s" "spe s' l = spe s l" "summary_level0_get_by_idx s' i n = summary_level0_get_by_idx s i n"
proof -
  obtain v where "s' = s\<lparr>bs_levels := v\<rparr>" using assms unfolding same_but_levels_def by blast
  then show eq: "bs_N s' = bs_N s" "bs_r0 s' = bs_r0 s" "bs_rN s' = bs_rN s" "bs_hdr s' = bs_hdr s" "bs_data s' = bs_data s"
    "bs_head s' = bs_head s" "bs_size s' = bs_size s" "bs_tmap s' = bs_tmap s" "bs_sample_id_head s' = bs_sample_id_head s"
    "bs_active s' = bs_active s" "spe s' l = spe s l"
    by (simp_all add: spe_def)
  show "summary_level0_get_by_idx s' i n = summary_level0_get_by_idx s i n"
    unfolding summary_level0_get_by_idx_def eq by (rule refl)
qed

lemma block_value_cong:
  assumes "same_but_levels s s'" and "l \<noteq> 0 \<Longrightarrow> level_data s' (l - 1) = level_data s (l - 1)"
  shows "block_value s' l x = block_value s l x"
  using assms(2) same_but_levelsD [OF assms(1)] by (simp add: block_value_def)

lemma div_less_blocks: "start < N \<Longrightarrow> S dvd N \<Longrightarrow> start div S < N div (S::nat)"
  by (metis dvd_div_mult_self less_mult_imp_div_less mult.commute)

lemma summarizeN_ok:
  assumes "levels_ok L s" and "Suc l \<le> L" and "start < bs_N s \<or> start = bs_N s \<and> len = 0"
  shows "\<exists>s'. summarizeN s (Suc l) start len = Inr s' \<and> same_but_levels s s' \<and> levels_ok L s'
    \<and> (\<forall>m\<le>l. level_data s' m = level_data s m)
    \<and> (\<forall>m<L. l < m \<longrightarrow> (\<forall>x < bs_N s div spe s m. level_data s' m ! x =
         (if touched start len (spe s m) (bs_N s div spe s m) x then block_value s' m x else level_data s m ! x)))"
  using assms
proof (induction "L - Suc l" arbitrary: l s)
  case 0
  then have L: "L = Suc l" by simp
  have "bs_levels s \<noteq> []" "l < 31" using 0(2) by (auto simp: levels_ok_def JSDRV_BUFSIG_LEVELS_MAX_def L)
  then have "summarizeN s (Suc l) start len = Inr s"
    using 0(2) by (subst summarizeN.simps) (simp add: levels_ok_def JSDRV_BUFSIG_LEVELS_MAX_def L)
  then show ?case using 0 by (intro exI [of _ s]) auto
next
  case (Suc n)
  then have l: "Suc l < L" by simp
  note D = level_okD [OF Suc.prems(1) l] and D0 = level_okD [OF Suc.prems(1) Suc_lessD [OF l]]
  define S k i m where "S = spe s (Suc l)" and "k = bs_N s div S" and "i = start div S" and "m = (len + start mod S) div S"
  have S: "0 < S" "S dvd bs_N s" "S = spe s l * bs_rN s" using D(6,9) by (simp_all add: S_def spe_Suc)
  have mi: "m = 0 \<or> i < k"
  proof (cases "start < bs_N s")
    case True
    then show ?thesis using div_less_blocks [OF _ S(2)] by (simp add: i_def k_def)
  next
    case False
    then show ?thesis using Suc.prems(3) S(1,2) by (simp add: m_def)
  qed
  have dn: "i * S div spe s l = i * bs_rN s" using D0(9) by (simp add: S(3) mult.left_commute)
  define d where "d = put_blocks m (block_value s (Suc l)) k i (level_data s (Suc l))"
  define t where "t = set_level s (Suc l) d"
  have ld: "length d = k" using D(8) by (simp add: d_def k_def S_def)
  have t: "levels_ok L t" "same_but_levels s t" using levels_ok_set [OF Suc.prems(1) l] ld by (simp_all add: t_def k_def S_def)
  have loop: "summarizeN_loop (len + start mod S + 1) (Suc l) i (i * bs_rN s) (len + start mod S) s = Inr t"
  proof -
    have "m < len + start mod S + 1" by (simp add: m_def div_le_dividend le_imp_less_Suc)
    then show ?thesis
      using summarizeN_loop_ok [OF Suc.prems(1) l mi [unfolded k_def S_def] m_def [unfolded S_def]]
      unfolding t_def d_def k_def S_def by blast
  qed
  have "len + (start - i * S) = len + start mod S" by (simp add: i_def minus_div_mult_eq_mod)
  then have e: "summarizeN s (Suc l) start len = summarizeN t (Suc (Suc l)) start len"
    using D(1,2,4,7) D0(1,4) S(1) D0(9) loop dn
    by (subst summarizeN.simps) (simp add: JSDRV_BUFSIG_LEVELS_MAX_def Let_def S_def [symmetric] i_def [symmetric] del: summarizeN_loop.simps)
  obtain s' where s': "summarizeN t (Suc (Suc l)) start len = Inr s'" "same_but_levels t s'" "levels_ok L s'"
    "\<forall>m\<le>Suc l. level_data s' m = level_data t m"
    "\<forall>m<L. Suc l < m \<longrightarrow> (\<forall>x < bs_N t div spe t m. level_data s' m ! x =
       (if touched start len (spe t m) (bs_N t div spe t m) x then block_value s' m x else level_data t m ! x))"
  proof -
    have "n = L - Suc (Suc l)" "Suc (Suc l) \<le> L" using Suc.hyps(2) l by simp_all
    moreover have "start < bs_N t \<or> start = bs_N t \<and> len = 0" using Suc.prems(3) same_but_levelsD(1) [OF t(2)] by simp
    ultimately show thesis using Suc.hyps(1) [of "Suc l" t, OF _ t(1)] that by blast
  qed
  have st: "same_but_levels s s'" by (rule same_but_levels_trans [OF t(2) s'(2)])
  have ldt: "level_data t m = (if m = Suc l then d else level_data s m)" for m using D(1) by (simp add: t_def)
  have new: "d ! x = (if touched start len S k x then block_value s' (Suc l) x else level_data s (Suc l) ! x)" if "x < k" for x
  proof -
    have "block_value s' (Suc l) x = block_value s (Suc l) x" using s'(4) ldt by (intro block_value_cong [OF st]) simp
    moreover have "length (level_data s (Suc l)) = k" using D(8) by (simp add: k_def S_def)
    ultimately show ?thesis
      unfolding d_def touched_def m_def [symmetric] i_def [symmetric]
      using put_blocks_nth [OF mi _ that, of "level_data s (Suc l)" "block_value s (Suc l)"] by (simp only:)
  qed
  have "level_data s' q ! x = (if touched start len (spe s q) (bs_N s div spe s q) x then block_value s' q x else level_data s q ! x)"
    if "q < L" "l < q" "x < bs_N s div spe s q" for q x
  proof (cases "q = Suc l")
    case True
    then show ?thesis using new [of x] that s'(4) ldt by (simp add: S_def k_def)
  next
    case False
    then show ?thesis using s'(5) that ldt same_but_levelsD(1,11) [OF t(2)] by simp
  qed
  moreover have "\<forall>m\<le>l. level_data s' m = level_data s m" using s'(4) ldt by simp
  ultimately show ?case using e s'(1,3) st by (intro exI [of _ s']) simp
qed

lemma summarize_ok:
  assumes "levels_ok L s" and "start < bs_N s \<or> start = bs_N s \<and> len = 0"
    and "\<And>x. touched start len (bs_r0 s) (bs_N s div bs_r0 s) x \<Longrightarrow> \<exists>c y. summary_level0_get_by_idx s (x * bs_r0 s) (bs_r0 s) = Inr (c, y)"
  shows "\<exists>s'. summarize s start len = Inr s' \<and> same_but_levels s s' \<and> levels_ok L s'
    \<and> (\<forall>m<L. \<forall>x < bs_N s div spe s m. level_data s' m ! x =
         (if touched start len (spe s m) (bs_N s div spe s m) x then block_value s' m x else level_data s m ! x))"
proof (cases "L = 0")
  case True
  then have "summarize s start len = Inr s"
    using assms(1) by (simp add: summarize_def levels_ok_def JSDRV_BUFSIG_LEVELS_MAX_def)
  then show ?thesis using True assms(1) by auto
next
  case False
  then have L: "0 < L" by simp
  note D = level_okD [OF assms(1) L]
  define S k i m where "S = bs_r0 s" and "k = bs_N s div S" and "i = start div S" and "m = (len + start mod S) div S"
  have S: "0 < S" "S dvd bs_N s" "spe s 0 = S" using D(6,9) by (simp_all add: S_def spe_def)
  have mi: "m = 0 \<or> i < k"
  proof (cases "start < bs_N s")
    case True
    then show ?thesis using div_less_blocks [OF _ S(2)] by (simp add: i_def k_def)
  next
    case False
    then show ?thesis using assms(2) S(1,2) by (simp add: m_def)
  qed
  define d where "d = put_blocks m (block_value s 0) k i (level_data s 0)"
  define t where "t = set_level s 0 d"
  have ld: "length d = k" using D(8) S(3) by (simp add: d_def k_def)
  have t: "levels_ok L t" "same_but_levels s t" using levels_ok_set [OF assms(1) L] ld S(3) by (simp_all add: t_def k_def)
  have "m < len + start mod S + 1" by (simp add: m_def div_le_dividend le_imp_less_Suc)
  moreover have "\<exists>c y. summary_level0_get_by_idx s ((i + j) mod k * S) S = Inr (c, y)" if "j < m" for j
    using assms(3) [of "(i + j) mod k"] that unfolding touched_def S_def [symmetric] k_def [symmetric] i_def m_def by blast
  ultimately have loop: "summarize_loop (len + start mod S + 1) i (i * S) (len + start mod S) s = Inr t"
    using summarize_loop_ok [OF assms(1) L mi [unfolded k_def S_def] m_def [unfolded S_def]]
    unfolding t_def d_def k_def S_def by blast
  have "len + (start - i * S) = len + start mod S" by (simp add: i_def minus_div_mult_eq_mod)
  then have e: "summarize s start len = summarizeN t 1 start len"
    using D(1,7) S(1) loop by (simp add: summarize_def Let_def S_def [symmetric] i_def [symmetric] del: summarize_loop.simps)
  obtain s' where s': "summarizeN t 1 start len = Inr s'" "same_but_levels t s'" "levels_ok L s'"
    "level_data s' 0 = level_data t 0"
    "\<forall>m<L. 0 < m \<longrightarrow> (\<forall>x < bs_N t div spe t m. level_data s' m ! x =
       (if touched start len (spe t m) (bs_N t div spe t m) x then block_value s' m x else level_data t m ! x))"
    using summarizeN_ok [OF t(1), of 0 start len] L assms(2) same_but_levelsD(1) [OF t(2)] by auto
  have st: "same_but_levels s s'" by (rule same_but_levels_trans [OF t(2) s'(2)])
  have ldt: "level_data t m = (if m = 0 then d else level_data s m)" for m using D(1) by (simp add: t_def)
  have new: "d ! x = (if touched start len S k x then block_value s' 0 x else level_data s 0 ! x)" if "x < k" for x
  proof -
    have "length (level_data s 0) = k" using D(8) S(3) by (simp add: k_def)
    moreover have "block_value s' 0 x = block_value s 0 x" by (rule block_value_cong [OF st]) simp
    ultimately show ?thesis
      unfolding d_def touched_def m_def [symmetric] i_def [symmetric]
      using put_blocks_nth [OF mi _ that, of "level_data s 0" "block_value s 0"] by (simp only:)
  qed
  have "level_data s' q ! x = (if touched start len (spe s q) (bs_N s div spe s q) x then block_value s' q x else level_data s q ! x)"
    if "q < L" "x < bs_N s div spe s q" for q x
  proof (cases "q = 0")
    case True
    then show ?thesis using new [of x] that s'(4) ldt S(3) by (simp add: k_def)
  next
    case False
    then show ?thesis using s'(5) that ldt same_but_levelsD(1,11) [OF t(2)] by simp
  qed
  then show ?thesis using e s'(1,3) st by auto
qed

section \<open>Summaries stay up to date\<close>

text \<open>An entry of \<open>S\<close> samples is complete when all of them are in the ring and none is about to be replaced in part.\<close>

definition complete :: "bufsig_s \<Rightarrow> nat \<Rightarrow> nat \<Rightarrow> bool" where
  "complete s S i \<longleftrightarrow> (i + 1) * S \<le> bs_head s \<or> bs_size s = bs_N s \<and> bs_head s \<le> i * S"

definition fresh :: "nat \<Rightarrow> bufsig_s \<Rightarrow> bool" where
  "fresh L s \<longleftrightarrow> (\<forall>l<L. \<forall>i < bs_N s div spe s l. complete s (spe s l) i \<longrightarrow> level_data s l ! i = block_value s l i)"

text \<open>The positions that \<open>k\<close> new samples take, from \<open>h\<close> on.\<close>

definition written :: "nat \<Rightarrow> nat \<Rightarrow> nat \<Rightarrow> nat \<Rightarrow> bool" where
  "written N h k x \<longleftrightarrow> h \<le> x \<and> x < h + k \<or> x + N < h + k"

lemma touchedI:
  assumes "0 < (S::nat)" and "h div S \<le> q" and "(q + 1) * S \<le> h + k" and "i = q mod K"
  shows "touched h k S K i"
proof -
  define j where "j = q - h div S"
  have q: "q = h div S + j" using assms(2) by (simp add: j_def)
  have "(q + 1) * S = h div S * S + (j + 1) * S" by (simp add: q algebra_simps)
  then have "(j + 1) * S \<le> k + h mod S" using assms(3) div_mult_mod_eq [of h S] by linarith
  then have "j + 1 \<le> (k + h mod S) div S" using assms(1) by (simp only: less_eq_div_iff_mult_less_eq)
  then have "j < (k + h mod S) div S" by simp
  then show ?thesis using assms(4) q by (auto simp: touched_def)
qed

lemma touched_pos: "touched h k S K x \<Longrightarrow> 0 < S \<Longrightarrow> 0 < k"
  by (cases k) (simp_all add: touched_def)

lemma touched_written:
  assumes "touched h k S K x" and "N = K * S" and "0 < S" and "h < N" and "k \<le> N"
  shows "written N h k (x * S + (S - 1))"
proof -
  obtain j where j: "j < (k + h mod S) div S" "x = (h div S + j) mod K" using assms(1) by (auto simp: touched_def)
  define q where "q = h div S + j"
  have "j + 1 \<le> (k + h mod S) div S" using j(1) by simp
  then have "(j + 1) * S \<le> k + h mod S" using assms(3) by (simp only: less_eq_div_iff_mult_less_eq)
  moreover have qS: "(q + 1) * S = h div S * S + (j + 1) * S" by (simp add: q_def algebra_simps)
  ultimately have hi: "(q + 1) * S \<le> h + k" using div_mult_mod_eq [of h S] by linarith
  have "h mod S < (j + 1) * S" using assms(3) by (simp add: trans_less_add1)
  then have lo: "h < (q + 1) * S" using qS div_mult_mod_eq [of h S] by linarith
  have x: "x = q mod K" using j(2) by (simp add: q_def)
  show ?thesis
  proof (cases "q < K")
    case True
    then have "x * S + (S - 1) = (q + 1) * S - 1" using assms(3) x by (simp add: algebra_simps)
    moreover have "h \<le> (q + 1) * S - 1" "(q + 1) * S - 1 < h + k" using hi lo by linarith+
    ultimately show ?thesis unfolding written_def by metis
  next
    case False
    have "(q + 1) * S < 2 * K * S" using hi assms(2,4,5) by linarith
    then have "q < 2 * K" using mult_less_cancel2 [of "q + 1" S "2 * K"] by simp
    then have "q - K < K" using False by simp
    then have "x + K = q" using False x by (simp add: le_mod_geq)
    then have "(q + 1) * S = x * S + S + N" using assms(2) by (auto simp: algebra_simps)
    then have "x * S + (S - 1) + N = (q + 1) * S - 1" using assms(3) by simp
    moreover have "(q + 1) * S - 1 < h + k" using hi lo by linarith
    ultimately show ?thesis unfolding written_def by metis
  qed
qed

text \<open>After \<open>k\<close> samples, a complete entry was recomputed, or was complete before and none of its samples is new.\<close>

lemma complete_step:
  assumes N: "N = K * S" "0 < S" "i < K" and h: "h \<le> N" "h < N \<or> k = 0" "k \<le> N" and sz: "sz < N \<Longrightarrow> h = sz" "sz \<le> N"
    and h': "h + k \<le> N \<and> (h' = h + k \<or> h + k = N \<and> h' = 0) \<or> N < h + k \<and> h' = h + k - N"
    and c: "(i + 1) * S \<le> h' \<or> min N (sz + k) = N \<and> h' \<le> i * S"
  shows "touched h k S K i \<or> ((i + 1) * S \<le> h \<or> sz = N \<and> h \<le> i * S) \<and> (\<forall>x. i * S \<le> x \<and> x < (i + 1) * S \<longrightarrow> \<not> written N h k x)"
proof -
  have iN: "(i + 1) * S \<le> N" using N mult_right_mono [of "i + 1" K S] by simp
  have before: "(i + 1) * S \<le> h" if "\<not> h div S \<le> i"
    using that less_eq_div_iff_mult_less_eq [OF N(2), of "i + 1" h] by simp
  have first: ?thesis if "(i + 1) * S \<le> h + k" "h + k \<le> N"
    using touchedI [of S h i k i K] before that N by (cases "h div S \<le> i") (auto simp: written_def)
  from h' show ?thesis
  proof
    assume a: "h + k \<le> N \<and> (h' = h + k \<or> h + k = N \<and> h' = 0)"
    show ?thesis
    proof (cases "(i + 1) * S \<le> h + k")
      case True
      then show ?thesis using first a by blast
    next
      case False
      then have "h' = h + k" "h + k < N" "h + k \<le> i * S" "N \<le> sz + k" using a c iN by auto
      then show ?thesis using sz by (auto simp: written_def)
    qed
  next
    assume a: "N < h + k \<and> h' = h + k - N"
    show ?thesis
    proof (cases "(i + 1) * S \<le> h'")
      case True
      moreover have "(i + K + 1) * S = (i + 1) * S + N" by (simp add: N(1) algebra_simps)
      ultimately have "(i + K + 1) * S \<le> h + k" using a by linarith
      moreover have "h div S \<le> i + K" using h(1) N(1,2) by (metis div_le_mono div_mult_self_is_m le_add2 order_trans)
      ultimately show ?thesis using touchedI [of S h "i + K" k i K] N by simp
    next
      case False
      then have "h' \<le> i * S" using c by simp
      then show ?thesis
        using touchedI [of S h i k i K] before N iN a by (cases "h div S \<le> i") (auto simp: written_def)
    qed
  qed
qed

text \<open>The types of samples that the buffer supports.\<close>

definition kind_ok :: "bufsig_s \<Rightarrow> bool" where
  "kind_ok s \<longleftrightarrow> (if hd_element_type (bs_hdr s) = JSDRV_DATA_TYPE_FLOAT then ebits s = 32 else ebits s = 1 \<or> ebits s = 4)"

lemma level0_block_cong:
  assumes "kind_ok s" and "0 < bs_N s" and "bs_N s' = bs_N s" and "bs_hdr s' = bs_hdr s" and "bs_data s = Some d" and "bs_data s' = Some d'"
    and "length d' = length d" and "i * r + r \<le> bs_N s"
    and "\<And>x. i * r \<le> x \<Longrightarrow> x < i * r + r \<Longrightarrow> sample_at (ebits s) d' x = sample_at (ebits s) d x"
  shows "summary_level0_get_by_idx s' (i * r) r = summary_level0_get_by_idx s (i * r) r"
proof -
  have eq: "sample_at (ebits s) d' ((i * r + j) mod bs_N s) = sample_at (ebits s) d ((i * r + j) mod bs_N s)" if "j < r" for j
    using assms(8,9) that by simp
  show ?thesis
  proof (cases "hd_element_type (bs_hdr s) = JSDRV_DATA_TYPE_FLOAT")
    case True
    then have "summary_f32 d' (bs_N s) (i * r) r = summary_f32 d (bs_N s) (i * r) r"
      using sum_f32_cong [OF assms(2,7), of r "i * r"] eq assms(1) by (simp add: summary_f32_def kind_ok_def)
    then show ?thesis using True assms(3-6) by (simp add: summary_level0_get_by_idx_def)
  next
    case False
    then have "summary_uint (ebits s) d' (bs_N s) (i * r) r = summary_uint (ebits s) d (bs_N s) (i * r) r"
      using sum_uint_cong [OF assms(2,7), of "ebits s" r "i * r"] eq assms(1) by (simp add: summary_uint_def kind_ok_def)
    then show ?thesis using False assms(3-6) by (simp add: summary_level0_get_by_idx_def)
  qed
qed

section \<open>The invariant\<close>

abbreviation is_float :: "bufsig_s \<Rightarrow> bool" where
  "is_float s \<equiv> hd_element_type (bs_hdr s) = JSDRV_DATA_TYPE_FLOAT"

definition data_of :: "bufsig_s \<Rightarrow> u8 list" where
  "data_of s = (case bs_data s of None \<Rightarrow> [] | Some d \<Rightarrow> d)"

definition ring_ok :: "bufsig_s \<Rightarrow> bool" where
  "ring_ok s \<longleftrightarrow> kind_ok s \<and> bs_data s \<noteq> None \<and> 8 * length (data_of s) = bs_N s * ebits s \<and> bs_N s < 2 ^ 54 \<and> bs_r0 s \<le> 2 ^ 11
     \<and> bs_head s \<le> bs_N s \<and> bs_size s \<le> bs_N s \<and> (bs_size s < bs_N s \<longrightarrow> bs_head s = bs_size s)
     \<and> (is_float s \<longrightarrow> (\<forall>i < bs_size s. f32_safe (f32_at (data_of s) i)))"

text \<open>Well-formed, with every complete summary up to date.\<close>

definition bufsig_inv :: "nat \<Rightarrow> bufsig_s \<Rightarrow> bool" where
  "bufsig_inv L s \<longleftrightarrow> levels_ok L s \<and> ring_ok s \<and> fresh L s \<and> (\<exists>t. bs_tmap s = Some t \<and> tmap_wf t)"

lemma ring_okD:
  assumes "ring_ok s"
  shows "kind_ok s" "bs_data s = Some (data_of s)" "8 * length (data_of s) = bs_N s * ebits s" "bs_N s < 2 ^ 54" "bs_r0 s \<le> 2 ^ 11"
    "bs_head s \<le> bs_N s" "bs_size s \<le> bs_N s" "bs_size s < bs_N s \<Longrightarrow> bs_head s = bs_size s"
    "is_float s \<Longrightarrow> i < bs_size s \<Longrightarrow> f32_safe (f32_at (data_of s) i)"
  using assms by (auto simp: ring_ok_def data_of_def)

text \<open>The summary of samples that are in the ring is defined.\<close>

lemma level0_get_ok:
  assumes "ring_ok s" and "0 < bs_N s" and "i + n \<le> bs_size s" and "0 < n" and "n \<le> bs_r0 s"
  shows "\<exists>c y. summary_level0_get_by_idx s i n = Inr (c, y)"
proof -
  note R = ring_okD [OF assms(1)]
  have i: "i < bs_N s" "n \<le> bs_N s" using assms(3,4) R(7) by simp_all
  show ?thesis
  proof (cases "is_float s")
    case True
    then have "4 * bs_N s \<le> length (data_of s)" using R(1,3) by (simp add: kind_ok_def)
    moreover have "f32_safe (f32_at (data_of s) ((i + j) mod bs_N s))" if "j < n" for j
      using R(7) R(9) [OF True, of "i + j"] that assms(3) by simp
    ultimately show ?thesis
      using summary_f32_ok [OF assms(2), of "data_of s" n i] True R(2,5) assms(4,5) i by (simp add: summary_level0_get_by_idx_def)
  next
    case False
    then show ?thesis
      using summary_uint_ok [OF assms(2), of "ebits s" "data_of s" n i] R(1,2,3,4) assms(4) i
      by (simp add: summary_level0_get_by_idx_def kind_ok_def)
  qed
qed

text \<open>
  The state after \<open>k\<close> samples were stored in the data, with the summaries still to do: \<open>s1\<close> is \<open>s\<close> with new data \<open>d\<close>.
\<close>

definition stored :: "bufsig_s \<Rightarrow> nat \<Rightarrow> u8 list \<Rightarrow> bufsig_s \<Rightarrow> bool" where
  "stored s k d s1 \<longleftrightarrow> bs_data s1 = Some d \<and> length d = length (data_of s) \<and> bs_size s1 = size_add s k
     \<and> (bs_head s + k \<le> bs_N s \<and> (bs_head s1 = bs_head s + k \<or> bs_head s + k = bs_N s \<and> bs_head s1 = 0)
        \<or> bs_N s < bs_head s + k \<and> bs_head s1 = bs_head s + k - bs_N s)
     \<and> bs_N s1 = bs_N s \<and> bs_r0 s1 = bs_r0 s \<and> bs_rN s1 = bs_rN s \<and> bs_hdr s1 = bs_hdr s \<and> bs_levels s1 = bs_levels s
     \<and> (\<forall>x < bs_N s. \<not> written (bs_N s) (bs_head s) k x \<longrightarrow> sample_at (ebits s) d x = sample_at (ebits s) (data_of s) x)
     \<and> (is_float s \<longrightarrow> (\<forall>x < bs_N s. written (bs_N s) (bs_head s) k x \<longrightarrow> f32_safe (f32_at d x)))"

lemma f32_at_cong: "sample_at 32 d x = sample_at 32 d' x \<Longrightarrow> length d = length d' \<Longrightarrow> f32_at d x = f32_at d' x"
  using f32_load_cong [of d x d'] by (simp add: f32_at_def)

lemma stored_ring_ok:
  assumes "ring_ok s" and "0 < bs_N s" and "k \<le> bs_N s" and "stored s k d s1"
  shows "ring_ok s1"
proof -
  note R = ring_okD [OF assms(1)] and S = assms(4) [unfolded stored_def]
  have d: "data_of s1 = d" using S by (simp add: data_of_def)
  have sz: "bs_size s1 \<le> bs_N s1" "bs_size s1 < bs_N s1 \<longrightarrow> bs_head s1 = bs_size s1" "bs_head s1 \<le> bs_N s1"
    using S R(6,7,8) assms(3) by (auto simp: size_add_def)
  have "f32_safe (f32_at d x)" if f: "is_float s" and x: "x < bs_size s1" for x
  proof (cases "written (bs_N s) (bs_head s) k x")
    case True
    then show ?thesis using S f x sz(1) by simp
  next
    case False
    have "x < bs_size s" using False x S R(7,8) by (cases "bs_size s < bs_N s") (auto simp: written_def size_add_def split: if_splits)
    moreover have "f32_at d x = f32_at (data_of s) x"
      using False S f R(1) x sz(1) by (intro f32_at_cong) (simp_all add: kind_ok_def)
    ultimately show ?thesis using R(9) f by simp
  qed
  then show ?thesis using S R sz d by (auto simp: ring_ok_def kind_ok_def)
qed

lemma block_in_ring:
  assumes "S dvd N" and "i < N div S"
  shows "i * S + S \<le> (N::nat)"
proof -
  have "(i + 1) * S \<le> N div S * S" using assms(2) by (intro mult_right_mono) simp_all
  then show ?thesis using assms(1) by simp
qed

lemma store_summarize:
  assumes inv: "levels_ok L s" "ring_ok s" "fresh L s" and k: "k \<le> bs_N s" "bs_head s < bs_N s \<or> k = 0" and st: "stored s k d s1"
  shows "\<exists>s'. summarize s1 (bs_head s) k = Inr s' \<and> same_but_levels s1 s' \<and> levels_ok L s' \<and> ring_ok s' \<and> fresh L s'"
proof -
  note R = ring_okD [OF inv(2)] and S = st [unfolded stored_def]
  have N: "0 < bs_N s" using inv(1) by (simp add: levels_ok_def)
  have spe: "spe s1 l = spe s l" for l using S by (simp add: spe_def)
  have ld: "level_data s1 l = level_data s l" for l using S by (simp add: level_data_def)
  have "level_ok s1 l = level_ok s l" for l using S by (simp only: level_ok_def spe ld)
  then have lv: "levels_ok L s1" using inv(1) S by (simp add: levels_ok_def)
  have ro: "ring_ok s1" by (rule stored_ring_ok [OF inv(2) N k(1) st])
  have w: "bs_head s < bs_N s1 \<or> bs_head s = bs_N s1 \<and> k = 0" using k(2) R(6) S by auto
  have def: "\<exists>c y. summary_level0_get_by_idx s1 (x * bs_r0 s1) (bs_r0 s1) = Inr (c, y)"
    if t: "touched (bs_head s) k (bs_r0 s1) (bs_N s1 div bs_r0 s1) x" and L: "0 < L" for x
  proof -
    note D = level_okD [OF inv(1) L]
    have r: "0 < bs_r0 s" "bs_r0 s dvd bs_N s" using D(6,9) by (simp_all add: spe_def)
    have "k \<noteq> 0" using touched_pos [OF t] r(1) S by simp
    then have h: "bs_head s < bs_N s" using k(2) by simp
    have x: "x < bs_N s div bs_r0 s" using t S D(10) by (auto simp: touched_def spe_def)
    have wr: "written (bs_N s) (bs_head s) k (x * bs_r0 s + (bs_r0 s - 1))"
      using touched_written [of "bs_head s" k "bs_r0 s" "bs_N s div bs_r0 s" x "bs_N s"] t S r h k(1) by simp
    have b: "x * bs_r0 s + bs_r0 s \<le> bs_N s" by (rule block_in_ring [OF r(2) x])
    have "x * bs_r0 s + bs_r0 s \<le> bs_size s1"
      using wr b S r(1) R(7,8) by (cases "bs_size s < bs_N s") (auto simp: written_def size_add_def)
    then show ?thesis using level0_get_ok [OF ro] N S r(1) by simp
  qed
  show ?thesis
  proof (cases "L = 0")
    case True
    then have "summarize s1 (bs_head s) k = Inr s1"
      using lv by (simp add: summarize_def levels_ok_def JSDRV_BUFSIG_LEVELS_MAX_def)
    then show ?thesis using lv ro True by (auto simp: fresh_def)
  next
    case False
    then obtain s' where s': "summarize s1 (bs_head s) k = Inr s'" "same_but_levels s1 s'" "levels_ok L s'"
      "\<And>m x. m < L \<Longrightarrow> x < bs_N s div spe s m \<Longrightarrow> level_data s' m ! x =
         (if touched (bs_head s) k (spe s m) (bs_N s div spe s m) x then block_value s' m x else level_data s m ! x)"
      using summarize_ok [OF lv w def] S spe ld by auto
    note E = same_but_levelsD [OF s'(2)]
    have "ring_ok s'" using ro unfolding ring_ok_def kind_ok_def data_of_def E .
    moreover have "fresh L s'"
      unfolding fresh_def
    proof (intro allI impI)
      fix l i assume l: "l < L" and i': "i < bs_N s' div spe s' l" and c': "complete s' (spe s' l) i"
      note D = level_okD [OF inv(1) l]
      define T where "T = spe s l"
      have T: "bs_N s = bs_N s div T * T" "0 < T" using D(6,9) by (simp_all add: T_def)
      have i: "i < bs_N s div T" using i' E(1,11) S spe by (simp add: T_def)
      have c: "(i + 1) * T \<le> bs_head s1 \<or> min (bs_N s) (bs_size s + k) = bs_N s \<and> bs_head s1 \<le> i * T"
        using c' E(1,6,7,11) S spe by (auto simp: complete_def T_def size_add_def split: if_splits)
      have hs: "bs_head s + k \<le> bs_N s \<and> (bs_head s1 = bs_head s + k \<or> bs_head s + k = bs_N s \<and> bs_head s1 = 0)
          \<or> bs_N s < bs_head s + k \<and> bs_head s1 = bs_head s + k - bs_N s" using S by blast
      consider "touched (bs_head s) k T (bs_N s div T) i"
        | "\<not> touched (bs_head s) k T (bs_N s div T) i" "complete s T i" "\<forall>x. i * T \<le> x \<and> x < (i + 1) * T \<longrightarrow> \<not> written (bs_N s) (bs_head s) k x"
        using complete_step [OF T i R(6) k(2,1) R(8) R(7) hs c] by (auto simp: complete_def)
      then show "level_data s' l ! i = block_value s' l i"
      proof cases
        case 1
        then show ?thesis using s'(4) [OF l] i by (simp add: T_def)
      next
        case 2
        have old: "level_data s' l ! i = block_value s l i"
          using s'(4) [OF l] i 2(1,2) inv(3) l by (simp add: T_def fresh_def)
        have iT: "i * T + T \<le> bs_N s" using block_in_ring [OF _ i] D(6) by (simp add: T_def)
        have "block_value s' l i = block_value s l i"
        proof (cases l)
          case 0
          have T0: "T = bs_r0 s" using 0 by (simp add: T_def spe_def)
          have "summary_level0_get_by_idx s1 (i * T) T = summary_level0_get_by_idx s (i * T) T"
          proof (rule level0_block_cong [OF R(1) N _ _ R(2) _ _ iT])
            fix x assume "i * T \<le> x" "x < i * T + T"
            then show "sample_at (ebits s) d x = sample_at (ebits s) (data_of s) x" using 2(3) S iT by simp
          qed (use S in simp_all)
          then show ?thesis using 0 E(2,12) S by (simp add: block_value_def T0)
        next
          case (Suc m)
          have m: "m < L" using l Suc by simp
          note Dm = level_okD [OF inv(1) m]
          have TS: "T = spe s m * bs_rN s" by (simp add: T_def Suc spe_Suc)
          have K: "bs_N s div spe s m = bs_N s div T * bs_rN s"
          proof -
            have "bs_N s = bs_N s div T * bs_rN s * spe s m" using T(1) by (simp add: TS mult.assoc mult.commute [of "spe s m"])
            then show ?thesis using Dm(9) by (metis nonzero_mult_div_cancel_right not_gr_zero)
          qed
          have rK: "i * bs_rN s + bs_rN s \<le> bs_N s div spe s m"
            using i mult_right_mono [of "i + 1" "bs_N s div T" "bs_rN s"] by (simp add: K)
          have "level_data s' m ! x = level_data s m ! x" if x: "i * bs_rN s \<le> x" "x < i * bs_rN s + bs_rN s" for x
          proof -
            have "\<not> touched (bs_head s) k (spe s m) (bs_N s div spe s m) x"
            proof
              assume t: "touched (bs_head s) k (spe s m) (bs_N s div spe s m) x"
              have "k \<noteq> 0" using touched_pos [OF t Dm(9)] by simp
              then have "written (bs_N s) (bs_head s) k (x * spe s m + (spe s m - 1))"
                using touched_written [OF t _ Dm(9) _ k(1)] k(2) Dm(6) by simp
              moreover have "i * T \<le> x * spe s m"
                using mult_right_mono [OF x(1), of "spe s m"] by (simp add: TS mult.assoc mult.commute [of "bs_rN s"])
              moreover have "(x + 1) * spe s m \<le> (i + 1) * T"
                using mult_right_mono [of "x + 1" "(i + 1) * bs_rN s" "spe s m"] x(2) by (simp add: TS algebra_simps)
              then have "x * spe s m + (spe s m - 1) < (i + 1) * T" using Dm(9) by simp
              ultimately show False using 2(3) by simp
            qed
            then show ?thesis using s'(4) [OF m] x rK by simp
          qed
          moreover have "length (level_data s' m) = length (level_data s m)"
            using level_okD(8) [OF s'(3) m] Dm(8) E(1,11) S spe by simp
          ultimately have "take (bs_rN s) (drop (i * bs_rN s) (level_data s' m)) = take (bs_rN s) (drop (i * bs_rN s) (level_data s m))"
            using rK Dm(8) by (intro nth_equalityI) simp_all
          then show ?thesis using Suc E(3,11) S spe by (simp add: block_value_def)
        qed
        then show ?thesis using old by simp
      qed
    qed
    ultimately show ?thesis using s'(1-3) by blast
  qed
qed

end
