(* ===== verification/Bufrecv.thy ===== *)
theory Bufrecv
  imports Bufring
begin

text \<open>
  Receiving samples (\<^verbatim>\<open>jsdrv_bufsig_recv_data\<close> of \<^verbatim>\<open>src/buffer_signal.c\<close>): the ring holds the newest
  samples of the stream, gaps are filled, and the summaries of every level are up to date.
\<close>

section \<open>The samples in the ring\<close>

text \<open>The bits of the samples in the ring, oldest first.\<close>

definition held_bits :: "bufsig_s \<Rightarrow> bool list" where
  "held_bits s = ring_list (bs_size s = bs_N s) (bs_head s * ebits s) (bits_of (data_of s))"

lemma byte_eqI2:
  assumes "i < length b" and "j < length b'" and "take 8 (drop (8 * i) (bits_of b)) = take 8 (drop (8 * j) (bits_of b'))"
  shows "b ! i = (b' ! j :: u8)"
proof (rule bit_word_eqI)
  fix n assume n: "n < LENGTH(8)"
  have "map (bit (b ! i)) [0..<8] ! n = map (bit (b' ! j)) [0..<8] ! n" using assms by (simp add: byte_bits del: upt_Suc)
  then show "bit (b ! i) n = bit (b' ! j) n" using n by (simp del: upt_Suc)
qed

lemma f32_at_eqI:
  assumes "4 * i + 4 \<le> length d" and "4 * j + 4 \<le> length d'" and "sample_at 32 d i = sample_at 32 d' j"
  shows "f32_at d i = f32_at d' j"
proof -
  have "d ! (4 * i + n) = d' ! (4 * j + n)" if "n < 4" for n
  proof (rule byte_eqI2)
    have "take 8 (drop (8 * (4 * x + n)) (bits_of e)) = take 8 (drop (8 * n) (sample_at 32 e x))" for e x
      using that by (simp add: sample_at_def take_drop_sub algebra_simps)
    then show "take 8 (drop (8 * (4 * i + n)) (bits_of d)) = take 8 (drop (8 * (4 * j + n)) (bits_of d'))"
      using assms(3) by simp
  qed (use assms(1,2) that in simp_all)
  from this [of 0] this [of 1] this [of 2] this [of 3] show ?thesis using assms(1,2) by (simp add: f32_at_def f32_load_def)
qed

lemma overwrite_outside:
  assumes "p + length ys \<le> length xs" and "i + n \<le> p \<or> p + length ys \<le> i"
  shows "take n (drop i (overwrite xs p ys)) = take n (drop i xs)"
  using assms by (auto simp: overwrite_def take_drop_sub)

lemma overwrite_inside:
  assumes "p + length ys \<le> length xs" and "p \<le> i" and "i + n \<le> p + length ys"
  shows "take n (drop i (overwrite xs p ys)) = take n (drop (i - p) ys)"
  using assms by (simp add: overwrite_def)

lemma sample_outside:
  assumes "bits_of d = overwrite R (h * b) ys" and "length ys = k * b" and "(h + k) * b \<le> length R" and "x < h \<or> h + k \<le> x"
  shows "sample_at b d x = take b (drop (x * b) R)"
proof -
  have "x * b + b \<le> h * b \<or> h * b + k * b \<le> x * b"
    using assms(4) mult_right_mono [of "x + 1" h b] mult_right_mono [of "h + k" x b] by (auto simp: algebra_simps)
  then show ?thesis using overwrite_outside [of "h * b" ys R "x * b" b] assms(1-3) by (simp add: sample_at_def algebra_simps)
qed

lemma sample_inside:
  assumes "bits_of d = overwrite R (h * b) ys" and "length ys = k * b" and "(h + k) * b \<le> length R" and "h \<le> x" and "x < h + k"
  shows "sample_at b d x = take b (drop ((x - h) * b) ys)"
proof -
  have "h * b \<le> x * b" "(x + 1) * b \<le> (h + k) * b" using assms(4,5) by (intro mult_right_mono; simp)+
  moreover have "x * b - h * b = (x - h) * b" by (simp add: diff_mult_distrib)
  ultimately show ?thesis using overwrite_inside [of "h * b" ys R "x * b" b] assms(1-3) by (simp add: sample_at_def algebra_simps)
qed

text \<open>Samples stored without going around the end of the ring, as a list.\<close>

lemma ring_chunk:
  assumes "length R = N * b" and "length ys = k * b" and "h + k \<le> N" and "h' = h + k \<or> h + k = N \<and> h' = 0"
    and "sz \<le> N" and "sz < N \<Longrightarrow> h = sz"
  shows "ring_list (min N (sz + k) = N) (h' * b) (overwrite R (h * b) ys) = lastn (N * b) (ring_list (sz = N) (h * b) R @ ys)"
proof -
  have fit: "h * b + length ys \<le> length R" using assms(1-3) mult_right_mono [of "h + k" N b] by (simp add: algebra_simps)
  then have len: "length (overwrite R (h * b) ys) = N * b" using assms(1) by simp
  have hk: "h * b + length ys = (h + k) * b" by (simp add: assms(2) algebra_simps)
  note put = ring_list_put [OF fit, unfolded hk]
  have w: "ring_list True (0 * b) (overwrite R (h * b) ys) = ring_list f ((h + k) * b) (overwrite R (h * b) ys)" if "h + k = N" for f
    using ring_list_wrap [of "overwrite R (h * b) ys"] len that by (cases f) simp_all
  show ?thesis
  proof (cases "sz = N")
    case True
    then show ?thesis using put [of True] w [of True] assms(1,4) by auto
  next
    case False
    then have h: "h = sz" using assms(5,6) by simp
    have "h * b \<le> length R" using fit by linarith
    then have "length (ring_list False (h * b) R) = h * b" by (simp only: length_ring_list if_False)
    then have "length (ring_list False (h * b) R @ ys) \<le> N * b" using fit assms(1) by (simp only: length_append)
    then have e: "lastn (N * b) (ring_list (sz = N) (h * b) R @ ys) = ring_list False ((h + k) * b) (overwrite R (h * b) ys)"
      using put [of False] False by simp
    show ?thesis
    proof (cases "h + k = N")
      case True
      then have "ring_list True (h' * b) (overwrite R (h * b) ys) = ring_list False ((h + k) * b) (overwrite R (h * b) ys)"
        using w [of False] w [of True] assms(4) by auto
      then show ?thesis using e True h by simp
    next
      case False
      then show ?thesis using e assms(3,4) h by auto
    qed
  qed
qed

section \<open>The copy of a message\<close>

lemma recv_copy_bits:
  assumes "b = 32 \<or> b = 1 \<or> b = 4" and "(h + k) * b \<le> 8 * length dst" and "p + k * b \<le> 8 * length src" and "b = 32 \<Longrightarrow> 32 dvd p"
  shows "\<exists>r. recv_copy b dst h src p k = Inr r \<and> length r = length dst
    \<and> bits_of r = overwrite (bits_of dst) (h * b) (take (k * b) (drop p (bits_of src)))"
proof (cases "b = 32")
  case True
  then obtain q where q: "p = 32 * q" using assms(4) by (auto elim: dvdE)
  then have e: "8 * (4 * h) = h * 32" "8 * (4 * q) = p" "8 * (4 * k) = k * 32" by simp_all
  have "4 * h + 4 * k \<le> length dst" "4 * q + 4 * k \<le> length src" using assms(2,3) True q by simp_all
  from ent_copy_bits [OF this, unfolded e] show ?thesis using True q by (simp add: recv_copy_def)
next
  case False
  then have "b mod 8 \<noteq> 0" using assms(1) by auto
  moreover have "h * b + k * b \<le> 8 * length dst" using assms(2) by (simp add: add_mult_distrib)
  ultimately show ?thesis using bits_copy_bits [of "h * b" "k * b" dst p src] assms(3) by (simp add: recv_copy_def)
qed

text \<open>Samples \<open>q\<close> to \<open>q + n - 1\<close> of a message that may be stored.\<close>

definition src_safe :: "bufsig_s \<Rightarrow> u8 list \<Rightarrow> nat \<Rightarrow> nat \<Rightarrow> bool" where
  "src_safe s src q n \<longleftrightarrow> (q + n) * ebits s \<le> 8 * length src \<and> (is_float s \<longrightarrow> (\<forall>j<n. f32_safe (f32_at src (q + j))))"

text \<open>What receiving keeps of the state besides the samples and their summaries.\<close>

definition same_buffer :: "bufsig_s \<Rightarrow> bufsig_s \<Rightarrow> bool" where
  "same_buffer s s' \<longleftrightarrow> bs_N s' = bs_N s \<and> bs_r0 s' = bs_r0 s \<and> bs_rN s' = bs_rN s \<and> bs_hdr s' = bs_hdr s
     \<and> bs_tmap s' = bs_tmap s \<and> bs_active s' = bs_active s"

lemma same_buffer_trans: "same_buffer s t \<Longrightarrow> same_buffer t u \<Longrightarrow> same_buffer s u"
  by (simp add: same_buffer_def)

lemma chunk_stored:
  assumes "ring_ok s" and "src_safe s src q k" and "bs_head s + k \<le> bs_N s"
    and "h' = bs_head s + k \<or> bs_head s + k = bs_N s \<and> h' = 0"
  shows "\<exists>d. recv_copy (ebits s) (data_of s) (bs_head s) src (q * ebits s) k = Inr d
    \<and> bits_of d = overwrite (bits_of (data_of s)) (bs_head s * ebits s) (take (k * ebits s) (drop (q * ebits s) (bits_of src)))
    \<and> length d = length (data_of s)
    \<and> stored s k d (s\<lparr>bs_data := Some d, bs_size := size_add s k, bs_head := h', bs_sample_id_head := i\<rparr>)"
proof -
  note R = ring_okD [OF assms(1)]
  define b ys where "b = ebits s" and "ys = take (k * b) (drop (q * b) (bits_of src))"
  have b: "b = 32 \<or> b = 1 \<or> b = 4" using R(1) by (auto simp: kind_ok_def b_def split: if_splits)
  have src: "q * b + k * b \<le> 8 * length src" using assms(2) by (simp add: src_safe_def b_def algebra_simps)
  have dst: "(bs_head s + k) * b \<le> 8 * length (data_of s)" using R(3) assms(3) by (simp add: b_def)
  obtain d where d: "recv_copy b (data_of s) (bs_head s) src (q * b) k = Inr d" "length d = length (data_of s)"
    "bits_of d = overwrite (bits_of (data_of s)) (bs_head s * b) ys"
    using recv_copy_bits [OF b dst src] by (auto simp: ys_def)
  have ys: "length ys = k * b" using src by (simp add: ys_def)
  have fit: "(bs_head s + k) * b \<le> length (bits_of (data_of s))" using dst by simp
  have out: "sample_at b d x = sample_at b (data_of s) x" if "\<not> written (bs_N s) (bs_head s) k x" for x
    using sample_outside [OF d(3) ys fit, of x] that by (auto simp: written_def sample_at_def)
  have safe: "f32_safe (f32_at d x)" if f: "is_float s" and x: "x < bs_N s" "written (bs_N s) (bs_head s) k x" for x
  proof -
    have x': "bs_head s \<le> x" "x < bs_head s + k" using x assms(3) by (auto simp: written_def)
    define j where "j = x - bs_head s"
    have b32: "b = 32" using f R(1) by (simp add: kind_ok_def b_def)
    have "j < k" using x' by (simp add: j_def)
    then have "take 32 (drop (j * 32) ys) = sample_at 32 src (q + j)"
      by (simp add: ys_def b32 sample_at_def take_drop_sub algebra_simps)
    then have "f32_at d x = f32_at src (q + j)"
      using sample_inside [OF d(3) ys fit x'] d(2) R(3) x(1) src \<open>j < k\<close>
      by (intro f32_at_eqI) (simp_all add: b32 j_def [symmetric] b_def [symmetric])
    then show ?thesis using assms(2) f \<open>j < k\<close> by (simp add: src_safe_def)
  qed
  show ?thesis
    using d assms(3,4) out safe by (intro exI [of _ d]) (auto simp: stored_def b_def ys_def)
qed


lemma chunk_ok:
  assumes inv: "levels_ok L s" "ring_ok s" "fresh L s" and src: "src_safe s src q k" and k: "bs_head s + k \<le> bs_N s" "bs_head s < bs_N s \<or> k = 0"
    and h': "h' = bs_head s + k \<or> bs_head s + k = bs_N s \<and> h' = 0"
  shows "\<exists>d s'. recv_copy (ebits s) (data_of s) (bs_head s) src (q * ebits s) k = Inr d
    \<and> summarize (s\<lparr>bs_data := Some d, bs_size := size_add s k, bs_head := h', bs_sample_id_head := i\<rparr>) (bs_head s) k = Inr s'
    \<and> levels_ok L s' \<and> ring_ok s' \<and> fresh L s' \<and> same_buffer s s' \<and> bs_size s' = min (bs_N s) (bs_size s + k)
    \<and> bs_head s' = h' \<and> bs_sample_id_head s' = i
    \<and> held_bits s' = lastn (bs_N s * ebits s) (held_bits s @ take (k * ebits s) (drop (q * ebits s) (bits_of src)))"
proof -
  note R = ring_okD [OF inv(2)]
  obtain d where d: "recv_copy (ebits s) (data_of s) (bs_head s) src (q * ebits s) k = Inr d"
    "bits_of d = overwrite (bits_of (data_of s)) (bs_head s * ebits s) (take (k * ebits s) (drop (q * ebits s) (bits_of src)))"
    "length d = length (data_of s)"
    "stored s k d (s\<lparr>bs_data := Some d, bs_size := size_add s k, bs_head := h', bs_sample_id_head := i\<rparr>)"
    using chunk_stored [OF inv(2) src k(1) h', of i] by blast
  have kN: "k \<le> bs_N s" using k(1) by simp
  obtain s' where s': "summarize (s\<lparr>bs_data := Some d, bs_size := size_add s k, bs_head := h', bs_sample_id_head := i\<rparr>) (bs_head s) k = Inr s'"
    "same_but_levels (s\<lparr>bs_data := Some d, bs_size := size_add s k, bs_head := h', bs_sample_id_head := i\<rparr>) s'"
    "levels_ok L s'" "ring_ok s'" "fresh L s'"
    using store_summarize [OF inv kN k(2) d(4)] by blast
  note E = same_but_levelsD [OF s'(2), simplified]
  have sz: "size_add s k = min (bs_N s) (bs_size s + k)" by (auto simp: size_add_def)
  have "(q + k) * ebits s \<le> 8 * length src" using src by (simp add: src_safe_def)
  then have "length (take (k * ebits s) (drop (q * ebits s) (bits_of src))) = k * ebits s" by (simp add: algebra_simps)
  then have "held_bits s' = lastn (bs_N s * ebits s) (held_bits s @ take (k * ebits s) (drop (q * ebits s) (bits_of src)))"
    using ring_chunk [of "bits_of (data_of s)" "bs_N s" "ebits s" _ k "bs_head s" h' "bs_size s"] R(3,7,8) k(1) h' d(2)
    by (simp add: held_bits_def E data_of_def [of s'] sz)
  then show ?thesis using d(1) s' E by (intro exI [of _ d] exI [of _ s']) (simp add: same_buffer_def sz)
qed

lemma src_safe_split:
  assumes "src_safe s src q n" and "k \<le> n"
  shows "src_safe s src q k" and "src_safe s src (q + k) (n - k)"
proof -
  have "(q + k) * ebits s \<le> (q + n) * ebits s" using assms(2) by (intro mult_right_mono) simp_all
  then have "(q + k) * ebits s \<le> 8 * length src" using assms(1) unfolding src_safe_def by linarith
  then show "src_safe s src q k" using assms by (simp add: src_safe_def)
  have "f32_safe (f32_at src (q + k + j))" if "is_float s" "j < n - k" for j
    using assms that by (auto simp: src_safe_def dest: spec [of _ "k + j"] simp: add.assoc)
  then show "src_safe s src (q + k) (n - k)" using assms by (simp add: src_safe_def)
qed

lemma src_safe_cong: "same_buffer s s' \<Longrightarrow> src_safe s' = src_safe s"
  by (intro ext) (simp add: src_safe_def same_buffer_def)

lemma recv_loop_ok:
  assumes "levels_ok L s" and "ring_ok s" and "fresh L s" and "src_safe s src q n"
    and "2 * n + (if bs_head s = bs_N s then 1 else 0) < fuel"
  shows "\<exists>s'. recv_loop fuel src (q * ebits s) n s = Inr s' \<and> levels_ok L s' \<and> ring_ok s' \<and> fresh L s' \<and> same_buffer s s'
    \<and> bs_size s' = min (bs_N s) (bs_size s + n) \<and> bs_sample_id_head s' = bs_sample_id_head s + of_nat n
    \<and> held_bits s' = lastn (bs_N s * ebits s) (held_bits s @ take (n * ebits s) (drop (q * ebits s) (bits_of src)))"
  using assms
proof (induction fuel arbitrary: q n s)
  case (Suc fuel)
  note R = ring_okD [OF Suc.prems(2)]
  have hl: "length (held_bits s) \<le> bs_N s * ebits s"
    using R(3,6,7,8) by (simp add: held_bits_def)
  show ?case
  proof (cases "n = 0")
    case True
    then show ?thesis using Suc.prems(1-3) R(7) hl by (intro exI [of _ s]) (simp add: same_buffer_def)
  next
    case False
    define h where "h = bs_head s"
    define k h' where "k = (if h + n > bs_N s then bs_N s - h else n)" and "h' = (if h + n > bs_N s then 0 else h + n)"
    have h: "h \<le> bs_N s" using R(6) by (simp add: h_def)
    have k: "k \<le> n" "bs_head s + k \<le> bs_N s" "bs_head s < bs_N s \<or> k = 0" "h' = bs_head s + k \<or> bs_head s + k = bs_N s \<and> h' = 0"
      using h by (auto simp: k_def h'_def h_def)
    obtain d t where d: "recv_copy (ebits s) (data_of s) h src (q * ebits s) k = Inr d"
      and t: "summarize (s\<lparr>bs_data := Some d, bs_size := size_add s k, bs_head := h',
                          bs_sample_id_head := bs_sample_id_head s + of_nat k\<rparr>) h k = Inr t"
      "levels_ok L t" "ring_ok t" "fresh L t" "same_buffer s t" "bs_size t = min (bs_N s) (bs_size s + k)"
      "bs_head t = h'" "bs_sample_id_head t = bs_sample_id_head s + of_nat k"
      "held_bits t = lastn (bs_N s * ebits s) (held_bits s @ take (k * ebits s) (drop (q * ebits s) (bits_of src)))"
      using chunk_ok [OF Suc.prems(1-3) src_safe_split(1) [OF Suc.prems(4) k(1)] k(2-4)] unfolding h_def by blast
    have e: "ebits t = ebits s" "bs_N t = bs_N s" using t(5) by (simp_all add: same_buffer_def)
    have "recv_loop (Suc fuel) src (q * ebits s) n s = recv_loop fuel src ((q + k) * ebits t) (n - k) t"
      using False R(2) d t(1) e by (simp add: h_def [symmetric] k_def [symmetric] h'_def [symmetric] add_mult_distrib Let_def)
    moreover have "2 * (n - k) + (if bs_head t = bs_N t then 1 else 0) < fuel"
    proof (cases "h = bs_N s")
      case True
      then have "k = 0" "h' = 0" using False by (simp_all add: k_def h'_def)
      moreover have "0 < bs_N s" using Suc.prems(1) by (simp add: levels_ok_def)
      ultimately show ?thesis using Suc.prems(5) t(7) e True by (simp add: h_def)
    next
      case False
      then have "0 < k" using h \<open>n \<noteq> 0\<close> by (auto simp: k_def)
      then show ?thesis using Suc.prems(5) k(1) by (auto split: if_splits)
    qed
    moreover have "src_safe t src (q + k) (n - k)"
      using src_safe_split(2) [OF Suc.prems(4) k(1)] src_safe_cong [OF t(5)] by simp
    ultimately obtain s' where s': "recv_loop (Suc fuel) src (q * ebits s) n s = Inr s'" "levels_ok L s'" "ring_ok s'" "fresh L s'"
      "same_buffer t s'" "bs_size s' = min (bs_N s) (bs_size t + (n - k))" "bs_sample_id_head s' = bs_sample_id_head t + of_nat (n - k)"
      "held_bits s' = lastn (bs_N s * ebits s) (held_bits t @ take ((n - k) * ebits s) (drop ((q + k) * ebits s) (bits_of src)))"
      using Suc.IH [OF t(2-4), of "q + k" "n - k"] e by auto
    have "take (n * ebits s) (drop (q * ebits s) (bits_of src)) = take (k * ebits s) (drop (q * ebits s) (bits_of src))
        @ take ((n - k) * ebits s) (drop ((q + k) * ebits s) (bits_of src))"
      using take_add [of "k * ebits s" "(n - k) * ebits s" "drop (q * ebits s) (bits_of src)"] k(1)
      by (simp add: add_mult_distrib [symmetric] add.commute)
    then have "held_bits s' = lastn (bs_N s * ebits s) (held_bits s @ take (n * ebits s) (drop (q * ebits s) (bits_of src)))"
      using s'(8) t(9) lastn_lastn_append by (simp add: append_assoc [symmetric] del: append_assoc)
    moreover have "bs_sample_id_head s' = bs_sample_id_head s + of_nat n"
      using s'(7) t(8) k(1) by (simp add: of_nat_diff)
    ultimately show ?thesis
      using s' t(5,6) k(1) same_buffer_trans by (intro exI [of _ s']) auto
  qed
qed simp

section \<open>Gaps\<close>

text \<open>The bits of \<open>k\<close> samples that were lost.\<close>

definition lost_bits :: "bufsig_s \<Rightarrow> nat \<Rightarrow> bool list" where
  "lost_bits s k = (if is_float s then concat (replicate k (bits_of (f32_bytes F32_NAN))) else replicate (k * ebits s) False)"

lemma length_nan_bits: "length (concat (replicate k (bits_of (f32_bytes F32_NAN)))) = k * 32"
  by (induction k) (simp_all add: f32_bytes_def del: bits_of_simps)

lemma fill_f32_bits:
  assumes "i + k \<le> N" and "4 * N \<le> length data"
  shows "\<exists>r. fill_f32 k N i data = Inr r \<and> length r = length data
    \<and> bits_of r = overwrite (bits_of data) (i * 32) (concat (replicate k (bits_of (f32_bytes F32_NAN))))"
  using assms
proof (induction k arbitrary: i data)
  case (Suc k)
  define ys where "ys = bits_of (f32_bytes F32_NAN)"
  have ys: "length ys = 32" by (simp add: ys_def f32_bytes_def del: bits_of_simps)
  have "4 * i + 4 \<le> length data" "0 + 4 \<le> length (f32_bytes F32_NAN)" using Suc.prems by (simp_all add: f32_bytes_def)
  from ent_copy_bits [OF this] obtain r where r: "f32_store data i F32_NAN = Inr r" "length r = length data"
    "bits_of r = overwrite (bits_of data) (i * 32) ys"
    using ys by (auto simp: f32_store_def ys_def mult.commute)
  obtain r' where r': "fill_f32 k N (i + 1) r = Inr r'" "length r' = length data"
    "bits_of r' = overwrite (bits_of r) ((i + 1) * 32) (concat (replicate k ys))"
    using Suc.IH [of "i + 1" r] Suc.prems r(2) by (auto simp: ys_def)
  have "overwrite (bits_of r) ((i + 1) * 32) (concat (replicate k ys)) = overwrite (bits_of data) (i * 32) (ys @ concat (replicate k ys))"
    unfolding r(3) using overwrite_splice [of "i * 32" ys "bits_of data"] ys Suc.prems by (simp add: add.commute)
  then show ?case using r(1) r' Suc.prems(1) by (simp add: ys_def)
qed simp

lemma fill_f32_append: "i + a = N \<Longrightarrow> fill_f32 (a + c) N i data = cbind (fill_f32 a N i data) (fill_f32 c N N)"
proof (induction a arbitrary: i data)
  case (Suc a)
  then show ?case by (cases "f32_store data i F32_NAN") auto
qed simp

lemma fill_f32_wrap: "0 < N \<Longrightarrow> fill_f32 c N N data = fill_f32 c N 0 data"
  by (cases c) simp_all

text \<open>A gap that goes around the end of the ring is two parts.\<close>

definition lost_at :: "nat \<Rightarrow> nat \<Rightarrow> nat \<Rightarrow> nat \<Rightarrow> (nat \<Rightarrow> bool list) \<Rightarrow> bool list \<Rightarrow> bool list" where
  "lost_at N b h k F R =
     (if h + k \<le> N then overwrite R (h * b) (F k)
      else overwrite (overwrite R (h * b) (F (N - h))) 0 (F (k - (N - h))))"

lemma fill_f32_ring:
  assumes "h < N" and "k \<le> N" and "4 * N \<le> length data"
  shows "\<exists>r. fill_f32 k N h data = Inr r \<and> length r = length data
    \<and> bits_of r = lost_at N 32 h k (\<lambda>k. concat (replicate k (bits_of (f32_bytes F32_NAN)))) (bits_of data)"
proof (cases "h + k \<le> N")
  case True
  then show ?thesis using fill_f32_bits [OF True assms(3)] by (simp add: lost_at_def)
next
  case False
  define a c where "a = N - h" and "c = k - a"
  have k: "k = a + c" "h + a = N" "0 + c \<le> N" using False assms(1,2) by (simp_all add: a_def c_def)
  obtain r where r: "fill_f32 a N h data = Inr r" "length r = length data"
    "bits_of r = overwrite (bits_of data) (h * 32) (concat (replicate a (bits_of (f32_bytes F32_NAN))))"
    using fill_f32_bits [of h a N data] k(2) assms(3) by auto
  obtain r' where r': "fill_f32 c N 0 r = Inr r'" "length r' = length data"
    "bits_of r' = overwrite (bits_of r) 0 (concat (replicate c (bits_of (f32_bytes F32_NAN))))"
    using fill_f32_bits [OF k(3), of r] assms(3) r(2) by auto
  have "fill_f32 k N h data = Inr r'"
    unfolding k(1) using fill_f32_append [OF k(2)] fill_f32_wrap [of N c r] r(1) r'(1) assms(1) by simp
  then show ?thesis using False r r' by (simp add: lost_at_def a_def c_def)
qed

lemma fill_uint_ring:
  assumes "h < N" and "k \<le> N" and "N * b \<le> 8 * length data"
  shows "\<exists>r. fill_uint b k N h data = Inr r \<and> length r = length data
    \<and> bits_of r = lost_at N b h k (\<lambda>k. replicate (k * b) False) (bits_of data)"
proof (cases "h + k \<le> N")
  case True
  then have "h * b + k * b \<le> 8 * length data"
    using assms(3) mult_right_mono [of "h + k" N b] by (simp add: add_mult_distrib)
  then show ?thesis using bits_zero_bits [of "h * b" "k * b" data] True by (simp add: fill_uint_def lost_at_def)
next
  case False
  define a c where "a = N - h" and "c = k - a"
  have k: "h + a = N" "c \<le> N" using False assms(1,2) by (simp_all add: a_def c_def)
  have "h * b + a * b \<le> 8 * length data" using assms(3) k(1) by (simp add: add_mult_distrib [symmetric])
  then obtain r where r: "bits_zero data (h * b) (a * b) = Inr r" "length r = length data"
    "bits_of r = overwrite (bits_of data) (h * b) (replicate (a * b) False)"
    using bits_zero_bits [of "h * b" "a * b" data] by auto
  have "0 + c * b \<le> 8 * length r" using assms(3) r(2) mult_right_mono [OF k(2), of b] by linarith
  then obtain r' where r': "bits_zero r 0 (c * b) = Inr r'" "length r' = length data"
    "bits_of r' = overwrite (bits_of r) 0 (replicate (c * b) False)"
    using bits_zero_bits [of 0 "c * b" r] r(2) by auto
  then show ?thesis using False r by (simp add: fill_uint_def lost_at_def a_def c_def Let_def)
qed

lemma recv_fill_ring:
  assumes "ring_ok s" and "bs_head s < bs_N s" and "k \<le> bs_N s"
  shows "\<exists>d. (if is_float s then fill_f32 k (bs_N s) (bs_head s) (data_of s) else fill_uint (ebits s) k (bs_N s) (bs_head s) (data_of s)) = Inr d
    \<and> length d = length (data_of s) \<and> bits_of d = lost_at (bs_N s) (ebits s) (bs_head s) k (lost_bits s) (bits_of (data_of s))"
proof (cases "is_float s")
  case True
  then have "ebits s = 32" "4 * bs_N s \<le> length (data_of s)" using ring_okD(1,3) [OF assms(1)] by (simp_all add: kind_ok_def)
  moreover have "lost_bits s = (\<lambda>k. concat (replicate k (bits_of (f32_bytes F32_NAN))))" using True by (intro ext) (simp add: lost_bits_def)
  ultimately show ?thesis using fill_f32_ring [OF assms(2,3), of "data_of s"] True by simp
next
  case False
  moreover have "lost_bits s = (\<lambda>k. replicate (k * ebits s) False)" using False by (intro ext) (simp add: lost_bits_def)
  ultimately show ?thesis using fill_uint_ring [OF assms(2,3), of "ebits s" "data_of s"] ring_okD(3) [OF assms(1)] by simp
qed

lemma length_lost_bits: "ring_ok s \<Longrightarrow> length (lost_bits s k) = k * ebits s"
  using ring_okD(1) [of s] length_nan_bits [of k] by (simp add: lost_bits_def kind_ok_def)

lemma lost_bits_add: "lost_bits s (a + c) = lost_bits s a @ lost_bits s c"
  by (simp add: lost_bits_def replicate_add add_mult_distrib)

lemma cell_outside:
  assumes "length ys = k * b" and "(h + k) * b \<le> length R" and "x < h \<or> h + k \<le> x"
  shows "take b (drop (x * b) (overwrite R (h * b) ys)) = take b (drop (x * b) R)"
proof -
  have "x * b + b \<le> h * b \<or> h * b + k * b \<le> x * b"
    using assms(3) mult_right_mono [of "x + 1" h b] mult_right_mono [of "h + k" x b] by (auto simp: algebra_simps)
  then show ?thesis using overwrite_outside [of "h * b" ys R "x * b" b] assms(1,2) by (simp add: algebra_simps)
qed

lemma cell_inside:
  assumes "length ys = k * b" and "(h + k) * b \<le> length R" and "h \<le> x" and "x < h + k"
  shows "take b (drop (x * b) (overwrite R (h * b) ys)) = take b (drop ((x - h) * b) ys)"
proof -
  have "h * b \<le> x * b" "(x + 1) * b \<le> (h + k) * b" using assms(3,4) by (intro mult_right_mono; simp)+
  moreover have "x * b - h * b = (x - h) * b" by (simp add: diff_mult_distrib)
  ultimately show ?thesis using overwrite_inside [of "h * b" ys R "x * b" b] assms(1,2) by (simp add: algebra_simps)
qed

lemma nan_cell: "j < k \<Longrightarrow> take 32 (drop (j * 32) (concat (replicate k (bits_of (f32_bytes F32_NAN))))) = bits_of (f32_bytes F32_NAN)"
proof (induction k arbitrary: j)
  case (Suc k)
  have "length (bits_of (f32_bytes F32_NAN)) = 32" by (simp add: f32_bytes_def del: bits_of_simps)
  then show ?case using Suc by (cases j) simp_all
qed simp

lemma f32_nan_safe: "4 * i + 4 \<le> length d \<Longrightarrow> sample_at 32 d i = bits_of (f32_bytes F32_NAN) \<Longrightarrow> f32_safe (f32_at d i)"
proof -
  assume i: "4 * i + 4 \<le> length d" and e: "sample_at 32 d i = bits_of (f32_bytes F32_NAN)"
  have "length (f32_bytes F32_NAN) = 4" by (simp add: f32_bytes_def)
  then have "f32_at d i = f32_at (f32_bytes F32_NAN) 0"
    using i e by (intro f32_at_eqI) (simp_all add: sample_at_def)
  moreover have "f32_at (f32_bytes F32_NAN) 0 = F32_NAN"
    by (simp add: f32_at_def f32_load_def f32_bytes_def F32_NAN_def)
  moreover have "f32_val F32_NAN = FNan" by (simp add: f32_val_def F32_NAN_def fp_decode_def)
  ultimately show ?thesis by (simp add: f32_safe_def)
qed

text \<open>Sample \<open>x\<close> of the ring after a gap: lost or as before.\<close>

lemma lost_at_cell:
  assumes "h < N" and "k \<le> N" and "length R = N * b" and "\<And>k. length (F k) = k * b" and "x < N"
  shows "\<not> written N h k x \<Longrightarrow> take b (drop (x * b) (lost_at N b h k F R)) = take b (drop (x * b) R)"
    and "written N h k x \<Longrightarrow> \<exists>j m. j < m \<and> take b (drop (x * b) (lost_at N b h k F R)) = take b (drop (j * b) (F m))"
proof -
  define a c where "a = N - h" and "c = k - a"
  have le: "m \<le> N \<Longrightarrow> m * b \<le> length R" for m using assms(3) by (simp add: mult_right_mono)
  have a: "h + a = N" using assms(1) by (simp add: a_def)
  have l1: "length (overwrite R (h * b) (F a)) = N * b"
    using assms(3,4) a by (subst length_overwrite) (simp_all add: add_mult_distrib [symmetric])
  have c: "N < h + k \<Longrightarrow> (0 + c) * b \<le> length (overwrite R (h * b) (F a))"
    unfolding l1 using assms(2) by (intro mult_right_mono) (simp_all add: c_def)
  show "take b (drop (x * b) (lost_at N b h k F R)) = take b (drop (x * b) R)" if w: "\<not> written N h k x"
  proof (cases "h + k \<le> N")
    case True
    then show ?thesis using cell_outside [OF assms(4) le [OF True], of x] w by (auto simp: lost_at_def written_def)
  next
    case False
    then have x: "x < h" "0 + c \<le> x" using w assms(1,5) by (auto simp: written_def c_def a_def)
    have "take b (drop (x * b) (overwrite (overwrite R (h * b) (F a)) (0 * b) (F c))) = take b (drop (x * b) (overwrite R (h * b) (F a)))"
      using x(2) False by (intro cell_outside [OF assms(4) c]) simp_all
    then show ?thesis using cell_outside [OF assms(4) le, of h a x] a x(1) False by (simp add: lost_at_def a_def c_def)
  qed
  show "\<exists>j m. j < m \<and> take b (drop (x * b) (lost_at N b h k F R)) = take b (drop (j * b) (F m))" if w: "written N h k x"
  proof (cases "h + k \<le> N")
    case True
    then have "h \<le> x" "x < h + k" using w by (auto simp: written_def)
    then show ?thesis using cell_inside [OF assms(4) le [OF True], of x] True by (intro exI [of _ "x - h"] exI [of _ k]) (auto simp: lost_at_def)
  next
    case False
    show ?thesis
    proof (cases "x < c")
      case True
      have "take b (drop (x * b) (overwrite (overwrite R (h * b) (F a)) (0 * b) (F c))) = take b (drop ((x - 0) * b) (F c))"
        using True False by (intro cell_inside [OF assms(4) c]) simp_all
      then show ?thesis using True False by (intro exI [of _ x] exI [of _ c]) (simp add: lost_at_def a_def c_def)
    next
      case x: False
      then have "h \<le> x" "x < h + a" using w a assms(5) by (auto simp: written_def c_def a_def)
      moreover have "take b (drop (x * b) (overwrite (overwrite R (h * b) (F a)) (0 * b) (F c))) = take b (drop (x * b) (overwrite R (h * b) (F a)))"
        using x False by (intro cell_outside [OF assms(4) c]) simp_all
      ultimately show ?thesis
        using cell_inside [OF assms(4) le, of h a x] a False by (intro exI [of _ "x - h"] exI [of _ a]) (simp add: lost_at_def a_def c_def)
    qed
  qed
qed

lemma skip_ok:
  assumes inv: "levels_ok L s" "ring_ok s" "fresh L s" and k: "bs_head s < bs_N s" "k \<le> bs_N s"
  shows "\<exists>s'. recv_skip s (hd_element_type (bs_hdr s)) k (data_of s) = Inr s'
    \<and> levels_ok L s' \<and> ring_ok s' \<and> fresh L s' \<and> same_buffer s s' \<and> bs_sample_id_head s' = bs_sample_id_head s
    \<and> bs_size s' = min (bs_N s) (bs_size s + k)
    \<and> held_bits s' = lastn (bs_N s * ebits s) (held_bits s @ lost_bits s k)"
proof -
  note R = ring_okD [OF inv(2)]
  define N b h R0 F where "N = bs_N s" and "b = ebits s" and "h = bs_head s" and "R0 = bits_of (data_of s)" and "F = lost_bits s"
  have N: "0 < N" using k(1) by (simp add: N_def)
  have lR: "length R0 = N * b" using R(3) by (simp add: R0_def N_def b_def)
  have lF: "length (F k) = k * b" for k using length_lost_bits [OF inv(2)] by (simp add: F_def b_def)
  obtain d where d: "(if is_float s then fill_f32 k N h (data_of s) else fill_uint b k N h (data_of s)) = Inr d"
    "length d = length (data_of s)" "bits_of d = lost_at N b h k F R0"
    using recv_fill_ring [OF inv(2) k] unfolding N_def b_def h_def F_def R0_def by blast
  have hN: "h < N" "k \<le> N" using k by (simp_all add: h_def N_def)
  define s1 where "s1 = s\<lparr>bs_data := Some d, bs_size := size_add s k, bs_head := (h + k) mod N\<rparr>"
  have m: "(h + k) mod N = (if h + k < N then h + k else h + k - N)" using hN by (simp add: mod_if)
  have "stored s k d s1"
  proof -
    have "f32_safe (f32_at d x)" if f: "is_float s" and x: "x < N" "written N h k x" for x
    proof (rule f32_nan_safe)
      have b32: "b = 32" using f R(1) by (simp add: kind_ok_def b_def)
      show "4 * x + 4 \<le> length d" using d(2) R(3) x(1) b32 by (simp add: N_def b_def)
      obtain j n where j: "j < n" "take b (drop (x * b) (lost_at N b h k F R0)) = take b (drop (j * b) (F n))"
        using lost_at_cell(2) [OF hN lR lF x] by blast
      have "F n = concat (replicate n (bits_of (f32_bytes F32_NAN)))" using f by (simp add: F_def lost_bits_def)
      then show "sample_at 32 d x = bits_of (f32_bytes F32_NAN)"
        using j(2) nan_cell [OF j(1)] d(3) unfolding b32 sample_at_def by simp
    qed
    moreover have "sample_at b d x = sample_at b (data_of s) x" if "x < N" "\<not> written N h k x" for x
      using lost_at_cell(1) [OF hN lR lF that] d(3) by (simp add: sample_at_def R0_def)
    ultimately show ?thesis
      using d(2) m hN by (auto simp: stored_def s1_def N_def b_def h_def)
  qed
  from store_summarize [OF inv k(2) disjI1 [OF k(1)] this] obtain s' where
    s': "summarize s1 h k = Inr s'" "same_but_levels s1 s'" "levels_ok L s'" "ring_ok s'" "fresh L s'"
    by (auto simp: h_def)
  note E = same_but_levelsD [OF s'(2), unfolded s1_def, simplified]
  have sz: "size_add s k = min N (bs_size s + k)" by (auto simp: size_add_def N_def)
  have "ring_list (min N (bs_size s + k) = N) ((h + k) mod N * b) (lost_at N b h k F R0)
      = lastn (N * b) (ring_list (bs_size s = N) (h * b) R0 @ F k)"
  proof (cases "h + k \<le> N")
    case True
    then show ?thesis
      using ring_chunk [OF lR lF True, of "(h + k) mod N" "bs_size s"] m R(7,8) by (auto simp: lost_at_def N_def h_def)
  next
    case False
    define a c where "a = N - h" and "c = k - a"
    have a: "h + a \<le> N" "h + a = N" "c \<le> N" "k = a + c" "0 + c \<le> N" using False hN by (simp_all add: a_def c_def)
    have full: "min N (bs_size s + a) = N" "min N (bs_size s + k) = N"
      using R(7,8) a by (cases "bs_size s < bs_N s"; simp add: N_def h_def)+
    have r1: "ring_list True (0 * b) (overwrite R0 (h * b) (F a)) = lastn (N * b) (ring_list (bs_size s = N) (h * b) R0 @ F a)"
      using ring_chunk [OF lR lF a(1), of 0 "bs_size s"] a(2) R(7,8) full(1) by (simp add: N_def h_def)
    have l1: "length (overwrite R0 (h * b) (F a)) = N * b"
      using lR lF a(2) by (subst length_overwrite) (simp_all add: add_mult_distrib [symmetric])
    have "ring_list (min N (N + c) = N) (c * b) (overwrite (overwrite R0 (h * b) (F a)) (0 * b) (F c))
      = lastn (N * b) (ring_list (N = N) (0 * b) (overwrite R0 (h * b) (F a)) @ F c)"
      by (rule ring_chunk [OF l1 lF a(5)]) simp_all
    moreover have "(h + k) mod N = c" using m False a by simp
    ultimately show ?thesis
      using r1 full(2) False lastn_lastn_append [of "N * b" "ring_list (bs_size s = N) (h * b) R0 @ F a" "F c"]
      by (simp add: lost_at_def a_def [symmetric] c_def [symmetric] a(4) F_def lost_bits_add)
  qed
  then have "held_bits s' = lastn (N * b) (held_bits s @ F k)"
    by (simp add: held_bits_def E data_of_def [of s'] sz d(3) N_def b_def h_def R0_def)
  moreover have "recv_skip s (hd_element_type (bs_hdr s)) k (data_of s) = Inr s'"
    using d(1) s'(1) N by (cases "is_float s") (simp_all add: recv_skip_def N_def b_def h_def s1_def)
  ultimately show ?thesis
    using s' E by (intro exI [of _ s']) (simp add: same_buffer_def sz N_def b_def F_def)
qed

section \<open>Receiving a message\<close>

text \<open>The invariant and the samples depend on these fields only.\<close>

definition same_core :: "bufsig_s \<Rightarrow> bufsig_s \<Rightarrow> bool" where
  "same_core s s' \<longleftrightarrow> bs_N s' = bs_N s \<and> bs_r0 s' = bs_r0 s \<and> bs_rN s' = bs_rN s \<and> bs_levels s' = bs_levels s \<and> bs_data s' = bs_data s
     \<and> bs_head s' = bs_head s \<and> bs_size s' = bs_size s
     \<and> hd_element_type (bs_hdr s') = hd_element_type (bs_hdr s) \<and> hd_element_size_bits (bs_hdr s') = hd_element_size_bits (bs_hdr s)"

lemma same_core_eq:
  assumes "same_core s s'"
  shows "levels_ok L s' = levels_ok L s" "ring_ok s' = ring_ok s" "fresh L s' = fresh L s" "held_bits s' = held_bits s"
    "lost_bits s' = lost_bits s" "src_safe s' = src_safe s" "data_of s' = data_of s"
proof -
  note c = assms [unfolded same_core_def]
  have spe: "spe s' l = spe s l" and ld: "level_data s' l = level_data s l" for l using c by (simp_all add: spe_def level_data_def)
  show d: "data_of s' = data_of s" using c by (simp add: data_of_def)
  have "level_ok s' l = level_ok s l" for l using c by (simp only: level_ok_def spe ld)
  then show "levels_ok L s' = levels_ok L s" using c by (simp add: levels_ok_def)
  show "ring_ok s' = ring_ok s" using c by (simp only: ring_ok_def kind_ok_def d)
  have "summary_level0_get_by_idx s' i n = summary_level0_get_by_idx s i n" for i n
    using c by (simp only: summary_level0_get_by_idx_def)
  then have "block_value s' l i = block_value s l i" for l i using c by (simp add: block_value_def spe ld)
  then show "fresh L s' = fresh L s" using c by (simp add: fresh_def complete_def spe ld)
  show "held_bits s' = held_bits s" "lost_bits s' = lost_bits s" "src_safe s' = src_safe s"
    using c d by (auto simp: held_bits_def lost_bits_def src_safe_def fun_eq_iff)
qed

lemma clear_ok:
  assumes "bufsig_inv L s"
  shows "bufsig_inv L (bufsig_clear s i)" "held_bits (bufsig_clear s i) = []" "src_safe (bufsig_clear s i) = src_safe s"
proof -
  define t where "t = bufsig_clear s i"
  have c: "bs_N t = bs_N s" "bs_r0 t = bs_r0 s" "bs_rN t = bs_rN s" "bs_levels t = bs_levels s" "bs_data t = bs_data s" "bs_hdr t = bs_hdr s"
    "bs_head t = 0" "bs_size t = 0" "bs_tmap t = jsdrv_tmap_clear (bs_tmap s)"
    by (simp_all add: t_def bufsig_clear_def)
  have inv: "levels_ok L s" "ring_ok s" using assms by (simp_all add: bufsig_inv_def)
  have N: "0 < bs_N s" using inv(1) by (simp add: levels_ok_def)
  have spe: "spe t l = spe s l" and ld: "level_data t l = level_data s l" for l using c by (simp_all add: spe_def level_data_def)
  have "level_ok t l = level_ok s l" for l using c by (simp only: level_ok_def spe ld)
  then have lv: "levels_ok L t" using inv(1) c by (simp add: levels_ok_def)
  moreover have d: "data_of t = data_of s" using c by (simp add: data_of_def)
  then have "ring_ok t" using inv(2) c N by (auto simp: ring_ok_def kind_ok_def)
  moreover have "fresh L t"
    unfolding fresh_def
  proof (intro allI impI)
    fix l i assume "l < L" and "complete t (spe t l) i"
    then show "level_data t l ! i = block_value t l i" using level_okD(9) [OF lv, of l] c N by (auto simp: complete_def)
  qed
  moreover obtain tm where "bs_tmap s = Some tm" "tmap_wf tm" using assms by (auto simp: bufsig_inv_def)
  then have "bs_tmap t = Some (tm\<lparr>head := 0, tail := 0\<rparr>)" "tmap_wf (tm\<lparr>head := 0, tail := 0\<rparr>)"
    using c(9) by (auto simp: jsdrv_tmap_clear_def tmap_wf_def tmap_ok_def tmap_size_def)
  ultimately show "bufsig_inv L (bufsig_clear s i)" by (simp add: bufsig_inv_def t_def)
  show "held_bits (bufsig_clear s i) = []" "src_safe (bufsig_clear s i) = src_safe s"
    using c N d unfolding t_def [symmetric] by (auto simp: held_bits_def ring_list_def src_safe_def fun_eq_iff)
qed

lemma recv_store_ok:
  assumes inv: "bufsig_inv L s" and src: "src_safe s (ss_data m) 0 (unat (hd_element_count m))"
    and tm: "\<And>t. bs_tmap s = Some t \<Longrightarrow> alloc_size t < 2 ^ 63"
  shows "\<exists>s'. recv_store s m i = Inr s' \<and> bufsig_inv L s' \<and> bs_sample_id_head s' = i + ucast (hd_element_count m)
    \<and> held_bits s' = lastn (bs_N s * ebits s) (held_bits s @ take (unat (hd_element_count m) * ebits s) (bits_of (ss_data m)))"
proof -
  define n where "n = unat (hd_element_count m)"
  obtain t where t: "bs_tmap s = Some t" "tmap_wf t" using inv by (auto simp: bufsig_inv_def)
  obtain t1 where t1: "jsdrv_tmap_add (Some t) (Some (msg_time_map m)) = Inr (Some t1)" "tmap_wf t1"
    using tmap_add_refines [OF t(2) tm [OF t(1)]] by blast
  define s1 where "s1 = s\<lparr>bs_tmap := Some t1, bs_sample_id_head := i\<rparr>"
  have c: "same_core s s1" by (simp add: same_core_def s1_def)
  note C = same_core_eq [OF c]
  have s1: "levels_ok L s1" "ring_ok s1" "fresh L s1" using inv C by (simp_all add: bufsig_inv_def)
  have e: "ebits s1 = ebits s" "bs_N s1 = bs_N s" by (simp_all add: s1_def)
  have src1: "src_safe s1 (ss_data m) 0 n" using src C(6) by (simp add: n_def)
  have fuel: "2 * n + (if bs_head s1 = bs_N s1 then 1 else 0) < 2 * n + 2" by simp
  have id1: "bs_sample_id_head s1 = i" by (simp add: s1_def)
  obtain s2 where s2: "recv_loop (2 * n + 2) (ss_data m) (0 * ebits s1) n s1 = Inr s2" "levels_ok L s2" "ring_ok s2" "fresh L s2"
    "same_buffer s1 s2" "bs_sample_id_head s2 = i + of_nat n"
    "held_bits s2 = lastn (bs_N s1 * ebits s1) (held_bits s1 @ take (n * ebits s1) (drop (0 * ebits s1) (bits_of (ss_data m))))"
    using recv_loop_ok [OF s1 src1 fuel] unfolding id1 by blast
  have t2: "bs_tmap s2 = Some t1" using s2(5) by (simp add: same_buffer_def s1_def)
  have "ring_len t1 \<le> alloc_size t1" using t1(2) by (simp add: tmap_wf_def tmap_okD)
  then obtain t3 where t3: "jsdrv_tmap_expire_by_sample_id (alloc_size t1) (Some t1) (bs_sample_id_head s2 - of_nat (bs_size s2)) = Inr (Some t3)"
    "tmap_wf t3" using expire_refines [OF t1(2)] by blast
  define s3 where "s3 = s2\<lparr>bs_tmap := Some t3\<rparr>"
  have "same_core s2 s3" by (simp add: same_core_def s3_def)
  note C3 = same_core_eq [OF this]
  have "recv_store s m i = Inr s3"
    using t(1) t1(1) s2(1) t2 t3(1) by (simp add: recv_store_def s1_def s3_def n_def Let_def)
  moreover have "bufsig_inv L s3" using s2(2-4) C3 t3(2) by (simp add: bufsig_inv_def) (simp add: s3_def)
  moreover have "bs_sample_id_head s3 = i + ucast (hd_element_count m)"
    using s2(6) by (simp add: s3_def n_def of_nat_unat)
  ultimately show ?thesis using s2(7) C(4) C3(4) e by (intro exI [of _ s3]) (simp add: n_def)
qed

text \<open>A message that fits the buffer: the same type of samples, at least one sample, all of them in the message.\<close>

definition msg_ok :: "bufsig_s \<Rightarrow> stream_signal_s \<Rightarrow> bool" where
  "msg_ok s m \<longleftrightarrow> hd_element_type m = hd_element_type (bs_hdr s) \<and> hd_element_size_bits m = hd_element_size_bits (bs_hdr s)
     \<and> hd_decimate_factor m \<noteq> 0 \<and> 0 < hd_element_count m \<and> src_safe s (ss_data m) 0 (unat (hd_element_count m))
     \<and> (case bs_tmap s of None \<Rightarrow> True | Some t \<Rightarrow> alloc_size t < 2 ^ 63)"

text \<open>The identifier of the first sample of a message, in units of decimated samples, and the samples missing before it.\<close>

definition msg_id :: "stream_signal_s \<Rightarrow> u64" where
  "msg_id m = hd_sample_id m div ucast (hd_decimate_factor m)"

definition msg_gap :: "bufsig_s \<Rightarrow> stream_signal_s \<Rightarrow> nat" where
  "msg_gap s m = unat (msg_id m - bs_sample_id_head s)"

text \<open>Without wrap-around of the identifiers, a message that starts at or after the expected identifier is neither a duplicate nor
  an overlap.\<close>

lemma msg_not_late:
  assumes "0 < (n::u32)" and "uint i + uint n < 2 ^ 64" and "h \<le> i"
  shows "\<not> i + ucast n - 1 < (h::u64)"
proof -
  have "uint (ucast n :: u64) = uint n" using uint_lt2p [of n] by (simp add: unsigned_ucast_eq take_bit_int_eq_self)
  moreover have n: "1 \<le> uint n" using assms(1) by (simp add: word_less_def)
  moreover have "0 \<le> uint i + uint n - 1" using n uint_ge_0 [of i] by linarith
  ultimately have "uint (i + ucast n - 1) = uint i + uint n - 1"
    using assms(2) by (simp add: uint_word_ariths mod_pos_pos_trivial)
  then show ?thesis using n assms(3) by (simp add: word_less_def word_le_def)
qed

lemma same_core_hdr: "msg_ok s m \<Longrightarrow> same_core s (s\<lparr>bs_hdr := stream_header_s.truncate m\<rparr>)"
  by (simp add: same_core_def msg_ok_def stream_header_s.defs)

text \<open>Filling the gap and storing the message.\<close>

lemma recv_gap_ok:
  assumes inv: "bufsig_inv L s" and head: "bs_head s < bs_N s" and k: "k \<le> bs_N s"
    and src: "src_safe s (ss_data m) 0 (unat (hd_element_count m))" and tm: "\<And>t. bs_tmap s = Some t \<Longrightarrow> alloc_size t < 2 ^ 63"
  shows "\<exists>s'. cbind (recv_skip s (hd_element_type (bs_hdr s)) k (data_of s)) (\<lambda>s. recv_store s m i) = Inr s' \<and> bufsig_inv L s'
    \<and> bs_sample_id_head s' = i + ucast (hd_element_count m)
    \<and> held_bits s' = lastn (bs_N s * ebits s) ((held_bits s @ lost_bits s k) @ take (unat (hd_element_count m) * ebits s) (bits_of (ss_data m)))"
proof -
  have i: "levels_ok L s" "ring_ok s" "fresh L s" using inv by (simp_all add: bufsig_inv_def)
  obtain s1 where s1: "recv_skip s (hd_element_type (bs_hdr s)) k (data_of s) = Inr s1"
    "levels_ok L s1" "ring_ok s1" "fresh L s1" "same_buffer s s1" "held_bits s1 = lastn (bs_N s * ebits s) (held_bits s @ lost_bits s k)"
    using skip_ok [OF i head k] by blast
  note b = s1(5) [unfolded same_buffer_def]
  have inv1: "bufsig_inv L s1" using inv s1(2-4) b by (simp add: bufsig_inv_def)
  have src1: "src_safe s1 (ss_data m) 0 (unat (hd_element_count m))" using src b by (simp add: src_safe_def)
  have tm1: "bs_tmap s1 = Some t \<Longrightarrow> alloc_size t < 2 ^ 63" for t using tm b by simp
  obtain s2 where "recv_store s1 m i = Inr s2" "bufsig_inv L s2" "bs_sample_id_head s2 = i + ucast (hd_element_count m)"
    "held_bits s2 = lastn (bs_N s1 * ebits s1) (held_bits s1 @ take (unat (hd_element_count m) * ebits s1) (bits_of (ss_data m)))"
    using recv_store_ok [OF inv1 src1 tm1] by blast
  then show ?thesis
    using s1(1,6) b lastn_lastn_append [of "bs_N s * ebits s" "held_bits s @ lost_bits s k"] by (intro exI [of _ s2]) simp
qed

text \<open>C8. Receiving samples. A message of the type of the buffer that starts at the expected identifier, or after a gap, is accepted:
  \<^verbatim>\<open>jsdrv_bufsig_recv_data\<close> returns, keeps the invariant (the ring, every complete summary of every level equal to the summary of
  its samples, the time map), and moves the head identifier behind the last sample. The buffer then holds the newest \<open>N\<close> samples of:
  the samples held before, NaN or zero for every sample of the gap, and the samples of the message. The first message and a gap of more
  than \<open>N\<close> samples drop the samples held before. A gap is filled only from a head before the end of the ring.\<close>

theorem jsdrv_bufsig_recv_data_correct:
  assumes inv: "bufsig_inv L s" and msg: "msg_ok s m" and fits: "uint (msg_id m) + uint (hd_element_count m) < 2 ^ 64"
    and order: "bs_sample_id_head s \<le> msg_id m"
    and gap: "0 < msg_gap s m \<Longrightarrow> msg_gap s m \<le> bs_N s \<Longrightarrow> bs_sample_id_head s \<noteq> 0 \<Longrightarrow> bs_head s < bs_N s"
  shows "\<exists>s'. jsdrv_bufsig_recv_data s m = Inr s' \<and> bufsig_inv L s' \<and> bs_sample_id_head s' = msg_id m + ucast (hd_element_count m)
    \<and> held_bits s' = lastn (bs_N s * ebits s)
        ((if bs_sample_id_head s = 0 \<or> msg_gap s m > bs_N s then [] else held_bits s @ lost_bits s (msg_gap s m))
         @ take (unat (hd_element_count m) * ebits s) (bits_of (ss_data m)))"
proof -
  define u i n where "u = s\<lparr>bs_hdr := stream_header_s.truncate m\<rparr>" and "i = msg_id m" and "n = unat (hd_element_count m)"
  have c: "same_core s u" unfolding u_def by (rule same_core_hdr [OF msg])
  note C = same_core_eq [OF c] and c' = c [unfolded same_core_def]
  have eq: "bs_N u = bs_N s" "ebits u = ebits s" "bs_tmap u = bs_tmap s" "bs_head u = bs_head s" "bs_sample_id_head u = bs_sample_id_head s"
    "hd_element_type m = hd_element_type (bs_hdr u)" using c' msg by (simp_all add: u_def msg_ok_def)
  have invu: "bufsig_inv L u" using inv C eq(3) by (simp add: bufsig_inv_def)
  have src: "src_safe u (ss_data m) 0 n" using msg C(6) by (simp add: msg_ok_def n_def)
  have tm: "bs_tmap u = Some t \<Longrightarrow> alloc_size t < 2 ^ 63" for t using msg eq(3) by (auto simp: msg_ok_def)
  have data: "bs_data u = Some (data_of u)" using invu ring_okD(2) by (simp add: bufsig_inv_def)
  have recv: "jsdrv_bufsig_recv_data s m =
     (if bs_sample_id_head s = 0 \<or> msg_gap s m > bs_N s then recv_store (bufsig_clear u i) m i
      else if 0 < msg_gap s m then cbind (recv_skip u (hd_element_type (bs_hdr u)) (msg_gap s m) (data_of u)) (\<lambda>s. recv_store s m i)
      else recv_store u m i)"
  proof -
    have z: "msg_gap s m = 0 \<longleftrightarrow> i = bs_sample_id_head s" by (auto simp: msg_gap_def i_def unat_eq_0)
    have "\<not> i + ucast (hd_element_count m) - 1 < bs_sample_id_head s"
      using msg_not_late [OF _ fits order] msg by (simp add: msg_ok_def i_def)
    moreover have "\<not> i < bs_sample_id_head s" using order by (simp add: i_def)
    ultimately show ?thesis
      using msg z data eq unfolding jsdrv_bufsig_recv_data_def Let_def u_def [symmetric] i_def msg_id_def [symmetric]
      by (auto simp: msg_ok_def msg_gap_def not_less)
  qed
  show ?thesis
  proof (cases "bs_sample_id_head s = 0 \<or> msg_gap s m > bs_N s")
    case True
    have b: "bs_N (bufsig_clear u i) = bs_N s" "ebits (bufsig_clear u i) = ebits s" using eq by (simp_all add: bufsig_clear_def)
    have tm': "alloc_size t < 2 ^ 63" if "bs_tmap (bufsig_clear u i) = Some t" for t
      using that tm by (cases "bs_tmap u") (auto simp: bufsig_clear_def jsdrv_tmap_clear_def)
    have src': "src_safe (bufsig_clear u i) (ss_data m) 0 (unat (hd_element_count m))" using src clear_ok(3) [OF invu] by (simp add: n_def)
    show ?thesis
      using recv_store_ok [OF clear_ok(1) [OF invu] src' tm', of i] clear_ok(2) [OF invu] True b recv by (simp add: i_def)
  next
    case False
    show ?thesis
    proof (cases "0 < msg_gap s m")
      case True
      have "bs_head u < bs_N u" "msg_gap s m \<le> bs_N u" using gap True False eq by simp_all
      then show ?thesis
        using recv_gap_ok [OF invu _ _ src [unfolded n_def] tm, of "msg_gap s m" i] True False recv eq C by (simp add: i_def)
    next
      case z: False
      then show ?thesis
        using recv_store_ok [OF invu src [unfolded n_def] tm, of i] False recv eq C by (simp add: i_def lost_bits_def)
    qed
  qed
qed

text \<open>A buffer of eight one-bit samples with one level of summaries of four samples; it holds three samples. The message has three
  more samples, after a gap of two.\<close>

definition demo_buf :: "nat \<Rightarrow> bufsig_s" where
  "demo_buf h = \<lparr>bs_active = True, bs_topic = ''u/js220/000/s/gpi/0/!data'',
     bs_hdr = \<lparr>hd_sample_id = 14, hd_field_id = 5, hd_index = 0, hd_element_type = JSDRV_DATA_TYPE_UINT, hd_element_size_bits = 1,
       hd_element_count = 3, hd_sample_rate = 2000000, hd_decimate_factor = 2\<rparr>,
     bs_tmap = Some (demo_ring 3), bs_N = 8, bs_size_in_utc = 0, bs_r0 = 4, bs_rN = 2, bs_k = 2, bs_level_count = 1,
     bs_levels = \<lparr>lv_k = 2, lv_r = 4, lv_samples_per_entry = 4, lv_data = Some [entry_clear, entry_clear]\<rparr> # replicate 31 level_zero,
     bs_head = h, bs_size = h, bs_sample_id_head = 10, bs_data = Some [5]\<rparr>"

definition demo_msg :: stream_signal_s where
  "demo_msg = \<lparr>hd_sample_id = 24, hd_field_id = 5, hd_index = 0, hd_element_type = JSDRV_DATA_TYPE_UINT, hd_element_size_bits = 1,
     hd_element_count = 3, hd_sample_rate = 2000000, hd_decimate_factor = 2, ss_time_map = demo_tm 4, ss_data = [3]\<rparr>"

lemma demo_inv: "bufsig_inv 1 (demo_buf 3)"
proof -
  have "levels_ok 1 (demo_buf 3)"
    by (simp add: levels_ok_def level_ok_def demo_buf_def spe_def level_data_def JSDRV_BUFSIG_LEVELS_MAX_def level_zero_def)
  moreover have "ring_ok (demo_buf 3)"
    by (simp add: ring_ok_def kind_ok_def demo_buf_def data_of_def JSDRV_DATA_TYPE_FLOAT_def JSDRV_DATA_TYPE_UINT_def)
  moreover have "fresh 1 (demo_buf 3)"
    by (simp add: fresh_def complete_def demo_buf_def spe_def)
  ultimately show ?thesis by (simp add: bufsig_inv_def demo_ring_wf) (simp add: demo_buf_def demo_ring_wf)
qed

lemma demo_msg_ok: "h < 9 \<Longrightarrow> msg_ok (demo_buf h) demo_msg"
  by (simp add: msg_ok_def demo_buf_def demo_msg_def src_safe_def demo_ring_def JSDRV_DATA_TYPE_FLOAT_def JSDRV_DATA_TYPE_UINT_def)

lemma demo_id: "msg_id demo_msg = 12" "msg_gap (demo_buf h) demo_msg = 2"
  by (simp_all add: msg_id_def msg_gap_def demo_msg_def demo_buf_def)

theorem jsdrv_bufsig_recv_data_correct_witness:
  "\<exists>s'. jsdrv_bufsig_recv_data (demo_buf 3) demo_msg = Inr s' \<and> bufsig_inv 1 s' \<and> bs_sample_id_head s' = 15
    \<and> held_bits s' = [True, False, True, False, False, True, True, False]"
proof -
  have "held_bits (demo_buf 3) = [True, False, True]"
    by (simp add: held_bits_def demo_buf_def data_of_def ring_list_def bits_of_def upt_rec)
  moreover have "lost_bits (demo_buf 3) 2 = [False, False]"
    by (simp add: lost_bits_def demo_buf_def JSDRV_DATA_TYPE_FLOAT_def JSDRV_DATA_TYPE_UINT_def numeral_2_eq_2)
  moreover have "take 3 (bits_of (ss_data demo_msg)) = [True, True, False]"
    by (simp add: demo_msg_def bits_of_def upt_rec)
  moreover have "unat (hd_element_count demo_msg) = 3" "hd_element_count demo_msg = 3" "bs_N (demo_buf 3) = 8" "ebits (demo_buf 3) = 1"
    "bs_sample_id_head (demo_buf 3) = 10" "bs_head (demo_buf 3) = 3"
    by (simp_all add: demo_msg_def demo_buf_def)
  ultimately show ?thesis
    using jsdrv_bufsig_recv_data_correct [OF demo_inv demo_msg_ok] by (simp add: demo_id)
qed


text \<open>A gap that starts at the end of the ring: the samples are stored from the start of the ring, and the summaries from its end.\<close>

lemma fill_at_end:
  assumes "ring_ok s" and "bs_head s = bs_N s" and "0 < k" and "k \<le> bs_N s"
  shows "\<exists>d. (if is_float s then fill_f32 k (bs_N s) (bs_head s) (data_of s) else fill_uint (ebits s) k (bs_N s) (bs_head s) (data_of s)) = Inr d"
proof -
  define t where "t = s\<lparr>bs_head := 0, bs_size := bs_N s\<rparr>"
  have f: "fill_f32 k (bs_N s) (bs_N s) d = fill_f32 k (bs_N s) 0 d" for d
    using assms(3,4) by (cases k) (simp_all add: Let_def)
  have u: "fill_uint b k (bs_N s) (bs_N s) d = fill_uint b k (bs_N s) 0 d" for b d
    using assms(3,4) by (simp add: fill_uint_def bits_zero.simps [of d "bs_N s * b" 0])
  have "bs_size s = bs_N s" using ring_okD(7,8) [OF assms(1)] assms(2) by (cases "bs_size s < bs_N s") simp_all
  then have "ring_ok t" using assms(1) by (auto simp: ring_ok_def t_def kind_ok_def data_of_def)
  then show ?thesis using recv_fill_ring [of t k] assms(2-4) f u by (auto simp: t_def data_of_def)
qed

lemma summarize_at_end:
  assumes "levels_ok L s" and "0 < L" and "bs_r0 s \<le> k"
  shows "summarize s (bs_N s) k = Inl AssertFailed"
proof -
  note l = level_okD [OF assms(1,2)]
  have "bs_r0 s dvd bs_N s" and r: "0 < bs_r0 s" using l by (simp_all add: spe_def)
  then have "bs_N s div bs_r0 s * bs_r0 s = bs_N s" by simp
  moreover have "level_entry s 1 (bs_N s div bs_r0 s) = Inr None"
    using l by (simp add: level_entry_def buf_get_def jsdrv_assert_def JSDRV_BUFSIG_LEVELS_MAX_def spe_def)
  moreover have "summary_level0_get_by_idx s (bs_N s) n = Inl AssertFailed" for n
    by (simp add: summary_level0_get_by_idx_def jsdrv_assert_def)
  ultimately show ?thesis
    using l r assms(3) by (simp add: summarize_def buf_get_def Let_def)
qed

text \<open>C29. A gap after a full ring. When the last message ended exactly at the end of the ring and the next message comes after a gap of
  at least one summary entry that fits in the buffer, \<^verbatim>\<open>summarize\<close> is called with a start index of \<open>N\<close>, and the assertion in
  \<^verbatim>\<open>summary_level0_get_by_idx\<close> ends the process.\<close>

theorem jsdrv_bufsig_recv_data_gap_at_end:
  assumes inv: "bufsig_inv L s" and msg: "msg_ok s m" and fits: "uint (msg_id m) + uint (hd_element_count m) < 2 ^ 64"
    and order: "bs_sample_id_head s < msg_id m" "bs_sample_id_head s \<noteq> 0"
    and gap: "bs_r0 s \<le> msg_gap s m" "msg_gap s m \<le> bs_N s" and full: "bs_head s = bs_N s" and L: "0 < L"
  shows "jsdrv_bufsig_recv_data s m = Inl AssertFailed"
proof -
  define u where "u = s\<lparr>bs_hdr := stream_header_s.truncate m\<rparr>"
  have c: "same_core s u" unfolding u_def by (rule same_core_hdr [OF msg])
  note C = same_core_eq [OF c]
  have u: "levels_ok L u" "ring_ok u" using inv C by (simp_all add: bufsig_inv_def)
  have eq: "bs_N u = bs_N s" "bs_head u = bs_N u" "bs_r0 u = bs_r0 s" "hd_element_type (bs_hdr u) = hd_element_type m" "bs_sample_id_head u = bs_sample_id_head s"
    using full by (simp_all add: u_def stream_header_s.defs)
  have r: "0 < bs_r0 s" using u(1) eq by (simp add: levels_ok_def)
  obtain d where d: "(if is_float u then fill_f32 (msg_gap s m) (bs_N u) (bs_head u) (data_of u)
      else fill_uint (ebits u) (msg_gap s m) (bs_N u) (bs_head u) (data_of u)) = Inr d"
    using fill_at_end [OF u(2) eq(2), of "msg_gap s m"] gap r eq by auto
  define u1 where "u1 = u\<lparr>bs_data := Some d, bs_size := size_add u (msg_gap s m), bs_head := (bs_head u + msg_gap s m) mod bs_N u\<rparr>"
  have "levels_ok L u1" using u(1) by (simp add: u1_def levels_ok_def level_ok_def spe_def level_data_def Let_def)
  then have "summarize u1 (bs_N u1) (msg_gap s m) = Inl AssertFailed"
    by (rule summarize_at_end [OF _ L]) (use gap eq in \<open>simp add: u1_def\<close>)
  then have skip: "recv_skip u (hd_element_type m) (msg_gap s m) (data_of u) = Inl AssertFailed"
    using d eq u(1) by (cases "is_float u") (simp_all add: recv_skip_def u1_def levels_ok_def)
  have "\<not> msg_id m + ucast (hd_element_count m) - 1 < bs_sample_id_head s"
    using msg_not_late [OF _ fits less_imp_le [OF order(1)]] msg by (simp add: msg_ok_def)
  then show ?thesis
    using skip order gap eq msg ring_okD(2) [OF u(2)]
    unfolding jsdrv_bufsig_recv_data_def Let_def u_def [symmetric] msg_id_def [symmetric]
    by (auto simp: msg_ok_def msg_gap_def)
qed


text \<open>The buffer above with all samples zero, full, and its summaries.\<close>

definition demo_full :: bufsig_s where
  "demo_full = (demo_buf 8)\<lparr>bs_data := Some [0],
     bs_levels := (bs_levels (demo_buf 8))[0 := \<lparr>lv_k = 2, lv_r = 4, lv_samples_per_entry = 4,
       lv_data = Some (map (\<lambda>i. case summary_uint 1 [0] 8 (4 * i) 4 of Inl _ \<Rightarrow> entry_clear | Inr (_, y) \<Rightarrow> y) [0, 1])\<rparr>]\<rparr>"

lemma demo_full_inv: "bufsig_inv 1 demo_full"
proof -
  have "levels_ok 1 demo_full"
    by (simp add: levels_ok_def level_ok_def demo_full_def demo_buf_def spe_def level_data_def JSDRV_BUFSIG_LEVELS_MAX_def level_zero_def)
  moreover have "ring_ok demo_full"
    by (simp add: ring_ok_def kind_ok_def demo_full_def demo_buf_def data_of_def JSDRV_DATA_TYPE_FLOAT_def JSDRV_DATA_TYPE_UINT_def)
  moreover have "level_data demo_full 0 ! i = block_value demo_full 0 i" if "i < 2" for i
    using that by (cases i) (simp_all add: block_value_def summary_level0_get_by_idx_def jsdrv_assert_def demo_full_def demo_buf_def
      level_data_def JSDRV_DATA_TYPE_FLOAT_def JSDRV_DATA_TYPE_UINT_def)
  then have "fresh 1 demo_full"
    by (simp add: fresh_def spe_def demo_full_def demo_buf_def)
  ultimately show ?thesis by (simp add: bufsig_inv_def) (simp add: demo_full_def demo_buf_def demo_ring_wf)
qed

definition demo_late :: stream_signal_s where
  "demo_late = demo_msg\<lparr>hd_sample_id := 28\<rparr>"

theorem jsdrv_bufsig_recv_data_gap_at_end_witness: "jsdrv_bufsig_recv_data demo_full demo_late = Inl AssertFailed"
proof (rule jsdrv_bufsig_recv_data_gap_at_end [OF demo_full_inv])
  show "msg_ok demo_full demo_late"
    by (simp add: msg_ok_def demo_full_def demo_buf_def demo_late_def demo_msg_def src_safe_def demo_ring_def JSDRV_DATA_TYPE_FLOAT_def
      JSDRV_DATA_TYPE_UINT_def)
qed (simp_all add: msg_gap_def msg_id_def demo_full_def demo_buf_def demo_late_def demo_msg_def)

section \<open>Allocation\<close>

lemma level_count_loop_returns:
  assumes "2 \<le> rN"
  shows "\<exists>y. level_count_loop rN k n = Some y"
proof (induction k arbitrary: n rule: less_induct)
  case (less k)
  have "k div rN < k" if "rN * rN \<le> k"
  proof -
    have "4 \<le> rN * rN" using mult_le_mono [OF assms assms] by simp
    then show ?thesis using that assms by simp
  qed
  then show ?case using less by (subst level_count_loop.simps) simp
qed

lemma alloc_levels_nth:
  assumes "i \<le> L" and "L < JSDRV_BUFSIG_LEVELS_MAX" and "\<And>j. j < L \<Longrightarrow> 1 < N div (r0 * rN ^ j)" and "N div (r0 * rN ^ L) \<le> 1"
    and "sp * (if i = 0 then r0 else rN) = r0 * rN ^ i" and "length levels = JSDRV_BUFSIG_LEVELS_MAX"
  shows "length (alloc_levels N r0 rN mem i sp levels) = JSDRV_BUFSIG_LEVELS_MAX
    \<and> (\<forall>j < JSDRV_BUFSIG_LEVELS_MAX. alloc_levels N r0 rN mem i sp levels ! j =
        (if i \<le> j \<and> j < L then \<lparr>lv_k = N div (r0 * rN ^ j), lv_r = (if j = 0 then r0 else rN), lv_samples_per_entry = r0 * rN ^ j,
            lv_data = Some (map (mem j) [0..<N div (r0 * rN ^ j)])\<rparr> else levels ! j))"
  using assms(1,5,6)
proof (induction "L - i" arbitrary: i sp levels)
  case 0
  then have "i = L" by simp
  then show ?case using 0 assms(2,4) by (subst (1 2) alloc_levels.simps) (auto simp: Let_def)
next
  case (Suc n)
  define lv where "lv = \<lparr>lv_k = N div (r0 * rN ^ i), lv_r = (if i = 0 then r0 else rN), lv_samples_per_entry = r0 * rN ^ i,
    lv_data = Some (map (mem i) [0..<N div (r0 * rN ^ i)])\<rparr>"
  have i: "i < L" using Suc.hyps(2) by simp
  have "alloc_levels N r0 rN mem i sp levels = alloc_levels N r0 rN mem (i + 1) (r0 * rN ^ i) (levels[i := lv])"
    using Suc.prems(2) assms(2) assms(3) [OF i] i by (subst alloc_levels.simps) (simp add: Let_def lv_def)
  moreover have "n = L - (i + 1)" "i + 1 \<le> L" "length (levels[i := lv]) = JSDRV_BUFSIG_LEVELS_MAX" "i < length levels"
    "r0 * rN ^ i * (if i + 1 = 0 then r0 else rN) = r0 * rN ^ (i + 1)"
    using Suc.hyps(2) Suc.prems(3) i assms(2) by simp_all
  moreover note Suc.hyps(1) [OF this(1,2,5,3)]
  ultimately show ?case by (auto simp: nth_list_update lv_def)
qed

text \<open>The number of levels for a ring of \<open>k * r0 * rN ^ n\<close> samples.\<close>

lemma level_sizes:
  fixes N :: nat
  assumes "N = k * (r0 * rN ^ n)" and "0 < k" "k < 2 * rN" "2 \<le> rN" "0 < r0" and "L = (if k = 1 then n else n + 1)"
  shows "j < L \<Longrightarrow> r0 * rN ^ j dvd N \<and> 1 < N div (r0 * rN ^ j)" and "N div (r0 * rN ^ L) \<le> 1"
proof -
  have N: "N = k * rN ^ (n - j) * (r0 * rN ^ j)" if "j \<le> n" for j
  proof -
    have "rN ^ n = rN ^ (n - j) * rN ^ j" using that by (simp add: power_add [symmetric])
    then show ?thesis using assms(1) by (simp add: ac_simps)
  qed
  have pos: "0 < r0 * rN ^ j" for j using assms by simp
  show "j < L \<Longrightarrow> r0 * rN ^ j dvd N \<and> 1 < N div (r0 * rN ^ j)"
  proof -
    assume "j < L"
    then have j: "j \<le> n" "j = n \<longrightarrow> k \<noteq> 1" using assms(6) by (auto split: if_splits)
    have "1 < k * rN ^ (n - j)"
    proof (cases "j = n")
      case False
      then have "1 < rN ^ (n - j)" using j(1) assms(4) by (intro one_less_power) simp_all
      moreover have "rN ^ (n - j) \<le> k * rN ^ (n - j)" using assms(2) by simp
      ultimately show ?thesis by linarith
    qed (use j assms(2) in simp)
    then show ?thesis using N [OF j(1)] pos [of j] by simp
  qed
  show "N div (r0 * rN ^ L) \<le> 1"
  proof (cases "k = 1")
    case False
    have "N div (r0 * rN ^ L) = k * (r0 * rN ^ n) div (rN * (r0 * rN ^ n))"
      using False assms(1,6) by (simp add: mult.assoc mult.left_commute)
    also have "\<dots> = k div rN" using pos [of n] by (simp only: div_mult_mult2 [OF gr_implies_not0])
    finally show ?thesis using assms(3,4) by (simp add: div_le_dividend less_Suc_eq_le [symmetric] less_mult_imp_div_less)
  qed (use assms in simp)
qed

text \<open>C28. Allocation. For a supported type of samples and a ring of \<open>k * r0 * rN ^ n\<close> samples, the sizes \<^verbatim>\<open>buffer.c\<close> asks for, and with a
  duration that is a time, \<^verbatim>\<open>jsdrv_bufsig_alloc\<close> returns zero and an empty buffer that satisfies the invariant: whatever the allocated
  memory held, every level has the entries for the whole ring, and the level after the last one is empty.\<close>

theorem jsdrv_bufsig_alloc_inv:
  assumes "jsdrv_bufsig_element_type_is_supported (hd_element_type (bs_hdr s)) (hd_element_size_bits (bs_hdr s))"
    and "bs_levels s = replicate JSDRV_BUFSIG_LEVELS_MAX level_zero" and "case bs_tmap s of None \<Rightarrow> True | Some t \<Rightarrow> tmap_wf t"
    and N: "N = k * (r0 * rN ^ n)" and k: "0 < k" "k < 2 * rN" and r: "2 \<le> rN" "0 < r0" "r0 \<le> 2 ^ 11"
    and size: "N < 2 ^ 54" "8 dvd N" "n + 1 < JSDRV_BUFSIG_LEVELS_MAX"
    and "hd_decimate_factor (bs_hdr s) \<noteq> 0"
    and utc: "JSDRV_F64_TO_TIME (f64_div (int_to_f64 (int N)) (int_to_f64 (uint (hd_sample_rate (bs_hdr s) div hd_decimate_factor (bs_hdr s))))) = Inr utc"
  shows "\<exists>s'. jsdrv_bufsig_alloc s N r0 rN mem0 mem = Some (Inr (0, s')) \<and> bufsig_inv (if k = 1 then n else n + 1) s'
    \<and> held_bits s' = [] \<and> bs_hdr s' = bs_hdr s \<and> bs_N s' = N \<and> bs_size_in_utc s' = utc"
proof -
  define L where "L = (if k = 1 then n else n + 1)"
  define h where "h = bs_hdr s"
  define sz where "sz = (if hd_element_type h = JSDRV_DATA_TYPE_FLOAT then N * 4 else (N * unat (hd_element_size_bits h) + 7) div 8)"
  define tm where "tm = (case bs_tmap s of None \<Rightarrow> jsdrv_tmap_alloc 0 | Some t \<Rightarrow> t\<lparr>head := 0, tail := 0\<rparr>)"
  obtain c l where c: "level_count_loop rN (N div r0) 1 = Some (c, l)" using level_count_loop_returns [OF r(1)] by fastforce
  define s' where "s' = s\<lparr>bs_N := N, bs_r0 := r0, bs_rN := rN, bs_k := c, bs_level_count := l, bs_tmap := Some tm,
    bs_size_in_utc := utc, bs_data := Some (map mem0 [0..<sz]), bs_head := 0, bs_size := 0,
    bs_levels := alloc_levels N r0 rN mem 0 1 (bs_levels s)\<rparr>"
  have N0: "0 < N" using N k r by simp
  note lv = level_sizes [OF N k r(1,2) L_def]
  have L: "L < JSDRV_BUFSIG_LEVELS_MAX" using size(3) by (simp add: L_def)
  have A: "length (bs_levels s') = JSDRV_BUFSIG_LEVELS_MAX" "\<forall>j<JSDRV_BUFSIG_LEVELS_MAX. bs_levels s' ! j =
     (if j < L then \<lparr>lv_k = N div (r0 * rN ^ j), lv_r = (if j = 0 then r0 else rN), lv_samples_per_entry = r0 * rN ^ j,
        lv_data = Some (map (mem j) [0..<N div (r0 * rN ^ j)])\<rparr> else level_zero)"
    using alloc_levels_nth [of 0 L N r0 rN 1 "bs_levels s" mem] L lv assms(2) by (simp_all add: s'_def)
  have "level_ok s' j" if "j < L" for j
    using that A(2) L lv(1) [OF that] by (simp add: level_ok_def level_data_def spe_def) (auto simp: s'_def)
  moreover have "lv_data (bs_levels s' ! L) = None" using A(2) L by (simp add: level_zero_def)
  ultimately have "levels_ok L s'" using A(1) L N0 r by (simp add: levels_ok_def) (simp add: s'_def)
  moreover have "ring_ok s'"
    using assms(1) N0 size r
    by (auto simp: ring_ok_def kind_ok_def data_of_def s'_def sz_def h_def jsdrv_bufsig_element_type_is_supported_def split: if_splits)
  moreover have "fresh L s'" using r N0 by (auto simp: fresh_def complete_def spe_def s'_def)
  moreover have "tmap_wf tm"
    using assms(3) jsdrv_tmap_alloc_wf(1) [of 0] by (auto simp: tm_def tmap_wf_def tmap_ok_def tmap_size_def split: option.splits)
  ultimately have "bufsig_inv L s'" by (simp add: bufsig_inv_def) (simp add: s'_def)
  moreover have "jsdrv_bufsig_alloc s N r0 rN mem0 mem = Some (Inr (0, s'))"
  proof -
    have "(case bs_tmap s of None \<Rightarrow> Some (jsdrv_tmap_alloc 0) | Some t \<Rightarrow> jsdrv_tmap_clear (Some t)) = Some tm"
      by (simp add: tm_def jsdrv_tmap_clear_def split: option.splits)
    then show ?thesis using assms(1) r assms(13) utc c by (simp add: jsdrv_bufsig_alloc_def Let_def s'_def sz_def h_def)
  qed
  moreover have "held_bits s' = []" using N0 by (simp add: held_bits_def ring_list_def s'_def)
  ultimately show ?thesis unfolding L_def by (intro exI [of _ s']) (simp add: s'_def)
qed

text \<open>A ring of 64 one-bit samples at one million samples a second.\<close>

definition demo_free :: bufsig_s where
  "demo_free = (jsdrv_bufsig_free (demo_buf 3))\<lparr>bs_hdr := bs_hdr (demo_buf 3)\<rparr>"

lemma demo_duration: "JSDRV_F64_TO_TIME (f64_div (int_to_f64 64) (int_to_f64 1000000)) = Inr 68719"
proof -
  note fp = f64_val_def fp_decode_def fp_encode_def fp_bias_def fp_of_int_def nat_bits.simps round_half_even_def fp_signed_def
  have "int_to_f64 64 = 0x4050000000000000" "int_to_f64 1000000 = 0x412E848000000000" "int_to_f64 JSDRV_TIME_SECOND = 0x41D0000000000000"
    by (simp_all add: int_to_f64_def JSDRV_TIME_SECOND_def fp)
  moreover have "f64_div 0x4050000000000000 0x412E848000000000 = 0x3F10C6F7A0B5ED8D"
    by (simp add: f64_div_def fp)
  moreover have "f64_mul 0x3F10C6F7A0B5ED8D 0x41D0000000000000 = 0x40F0C6F7A0B5ED8D"
    by (simp add: f64_mul_def fp)
  moreover have "f64_add 0x40F0C6F7A0B5ED8D 0x3FE0000000000000 = 0x40F0C6FFA0B5ED8D"
    by (simp add: f64_add_def fp)
  moreover have "f64_to_i64 0x40F0C6FFA0B5ED8D = Inr 68719"
    by (simp add: f64_to_i64_def i64_chk_def fp)
  moreover have "\<not> f64_less 0x3F10C6F7A0B5ED8D 0"
    by (simp add: f64_less_def fp)
  ultimately show ?thesis by (simp add: JSDRV_F64_TO_TIME_def)
qed

theorem jsdrv_bufsig_alloc_inv_witness:
  "\<exists>s'. jsdrv_bufsig_alloc demo_free 64 4 4 (\<lambda>_. 7) (\<lambda>_ _. entry_clear) = Some (Inr (0, s'))
    \<and> bufsig_inv 2 s' \<and> held_bits s' = [] \<and> bs_size_in_utc s' = 68719"
proof -
  have "JSDRV_F64_TO_TIME (f64_div (int_to_f64 (int 64)) (int_to_f64 (uint (hd_sample_rate (bs_hdr demo_free) div hd_decimate_factor (bs_hdr demo_free)))))
    = Inr 68719"
    using demo_duration by (simp add: demo_free_def demo_buf_def)
  moreover have "jsdrv_bufsig_element_type_is_supported (hd_element_type (bs_hdr demo_free)) (hd_element_size_bits (bs_hdr demo_free))"
    by (simp add: demo_free_def demo_buf_def jsdrv_bufsig_element_type_is_supported_def JSDRV_DATA_TYPE_FLOAT_def JSDRV_DATA_TYPE_UINT_def)
  moreover have "bs_levels demo_free = replicate JSDRV_BUFSIG_LEVELS_MAX level_zero" "bs_tmap demo_free = None" "hd_decimate_factor (bs_hdr demo_free) \<noteq> 0"
    by (simp_all add: demo_free_def jsdrv_bufsig_free_def demo_buf_def del: replicate.simps)
  moreover have "1 + 1 < JSDRV_BUFSIG_LEVELS_MAX" by (simp add: JSDRV_BUFSIG_LEVELS_MAX_def)
  ultimately have "\<exists>s'. jsdrv_bufsig_alloc demo_free 64 4 4 (\<lambda>_. 7) (\<lambda>_ _. entry_clear) = Some (Inr (0, s'))
    \<and> bufsig_inv (if 4 = (1::nat) then 1 else 1 + 1) s' \<and> held_bits s' = [] \<and> bs_hdr s' = bs_hdr demo_free \<and> bs_N s' = 64 \<and> bs_size_in_utc s' = 68719"
    by (intro jsdrv_bufsig_alloc_inv) simp_all
  then show ?thesis by (simp add: numeral_2_eq_2) blast
qed

end
