(* ===== verification/Bufreq.thy ===== *)
theory Bufreq
  imports Bufsig
begin

text \<open>
  Requests to the sample buffer of a signal (\<^verbatim>\<open>jsdrv_bufsig_process_request\<close> of
  \<^verbatim>\<open>src/buffer_signal.c\<close>): samples of a range, or a summary of a range in a number of entries.
  The data of the response is an array of bytes.
\<close>

section \<open>Data\<close>

record time_range_samples_s =
  tr_start :: u64
  tr_end :: u64
  tr_length :: u64

record time_range_utc_s =
  tu_start :: int
  tu_end :: int
  tu_length :: u64

record buffer_info_s =
  in_version :: u8
  in_field_id :: u8
  in_index :: u8
  in_element_type :: u8
  in_element_size_bits :: u8
  in_topic :: string
  in_size_in_utc :: int
  in_size_in_samples :: nat
  in_utc :: time_range_utc_s
  in_samples :: time_range_samples_s
  in_time_map :: time_map_s
  in_decimate_factor :: u32
  in_tmap :: "tmap_s option"

record buffer_response_s =
  br_version :: u8
  br_response_type :: u8
  br_rsp_id :: int
  br_info :: buffer_info_s
  br_data :: "u8 list"

text \<open>The two views of the time range of a request share their memory.\<close>

record buffer_request_s =
  rq_time_type :: int
  rq_time :: time_range_samples_s
  rq_rsp_id :: int

definition JSDRV_TIME_UTC :: int where "JSDRV_TIME_UTC = 0"
definition JSDRV_TIME_SAMPLES :: int where "JSDRV_TIME_SAMPLES = 1"
definition JSDRV_BUFFER_RESPONSE_SAMPLES :: u8 where "JSDRV_BUFFER_RESPONSE_SAMPLES = 1"
definition JSDRV_BUFFER_RESPONSE_SUMMARY :: u8 where "JSDRV_BUFFER_RESPONSE_SUMMARY = 2"

text \<open>
  262200 bytes of \<^verbatim>\<open>struct jsdrv_stream_signal_s\<close>, less 192 of the response and 64 of extra space, with 64-bit pointers.
\<close>

definition DATA_SIZE_MAX :: nat where "DATA_SIZE_MAX = 262200 - 192 - 8 * 8"
definition SUMMARY_LENGTH_MAX :: nat where "SUMMARY_LENGTH_MAX = DATA_SIZE_MAX div 16"

definition range_zero :: time_range_samples_s where "range_zero = \<lparr>tr_start = 0, tr_end = 0, tr_length = 0\<rparr>"
definition utc_zero :: time_range_utc_s where "utc_zero = \<lparr>tu_start = 0, tu_end = 0, tu_length = 0\<rparr>"

definition info_zero :: buffer_info_s where
  "info_zero = \<lparr>in_version = 0, in_field_id = 0, in_index = 0, in_element_type = 0, in_element_size_bits = 0,
     in_topic = [], in_size_in_utc = 0, in_size_in_samples = 0, in_utc = utc_zero, in_samples = range_zero,
     in_time_map = tm_zero, in_decimate_factor = 0, in_tmap = None\<rparr>"

section \<open>Time ranges\<close>

definition samples_to_utc :: "bufsig_s \<Rightarrow> time_range_samples_s \<Rightarrow> time_range_utc_s c" where
  "samples_to_utc s r =
     cbind (jsdrv_tmap_sample_id_to_timestamp (bs_tmap s) (tr_start r)) (\<lambda>(_, a).
     cbind (if tr_end r = 0 then Inr (0, 0) else jsdrv_tmap_sample_id_to_timestamp (bs_tmap s) (tr_end r)) (\<lambda>(_, b).
       Inr \<lparr>tu_start = a, tu_end = b, tu_length = tr_length r\<rparr>))"

definition utc_to_samples :: "bufsig_s \<Rightarrow> time_range_samples_s \<Rightarrow> time_range_samples_s c" where
  "utc_to_samples s r =
     cbind (jsdrv_tmap_timestamp_to_sample_id (bs_tmap s) (sint (tr_start r))) (\<lambda>(_, a).
     cbind (if tr_end r = 0 then Inr (0, 0) else jsdrv_tmap_timestamp_to_sample_id (bs_tmap s) (sint (tr_end r))) (\<lambda>(_, b).
       Inr \<lparr>tr_start = a, tr_end = b, tr_length = tr_length r\<rparr>))"

definition jsdrv_bufsig_info :: "bufsig_s \<Rightarrow> (bool \<times> buffer_info_s) c" where
  "jsdrv_bufsig_info s =
     (if hd_element_size_bits (bs_hdr s) = 0 then Inr (False, info_zero)
      else
        let r = (if bs_size s = 0 then range_zero
                 else \<lparr>tr_start = bs_sample_id_head s - of_nat (bs_size s), tr_end = bs_sample_id_head s - 1,
                       tr_length = of_nat (bs_size s)\<rparr>)
        in cbind (if bs_size s = 0 then Inr utc_zero else samples_to_utc s r) (\<lambda>utc.
           cbind (if jsdrv_tmap_length (bs_tmap s) = 0 then Inr (tm_zero, None)
                  else cbind (jsdrv_tmap_get (bs_tmap s) (jsdrv_tmap_length (bs_tmap s) - 1)) (\<lambda>(_, tm).
                       cbind (jsdrv_tmap_copy (bs_tmap s)) (\<lambda>t.
                         Inr (case tm of None \<Rightarrow> tm_zero | Some tm \<Rightarrow> tm, t)))) (\<lambda>(tm, t).
             Inr (True, \<lparr>in_version = 1, in_field_id = hd_field_id (bs_hdr s), in_index = hd_index (bs_hdr s),
               in_element_type = hd_element_type (bs_hdr s), in_element_size_bits = hd_element_size_bits (bs_hdr s),
               in_topic = take 63 (bs_topic s), in_size_in_utc = bs_size_in_utc s, in_size_in_samples = bs_N s,
               in_utc = utc, in_samples = r, in_time_map = tm, in_decimate_factor = hd_decimate_factor (bs_hdr s),
               in_tmap = t\<rparr>))))"

section \<open>Samples\<close>

definition level0_tail :: "bufsig_s \<Rightarrow> nat" where
  "level0_tail s = (if bs_size s \<noteq> bs_N s then 0 else bs_head s)"

text \<open>\<^verbatim>\<open>rsp_empty\<close> and \<^verbatim>\<open>rsp_clear\<close> have the same body.\<close>

definition rsp_empty :: "buffer_response_s \<Rightarrow> buffer_response_s" where
  "rsp_empty rsp = rsp\<lparr>br_info := (br_info rsp)\<lparr>in_samples := range_zero, in_utc := utc_zero\<rparr>\<rparr>"

definition rsp_range :: "buffer_response_s \<Rightarrow> time_range_samples_s \<Rightarrow> buffer_response_s" where
  "rsp_range rsp r = rsp\<lparr>br_info := (br_info rsp)\<lparr>in_samples := r\<rparr>\<rparr>"

primrec samples_loop :: "nat \<Rightarrow> nat \<Rightarrow> nat \<Rightarrow> nat \<Rightarrow> u8 list \<Rightarrow> nat \<Rightarrow> nat \<Rightarrow> nat \<Rightarrow> u8 list \<Rightarrow> u8 list c" where
  "samples_loop 0 N bits shift buf idx len pos out = Inl OutOfFuel"
| "samples_loop (Suc fuel) N bits shift buf idx len pos out =
     (if len = 0 then Inr out
      else
        let k = (if idx + len \<ge> N then N - idx else len);
            idx_next = (if idx + len \<ge> N then 0 else idx + len);
            copy_size = (k * bits + shift + 7) div 8
        in cbind (ent_copy out pos buf (idx * bits div 8) copy_size) (\<lambda>out.
             samples_loop fuel N bits shift buf idx_next (len - k) (pos + copy_size) out))"

text \<open>The words of 64 bits of the response.\<close>

definition u64_load :: "u8 list \<Rightarrow> nat \<Rightarrow> u64 c" where
  "u64_load b i =
     (if 8 * i + 8 \<le> length b then Inr (foldr (\<lambda>x w. push_bit 8 w OR ucast x) (take 8 (drop (8 * i) b)) 0)
      else Inl OutOfBounds)"

definition u64_store :: "u8 list \<Rightarrow> nat \<Rightarrow> u64 \<Rightarrow> u8 list c" where
  "u64_store b i w = ent_copy b (8 * i) (map (\<lambda>j. ucast (drop_bit (8 * j) w)) [0..<8]) 0 8"

function shift_loop :: "nat \<Rightarrow> nat \<Rightarrow> nat \<Rightarrow> u64 \<Rightarrow> u8 list \<Rightarrow> u8 list c" where
  "shift_loop u64_length i shift fwd p =
     (if i < u64_length then
        cbind (u64_load p i) (\<lambda>z.
        cbind (u64_store p (i - 1) (drop_bit shift fwd OR push_bit (64 - shift) z)) (\<lambda>p.
          shift_loop u64_length (i + 1) shift z p))
      else if u64_length = 0 then Inl OutOfBounds else u64_store p (u64_length - 1) (drop_bit shift fwd))"
  by pat_completeness auto
termination by (relation "measure (\<lambda>(n, i, _, _, _). n - i)") auto

declare shift_loop.simps [simp del]

definition samples_shift :: "nat \<Rightarrow> nat \<Rightarrow> nat \<Rightarrow> u8 list \<Rightarrow> u8 list c" where
  "samples_shift bits shift len p =
     (if shift = 0 then Inr p
      else cbind (u64_load p 0) (\<lambda>fwd.
        shift_loop (unat ((of_nat len * of_nat bits + of_nat shift + 63 :: u64) div 64)) 1 shift fwd p))"

text \<open>The end of \<^verbatim>\<open>samples_get\<close>: the copy of \<open>len\<close> samples from \<open>sample_id\<close> on, for the range \<open>r\<close> of the response.\<close>

definition samples_copy :: "bufsig_s \<Rightarrow> buffer_response_s \<Rightarrow> u64 \<Rightarrow> nat \<Rightarrow> time_range_samples_s \<Rightarrow> buffer_response_s c" where
  "samples_copy s rsp sample_id len r =
     (case bs_data s of None \<Rightarrow> Inl OutOfBounds | Some data \<Rightarrow>
        let bits = ebits s;
            idx = (unat (sample_id - (bs_sample_id_head s - of_nat (bs_size s))) + level0_tail s) mod bs_N s;
            shift = (if bits = 1 then idx mod 8 else if bits = 4 then 4 * (idx mod 2) else 0)
        in cbind (samples_loop (len + 1) (bs_N s) bits shift data idx len 0 (br_data rsp)) (\<lambda>out.
           cbind (samples_shift bits shift (unat (tr_length r)) out) (\<lambda>out.
           cbind (samples_to_utc s r) (\<lambda>utc.
             Inr (rsp\<lparr>br_info := (br_info rsp)\<lparr>in_samples := r, in_utc := utc\<rparr>, br_data := out\<rparr>)))))"

definition samples_get :: "bufsig_s \<Rightarrow> buffer_response_s \<Rightarrow> buffer_response_s c" where
  "samples_get s rsp =
     (let rsp = rsp\<lparr>br_response_type := JSDRV_BUFFER_RESPONSE_SAMPLES\<rparr>;
          r = in_samples (br_info rsp);
          sample_id = tr_start r;
          len = tr_length r;
          sample_id_tail = bs_sample_id_head s - of_nat (bs_size s)
      in if ebits s = 0 then Inl Undefined
         else let length_max = of_nat (DATA_SIZE_MAX * 8 div ebits s) :: u64 in
         if bs_size s = 0 then Inr (rsp_empty rsp)
         else if sample_id < sample_id_tail \<and> sample_id_tail - sample_id \<ge> len then Inr (rsp_empty rsp)
         else
           let early = sample_id < sample_id_tail;
               len = (if early then len - (sample_id_tail - sample_id) else len);
               sample_id = (if early then sample_id_tail else sample_id);
               r = (if early then r\<lparr>tr_start := sample_id, tr_length := len\<rparr> else r)
           in if sample_id \<ge> bs_sample_id_head s then Inr (rsp_empty (rsp_range rsp r))
              else
                let late = sample_id + len - 1 \<ge> bs_sample_id_head s;
                    len = (if late then bs_sample_id_head s - sample_id else len);
                    r = (if late then r\<lparr>tr_end := bs_sample_id_head s - 1\<rparr> else r);
                    long = len > length_max;
                    len = (if long then length_max else len);
                    r = (if long then r\<lparr>tr_length := len, tr_end := sample_id + len - 1\<rparr> else r)
                in samples_copy s (rsp_range rsp r) sample_id (unat len) r)"

section \<open>Summaries\<close>

definition summary_level0_get :: "bufsig_s \<Rightarrow> u64 \<Rightarrow> nat \<Rightarrow> (nat \<times> summary_entry_s) c" where
  "summary_level0_get s sample_id incr =
     (let tl = level0_tail s;
          sample_id_head = bs_sample_id_head s;
          sample_id_tail = sample_id_head - of_nat (bs_size s);
          sample_id_end = sample_id + of_nat incr
      in if incr = 0 \<or> sample_id_end \<le> sample_id_tail \<or> sample_id \<ge> sample_id_head then Inr (0, entry_clear)
         else
           let early = sample_id < sample_id_tail;
               incr = (if early then unat (of_nat incr - (sample_id_tail - sample_id) :: u64) else incr);
               sample_id = (if early then sample_id_tail else sample_id);
               incr = (if sample_id_end > sample_id_head then unat (of_nat incr - (sample_id_end - sample_id_head) :: u64) else incr)
           in if incr = 0 then Inr (0, entry_clear)
              else
                cbind (jsdrv_assert (sample_id \<ge> sample_id_tail)) (\<lambda>_.
                cbind (jsdrv_assert (sample_id + of_nat incr \<le> sample_id_head)) (\<lambda>_.
                  if bs_N s = 0 then Inl Undefined
                  else summary_level0_get_by_idx s ((tl + unat (sample_id - sample_id_tail)) mod bs_N s) incr)))"

text \<open>The level to start from: the first whose entries have more than \<open>incr\<close> samples.\<close>

function target_level :: "bufsig_level_s list \<Rightarrow> nat \<Rightarrow> nat \<Rightarrow> nat c" where
  "target_level levels incr tgt =
     (if tgt \<ge> JSDRV_BUFSIG_LEVELS_MAX then Inr tgt
      else cbind (buf_get levels tgt) (\<lambda>lvl.
        if lv_k lvl = 0 \<or> incr < lv_samples_per_entry lvl then Inr tgt else target_level levels incr (tgt + 1)))"
  by pat_completeness auto
termination by (relation "measure (\<lambda>(_, _, tgt). JSDRV_BUFSIG_LEVELS_MAX - tgt)") auto

declare target_level.simps [simp del]

text \<open>The combination of the accumulated statistics with an entry of a level.\<close>

definition combine_entry :: "bufsig_s \<Rightarrow> nat \<Rightarrow> nat \<Rightarrow> nat \<Rightarrow> statistics_accum_s \<Rightarrow> statistics_accum_s c" where
  "combine_entry s level idx k acc =
     cbind (level_entry s level idx) (\<lambda>p. cbind (entry_get s level p) (\<lambda>src.
       Inr (jsdrv_statistics_combine acc (jsdrv_statistics_from_entry src (of_nat k)))))"

text \<open>The state of the loop over the entries of the response.\<close>

record summary_state =
  sm_level :: nat
  sm_remaining :: nat
  sm_accum :: statistics_accum_s
  sm_idx :: nat
  sm_first :: bool

text \<open>The loop of the first entry that climbs from the samples to the target level.\<close>

primrec climb_loop :: "nat \<Rightarrow> bufsig_s \<Rightarrow> nat \<Rightarrow> nat \<Rightarrow> nat \<Rightarrow> summary_state \<Rightarrow> summary_state c" where
  "climb_loop 0 s tgt dn_step up_step z = Inl OutOfFuel"
| "climb_loop (Suc fuel) s tgt dn_step up_step z =
     (if sm_level z \<le> tgt then
        if dn_step = 0 \<or> up_step = 0 then Inl Undefined
        else
          let idx_dn = (sm_idx z + dn_step - 1) div dn_step;
              idx_up = (sm_idx z + up_step - 1) div up_step
          in if idx_dn * dn_step = idx_up * up_step then
               (if sm_level z + 1 \<ge> tgt then Inr (z\<lparr>sm_level := tgt\<rparr>)
                else cbind (buf_get (bs_levels s) (sm_level z)) (\<lambda>a. cbind (buf_get (bs_levels s) (sm_level z + 1)) (\<lambda>b.
                       climb_loop fuel s tgt (lv_samples_per_entry a) (lv_samples_per_entry b) (z\<lparr>sm_level := sm_level z + 1\<rparr>))))
             else if sm_remaining z < dn_step then Inr z
             else if sm_level z \<noteq> 0 then
               cbind (combine_entry s (sm_level z) idx_dn dn_step (sm_accum z)) (\<lambda>acc.
                 if bs_N s = 0 then Inl Undefined
                 else climb_loop fuel s tgt dn_step up_step
                        (z\<lparr>sm_accum := acc, sm_remaining := sm_remaining z - dn_step, sm_idx := (sm_idx z + dn_step) mod bs_N s\<rparr>))
             else Inr z
      else Inr z)"

text \<open>The first entry with samples: single samples up to the next entry of level 1, then the climb.\<close>

definition summary_first :: "bufsig_s \<Rightarrow> nat \<Rightarrow> u64 \<Rightarrow> summary_state \<Rightarrow> summary_state c" where
  "summary_first s tgt s_start z =
     cbind (buf_get (bs_levels s) 0) (\<lambda>lvl1.
       if lv_samples_per_entry lvl1 = 0 \<or> bs_N s = 0 then Inl Undefined
       else
         let idx = sm_idx z;
             aligned = (idx + lv_samples_per_entry lvl1 - 1) div lv_samples_per_entry lvl1 * lv_samples_per_entry lvl1
         in cbind (if idx \<noteq> aligned then
                     let sz0 = (if sm_remaining z < aligned - idx then sm_remaining z else aligned - idx)
                     in cbind (summary_level0_get s s_start sz0) (\<lambda>(_, e).
                          Inr (z\<lparr>sm_accum := jsdrv_statistics_from_entry e (of_nat sz0),
                                 sm_remaining := sm_remaining z - sz0, sm_idx := aligned mod bs_N s\<rparr>))
                   else Inr z) (\<lambda>z.
              climb_loop (sm_remaining z + tgt + 2) s tgt 1 (bs_r0 s) (z\<lparr>sm_first := False\<rparr>)))"

text \<open>Whole entries of the level; the accumulated statistics, the remaining samples and the next entry.\<close>

primrec whole_loop :: "nat \<Rightarrow> bufsig_s \<Rightarrow> nat \<Rightarrow> bufsig_level_s \<Rightarrow> nat \<times> nat \<times> statistics_accum_s
    \<Rightarrow> (nat \<times> nat \<times> statistics_accum_s) c" where
  "whole_loop 0 s level lvl z = Inl OutOfFuel"
| "whole_loop (Suc fuel) s level lvl z =
     (case z of (remaining, lvl_idx, acc) \<Rightarrow>
        if remaining \<ge> lv_samples_per_entry lvl then
          cbind (combine_entry s level lvl_idx (lv_samples_per_entry lvl) acc) (\<lambda>acc.
            if lv_k lvl = 0 then Inl Undefined
            else whole_loop fuel s level lvl (remaining - lv_samples_per_entry lvl, (lvl_idx + 1) mod lv_k lvl, acc))
        else Inr z)"

text \<open>The end of the last entry of the response, exact to the sample.\<close>

primrec exact_loop :: "nat \<Rightarrow> bufsig_s \<Rightarrow> u64 \<Rightarrow> nat \<Rightarrow> nat \<Rightarrow> nat \<Rightarrow> statistics_accum_s
    \<Rightarrow> (nat \<times> statistics_accum_s) c" where
  "exact_loop 0 s s_end level remaining lvl_idx acc = Inl OutOfFuel"
| "exact_loop (Suc fuel) s s_end level remaining lvl_idx acc =
     (if remaining = 0 then Inr (level, acc)
      else if level = 0 then
        cbind (summary_level0_get s (s_end - of_nat remaining) remaining) (\<lambda>(_, e).
          Inr (0, jsdrv_statistics_combine acc (jsdrv_statistics_from_entry e (of_nat remaining))))
      else cbind (buf_get (bs_levels s) (level - 1)) (\<lambda>lvl.
        if remaining < lv_samples_per_entry lvl then exact_loop fuel s s_end (level - 1) remaining (lvl_idx * lv_r lvl) acc
        else cbind (combine_entry s level lvl_idx (lv_samples_per_entry lvl) acc) (\<lambda>acc.
          if lv_k lvl = 0 then Inl Undefined
          else exact_loop fuel s s_end level (remaining - lv_samples_per_entry lvl) ((lvl_idx + 1) mod lv_k lvl) acc)))"

definition entry_bytes :: "summary_entry_s \<Rightarrow> u8 list" where
  "entry_bytes e = f32_bytes (se_avg e) @ f32_bytes (se_std e) @ f32_bytes (se_min e) @ f32_bytes (se_max e)"

definition entry_store :: "u8 list \<Rightarrow> nat \<Rightarrow> summary_entry_s \<Rightarrow> u8 list c" where
  "entry_store out i e = ent_copy out (16 * i) (entry_bytes e) 0 16"

text \<open>One entry of the response that overlaps the samples, when the target level is not the samples themselves.\<close>

definition summary_entry_get :: "bufsig_s \<Rightarrow> nat \<Rightarrow> nat \<Rightarrow> bool \<Rightarrow> u64 \<Rightarrow> u64 \<Rightarrow> summary_state
    \<Rightarrow> (summary_entry_s \<times> summary_state) c" where
  "summary_entry_get s tgt incr is_last s_start s_end z =
     (if bs_N s = 0 then Inl Undefined
      else
        let z = z\<lparr>sm_idx := unat (of_nat (bs_head s + bs_N s) - (bs_sample_id_head s - s_start)) mod bs_N s\<rparr> in
        cbind (if sm_first z then summary_first s tgt s_start z else Inr z) (\<lambda>z.
        if sm_level z = 0 then Inl OutOfBounds
        else cbind (buf_get (bs_levels s) (sm_level z - 1)) (\<lambda>lvl.
          if lv_samples_per_entry lvl = 0 then Inl Undefined
          else cbind (whole_loop (sm_remaining z + 1) s (sm_level z) lvl
                        (sm_remaining z, sm_idx z div lv_samples_per_entry lvl, sm_accum z)) (\<lambda>(remaining, lvl_idx, acc).
            if is_last then
              cbind (exact_loop (remaining + sm_level z + 2) s s_end (sm_level z) remaining lvl_idx acc) (\<lambda>(level, acc).
                Inr (jsdrv_statistics_to_entry acc, z\<lparr>sm_level := level, sm_remaining := 0, sm_accum := acc\<rparr>))
            else
              cbind (level_entry s (sm_level z) lvl_idx) (\<lambda>p. cbind (entry_get s (sm_level z) p) (\<lambda>src.
                let step = lv_samples_per_entry lvl;
                    t = jsdrv_statistics_from_entry src (of_nat step);
                    e = jsdrv_statistics_to_entry (jsdrv_statistics_combine acc (jsdrv_statistics_adjust_k t (of_nat remaining)));
                    t = jsdrv_statistics_adjust_k t (of_nat (step - remaining))
                in cbind (jsdrv_assert (incr \<ge> unat (st_k t))) (\<lambda>_.
                     Inr (e, z\<lparr>sm_accum := t, sm_remaining := incr - unat (st_k t)\<rparr>))))))))"

text \<open>The loop over the entries of the response: \<open>n\<close> entries are left.\<close>

primrec summary_loop :: "nat \<Rightarrow> bufsig_s \<Rightarrow> nat \<Rightarrow> nat \<Rightarrow> u64 \<Rightarrow> nat \<Rightarrow> summary_state \<Rightarrow> u8 list \<Rightarrow> u8 list c" where
  "summary_loop 0 s tgt incr sample_id i z out = Inr out"
| "summary_loop (Suc n) s tgt incr sample_id i z out =
     (let s_start = sample_id + of_nat (incr * i);
          s_end = s_start + of_nat incr;
          over = s_end > bs_sample_id_head s;
          dsize = (if over then unat (s_end - bs_sample_id_head s) else 0);
          z = (if over then z\<lparr>sm_remaining := (if dsize > sm_remaining z then 0 else sm_remaining z - dsize)\<rparr> else z);
          s_end = s_end - of_nat dsize
      in if s_end \<le> bs_sample_id_head s - of_nat (bs_size s) \<or> s_start \<ge> bs_sample_id_head s then
           cbind (entry_store out i entry_clear) (\<lambda>out. summary_loop n s tgt incr sample_id (i + 1) z out)
         else if tgt = 0 then
           cbind (summary_level0_get s s_start incr) (\<lambda>(_, e). cbind (entry_store out i e) (\<lambda>out.
             summary_loop n s tgt incr sample_id (i + 1) z out))
         else
           cbind (summary_entry_get s tgt incr (n = 0) s_start s_end z) (\<lambda>(e, z). cbind (entry_store out i e) (\<lambda>out.
             summary_loop n s tgt incr sample_id (i + 1) z out)))"

definition summary_get :: "bufsig_s \<Rightarrow> buffer_response_s \<Rightarrow> buffer_response_s c" where
  "summary_get s rsp =
     (let rsp = rsp\<lparr>br_response_type := JSDRV_BUFFER_RESPONSE_SUMMARY\<rparr>;
          r = in_samples (br_info rsp);
          range_req = tr_end r + 1 - tr_start r
      in if tr_length r = 0 then Inl Undefined
         else
           let incr = range_req div tr_length r
           in if incr = 0 then Inl Undefined
              else
                let entries_length = range_req div incr;
                    r = r\<lparr>tr_length := entries_length, tr_end := tr_start r + incr * entries_length - 1\<rparr>;
                    rsp = rsp_range rsp r
                in if bs_size s = 0 \<or> entries_length = 0 \<or> unat entries_length > SUMMARY_LENGTH_MAX then Inr (rsp_empty rsp)
                   else cbind (target_level (bs_levels s) (unat incr) 0) (\<lambda>tgt.
                        cbind (summary_loop (unat entries_length) s tgt (unat incr) (tr_start r) 0
                                 \<lparr>sm_level = 0, sm_remaining = unat incr, sm_accum = jsdrv_statistics_reset, sm_idx = 0, sm_first = True\<rparr>
                                 (br_data rsp)) (\<lambda>out.
                        cbind (samples_to_utc s r) (\<lambda>utc.
                          Inr (rsp\<lparr>br_info := (br_info rsp)\<lparr>in_utc := utc\<rparr>, br_data := out\<rparr>)))))"

section \<open>Requests\<close>

definition jsdrv_bufsig_process_request :: "bufsig_s \<Rightarrow> buffer_request_s \<Rightarrow> u8 list \<Rightarrow> (int \<times> buffer_response_s) c" where
  "jsdrv_bufsig_process_request s req out =
     cbind (jsdrv_bufsig_info s) (\<lambda>(ok, info).
       let rsp = \<lparr>br_version = 1, br_response_type = 0, br_rsp_id = rq_rsp_id req, br_info = info, br_data = out\<rparr>;
           t = rq_time req
       in if \<not> ok \<or> \<not> bs_active s \<or> bs_data s = None then Inr (ec UNAVAILABLE, rsp)
          else if rq_time_type req = JSDRV_TIME_SAMPLES \<and> tr_end t \<noteq> 0 \<and> tr_end t < tr_start t
            \<or> rq_time_type req = JSDRV_TIME_UTC \<and> tr_end t \<noteq> 0 \<and> sint (tr_end t) < sint (tr_start t)
          then Inr (ec PARAMETER_INVALID, rsp_empty rsp)
          else if rq_time_type req \<noteq> JSDRV_TIME_SAMPLES \<and> rq_time_type req \<noteq> JSDRV_TIME_UTC
          then Inr (ec PARAMETER_INVALID, rsp)
          else
            cbind (if rq_time_type req = JSDRV_TIME_UTC then utc_to_samples s t else Inr t) (\<lambda>r.
            cbind (samples_to_utc s r) (\<lambda>utc.
              let rsp = rsp\<lparr>br_info := info\<lparr>in_samples := r, in_utc := utc\<rparr>\<rparr>;
                  interval = tr_end r - tr_start r + 1
              in cbind (if tr_length r \<noteq> 0 \<and> tr_end r \<noteq> 0 then
                          (if tr_length r * 2 > interval then samples_get s (rsp_range rsp (r\<lparr>tr_length := interval\<rparr>))
                           else summary_get s rsp)
                        else if tr_length r \<noteq> 0 then
                          samples_get s (rsp_range rsp (r\<lparr>tr_end := tr_start r + tr_length r - 1\<rparr>))
                        else samples_get s (rsp_range rsp (r\<lparr>tr_length := interval\<rparr>))) (\<lambda>rsp.
                   Inr (0, rsp)))))"

end
