(* ===== verification/Spec2Isabelle.thy ===== *)
theory Spec2Isabelle
  imports Prelude Cstr Topic Ieee Ieee_Round Union Json Meta Pubsub Tmap Stdmsg Jtag Fwup I128 Sbuf Time Calendar Stats Bufsig Bufring Bufrecv Bufreq
begin

text \<open>
  \<^bold>\<open>Verification of the Joulescope driver.\<close>

  The driver is a C library that runs on the host and connects an application to Joulescope
  instruments over USB. An application talks to it through topics: it publishes values to topics and
  subscribes to topics, and the drivers of the instruments do the same. Below that interface sit the
  upper drivers of the instruments, which are event-driven state machines, and the USB backends.
  All paths below are relative to \<^verbatim>\<open>src/\<close> of the repository, where the C sources are under \<^verbatim>\<open>src/\<close> and the headers
  under \<^verbatim>\<open>include/\<close> and \<^verbatim>\<open>include_private/\<close>.

  \<^bold>\<open>How C is modelled.\<close> Integers keep their width: \<open>u8\<close>, \<open>u32\<close> and \<open>u64\<close> are words, \<open>size_t\<close> lengths of
  objects in memory are naturals. A C structure is a record, an enumeration a datatype. A function that may
  read or write outside of an object, fail an assertion, or run into other undefined behaviour returns \<open>Inl\<close> of a \<open>fault\<close>
  or \<open>Inr\<close> of its result (\<open>Prelude\<close>), so a theorem with \<open>Inr\<close> on the right states that this does not happen. Doubles are their bit
  patterns, with IEEE 754 arithmetic (\<open>Ieee\<close>) rounded to nearest even; \<open>Ieee_Round\<close> bounds the error of a
  rounding, a quotient and a conversion. Functions of other parts that are called back (subscribers, JSON callbacks) are
  parameters; calls into the device layer are recorded in order in a list of the state.

  \<^bold>\<open>The parts and their theories.\<close>

  \<^item> \<open>Prelude\<close>: words, faults, error codes (\<^verbatim>\<open>include/jsdrv/error_code.h\<close>), characters.
  \<^item> \<open>Cstr\<close>: the string functions of \<^verbatim>\<open>src/cstr.c\<close>. Copy and join stay inside the target buffer and truncate, except
    for the one-byte join that overflows; the number parsers give the exact value of numerals that fit, with the cases in
    which the overflow test is wrong; printing and parsing are inverse.
  \<^item> \<open>Topic\<close>: the topic buffer of \<^verbatim>\<open>src/topic.c\<close> as a refinement of joining paths, with its round trips and assertions.
  \<^item> \<open>Union\<close>: the tagged values of \<^verbatim>\<open>src/union.c\<close>: conversion between integer and floating types, equality and
    equivalence, copy of strings.
  \<^item> \<open>Json\<close>: the streaming parser of \<^verbatim>\<open>src/json.c\<close>, which calls a callback for each token. The recursion has fuel; the
    fuel of \<open>jsdrv_json_parse\<close> is computed from the length of the text and is proved to be enough. The parser stays inside the text, and
    what it accepts is one well-formed value in its tokens.
  \<^item> \<open>Meta\<close>: the metadata checks of \<^verbatim>\<open>src/meta.c\<close>, which are callbacks of the parser.
  \<^item> \<open>Pubsub\<close>: the topic tree of \<^verbatim>\<open>src/pubsub.c\<close> with subscription, publication, retained values, metadata, commands
    and the processing loop over the pending messages. Publishing reaches exactly the subscribers that want the message; messages are owned
    and released exactly once. Topics come from \<open>Topic\<close>, values from \<open>Union\<close>.
  \<^item> \<open>Tmap\<close>: the ring of time map entries of \<^verbatim>\<open>src/tmap.c\<close> refines a list of entries; both searches share the locale
    \<open>ring_search\<close>, which is interpreted for sample identifiers and for times.
  \<^item> \<open>Stdmsg\<close>: the memory transactions that the JS320 drivers exchange with the device (\<^verbatim>\<open>include_private/mb/stdmsg.h\<close>).
  \<^item> \<open>Jtag\<close>: the state machine of \<^verbatim>\<open>src/devices/js320/js320_jtag.c\<close> that burns the AES key fuses. The table of transitions, the entry
    functions and the guards are definitions; \<open>jt_reach\<close> is reachability by any sequence of handler calls, with a log of what the
    device answered. Fuses are burned only on evidence in that log, success is reported only when read back, and the machine ends.
  \<^item> \<open>Fwup\<close>: the two state machines of \<^verbatim>\<open>src/devices/js320/js320_fwup.c\<close> for controller and FPGA images. The four loops that keep the page
    pipeline full are interpretations of the locale \<open>page_sender\<close>, and the four phases that use them of \<open>page_phase\<close>; from these follow that
    pipelining does not change what the device is told, the bound on the commands in flight, and that only verified images are committed.

  \<^bold>\<open>How the parts interact.\<close> \<open>Pubsub\<close> uses \<open>Topic\<close>, \<open>Union\<close> and the string functions; \<open>Meta\<close> runs as callbacks inside \<open>Json\<close>;
  \<open>Jtag\<close> and \<open>Fwup\<close> receive commands and responses as binary values and make calls of the type \<open>call\<close> of \<open>Stdmsg\<close>. In the program these
  values travel through topics of the device.

  \<^bold>\<open>Bounds and fuel.\<close> Only \<open>Json\<close> and the loops of \<open>Tmap\<close> and \<open>Pubsub\<close> that may not end have fuel; each has a theorem
  that the fuel given by the top-level function is enough, or that a counterexample needs more than any fuel. The theorems on \<open>Fwup\<close>
  require that an image, rounded up to a whole page or block, fits in 32 bits, and that the host does not start one of
  the two jobs while the other runs, because the two share their state.

  \<^bold>\<open>Not modelled.\<close> Threads, queues and operating system calls (\<^verbatim>\<open>src/jsdrv.c\<close>, \<^verbatim>\<open>src/backend/\<close>), the USB protocol drivers of the JS110
  and JS220 and the Minibitty link (\<^verbatim>\<open>src/devices/\<close>), numerical filters and statistics, sample buffers, logging, binary metadata, the language
  bindings and the examples. Freeing of C objects is modelled only in \<open>Pubsub\<close>, where ownership of messages is the point.
  Sample buffers, the time map filter and the integer arithmetic of the JS220 are next in the plan.
\<close>

end
